(* ===== verification/Prelude.thy ===== *)
theory Prelude
  imports Main "HOL-Library.Word" "HOL-Library.List_Lexorder" "HOL-Library.Product_Lexorder"
    "HOL-Library.Sublist"
begin

text \<open>
  Shared vocabulary of the development: the machine types the Rust sources use, the few
  standard-library operations that every component calls (slice splitting, saturating and
  checked arithmetic, \<^verbatim>\<open>Option::ok_or\<close>, \<^verbatim>\<open>Result::expect\<close>), and the generic list,
  option and word lemmas the component proofs share.

  A Rust \<^verbatim>\<open>Result<T, E>\<close> is the sum \<open>'e + 'a\<close>, with \<open>Inl\<close> for \<^verbatim>\<open>Err\<close> and \<open>Inr\<close> for
  \<^verbatim>\<open>Ok\<close>. Byte strings are lists of \<open>8 word\<close>; lengths and depths (\<^verbatim>\<open>usize\<close> values that
  count elements held in memory) are \<open>nat\<close>; every other machine integer keeps its width.
\<close>

section \<open>Machine types\<close>

type_synonym byte = "8 word"
type_synonym bytes = "byte list"
type_synonym u16 = "16 word"
type_synonym u32 = "32 word"
type_synonym u64 = "64 word"

named_theorems result_simps \<open>unfoldings of the Result and Option helpers\<close>

abbreviation slash :: byte where "slash \<equiv> 47"
abbreviation dot :: byte where "dot \<equiv> 46"
abbreviation percent :: byte where "percent \<equiv> 37"

text \<open>The bytes of an ASCII string literal such as \<^verbatim>\<open>b"abc"\<close>.\<close>

definition ascii :: "string \<Rightarrow> bytes" where
  "ascii s = map of_char s"

section \<open>Options and results\<close>

definition ok_or :: "'e \<Rightarrow> 'a option \<Rightarrow> 'e + 'a" where
  [result_simps]: "ok_or e x = (case x of None \<Rightarrow> Inl e | Some v \<Rightarrow> Inr v)"

text \<open>
  \<^verbatim>\<open>Result::expect\<close> panics on an error. The model leaves that value unspecified, so nothing
  can be derived from a call that would panic; each use of \<open>expect\<close> comes with a lemma that
  the argument is an \<open>Inr\<close>.
\<close>

definition expect :: "'e + 'a \<Rightarrow> 'a" where
  "expect r = (case r of Inr v \<Rightarrow> v | Inl _ \<Rightarrow> undefined)"

lemma expect_Inr [simp]: "expect (Inr v) = v"
  by (simp add: expect_def)

definition is_ok :: "'e + 'a \<Rightarrow> bool" where
  [result_simps]: "is_ok r = (case r of Inr _ \<Rightarrow> True | Inl _ \<Rightarrow> False)"

lemma is_ok_simps [simp]: "is_ok (Inr v)" "\<not> is_ok (Inl e)"
  by (simp_all add: is_ok_def)

lemma is_ok_iff: "is_ok r \<longleftrightarrow> (\<exists>v. r = Inr v)"
  by (cases r) simp_all

lemma ok_or_Inr [simp]: "ok_or e x = Inr v \<longleftrightarrow> x = Some v"
  by (simp add: ok_or_def split: option.splits)

lemma ok_or_Inl [simp]: "ok_or e x = Inl f \<longleftrightarrow> x = None \<and> f = e"
  by (auto simp: ok_or_def split: option.splits)

section \<open>Fallible state-passing code\<close>

text \<open>
  A method body that uses the \<^verbatim>\<open>?\<close> operator: \<open>bindE\<close> stops at the first error and keeps the state
  reached so far, \<open>readE\<close> computes from the state without changing it.
\<close>

definition bindE :: "('s \<Rightarrow> ('e + 'a) \<times> 's) \<Rightarrow> ('a \<Rightarrow> 's \<Rightarrow> ('e + 'b) \<times> 's) \<Rightarrow> 's \<Rightarrow> ('e + 'b) \<times> 's" where
  "bindE m f s = (case m s of (Inl e, s') \<Rightarrow> (Inl e, s') | (Inr v, s') \<Rightarrow> f v s')"

definition readE :: "('s \<Rightarrow> 'e + 'a) \<Rightarrow> 's \<Rightarrow> ('e + 'a) \<times> 's" where
  "readE f s = (f s, s)"

definition returnE :: "'a \<Rightarrow> 's \<Rightarrow> ('e + 'a) \<times> 's" where
  "returnE v s = (Inr v, s)"

lemma bindE_Inr:
  "bindE m f s = (Inr v, s') \<longleftrightarrow> (\<exists>u t. m s = (Inr u, t) \<and> f u t = (Inr v, s'))"
  by (auto simp: bindE_def split: prod.splits sum.splits)

lemma bindE_eq_Inr [simp]: "m s = (Inr u, t) \<Longrightarrow> bindE m f s = f u t"
  by (simp add: bindE_def)

lemma bindE_eq_Inl [simp]: "m s = (Inl e, t) \<Longrightarrow> bindE m f s = (Inl e, t)"
  by (simp add: bindE_def)

lemma bindE_readE: "bindE (readE g) f s = (case g s of Inl e \<Rightarrow> (Inl e, s) | Inr v \<Rightarrow> f v s)"
  by (simp add: bindE_def readE_def)

text \<open>
  Hoare triples for fallible code: from a state with \<open>P\<close>, a success \<open>v\<close> leaves a state with \<open>Q v\<close>
  and an error one with \<open>E\<close>.
\<close>

definition triple :: "('s \<Rightarrow> bool) \<Rightarrow> ('s \<Rightarrow> ('e + 'a) \<times> 's) \<Rightarrow> ('a \<Rightarrow> 's \<Rightarrow> bool) \<Rightarrow> ('s \<Rightarrow> bool) \<Rightarrow> bool" where
  "triple P m Q E \<longleftrightarrow>
     (\<forall>s. P s \<longrightarrow> (case m s of (Inl e, s') \<Rightarrow> E s' | (Inr v, s') \<Rightarrow> Q v s'))"

lemma tripleI:
  assumes "\<And>s e s'. P s \<Longrightarrow> m s = (Inl e, s') \<Longrightarrow> E s'" "\<And>s v s'. P s \<Longrightarrow> m s = (Inr v, s') \<Longrightarrow> Q v s'"
  shows "triple P m Q E"
  using assms by (auto simp: triple_def split: prod.split sum.split)

lemma tripleD:
  assumes "triple P m Q E" "P s"
  shows "m s = (Inl e, s') \<Longrightarrow> E s'" "m s = (Inr v, s') \<Longrightarrow> Q v s'"
  using assms by (force simp: triple_def)+

lemma triple_snd:
  assumes "triple P m (\<lambda>_. E) E" "P s"
  shows "E (snd (m s))"
  using tripleD [OF assms] by (cases "m s"; cases "fst (m s)") auto

lemma triple_bindE:
  assumes "triple P m Q E" "\<And>v. triple (Q v) (f v) R E"
  shows "triple P (bindE m f) R E"
proof (rule tripleI)
  fix s e s' assume s: "P s" "bindE m f s = (Inl e, s')"
  then show "E s'"
    using tripleD [OF assms(1) s(1)] tripleD(1) [OF assms(2)]
    by (cases "m s"; cases "fst (m s)") auto
next
  fix s v s' assume s: "P s" "bindE m f s = (Inr v, s')"
  then obtain u t where "m s = (Inr u, t)" "f u t = (Inr v, s')" by (auto simp: bindE_Inr)
  then show "R v s'" using tripleD(2) [OF assms(1) s(1)] tripleD(2) [OF assms(2)] by blast
qed

lemma triple_readE:
  assumes "\<And>s e. P s \<Longrightarrow> g s = Inl e \<Longrightarrow> E s" "\<And>s v. P s \<Longrightarrow> g s = Inr v \<Longrightarrow> Q v s"
  shows "triple P (readE g) Q E"
  using assms by (intro tripleI) (auto simp: readE_def)

lemma triple_returnE: "(\<And>s. P s \<Longrightarrow> Q v s) \<Longrightarrow> triple P (returnE v) Q E"
  by (intro tripleI) (auto simp: returnE_def)

lemma triple_pure: "(F \<Longrightarrow> triple P m Q E) \<Longrightarrow> triple (\<lambda>s. P s \<and> F) m Q E"
  by (auto simp: triple_def)

section \<open>Splitting a slice at a separator\<close>

text \<open>
  \<^verbatim>\<open>slice.split(|byte| *byte == c)\<close>: the maximal runs without the separator, in order; an
  empty slice gives one empty run.
\<close>

fun split_on :: "'a \<Rightarrow> 'a list \<Rightarrow> 'a list list" where
  "split_on c [] = [[]]"
| "split_on c (x # xs) =
     (if x = c then [] # split_on c xs
      else (case split_on c xs of [] \<Rightarrow> [[x]] | p # ps \<Rightarrow> (x # p) # ps))"

lemma split_on_not_Nil [simp]: "split_on c xs \<noteq> []"
  by (cases xs) (auto split: list.splits)

lemma split_on_no_sep: "c \<notin> set xs \<Longrightarrow> split_on c xs = [xs]"
  by (induction xs) auto

lemma split_on_append_sep: "split_on c (xs @ c # ys) = split_on c xs @ split_on c ys"
  by (induction xs) (auto split: list.splits)

lemma split_on_cons_sep: "c \<notin> set xs \<Longrightarrow> split_on c (xs @ c # ys) = xs # split_on c ys"
  by (simp add: split_on_append_sep split_on_no_sep)

lemma split_on_parts: "p \<in> set (split_on c xs) \<Longrightarrow> c \<notin> set p"
proof (induction xs arbitrary: p)
  case Nil
  then show ?case by simp
next
  case (Cons x xs)
  obtain q qs where "split_on c xs = q # qs"
    by (meson list.exhaust split_on_not_Nil)
  with Cons show ?case by (fastforce split: if_splits)
qed

lemma split_on_subset: "p \<in> set (split_on c xs) \<Longrightarrow> set p \<subseteq> set xs"
proof (induction xs arbitrary: p)
  case Nil
  then show ?case by simp
next
  case (Cons x xs)
  obtain q qs where "split_on c xs = q # qs"
    by (meson list.exhaust split_on_not_Nil)
  with Cons show ?case by (fastforce split: if_splits)
qed

lemma split_on_length: "sum_list (map length (split_on c xs)) + length (split_on c xs) = Suc (length xs)"
proof (induction xs)
  case Nil
  then show ?case by simp
next
  case (Cons x xs)
  obtain q qs where "split_on c xs = q # qs"
    by (meson list.exhaust split_on_not_Nil)
  with Cons show ?case by simp
qed

text \<open>Prefixing every part with the separator gives back the slice, up to the first separator.\<close>

definition prefixed :: "'a \<Rightarrow> 'a list list \<Rightarrow> 'a list" where
  "prefixed c ps = concat (map (\<lambda>p. c # p) ps)"

lemma prefixed_simps [simp]:
  "prefixed c [] = []"
  "prefixed c (p # ps) = c # p @ prefixed c ps"
  "prefixed c (ps @ qs) = prefixed c ps @ prefixed c qs"
  by (simp_all add: prefixed_def)

lemma prefixed_Nil_iff [simp]: "prefixed c ps = [] \<longleftrightarrow> ps = []"
  by (cases ps) simp_all

lemma length_prefixed: "length (prefixed c ps) = sum_list (map (\<lambda>p. Suc (length p)) ps)"
  by (induction ps) simp_all

lemma set_prefixed: "set (prefixed c ps) = (if ps = [] then {} else insert c (\<Union> (set ` set ps)))"
  by (induction ps) auto

lemma split_on_prefixed:
  assumes "\<And>p. p \<in> set ps \<Longrightarrow> c \<notin> set p"
  shows "split_on c (xs @ prefixed c ps) = butlast (split_on c xs) @ split_on c (last (split_on c xs)) @ ps"
  using assms
proof (induction ps arbitrary: xs rule: rev_induct)
  case Nil
  have "c \<notin> set (last (split_on c xs))"
    using split_on_parts [of "last (split_on c xs)" c xs] by simp
  then show ?case by (simp add: split_on_no_sep)
next
  case (snoc p ps)
  have "split_on c (xs @ prefixed c (ps @ [p])) = split_on c (xs @ prefixed c ps) @ split_on c p"
    using split_on_append_sep [of c "xs @ prefixed c ps" p] by simp
  with snoc show ?case by (simp add: split_on_no_sep)
qed

lemma split_on_prefixed_Nil:
  "(\<And>p. p \<in> set ps \<Longrightarrow> c \<notin> set p) \<Longrightarrow> split_on c (prefixed c ps) = [] # ps"
  using split_on_prefixed [of ps c "[]"] by simp

lemma prefixed_split_on: "prefixed c (split_on c xs) = c # xs"
proof (induction xs)
  case Nil
  then show ?case by simp
next
  case (Cons x xs)
  obtain q qs where "split_on c xs = q # qs"
    by (meson list.exhaust split_on_not_Nil)
  with Cons show ?case by simp
qed

lemma prefixed_inject:
  assumes "\<And>p. p \<in> set ps \<Longrightarrow> c \<notin> set p" and "\<And>q. q \<in> set qs \<Longrightarrow> c \<notin> set q"
  shows "prefixed c ps = prefixed c qs \<longleftrightarrow> ps = qs"
  using assms split_on_prefixed_Nil by (metis list.inject)

section \<open>Prefixes of component lists\<close>

lemma prefix_same_length: "prefix xs zs \<Longrightarrow> prefix ys zs \<Longrightarrow> length xs = length ys \<Longrightarrow> xs = ys"
  by (auto simp: prefix_def append_eq_append_conv)

lemma prefix_drop_append: "prefix xs zs \<Longrightarrow> xs @ drop (length xs) zs = zs"
  by (auto simp: prefix_def)

section \<open>Ordered maps\<close>

text \<open>
  A \<^verbatim>\<open>BTreeMap\<close> is the list of its entries in key order; \<open>btree_insert\<close> is \<^verbatim>\<open>insert\<close> and
  \<open>btree_or_insert\<close> is \<^verbatim>\<open>entry(k).or_insert(v)\<close>.
\<close>

fun btree_insert :: "'k::linorder \<Rightarrow> 'v \<Rightarrow> ('k \<times> 'v) list \<Rightarrow> ('k \<times> 'v) list" where
  "btree_insert k v [] = [(k, v)]"
| "btree_insert k v ((l, u) # xs) =
     (if k < l then (k, v) # (l, u) # xs
      else if k = l then (k, v) # xs
      else (l, u) # btree_insert k v xs)"

definition btree_or_insert :: "'k::linorder \<Rightarrow> 'v \<Rightarrow> ('k \<times> 'v) list \<Rightarrow> ('k \<times> 'v) list" where
  "btree_or_insert k v xs = (if map_of xs k = None then btree_insert k v xs else xs)"

lemma map_of_btree_insert [simp]: "map_of (btree_insert k v xs) = (map_of xs)(k \<mapsto> v)"
  by (induction k v xs rule: btree_insert.induct) auto

lemma map_of_btree_or_insert [simp]:
  "map_of (btree_or_insert k v xs) = (if map_of xs k = None then (map_of xs)(k \<mapsto> v) else map_of xs)"
  by (simp add: btree_or_insert_def)

lemma fst_set_btree_insert: "fst ` set (btree_insert k v xs) = insert k (fst ` set xs)"
  by (induction k v xs rule: btree_insert.induct) auto

lemma sorted_btree_insert:
  "sorted_wrt (<) (map fst xs) \<Longrightarrow> sorted_wrt (<) (map fst (btree_insert k v xs))"
proof (induction k v xs rule: btree_insert.induct)
  case (2 k v l u xs)
  have "fst ` set (btree_insert k v xs) = insert k (fst ` set xs)" by (rule fst_set_btree_insert)
  then have "\<forall>y \<in> fst ` set (btree_insert k v xs). l < y" if "l < k" using 2(2) that by auto
  then show ?case using 2 by (auto simp: not_less_iff_gr_or_eq)
qed simp

lemma sorted_btree_or_insert:
  "sorted_wrt (<) (map fst xs) \<Longrightarrow> sorted_wrt (<) (map fst (btree_or_insert k v xs))"
  by (simp add: btree_or_insert_def sorted_btree_insert)

lemma btree_map_of:
  fixes xs :: "('k::linorder \<times> 'v) list"
  assumes "sorted_wrt (<) (map fst xs)"
  shows "(k, v) \<in> set xs \<longleftrightarrow> map_of xs k = Some v"
  using assms by (simp add: strict_sorted_iff)

lemma length_btree_insert:
  assumes "sorted_wrt (<) (map fst xs)"
  shows "length (btree_insert k v xs) = (if map_of xs k = None then Suc (length xs) else length xs)"
proof -
  have len: "length ys = card (fst ` set ys)" if "sorted_wrt (<) (map fst ys)" for ys :: "('a \<times> 'b) list"
    using that distinct_card [of "map fst ys"] by (simp add: strict_sorted_iff)
  show ?thesis
    using len [OF sorted_btree_insert [OF assms, of k v]] len [OF assms]
    by (auto simp: fst_set_btree_insert card_insert_if map_of_eq_None_iff)
qed

section \<open>Machine arithmetic\<close>

text \<open>\<^verbatim>\<open>saturating_add\<close>, \<^verbatim>\<open>saturating_sub\<close> and \<^verbatim>\<open>checked_add\<close> at any width.\<close>

definition saturating_add :: "'a::len word \<Rightarrow> 'a word \<Rightarrow> 'a word" where
  "saturating_add x y = (if x \<le> x + y then x + y else - 1)"

definition saturating_sub :: "'a::len word \<Rightarrow> 'a word \<Rightarrow> 'a word" where
  "saturating_sub x y = (if y \<le> x then x - y else 0)"

definition checked_add :: "'a::len word \<Rightarrow> 'a word \<Rightarrow> 'a word option" where
  "checked_add x y = (if x \<le> x + y then Some (x + y) else None)"

lemma unat_saturating_add:
  "unat (saturating_add x (y :: 'a::len word)) = min (unat x + unat y) (2 ^ LENGTH('a) - 1)"
proof (cases "x \<le> x + y")
  case True
  then have eq: "unat (x + y) = unat x + unat y"
    by (meson unat_plus_simple)
  moreover have "unat (x + y) < 2 ^ LENGTH('a)" by simp
  ultimately have "unat x + unat y \<le> 2 ^ LENGTH('a) - 1" by simp
  with True eq show ?thesis by (simp add: saturating_add_def)
next
  case False
  then have "2 ^ LENGTH('a) \<le> unat x + unat y"
    using no_olen_add_nat [of x y] by simp
  then have "min (unat x + unat y) (2 ^ LENGTH('a) - 1) = 2 ^ LENGTH('a) - 1"
    by (intro min.absorb2) linarith
  with False show ?thesis
    by (simp add: saturating_add_def unsigned_minus_1_eq_mask mask_eq_exp_minus_1)
qed

lemma unat_saturating_sub: "unat (saturating_sub x y) = unat x - unat y"
  by (auto simp: saturating_sub_def unat_sub word_le_nat_alt)

lemma unat_plus_one:
  assumes "x \<noteq> (- 1 :: 'a::len word)"
  shows "unat (x + 1) = unat x + 1"
proof -
  have "unat x \<noteq> 2 ^ LENGTH('a) - 1"
    using assms by (metis unsigned_minus_1_eq_mask mask_eq_exp_minus_1 unsigned_word_eqI)
  then have "unat x + 1 < 2 ^ LENGTH('a)" using unsigned_less [of x, where ?'a = nat] by linarith
  then show ?thesis by (simp add: unat_word_ariths)
qed

lemma checked_add_Some:
  "checked_add x (y :: 'a::len word) = Some z \<longleftrightarrow>
     unat x + unat y < 2 ^ LENGTH('a) \<and> z = x + y"
  using no_olen_add_nat [of x y] by (auto simp: checked_add_def split: if_splits)

lemma checked_add_None:
  "checked_add x (y :: 'a::len word) = None \<longleftrightarrow> 2 ^ LENGTH('a) \<le> unat x + unat y"
  using no_olen_add_nat [of x y] by (auto simp: checked_add_def)

definition checked_mul :: "'a::len word \<Rightarrow> 'a word \<Rightarrow> 'a word option" where
  "checked_mul x y = (if unat x * unat y < 2 ^ LENGTH('a) then Some (x * y) else None)"

lemma unat_mult_small:
  "unat x * unat y < 2 ^ LENGTH('a) \<Longrightarrow> unat (x * y :: 'a::len word) = unat x * unat y"
  by (simp add: unat_word_ariths)

text \<open>Taking a number of elements off a machine counter that has them.\<close>

lemma unat_word_of_nat_le: "k \<le> unat (n :: 'a::len word) \<Longrightarrow> unat (word_of_nat k :: 'a word) = k"
  using le_less_trans [OF _ unsigned_less [of n, where ?'a = nat]]
  by (simp add: unsigned_of_nat take_bit_nat_eq_self)

lemma unat_sub_nat: "k \<le> unat (n :: 'a::len word) \<Longrightarrow> unat (n - word_of_nat k) = unat n - k"
  by (simp add: unat_sub word_le_nat_alt unat_word_of_nat_le)

text \<open>
  \<^verbatim>\<open>str::parse\<close> for integers: an optional sign, at least one digit, nothing else and no overflow; a text
  that is not UTF-8 has a byte that is no digit.
\<close>

definition is_digit :: "byte \<Rightarrow> bool" where
  "is_digit b \<longleftrightarrow> 48 \<le> b \<and> b \<le> 57"

fun parse_digits :: "nat \<Rightarrow> nat \<Rightarrow> bytes \<Rightarrow> nat option" where
  "parse_digits bound acc [] = Some acc"
| "parse_digits bound acc (b # bs) =
     (if is_digit b then
        (let n = acc * 10 + unat (b - 48) in if n < bound then parse_digits bound n bs else None)
      else None)"

definition parse_unsigned :: "nat \<Rightarrow> bytes \<Rightarrow> nat option" where
  "parse_unsigned bound digits = (if digits = [] then None else parse_digits bound 0 digits)"

definition without_plus :: "bytes \<Rightarrow> bytes" where
  "without_plus s = (case s of b # bs \<Rightarrow> if b = 43 then bs else s | [] \<Rightarrow> [])"

definition parse_u64 :: "bytes \<Rightarrow> u64 option" where
  "parse_u64 s = map_option word_of_nat (parse_unsigned (2 ^ 64) (without_plus s))"

definition parse_i64 :: "bytes \<Rightarrow> int option" where
  "parse_i64 s =
     (case s of
        b # bs \<Rightarrow>
          if b = 45 then map_option (\<lambda>n. - int n) (parse_unsigned (2 ^ 63 + 1) bs)
          else map_option int (parse_unsigned (2 ^ 63) (without_plus s))
      | [] \<Rightarrow> None)"

lemma parse_digits_bound: "parse_digits bound acc bs = Some n \<Longrightarrow> acc < bound \<Longrightarrow> n < bound"
  by (induction bound acc bs rule: parse_digits.induct) (auto simp: Let_def split: if_splits)

section \<open>Hash maps\<close>

text \<open>
  A \<^verbatim>\<open>HashMap\<close> is an association list without repeated keys; \<^verbatim>\<open>len\<close> is its length, \<^verbatim>\<open>get\<close> is \<open>map_of\<close>.
\<close>

definition hm_remove :: "'k \<Rightarrow> ('k \<times> 'v) list \<Rightarrow> ('k \<times> 'v) list" where
  "hm_remove k m = filter (\<lambda>p. fst p \<noteq> k) m"

definition hm_insert :: "'k \<Rightarrow> 'v \<Rightarrow> ('k \<times> 'v) list \<Rightarrow> ('k \<times> 'v) list" where
  "hm_insert k v m = (k, v) # hm_remove k m"

definition hm_contains :: "'k \<Rightarrow> ('k \<times> 'v) list \<Rightarrow> bool" where
  "hm_contains k m \<longleftrightarrow> k \<in> fst ` set m"

lemma map_of_hm_remove [simp]: "map_of (hm_remove k m) = (map_of m)(k := None)"
  by (induction m) (auto simp: hm_remove_def)

lemma map_of_hm_insert [simp]: "map_of (hm_insert k v m) = (map_of m)(k \<mapsto> v)"
  by (auto simp: hm_insert_def)

lemma hm_contains_iff: "hm_contains k m \<longleftrightarrow> map_of m k \<noteq> None"
  by (simp add: hm_contains_def map_of_eq_None_iff)

lemma set_hm_remove [simp]: "set (hm_remove k m) = {p \<in> set m. fst p \<noteq> k}"
  by (auto simp: hm_remove_def)

lemma set_hm_insert [simp]: "set (hm_insert k v m) = insert (k, v) {p \<in> set m. fst p \<noteq> k}"
  by (simp add: hm_insert_def)

lemma keys_hm_remove: "fst ` set (hm_remove k m) = fst ` set m - {k}"
  by (auto simp: hm_remove_def)

lemma distinct_hm_remove: "distinct (map fst m) \<Longrightarrow> distinct (map fst (hm_remove k m))"
  by (induction m) (auto simp: hm_remove_def)

lemma distinct_hm_insert: "distinct (map fst m) \<Longrightarrow> distinct (map fst (hm_insert k v m))"
  using distinct_hm_remove [of m k] by (auto simp: hm_insert_def)

lemma length_hm_remove_le: "length (hm_remove k m) \<le> length m"
  by (simp add: hm_remove_def)

lemma hm_remove_fresh: "k \<notin> fst ` set m \<Longrightarrow> hm_remove k m = m"
  by (induction m) (auto simp: hm_remove_def)

lemma sum_list_hm_remove:
  assumes "distinct (map fst m)" "map_of m k = Some v"
  shows "sum_list (map (f \<circ> snd) m) = f v + sum_list (map ((f :: 'v \<Rightarrow> nat) \<circ> snd) (hm_remove k m))"
  using assms
proof (induction m)
  case (Cons p m)
  show ?case
  proof (cases "fst p = k")
    case True
    then have "k \<notin> fst ` set m" using Cons.prems(1) by auto
    then show ?thesis using True Cons.prems(2) hm_remove_fresh [of k m] by (auto simp: hm_remove_def)
  next
    case False
    then show ?thesis using Cons by (simp add: hm_remove_def)
  qed
qed simp

end
