(* ===== verification/Utf8.thy ===== *)
theory Utf8
  imports Prelude
begin

text \<open>
  The part of Rust's \<^verbatim>\<open>core::str\<close> the sources rely on: \<^verbatim>\<open>char::encode_utf8\<close>, the validation of
  \<^verbatim>\<open>std::str::from_utf8\<close> with the \<^verbatim>\<open>valid_up_to\<close> and \<^verbatim>\<open>error_len\<close> of its error, and
  \<^verbatim>\<open>char::is_control\<close>. A \<^verbatim>\<open>char\<close> is its scalar value, a \<open>nat\<close>; a \<^verbatim>\<open>str\<close> is the list of its
  UTF-8 bytes, for which \<open>valid_utf8\<close> is the type invariant.
\<close>

definition scalar :: "nat \<Rightarrow> bool" where
  "scalar c \<longleftrightarrow> c < 0x110000 \<and> \<not> (0xD800 \<le> c \<and> c < 0xE000)"

definition encode_utf8 :: "nat \<Rightarrow> bytes" where
  "encode_utf8 c =
     (if c < 0x80 then [of_nat c]
      else if c < 0x800 then [of_nat (0xC0 + c div 64), of_nat (0x80 + c mod 64)]
      else if c < 0x10000 then
        [of_nat (0xE0 + c div 4096), of_nat (0x80 + c div 64 mod 64), of_nat (0x80 + c mod 64)]
      else
        [of_nat (0xF0 + c div 262144), of_nat (0x80 + c div 4096 mod 64),
         of_nat (0x80 + c div 64 mod 64), of_nat (0x80 + c mod 64)])"

text \<open>
  One step of the validator at a non-empty suffix: the character found and its width, or the
  \<^verbatim>\<open>error_len\<close> of the failure (\<open>None\<close> when the input ends inside a sequence).
\<close>

datatype utf8_step = Utf8_Ok nat nat | Utf8_Err "nat option"

definition is_cont :: "byte \<Rightarrow> bool" where
  "is_cont b \<longleftrightarrow> 0x80 \<le> b \<and> b \<le> 0xBF"

definition second_of_3 :: "byte \<Rightarrow> byte \<Rightarrow> bool" where
  "second_of_3 b0 b1 \<longleftrightarrow>
     (if b0 = 0xE0 then 0xA0 \<le> b1 \<and> b1 \<le> 0xBF
      else if b0 = 0xED then 0x80 \<le> b1 \<and> b1 \<le> 0x9F
      else is_cont b1)"

definition second_of_4 :: "byte \<Rightarrow> byte \<Rightarrow> bool" where
  "second_of_4 b0 b1 \<longleftrightarrow>
     (if b0 = 0xF0 then 0x90 \<le> b1 \<and> b1 \<le> 0xBF
      else if b0 = 0xF4 then 0x80 \<le> b1 \<and> b1 \<le> 0x8F
      else is_cont b1)"

definition low6 :: "byte \<Rightarrow> nat" where
  "low6 b = unat b - 0x80"

fun utf8_first :: "bytes \<Rightarrow> utf8_step" where
  "utf8_first [] = Utf8_Err None"
| "utf8_first (b0 # rest) =
     (if b0 < 0x80 then Utf8_Ok (unat b0) 1
      else if 0xC2 \<le> b0 \<and> b0 \<le> 0xDF then
        (case rest of [] \<Rightarrow> Utf8_Err None
         | b1 # _ \<Rightarrow>
            if \<not> is_cont b1 then Utf8_Err (Some 1)
            else Utf8_Ok ((unat b0 - 0xC0) * 64 + low6 b1) 2)
      else if 0xE0 \<le> b0 \<and> b0 \<le> 0xEF then
        (case rest of [] \<Rightarrow> Utf8_Err None
         | b1 # rest1 \<Rightarrow>
            if \<not> second_of_3 b0 b1 then Utf8_Err (Some 1)
            else (case rest1 of [] \<Rightarrow> Utf8_Err None
              | b2 # _ \<Rightarrow>
                 if \<not> is_cont b2 then Utf8_Err (Some 2)
                 else Utf8_Ok ((unat b0 - 0xE0) * 4096 + low6 b1 * 64 + low6 b2) 3))
      else if 0xF0 \<le> b0 \<and> b0 \<le> 0xF4 then
        (case rest of [] \<Rightarrow> Utf8_Err None
         | b1 # rest1 \<Rightarrow>
            if \<not> second_of_4 b0 b1 then Utf8_Err (Some 1)
            else (case rest1 of [] \<Rightarrow> Utf8_Err None
              | b2 # rest2 \<Rightarrow>
                 if \<not> is_cont b2 then Utf8_Err (Some 2)
                 else (case rest2 of [] \<Rightarrow> Utf8_Err None
                   | b3 # _ \<Rightarrow>
                      if \<not> is_cont b3 then Utf8_Err (Some 3)
                      else Utf8_Ok
                        ((unat b0 - 0xF0) * 262144 + low6 b1 * 4096 + low6 b2 * 64 + low6 b3) 4)))
      else Utf8_Err (Some 1))"

section \<open>Encoding and the validator are inverse\<close>

lemmas utf8_unat_simps = word_le_nat_alt word_less_nat_alt unat_of_nat

lemma utf8_first_width:
  "utf8_first bs = Utf8_Ok c w \<Longrightarrow> 0 < w \<and> w \<le> length bs"
  by (cases bs) (auto split: if_splits list.splits)

lemma utf8_first_err:
  "utf8_first bs = Utf8_Err (Some k) \<Longrightarrow> 0 < k \<and> k \<le> length bs"
  by (cases bs) (auto split: if_splits list.splits)

lemma of_nat_byte_eqI: "n = unat (b :: byte) \<Longrightarrow> of_nat n = b"
  by simp

lemma base64_digits2:
  assumes "(y :: nat) < 64" shows "(x * 64 + y) div 64 = x" "(x * 64 + y) mod 64 = y"
  using assms by simp_all

lemma base64_digits3:
  assumes "(y :: nat) < 64" "z < 64"
  shows "(x * 4096 + y * 64 + z) div 4096 = x" "(x * 4096 + y * 64 + z) div 64 mod 64 = y"
    "(x * 4096 + y * 64 + z) mod 64 = z"
proof -
  have eq: "x * 4096 + y * 64 + z = (x * 64 + y) * 64 + z" by simp
  show "(x * 4096 + y * 64 + z) div 64 mod 64 = y" "(x * 4096 + y * 64 + z) mod 64 = z"
    using assms unfolding eq by (simp_all only: base64_digits2)
  show "(x * 4096 + y * 64 + z) div 4096 = x"
    using assms by linarith
qed

lemma base64_digits4:
  assumes "(y :: nat) < 64" "z < 64" "u < 64"
  shows "(x * 262144 + y * 4096 + z * 64 + u) div 262144 = x"
    "(x * 262144 + y * 4096 + z * 64 + u) div 4096 mod 64 = y"
    "(x * 262144 + y * 4096 + z * 64 + u) div 64 mod 64 = z"
    "(x * 262144 + y * 4096 + z * 64 + u) mod 64 = u"
proof -
  have eq: "x * 262144 + y * 4096 + z * 64 + u = ((x * 64 + y) * 64 + z) * 64 + u" by simp
  show "(x * 262144 + y * 4096 + z * 64 + u) div 64 mod 64 = z"
    "(x * 262144 + y * 4096 + z * 64 + u) mod 64 = u"
    using assms unfolding eq by (simp_all only: base64_digits2)
  have "(x * 262144 + y * 4096 + z * 64 + u) div 4096 = x * 64 + y"
    using assms by linarith
  then show "(x * 262144 + y * 4096 + z * 64 + u) div 4096 mod 64 = y"
    using assms by simp
  show "(x * 262144 + y * 4096 + z * 64 + u) div 262144 = x"
    using assms by linarith
qed

lemma base64_split3: "(c :: nat) = c div 4096 * 4096 + c div 64 mod 64 * 64 + c mod 64"
proof -
  have "c div 4096 = c div 64 div 64" by (simp add: div_mult2_eq [symmetric])
  moreover have "c = c div 64 * 64 + c mod 64" "c div 64 = c div 64 div 64 * 64 + c div 64 mod 64"
    by simp_all
  ultimately show ?thesis by linarith
qed

lemma base64_split4:
  "(c :: nat) = c div 262144 * 262144 + c div 4096 mod 64 * 4096 + c div 64 mod 64 * 64 + c mod 64"
proof -
  have "c div 262144 = c div 4096 div 64" by (simp add: div_mult2_eq [symmetric])
  moreover have "c div 4096 = c div 4096 div 64 * 64 + c div 4096 mod 64" by simp
  ultimately show ?thesis using base64_split3 [of c] by linarith
qed

lemma low6_bound: "unat b \<le> 0xBF \<Longrightarrow> low6 b < 64"
  by (simp add: low6_def)

lemma utf8_first_sound1:
  assumes "b0 < (0x80 :: byte)"
  shows "scalar (unat b0) \<and> encode_utf8 (unat b0) = [b0]"
  using assms by (auto simp: scalar_def encode_utf8_def word_less_nat_alt)

lemma utf8_first_sound2:
  assumes "0xC2 \<le> (b0 :: byte)" "b0 \<le> 0xDF" "is_cont b1"
  defines "c \<equiv> (unat b0 - 0xC0) * 64 + low6 b1"
  shows "scalar c \<and> encode_utf8 c = [b0, b1]"
proof -
  have b: "0xC2 \<le> unat b0" "unat b0 \<le> 0xDF" "0x80 \<le> unat b1" "unat b1 \<le> 0xBF"
    using assms by (simp_all add: is_cont_def word_le_nat_alt)
  then have "c div 64 = unat b0 - 0xC0" "c mod 64 = low6 b1"
    unfolding c_def by (simp_all only: base64_digits2 low6_bound)
  moreover have "0x80 \<le> c" "c < 0x800"
    using b unfolding c_def low6_def by linarith+
  ultimately show ?thesis
    using b by (auto simp: scalar_def encode_utf8_def low6_def intro!: of_nat_byte_eqI)
qed

lemma utf8_first_sound3:
  assumes "0xE0 \<le> (b0 :: byte)" "b0 \<le> 0xEF" "second_of_3 b0 b1" "is_cont b2"
  defines "c \<equiv> (unat b0 - 0xE0) * 4096 + low6 b1 * 64 + low6 b2"
  shows "scalar c \<and> encode_utf8 c = [b0, b1, b2]"
proof -
  have b: "0xE0 \<le> unat b0" "unat b0 \<le> 0xEF" "0x80 \<le> unat b1" "unat b1 \<le> 0xBF"
    "0x80 \<le> unat b2" "unat b2 \<le> 0xBF"
    and e0: "unat b0 = 0xE0 \<Longrightarrow> 0xA0 \<le> unat b1" and ed: "unat b0 = 0xED \<Longrightarrow> unat b1 \<le> 0x9F"
    using assms
    by (auto simp: is_cont_def second_of_3_def word_le_nat_alt word_unat_eq_iff split: if_splits)
  have div: "c div 4096 = unat b0 - 0xE0" "c div 64 mod 64 = low6 b1" "c mod 64 = low6 b2"
    using b unfolding c_def by (simp_all only: base64_digits3 low6_bound)
  have "0x800 \<le> c" "c < 0x10000"
    using b e0 ed unfolding c_def low6_def by linarith+
  moreover have "unat b0 = 0xED" if "0xD800 \<le> c" "c < 0xE000"
    using that b unfolding c_def low6_def by linarith
  with b ed have "\<not> (0xD800 \<le> c \<and> c < 0xE000)"
    unfolding c_def low6_def by linarith
  ultimately have "0x800 \<le> c" "c < 0x10000" "\<not> (0xD800 \<le> c \<and> c < 0xE000)" by auto
  with b div show ?thesis
    by (auto simp: scalar_def encode_utf8_def low6_def intro!: of_nat_byte_eqI)
qed

lemma utf8_first_sound4:
  assumes "0xF0 \<le> (b0 :: byte)" "b0 \<le> 0xF4" "second_of_4 b0 b1" "is_cont b2" "is_cont b3"
  defines "c \<equiv> (unat b0 - 0xF0) * 262144 + low6 b1 * 4096 + low6 b2 * 64 + low6 b3"
  shows "scalar c \<and> encode_utf8 c = [b0, b1, b2, b3]"
proof -
  have b: "0xF0 \<le> unat b0" "unat b0 \<le> 0xF4" "0x80 \<le> unat b1" "unat b1 \<le> 0xBF"
    "0x80 \<le> unat b2" "unat b2 \<le> 0xBF" "0x80 \<le> unat b3" "unat b3 \<le> 0xBF"
    and f0: "unat b0 = 0xF0 \<Longrightarrow> 0x90 \<le> unat b1" and f4: "unat b0 = 0xF4 \<Longrightarrow> unat b1 \<le> 0x8F"
    using assms
    by (auto simp: is_cont_def second_of_4_def word_le_nat_alt word_unat_eq_iff split: if_splits)
  have div: "c div 262144 = unat b0 - 0xF0" "c div 4096 mod 64 = low6 b1"
    "c div 64 mod 64 = low6 b2" "c mod 64 = low6 b3"
    using b unfolding c_def by (simp_all only: base64_digits4 low6_bound)
  have "0x10000 \<le> c" "c < 0x110000"
    using b f0 f4 unfolding c_def low6_def by linarith+
  with b div show ?thesis
    by (auto simp: scalar_def encode_utf8_def low6_def intro!: of_nat_byte_eqI)
qed

lemma utf8_first_sound:
  assumes "utf8_first bs = Utf8_Ok c w"
  shows "scalar c \<and> encode_utf8 c = take w bs"
  using assms
  by (cases bs)
    (auto split: if_splits list.splits
      dest: utf8_first_sound1 utf8_first_sound2 utf8_first_sound3 utf8_first_sound4)

lemma encode_utf8_length: "0 < length (encode_utf8 c) \<and> length (encode_utf8 c) \<le> 4"
  by (simp add: encode_utf8_def)


lemma unat_of_nat_byte: "n < 256 \<Longrightarrow> unat (of_nat n :: byte) = n"
  by (simp add: unat_of_nat)

lemma utf8_first_bytes2:
  assumes "0xC2 \<le> unat b0" "unat b0 \<le> 0xDF" "0x80 \<le> unat b1" "unat b1 \<le> 0xBF"
  shows "utf8_first (b0 # b1 # rest) = Utf8_Ok ((unat b0 - 0xC0) * 64 + low6 b1) 2"
  using assms by (simp add: is_cont_def word_le_nat_alt word_less_nat_alt)

lemma utf8_first_bytes3:
  assumes "0xE0 \<le> unat b0" "unat b0 \<le> 0xEF" "0x80 \<le> unat b1" "unat b1 \<le> 0xBF"
    and "0x80 \<le> unat b2" "unat b2 \<le> 0xBF"
    and "unat b0 = 0xE0 \<Longrightarrow> 0xA0 \<le> unat b1" "unat b0 = 0xED \<Longrightarrow> unat b1 \<le> 0x9F"
  shows "utf8_first (b0 # b1 # b2 # rest) =
    Utf8_Ok ((unat b0 - 0xE0) * 4096 + low6 b1 * 64 + low6 b2) 3"
proof -
  have "second_of_3 b0 b1"
    using assms by (auto simp: second_of_3_def is_cont_def word_le_nat_alt)
  with assms show ?thesis by (simp add: is_cont_def word_le_nat_alt word_less_nat_alt)
qed

lemma utf8_first_bytes4:
  assumes "0xF0 \<le> unat b0" "unat b0 \<le> 0xF4" "0x80 \<le> unat b1" "unat b1 \<le> 0xBF"
    and "0x80 \<le> unat b2" "unat b2 \<le> 0xBF" "0x80 \<le> unat b3" "unat b3 \<le> 0xBF"
    and "unat b0 = 0xF0 \<Longrightarrow> 0x90 \<le> unat b1" "unat b0 = 0xF4 \<Longrightarrow> unat b1 \<le> 0x8F"
  shows "utf8_first (b0 # b1 # b2 # b3 # rest) =
    Utf8_Ok ((unat b0 - 0xF0) * 262144 + low6 b1 * 4096 + low6 b2 * 64 + low6 b3) 4"
proof -
  have "second_of_4 b0 b1"
    using assms by (auto simp: second_of_4_def is_cont_def word_le_nat_alt)
  with assms show ?thesis by (simp add: is_cont_def word_le_nat_alt word_less_nat_alt)
qed

declare utf8_first.simps(2) [simp del]

lemma utf8_first_complete:
  assumes "scalar c"
  shows "utf8_first (encode_utf8 c @ rest) = Utf8_Ok c (length (encode_utf8 c))"
proof -
  consider "c < 0x80" | "0x80 \<le> c" "c < 0x800" | "0x800 \<le> c" "c < 0x10000"
    | "0x10000 \<le> c" "c < 0x110000"
    using assms unfolding scalar_def by linarith
  then show ?thesis
  proof cases
    case 1
    then show ?thesis
      by (simp add: encode_utf8_def utf8_first.simps(2) word_less_nat_alt unat_of_nat_byte)
  next
    case 2
    define b0 b1 :: byte where "b0 = of_nat (0xC0 + c div 64)" and "b1 = of_nat (0x80 + c mod 64)"
    have "2 \<le> c div 64" "c div 64 < 32" "c mod 64 < 64" using 2 by linarith+
    then have b: "unat b0 = 0xC0 + c div 64" "unat b1 = 0x80 + c mod 64"
      unfolding b0_def b1_def by (intro unat_of_nat_byte; linarith)+
    have "utf8_first (b0 # b1 # rest) = Utf8_Ok c 2"
      using \<open>2 \<le> c div 64\<close> \<open>c div 64 < 32\<close> \<open>c mod 64 < 64\<close>
      by (subst utf8_first_bytes2) (auto simp: b low6_def)
    with 2 show ?thesis by (simp add: encode_utf8_def b0_def b1_def)
  next
    case 3
    define x y z where "x = c div 4096" and "y = c div 64 mod 64" and "z = c mod 64"
    define b0 b1 b2 :: byte where "b0 = of_nat (0xE0 + x)" and "b1 = of_nat (0x80 + y)"
      and "b2 = of_nat (0x80 + z)"
    have bounds: "x < 16" "y < 64" "z < 64" using 3 by (simp_all add: x_def y_def z_def)
    have c: "c = x * 4096 + y * 64 + z" unfolding x_def y_def z_def by (rule base64_split3)
    have b: "unat b0 = 0xE0 + x" "unat b1 = 0x80 + y" "unat b2 = 0x80 + z"
      unfolding b0_def b1_def b2_def using bounds by (intro unat_of_nat_byte; linarith)+
    have x0: "x = 0 \<Longrightarrow> 32 \<le> y" using 3 c bounds by linarith
    have x13: "x = 13 \<Longrightarrow> y < 32" using assms c bounds unfolding scalar_def by linarith
    have "utf8_first (b0 # b1 # b2 # rest) = Utf8_Ok c 3"
      using bounds x0 x13 by (subst utf8_first_bytes3) (auto simp: b low6_def c)
    with 3 show ?thesis by (simp add: encode_utf8_def b0_def b1_def b2_def x_def y_def z_def)
  next
    case 4
    define x y z u where "x = c div 262144" and "y = c div 4096 mod 64"
      and "z = c div 64 mod 64" and "u = c mod 64"
    define b0 b1 b2 b3 :: byte where "b0 = of_nat (0xF0 + x)" and "b1 = of_nat (0x80 + y)"
      and "b2 = of_nat (0x80 + z)" and "b3 = of_nat (0x80 + u)"
    have bounds: "x < 5" "y < 64" "z < 64" "u < 64"
      using 4 by (simp_all add: x_def y_def z_def u_def)
    have c: "c = x * 262144 + y * 4096 + z * 64 + u"
      unfolding x_def y_def z_def u_def by (rule base64_split4)
    have b: "unat b0 = 0xF0 + x" "unat b1 = 0x80 + y" "unat b2 = 0x80 + z" "unat b3 = 0x80 + u"
      unfolding b0_def b1_def b2_def b3_def using bounds by (intro unat_of_nat_byte; linarith)+
    have x0: "x = 0 \<Longrightarrow> 16 \<le> y" using 4 c bounds by linarith
    have x4: "x = 4 \<Longrightarrow> y < 16" using 4 c bounds by linarith
    have "utf8_first (b0 # b1 # b2 # b3 # rest) = Utf8_Ok c 4"
      using bounds x0 x4 by (subst utf8_first_bytes4) (auto simp: b low6_def c)
    with 4 show ?thesis
      by (simp add: encode_utf8_def b0_def b1_def b2_def b3_def x_def y_def z_def u_def)
  qed
qed

section \<open>Validating a whole byte string\<close>

text \<open>\<open>from_utf8\<close> returns the characters, or the pair \<^verbatim>\<open>(valid_up_to, error_len)\<close>.\<close>

function from_utf8 :: "bytes \<Rightarrow> (nat \<times> nat option) + nat list" where
  "from_utf8 bs =
     (if bs = [] then Inr []
      else (case utf8_first bs of
          Utf8_Err e \<Rightarrow> Inl (0, e)
        | Utf8_Ok c w \<Rightarrow>
           (case from_utf8 (drop w bs) of
              Inl (v, e) \<Rightarrow> Inl (v + w, e)
            | Inr cs \<Rightarrow> Inr (c # cs))))"
  by pat_completeness auto
termination
  by (relation "measure length") (auto dest: utf8_first_width)

declare from_utf8.simps [simp del]

lemma from_utf8_Nil [simp]: "from_utf8 [] = Inr []"
  by (simp add: from_utf8.simps)

definition str_bytes :: "nat list \<Rightarrow> bytes" where
  "str_bytes cs = concat (map encode_utf8 cs)"

lemma str_bytes_simps [simp]:
  "str_bytes [] = []" "str_bytes (c # cs) = encode_utf8 c @ str_bytes cs"
  "str_bytes (cs @ ds) = str_bytes cs @ str_bytes ds"
  by (simp_all add: str_bytes_def)

definition valid_utf8 :: "bytes \<Rightarrow> bool" where
  "valid_utf8 bs \<longleftrightarrow> is_ok (from_utf8 bs)"

lemma from_utf8_Inr:
  "from_utf8 bs = Inr cs \<longleftrightarrow> str_bytes cs = bs \<and> (\<forall>c \<in> set cs. scalar c)"
proof (induction bs arbitrary: cs rule: from_utf8.induct)
  case (1 bs)
  show ?case
  proof (cases "bs = []")
    case True
    have "str_bytes cs = [] \<longleftrightarrow> cs = []"
      using encode_utf8_length by (cases cs) auto
    with True show ?thesis by auto
  next
    case False
    show ?thesis
    proof
      assume "from_utf8 bs = Inr cs"
      then obtain c w ds where s: "utf8_first bs = Utf8_Ok c w" "from_utf8 (drop w bs) = Inr ds" "cs = c # ds"
        using False by (auto simp: from_utf8.simps [of bs] split: utf8_step.splits sum.splits)
      with "1.IH" [OF False s(1)] have "str_bytes ds = drop w bs" "\<forall>c \<in> set ds. scalar c" by auto
      with utf8_first_sound [OF s(1)] s(3) show "str_bytes cs = bs \<and> (\<forall>c \<in> set cs. scalar c)"
        by simp
    next
      assume cs: "str_bytes cs = bs \<and> (\<forall>c \<in> set cs. scalar c)"
      with False obtain c ds where ds: "cs = c # ds" "scalar c" "bs = encode_utf8 c @ str_bytes ds"
        by (cases cs) auto
      then have s: "utf8_first bs = Utf8_Ok c (length (encode_utf8 c))"
        by (simp add: utf8_first_complete)
      with "1.IH" [OF False s, of ds] ds cs have "from_utf8 (drop (length (encode_utf8 c)) bs) = Inr ds"
        by simp
      moreover have "from_utf8 bs = (case from_utf8 (drop (length (encode_utf8 c)) bs) of
          Inl (v, e) \<Rightarrow> Inl (v + length (encode_utf8 c), e) | Inr cs \<Rightarrow> Inr (c # cs))"
        by (subst from_utf8.simps) (simp only: False s if_False utf8_step.case)
      ultimately show "from_utf8 bs = Inr cs" using ds(1) by simp
    qed
  qed
qed

lemma from_utf8_Inl:
  assumes "from_utf8 bs = Inl (v, e)"
  shows "v < length bs" and "e = Some k \<Longrightarrow> 0 < k \<and> v + k \<le> length bs"
    and "valid_utf8 (take v bs)"
proof -
  have "v < length bs \<and> (e = Some k \<longrightarrow> 0 < k \<and> v + k \<le> length bs) \<and> valid_utf8 (take v bs)"
    using assms
  proof (induction bs arbitrary: v rule: from_utf8.induct)
    case (1 bs)
    then have ne: "bs \<noteq> []" by auto
    show ?case
    proof (cases "utf8_first bs")
      case (Utf8_Err e')
      with 1 ne show ?thesis
        by (auto simp: from_utf8.simps [of bs] valid_utf8_def dest: utf8_first_err)
    next
      case (Utf8_Ok c w)
      with "1.prems" ne obtain v' where v': "from_utf8 (drop w bs) = Inl (v', e)" "v = v' + w"
        by (auto simp: from_utf8.simps [of bs] split: sum.splits)
      from "1.IH" [OF ne Utf8_Ok v'(1)] have ih: "v' < length (drop w bs)"
        "e = Some k \<longrightarrow> 0 < k \<and> v' + k \<le> length (drop w bs)" "valid_utf8 (take v' (drop w bs))"
        by auto
      from ih(3) obtain ds where ds: "str_bytes ds = take v' (drop w bs)" "\<forall>c \<in> set ds. scalar c"
        by (auto simp: valid_utf8_def is_ok_iff from_utf8_Inr)
      have "str_bytes (c # ds) = take v bs"
        using utf8_first_sound [OF Utf8_Ok] ds(1) v'(2) take_add [of w v' bs] by (simp add: add.commute)
      then have "valid_utf8 (take v bs)"
        using utf8_first_sound [OF Utf8_Ok] ds(2)
        unfolding valid_utf8_def is_ok_iff from_utf8_Inr by (metis list.set_cases set_ConsD)
      with ih utf8_first_width [OF Utf8_Ok] v'(2) show ?thesis by auto
    qed
  qed
  then show "v < length bs" "e = Some k \<Longrightarrow> 0 < k \<and> v + k \<le> length bs" "valid_utf8 (take v bs)"
    by simp_all
qed

lemma valid_utf8_iff: "valid_utf8 bs \<longleftrightarrow> (\<exists>cs. bs = str_bytes cs \<and> (\<forall>c \<in> set cs. scalar c))"
  by (auto simp: valid_utf8_def is_ok_iff from_utf8_Inr)

lemma valid_utf8_append: "valid_utf8 xs \<Longrightarrow> valid_utf8 ys \<Longrightarrow> valid_utf8 (xs @ ys)"
  unfolding valid_utf8_iff by (metis Un_iff set_append str_bytes_simps(3))

lemma valid_utf8_Nil [simp]: "valid_utf8 []"
  by (simp add: valid_utf8_def)

lemma valid_utf8_ascii: "(\<forall>b \<in> set bs. b < 0x80) \<Longrightarrow> valid_utf8 bs"
proof -
  assume "\<forall>b \<in> set bs. b < (0x80 :: byte)"
  then have "str_bytes (map unat bs) = bs \<and> (\<forall>c \<in> set (map unat bs). scalar c)"
    by (induction bs) (auto dest: utf8_first_sound1)
  then show ?thesis unfolding valid_utf8_iff by metis
qed

section \<open>Character classes\<close>

text \<open>\<^verbatim>\<open>char::is_control\<close>: the Unicode general category Cc.\<close>

definition is_control :: "nat \<Rightarrow> bool" where
  "is_control c \<longleftrightarrow> c < 32 \<or> (127 \<le> c \<and> c < 160)"

section \<open>White space\<close>

text \<open>\<^verbatim>\<open>char::is_whitespace\<close>, and \<^verbatim>\<open>str::trim\<close> followed by \<^verbatim>\<open>is_empty\<close>.\<close>

definition is_white_space :: "nat \<Rightarrow> bool" where
  "is_white_space c \<longleftrightarrow> (9 \<le> c \<and> c \<le> 13) \<or> c = 32 \<or> c = 0x85 \<or> c = 0xA0 \<or> c = 0x1680
     \<or> (0x2000 \<le> c \<and> c \<le> 0x200A) \<or> c = 0x2028 \<or> c = 0x2029 \<or> c = 0x202F \<or> c = 0x205F \<or> c = 0x3000"

function trim_is_empty :: "bytes \<Rightarrow> bool" where
  "trim_is_empty s =
     (if s = [] then True
      else case utf8_first s of
             Utf8_Ok c w \<Rightarrow> is_white_space c \<and> trim_is_empty (drop w s)
           | Utf8_Err _ \<Rightarrow> False)"
  by pat_completeness auto
termination
  by (relation "measure length") (auto dest: utf8_first_width)

declare trim_is_empty.simps [simp del]

end
