(* ===== verification/Vfs_Error.thy ===== *)
theory Vfs_Error
  imports Prelude
begin

text \<open>
  The error type every filesystem layer returns (\<^verbatim>\<open>crates/tuxstack-vfs/src/error.rs\<close>) and its
  mapping to the \<^verbatim>\<open>errno\<close> the FUSE adapter replies with. The C error numbers are kept symbolic.
\<close>

datatype vfs_error =
    NotFound
  | NotDirectory
  | IsDirectory
  | ReadOnly
  | PermissionDenied
  | InvalidInput string
  | NameTooLong
  | PathTooLong
  | InvalidEncoding
  | TooManyHandles
  | BadHandle
  | Stale
  | SymlinkLoop
  | SymlinkEscape
  | SpecialFile
  | TimedOut
  | Unsupported string
  | Unavailable string
  | Io string

type_synonym 'a vfs_result = "vfs_error + 'a"

datatype errno =
    ENOENT | ENOTDIR | EISDIR | EROFS | EACCES | EINVAL | ENAMETOOLONG | EMFILE | EBADF
  | ESTALE | ELOOP | ENXIO | ETIMEDOUT | EOPNOTSUPP | ENOTCONN | EIO | ERANGE

fun errno_of :: "vfs_error \<Rightarrow> errno" where
  "errno_of NotFound = ENOENT"
| "errno_of NotDirectory = ENOTDIR"
| "errno_of IsDirectory = EISDIR"
| "errno_of ReadOnly = EROFS"
| "errno_of PermissionDenied = EACCES"
| "errno_of (InvalidInput _) = EINVAL"
| "errno_of InvalidEncoding = EINVAL"
| "errno_of NameTooLong = ENAMETOOLONG"
| "errno_of PathTooLong = ENAMETOOLONG"
| "errno_of TooManyHandles = EMFILE"
| "errno_of BadHandle = EBADF"
| "errno_of Stale = ESTALE"
| "errno_of SymlinkLoop = ELOOP"
| "errno_of SymlinkEscape = ENXIO"
| "errno_of SpecialFile = ENXIO"
| "errno_of TimedOut = ETIMEDOUT"
| "errno_of (Unsupported _) = EOPNOTSUPP"
| "errno_of (Unavailable _) = ENOTCONN"
| "errno_of (Io _) = EIO"

text \<open>Only a read-only violation is reported as \<^verbatim>\<open>EROFS\<close>, and no error as \<^verbatim>\<open>ERANGE\<close>.\<close>

lemma errno_of_EROFS [simp]: "errno_of e = EROFS \<longleftrightarrow> e = ReadOnly"
  by (cases e) simp_all

lemma errno_of_ERANGE [simp]: "errno_of e \<noteq> ERANGE"
  by (cases e) simp_all

end
