(* ===== verification/Vfs_Path.thy ===== *)
theory Vfs_Path
  imports Vfs_Error
begin

text \<open>
  Byte-oriented file names and paths (\<^verbatim>\<open>crates/tuxstack-vfs/src/path.rs\<close>):
  \<^verbatim>\<open>VirtualFileName\<close>, \<^verbatim>\<open>VirtualPath\<close> and \<^verbatim>\<open>VirtualPathBytes\<close>. The Rust fields are private, so
  every value is built by the constructors modelled here; \<open>valid_name\<close> and \<open>wf_path\<close> are the
  type invariants those constructors establish, and under them the \<^verbatim>\<open>expect\<close> calls of
  \<^verbatim>\<open>parent\<close> and \<^verbatim>\<open>strip_prefix\<close> never fire.
\<close>

section \<open>File names\<close>

definition MAX_NAME_BYTES :: nat where "MAX_NAME_BYTES = 255"

definition DEFAULT_MAX_PATH_BYTES :: nat where "DEFAULT_MAX_PATH_BYTES = 16 * 1024"

datatype virtual_file_name = VirtualFileName (name_bytes: bytes)

definition virtual_file_name_new :: "bytes \<Rightarrow> virtual_file_name vfs_result" where
  "virtual_file_name_new bs =
     (if bs = [] then Inl (InvalidInput ''an empty name is not a component'')
      else if 0 \<in> set bs then Inl (InvalidInput ''NUL is not allowed in file names'')
      else if bs = [dot] \<or> bs = [dot, dot] then Inl (InvalidInput ''dot components are not file names'')
      else if slash \<in> set bs then Inl (InvalidInput ''slash is not allowed in a component'')
      else if length bs > MAX_NAME_BYTES then Inl NameTooLong
      else Inr (VirtualFileName bs))"

definition valid_name :: "virtual_file_name \<Rightarrow> bool" where
  "valid_name n \<longleftrightarrow>
     (let bs = name_bytes n in
        bs \<noteq> [] \<and> 0 \<notin> set bs \<and> bs \<noteq> [dot] \<and> bs \<noteq> [dot, dot] \<and> slash \<notin> set bs \<and>
        length bs \<le> MAX_NAME_BYTES)"

lemma virtual_file_name_new_Inr:
  "virtual_file_name_new bs = Inr n \<longleftrightarrow> valid_name n \<and> name_bytes n = bs"
  by (cases n) (auto simp: virtual_file_name_new_def valid_name_def Let_def)

lemma virtual_file_name_new_name_bytes [simp]:
  "valid_name n \<Longrightarrow> virtual_file_name_new (name_bytes n) = Inr n"
  by (simp add: virtual_file_name_new_Inr)

text \<open>\<^verbatim>\<open>#[derive(Ord)]\<close> on the one-field struct: the lexicographic order of the bytes.\<close>

instantiation virtual_file_name :: linorder
begin

definition less_eq_virtual_file_name :: "virtual_file_name \<Rightarrow> virtual_file_name \<Rightarrow> bool" where
  "less_eq_virtual_file_name a b \<longleftrightarrow> name_bytes a \<le> name_bytes b"

definition less_virtual_file_name :: "virtual_file_name \<Rightarrow> virtual_file_name \<Rightarrow> bool" where
  "less_virtual_file_name a b \<longleftrightarrow> name_bytes a < name_bytes b"

instance
  by standard
    (auto simp: less_eq_virtual_file_name_def less_virtual_file_name_def virtual_file_name.expand)

end

section \<open>Absolute paths\<close>

record virtual_path =
  components :: "virtual_file_name list"
  byte_len_field :: nat

definition path_root :: virtual_path where
  "path_root = \<lparr>components = [], byte_len_field = 1\<rparr>"

definition from_components :: "virtual_file_name list \<Rightarrow> virtual_path vfs_result" where
  "from_components cs =
     (let is_empty = (cs = []);
          byte_len = 1 + sum_list (map (\<lambda>item. length (name_bytes item) + 1) cs);
          byte_len' = byte_len - (if is_empty then 0 else 1)
      in if byte_len' > DEFAULT_MAX_PATH_BYTES then Inl PathTooLong
         else Inr \<lparr>components = cs, byte_len_field = byte_len'\<rparr>)"

definition is_root :: "virtual_path \<Rightarrow> bool" where
  "is_root p \<longleftrightarrow> components p = []"

definition depth :: "virtual_path \<Rightarrow> nat" where
  "depth p = length (components p)"

definition byte_len :: "virtual_path \<Rightarrow> nat" where
  "byte_len p = max (byte_len_field p) 1"

definition file_name :: "virtual_path \<Rightarrow> virtual_file_name option" where
  "file_name p = (if components p = [] then None else Some (last (components p)))"

definition path_parent :: "virtual_path \<Rightarrow> virtual_path option" where
  "path_parent p =
     (if is_root p then None
      else Some (expect (from_components (take (depth p - 1) (components p)))))"

definition path_join :: "virtual_path \<Rightarrow> virtual_file_name \<Rightarrow> virtual_path vfs_result" where
  "path_join p n = from_components (components p @ [n])"

definition path_starts_with :: "virtual_path \<Rightarrow> virtual_path \<Rightarrow> bool" where
  "path_starts_with p q \<longleftrightarrow> prefix (components q) (components p)"

definition path_strip_prefix :: "virtual_path \<Rightarrow> virtual_path \<Rightarrow> virtual_path option" where
  "path_strip_prefix p q =
     (if path_starts_with p q
      then Some (expect (from_components (drop (depth q) (components p)))) else None)"

definition path_as_bytes :: "virtual_path \<Rightarrow> bytes" where
  "path_as_bytes p =
     (if is_root p then [slash] else concat (map (\<lambda>c. slash # name_bytes c) (components p)))"

fun absolute_loop :: "virtual_path \<Rightarrow> bytes list \<Rightarrow> virtual_path vfs_result" where
  "absolute_loop p [] = Inr p"
| "absolute_loop p (raw # rest) =
     (if raw = [] \<or> raw = [dot] then absolute_loop p rest
      else if raw = [dot, dot] then
        (case path_parent p of None \<Rightarrow> Inl SymlinkEscape | Some q \<Rightarrow> absolute_loop q rest)
      else
        (case virtual_file_name_new raw of
           Inl e \<Rightarrow> Inl e
         | Inr n \<Rightarrow> (case path_join p n of Inl e \<Rightarrow> Inl e | Inr q \<Rightarrow> absolute_loop q rest)))"

definition from_absolute_with_limit :: "bytes \<Rightarrow> nat \<Rightarrow> virtual_path vfs_result" where
  "from_absolute_with_limit bs max_bytes =
     (if 0 \<in> set bs then Inl (InvalidInput ''NUL is not allowed in paths'')
      else if take 1 bs \<noteq> [slash] then Inl (InvalidInput ''VirtualPath must be absolute'')
      else if length bs > max_bytes then Inl PathTooLong
      else absolute_loop path_root (drop 1 (split_on slash bs)))"

definition from_absolute :: "bytes \<Rightarrow> virtual_path vfs_result" where
  "from_absolute bs = from_absolute_with_limit bs DEFAULT_MAX_PATH_BYTES"

section \<open>Link targets\<close>

datatype virtual_path_bytes = VirtualPathBytes (target_bytes: bytes)

definition virtual_path_bytes_new :: "bytes \<Rightarrow> virtual_path_bytes vfs_result" where
  "virtual_path_bytes_new bs =
     (if 0 \<in> set bs then Inl (InvalidInput ''NUL is not allowed in link targets'')
      else if length bs > DEFAULT_MAX_PATH_BYTES then Inl PathTooLong
      else Inr (VirtualPathBytes bs))"

definition target_is_absolute :: "virtual_path_bytes \<Rightarrow> bool" where
  "target_is_absolute t \<longleftrightarrow> take 1 (target_bytes t) = [slash]"

definition valid_target :: "virtual_path_bytes \<Rightarrow> bool" where
  "valid_target t \<longleftrightarrow> 0 \<notin> set (target_bytes t) \<and> length (target_bytes t) \<le> DEFAULT_MAX_PATH_BYTES"

lemma virtual_path_bytes_new_Inr:
  "virtual_path_bytes_new bs = Inr t \<longleftrightarrow> valid_target t \<and> target_bytes t = bs"
  by (cases t) (auto simp: virtual_path_bytes_new_def valid_target_def)

section \<open>The path invariant\<close>

text \<open>The number of bytes of a component list written out with one slash before each component.\<close>

definition encoded_len :: "virtual_file_name list \<Rightarrow> nat" where
  "encoded_len cs = sum_list (map (\<lambda>c. length (name_bytes c) + 1) cs)"

lemma encoded_len_simps [simp]:
  "encoded_len [] = 0"
  "encoded_len (c # cs) = length (name_bytes c) + 1 + encoded_len cs"
  "encoded_len (cs @ ds) = encoded_len cs + encoded_len ds"
  by (simp_all add: encoded_len_def)

definition wf_path :: "virtual_path \<Rightarrow> bool" where
  "wf_path p \<longleftrightarrow>
     (\<forall>n \<in> set (components p). valid_name n) \<and>
     byte_len_field p = max 1 (encoded_len (components p)) \<and>
     encoded_len (components p) \<le> DEFAULT_MAX_PATH_BYTES"

lemma wf_pathD:
  assumes "wf_path p"
  shows "n \<in> set (components p) \<Longrightarrow> valid_name n"
    and "byte_len_field p = max 1 (encoded_len (components p))"
    and "encoded_len (components p) \<le> DEFAULT_MAX_PATH_BYTES"
  using assms by (auto simp: wf_path_def)

lemma from_components_eq:
  "from_components cs =
     (if encoded_len cs > DEFAULT_MAX_PATH_BYTES then Inl PathTooLong
      else Inr \<lparr>components = cs, byte_len_field = max 1 (encoded_len cs)\<rparr>)"
  by (cases cs) (auto simp: from_components_def encoded_len_def DEFAULT_MAX_PATH_BYTES_def Let_def)

lemma from_components_Inr:
  "from_components cs = Inr p \<longleftrightarrow>
     encoded_len cs \<le> DEFAULT_MAX_PATH_BYTES \<and> components p = cs \<and>
     byte_len_field p = max 1 (encoded_len cs)"
  by (cases p) (auto simp: from_components_eq)

lemma from_components_wf:
  "(\<forall>n \<in> set cs. valid_name n) \<Longrightarrow> from_components cs = Inr p \<Longrightarrow> wf_path p"
  by (auto simp: from_components_Inr wf_path_def)

lemma from_components_components [simp]: "wf_path p \<Longrightarrow> from_components (components p) = Inr p"
  by (auto simp: from_components_Inr wf_path_def)

lemma wf_path_eqI: "wf_path p \<Longrightarrow> wf_path q \<Longrightarrow> components p = components q \<Longrightarrow> p = q"
  by (metis from_components_components sum.inject(2))

lemma wf_path_root [simp, intro]: "wf_path path_root"
  by (simp add: wf_path_def path_root_def DEFAULT_MAX_PATH_BYTES_def)

lemma components_path_root [simp]: "components path_root = []"
  by (simp add: path_root_def)

lemma is_root_wf: "wf_path p \<Longrightarrow> is_root p \<longleftrightarrow> p = path_root"
  by (metis components_path_root is_root_def wf_path_eqI wf_path_root)

lemma encoded_len_take: "encoded_len (take k cs) \<le> encoded_len cs"
  by (metis append_take_drop_id encoded_len_simps(3) le_add1)

lemma encoded_len_drop: "encoded_len (drop k cs) \<le> encoded_len cs"
  by (metis append_take_drop_id encoded_len_simps(3) le_add2)

lemma encoded_len_prefix: "prefix cs ds \<Longrightarrow> encoded_len cs \<le> encoded_len ds"
  by (auto simp: prefix_def)

text \<open>
  The \<^verbatim>\<open>expect\<close> in \<^verbatim>\<open>parent\<close> and in \<^verbatim>\<open>strip_prefix\<close> is applied to an \<open>Inr\<close>: dropping
  components of a well-formed path cannot exceed the length bound.
\<close>

lemma parent_no_panic: "wf_path p \<Longrightarrow> is_ok (from_components (take k (components p)))"
  using encoded_len_take [of k "components p"] wf_pathD(3) [of p]
  by (auto simp: from_components_eq)

lemma strip_prefix_no_panic: "wf_path p \<Longrightarrow> is_ok (from_components (drop k (components p)))"
  using encoded_len_drop [of k "components p"] wf_pathD(3) [of p]
  by (auto simp: from_components_eq)

lemma wf_path_take:
  assumes "wf_path p" obtains q where "from_components (take k (components p)) = Inr q"
    "wf_path q" "components q = take k (components p)"
  using parent_no_panic [OF assms, of k] from_components_wf wf_pathD(1) [OF assms]
  by (metis from_components_Inr in_set_takeD is_ok_iff)

lemma wf_path_drop:
  assumes "wf_path p" obtains q where "from_components (drop k (components p)) = Inr q"
    "wf_path q" "components q = drop k (components p)"
  using strip_prefix_no_panic [OF assms, of k] from_components_wf wf_pathD(1) [OF assms]
  by (metis from_components_Inr in_set_dropD is_ok_iff)

lemma path_parent_None: "path_parent p = None \<longleftrightarrow> is_root p"
  by (simp add: path_parent_def)

lemma path_parent_Some:
  assumes "wf_path p"
  shows "path_parent p = Some q \<longleftrightarrow>
    components p \<noteq> [] \<and> wf_path q \<and> components q = butlast (components p)"
proof -
  obtain r where r: "from_components (take (depth p - 1) (components p)) = Inr r" "wf_path r"
    "components r = take (depth p - 1) (components p)"
    using wf_path_take [OF assms] by blast
  then have "components r = butlast (components p)"
    by (simp add: butlast_conv_take depth_def)
  with r show ?thesis
    by (auto simp: path_parent_def is_root_def intro: wf_path_eqI)
qed

lemma path_parent_wf: "wf_path p \<Longrightarrow> path_parent p = Some q \<Longrightarrow> wf_path q"
  by (simp add: path_parent_Some)

lemma path_join_Inr:
  "path_join p n = Inr q \<longleftrightarrow>
     encoded_len (components p @ [n]) \<le> DEFAULT_MAX_PATH_BYTES \<and>
     components q = components p @ [n] \<and> byte_len_field q = max 1 (encoded_len (components p @ [n]))"
  by (simp add: path_join_def from_components_Inr)

lemma path_join_wf: "wf_path p \<Longrightarrow> valid_name n \<Longrightarrow> path_join p n = Inr q \<Longrightarrow> wf_path q"
  by (auto simp: path_join_Inr wf_path_def)

lemma path_join_components: "path_join p n = Inr q \<Longrightarrow> components q = components p @ [n]"
  by (simp add: path_join_Inr)

lemma path_join_error: "path_join p n = Inl e \<Longrightarrow> e = PathTooLong"
  by (auto simp: path_join_def from_components_eq split: if_splits)

lemma path_strip_prefix_Some:
  assumes "wf_path p"
  shows "path_strip_prefix p q = Some r \<longleftrightarrow> wf_path r \<and> components p = components q @ components r"
proof -
  obtain d where d: "from_components (drop (depth q) (components p)) = Inr d" "wf_path d"
    "components d = drop (depth q) (components p)"
    using wf_path_drop [OF assms] by blast
  then show ?thesis
    by (auto simp: path_strip_prefix_def path_starts_with_def depth_def prefix_def
        intro: wf_path_eqI)
qed


section \<open>Writing a path out and parsing it back\<close>

abbreviation component_bytes :: "virtual_path \<Rightarrow> bytes list" where
  "component_bytes p \<equiv> map name_bytes (components p)"

lemma path_as_bytes_prefixed:
  "path_as_bytes p = (if is_root p then [slash] else prefixed slash (component_bytes p))"
  by (simp add: path_as_bytes_def prefixed_def comp_def)

lemma length_path_as_bytes:
  assumes "wf_path p"
  shows "length (path_as_bytes p) = byte_len p"
proof -
  have "length (prefixed slash (component_bytes p)) = encoded_len (components p)"
    by (simp add: length_prefixed encoded_len_def comp_def)
  moreover have "components p \<noteq> [] \<Longrightarrow> 1 \<le> encoded_len (components p)"
    by (cases "components p") simp_all
  ultimately show ?thesis
    using assms by (auto simp: path_as_bytes_prefixed byte_len_def is_root_def wf_path_def)
qed

lemma byte_len_bound: "wf_path p \<Longrightarrow> byte_len p \<le> DEFAULT_MAX_PATH_BYTES"
  by (auto simp: byte_len_def wf_path_def DEFAULT_MAX_PATH_BYTES_def)

lemma valid_nameD:
  assumes "valid_name n"
  shows "name_bytes n \<noteq> []" "0 \<notin> set (name_bytes n)" "name_bytes n \<noteq> [dot]"
    "name_bytes n \<noteq> [dot, dot]" "slash \<notin> set (name_bytes n)" "length (name_bytes n) \<le> MAX_NAME_BYTES"
  using assms by (auto simp: valid_name_def Let_def)

lemma valid_name_iff:
  "valid_name (VirtualFileName r) \<longleftrightarrow>
     r \<noteq> [] \<and> 0 \<notin> set r \<and> r \<noteq> [dot] \<and> r \<noteq> [dot, dot] \<and> slash \<notin> set r \<and> length r \<le> MAX_NAME_BYTES"
  by (simp add: valid_name_def)

lemma map_name_bytes_inject [simp]: "map name_bytes cs = map name_bytes ds \<longleftrightarrow> cs = ds"
  by (rule inj_map_eq_map) (auto intro!: injI virtual_file_name.expand)

lemma component_bytes_inject:
  "wf_path p \<Longrightarrow> wf_path q \<Longrightarrow> component_bytes p = component_bytes q \<Longrightarrow> p = q"
  by (simp add: wf_path_eqI)

lemma split_path_as_bytes:
  assumes "wf_path p"
  shows "split_on slash (path_as_bytes p) = [] # (if is_root p then [[]] else component_bytes p)"
proof (cases "is_root p")
  case True
  then show ?thesis by (simp add: path_as_bytes_prefixed)
next
  case False
  have "slash \<notin> set r" if "r \<in> set (component_bytes p)" for r
    using that assms valid_nameD(5) wf_pathD(1) by auto
  then have "split_on slash (prefixed slash (component_bytes p)) = [] # component_bytes p"
    by (rule split_on_prefixed_Nil)
  with False show ?thesis by (simp add: path_as_bytes_prefixed)
qed

subsection \<open>Lexical resolution\<close>

text \<open>
  The specification shared by every path parser of the sources: walk the raw components over a
  stack of names, skipping empty components and single dots, popping at a double dot and
  failing when there is nothing to pop.
\<close>

fun lex_resolve :: "bytes list \<Rightarrow> bytes list \<Rightarrow> bytes list option" where
  "lex_resolve st [] = Some st"
| "lex_resolve st (r # rs) =
     (if r = [] \<or> r = [dot] then lex_resolve st rs
      else if r = [dot, dot] then (if st = [] then None else lex_resolve (butlast st) rs)
      else lex_resolve (st @ [r]) rs)"

lemma lex_resolve_append:
  "lex_resolve st (rs @ qs) =
     (case lex_resolve st rs of None \<Rightarrow> None | Some st' \<Rightarrow> lex_resolve st' qs)"
  by (induction rs arbitrary: st) auto

lemma lex_resolve_plain:
  "(\<And>r. r \<in> set rs \<Longrightarrow> r \<noteq> [] \<and> r \<noteq> [dot] \<and> r \<noteq> [dot, dot]) \<Longrightarrow> lex_resolve st rs = Some (st @ rs)"
  by (induction rs arbitrary: st) auto

lemma lex_resolve_ups:
  "lex_resolve st (replicate k [dot, dot]) = (if k \<le> length st then Some (take (length st - k) st) else None)"
proof (induction k arbitrary: st)
  case 0
  then show ?case by simp
next
  case (Suc k)
  have "take (length st - Suc k) (butlast st) = take (length st - Suc k) st" if "Suc k \<le> length st"
    using that by (simp add: butlast_conv_take)
  moreover have "k \<le> length st - Suc 0 \<longleftrightarrow> Suc k \<le> length st" if "st \<noteq> []"
    using that by (cases st) auto
  ultimately show ?case
    using Suc [of "butlast st"] by auto
qed

lemma lex_resolve_set:
  "lex_resolve st rs = Some st' \<Longrightarrow>
     set st' \<subseteq> set st \<union> {r \<in> set rs. r \<noteq> [] \<and> r \<noteq> [dot] \<and> r \<noteq> [dot, dot]}"
proof (induction st rs rule: lex_resolve.induct)
  case (1 st)
  then show ?case by simp
next
  case (2 st r rs)
  consider "r = [] \<or> r = [dot]" | "r = [dot, dot]" "st \<noteq> []" | "r \<noteq> []" "r \<noteq> [dot]" "r \<noteq> [dot, dot]"
    using "2.prems" by force
  then show ?case
  proof cases
    case 1
    with 2 show ?thesis by auto
  next
    case c: 2
    with 2 have "set st' \<subseteq> set (butlast st) \<union> {r \<in> set rs. r \<noteq> [] \<and> r \<noteq> [dot] \<and> r \<noteq> [dot, dot]}" by simp
    then show ?thesis by (auto dest: in_set_butlastD)
  next
    case 3
    with 2 show ?thesis by auto
  qed
qed

text \<open>The bytes a list of raw components can add to a path.\<close>

definition raw_len :: "bytes list \<Rightarrow> nat" where
  "raw_len rs = sum_list (map (\<lambda>r. length r + 1) rs)"

lemma raw_len_simps [simp]: "raw_len [] = 0" "raw_len (r # rs) = length r + 1 + raw_len rs"
  by (simp_all add: raw_len_def)

lemma raw_len_split: "raw_len (split_on c xs) = Suc (length xs)"
  using split_on_length [of c xs] by (simp add: raw_len_def sum_list_Suc)

lemma absolute_loop_iff:
  assumes "wf_path p"
    and "\<forall>r \<in> set rs. 0 \<notin> set r \<and> slash \<notin> set r"
    and "encoded_len (components p) + raw_len rs \<le> DEFAULT_MAX_PATH_BYTES"
  shows "absolute_loop p rs = Inr q \<longleftrightarrow>
    wf_path q \<and> (\<forall>r \<in> set rs. length r \<le> MAX_NAME_BYTES) \<and>
    lex_resolve (component_bytes p) rs = Some (component_bytes q)"
  using assms
proof (induction p rs rule: absolute_loop.induct)
  case (1 p)
  then show ?case by (auto intro: component_bytes_inject)
next
  case (2 p r rs)
  consider "r = [] \<or> r = [dot]" | "r = [dot, dot]" | "r \<noteq> []" "r \<noteq> [dot]" "r \<noteq> [dot, dot]"
    by blast
  then show ?case
  proof cases
    case 1
    with 2 show ?thesis by (auto simp: MAX_NAME_BYTES_def)
  next
    case dd: 2
    show ?thesis
    proof (cases "path_parent p")
      case None
      moreover from this have "components p = []" by (simp add: path_parent_None is_root_def)
      ultimately show ?thesis using dd by simp
    next
      case (Some q)
      then have q: "wf_path q" "components p \<noteq> []" "components q = butlast (components p)"
        using "2.prems"(1) by (auto simp: path_parent_Some)
      then have "encoded_len (components q) \<le> encoded_len (components p)"
        by (simp add: butlast_conv_take encoded_len_take)
      with q "2.prems" have "encoded_len (components q) + raw_len rs \<le> DEFAULT_MAX_PATH_BYTES" by simp
      with 2 dd Some q show ?thesis
        by (auto simp: map_butlast MAX_NAME_BYTES_def)
    qed
  next
    case 3
    show ?thesis
    proof (cases "length r \<le> MAX_NAME_BYTES")
      case False
      with 3 "2.prems" show ?thesis by (simp add: virtual_file_name_new_def)
    next
      case True
      with 3 "2.prems"(2) have n: "virtual_file_name_new r = Inr (VirtualFileName r)"
        "valid_name (VirtualFileName r)"
        by (simp_all add: virtual_file_name_new_Inr valid_name_iff)
      obtain q' where q': "path_join p (VirtualFileName r) = Inr q'"
        using "2.prems"(3) by (auto simp: path_join_def from_components_eq)
      then have "wf_path q'" "components q' = components p @ [VirtualFileName r]"
        using n(2) "2.prems"(1) path_join_wf path_join_components by blast+
      with 2 3 n q' True show ?thesis by simp
    qed
  qed
qed

lemma from_absolute_with_limit_iff:
  assumes "max_bytes \<le> DEFAULT_MAX_PATH_BYTES"
  shows "from_absolute_with_limit bs max_bytes = Inr p \<longleftrightarrow>
    0 \<notin> set bs \<and> take 1 bs = [slash] \<and> length bs \<le> max_bytes \<and> wf_path p \<and>
    (\<forall>r \<in> set (split_on slash bs). length r \<le> MAX_NAME_BYTES) \<and>
    lex_resolve [] (split_on slash bs) = Some (component_bytes p)"
proof (cases "0 \<notin> set bs \<and> take 1 bs = [slash] \<and> length bs \<le> max_bytes")
  case False
  then show ?thesis by (auto simp: from_absolute_with_limit_def)
next
  case True
  then obtain cs where bs: "bs = slash # cs" by (cases bs) auto
  have parts: "\<forall>r \<in> set (split_on slash cs). 0 \<notin> set r \<and> slash \<notin> set r"
    using True bs split_on_parts [of _ slash cs] split_on_subset [of _ slash cs] by fastforce
  have "encoded_len (components path_root) + raw_len (split_on slash cs) \<le> DEFAULT_MAX_PATH_BYTES"
    using True assms bs by (simp add: raw_len_split)
  from absolute_loop_iff [OF wf_path_root parts this, of p] True bs show ?thesis
    by (auto simp: from_absolute_with_limit_def)
qed

lemma absolute_loop_wf:
  "wf_path p \<Longrightarrow> absolute_loop p rs = Inr q \<Longrightarrow> wf_path q"
  by (induction p rs rule: absolute_loop.induct)
    (auto split: if_splits option.splits sum.splits
      simp: virtual_file_name_new_Inr dest: path_parent_wf path_join_wf)

lemma from_absolute_with_limit_wf: "from_absolute_with_limit bs k = Inr p \<Longrightarrow> wf_path p"
  by (auto simp: from_absolute_with_limit_def split: if_splits dest: absolute_loop_wf [OF wf_path_root])

lemma from_absolute_wf: "from_absolute bs = Inr p \<Longrightarrow> wf_path p"
  by (simp add: from_absolute_def from_absolute_with_limit_wf)

lemma from_absolute_path_as_bytes [simp]:
  assumes "wf_path p"
  shows "from_absolute (path_as_bytes p) = Inr p"
proof -
  have names: "valid_name n" if "n \<in> set (components p)" for n
    using assms that by (rule wf_pathD)
  have "0 \<notin> set (path_as_bytes p)"
    using valid_nameD(2) [OF names] by (auto simp: path_as_bytes_prefixed set_prefixed)
  moreover have "take 1 (path_as_bytes p) = [slash]"
    by (cases "components p") (auto simp: path_as_bytes_prefixed is_root_def)
  moreover have "length (path_as_bytes p) \<le> DEFAULT_MAX_PATH_BYTES"
    using assms by (simp add: length_path_as_bytes byte_len_bound)
  moreover have "\<forall>r \<in> set (split_on slash (path_as_bytes p)). length r \<le> MAX_NAME_BYTES"
    using valid_nameD(6) [OF names] by (auto simp: split_path_as_bytes [OF assms])
  moreover have "lex_resolve [] (component_bytes p) = Some (component_bytes p)"
    using lex_resolve_plain [of "component_bytes p" "[]"] valid_nameD [OF names] by fastforce
  then have "lex_resolve [] (split_on slash (path_as_bytes p)) = Some (component_bytes p)"
    by (auto simp: split_path_as_bytes [OF assms] is_root_def)
  ultimately show ?thesis
    using assms by (simp add: from_absolute_def from_absolute_with_limit_iff)
qed

lemma path_as_bytes_inject: "wf_path p \<Longrightarrow> wf_path q \<Longrightarrow> path_as_bytes p = path_as_bytes q \<Longrightarrow> p = q"
  by (metis from_absolute_path_as_bytes sum.inject(2))

section \<open>Properties\<close>

text \<open>
  C11. Parsing an absolute path succeeds exactly for NUL-free input that starts with a slash, fits
  the limit, has no over-long component and never climbs above the root; the result is the
  well-formed path whose components are the lexical resolution of the input's parts.
\<close>

theorem from_absolute_resolves:
  "from_absolute bs = Inr p \<longleftrightarrow>
     0 \<notin> set bs \<and> take 1 bs = [slash] \<and> length bs \<le> DEFAULT_MAX_PATH_BYTES \<and> wf_path p \<and>
     list_all (\<lambda>r. length r \<le> MAX_NAME_BYTES) (split_on slash bs) \<and>
     lex_resolve [] (split_on slash bs) = Some (component_bytes p)"
  using from_absolute_with_limit_iff [of DEFAULT_MAX_PATH_BYTES bs p]
  by (simp add: from_absolute_def list_all_iff)

text \<open>Every well-formed path is parsed back from the bytes it is written as.\<close>

theorem path_roundtrip:
  assumes "wf_path p"
  shows "from_absolute (path_as_bytes p) = Inr p"
  using assms by (rule from_absolute_path_as_bytes)

definition path_ab :: virtual_path where
  "path_ab = \<lparr>components = [VirtualFileName [97], VirtualFileName [98]], byte_len_field = 4\<rparr>"

lemma wf_path_ab [simp]: "wf_path path_ab"
  by (simp add: path_ab_def wf_path_def valid_name_def encoded_len_def Let_def MAX_NAME_BYTES_def
      DEFAULT_MAX_PATH_BYTES_def)

theorem path_roundtrip_witness:
  "wf_path path_ab \<and> from_absolute (path_as_bytes path_ab) = Inr path_ab"
  using path_roundtrip [of path_ab] by simp

text \<open>
  Joining a valid name to a path gives a well-formed path whose parent is the path, whose last
  component is the name and which lies below the path; no \<^verbatim>\<open>expect\<close> is reached with an error.
\<close>

theorem join_then_parent:
  assumes "wf_path p" "valid_name n" "path_join p n = Inr q"
  shows "wf_path q \<and> path_parent q = Some p \<and> file_name q = Some n \<and> path_starts_with q p \<and>
    depth q = depth p + 1 \<and> map_option components (path_strip_prefix q p) = Some [n]"
proof -
  have q: "wf_path q" "components q = components p @ [n]"
    using assms by (auto intro: path_join_wf path_join_components)
  obtain r where "path_strip_prefix q p = Some r"
    using q by (auto simp: path_strip_prefix_def path_starts_with_def)
  then have "map_option components (path_strip_prefix q p) = Some [n]"
    using q path_strip_prefix_Some [OF q(1), of p r] by simp
  with q assms(1) show ?thesis
    by (simp add: path_parent_Some file_name_def path_starts_with_def depth_def)
qed

theorem join_then_parent_witness:
  "path_join path_ab (VirtualFileName [99]) =
     Inr \<lparr>components = [VirtualFileName [97], VirtualFileName [98], VirtualFileName [99]], byte_len_field = 6\<rparr> \<and>
   path_parent \<lparr>components = [VirtualFileName [97], VirtualFileName [98], VirtualFileName [99]], byte_len_field = 6\<rparr> =
     Some path_ab"
proof -
  have j: "path_join path_ab (VirtualFileName [99]) =
     Inr \<lparr>components = [VirtualFileName [97], VirtualFileName [98], VirtualFileName [99]], byte_len_field = 6\<rparr>"
    by (simp add: path_join_def from_components_def path_ab_def DEFAULT_MAX_PATH_BYTES_def)
  then show ?thesis
    using join_then_parent [OF wf_path_ab _ j] by (simp add: valid_name_def Let_def MAX_NAME_BYTES_def)
qed

end
