(* ===== verification/Name_Codec.thy ===== *)
theory Name_Codec
  imports Utf8 Vfs_Path
begin

unbundle bit_operations_syntax

text \<open>
  \<^verbatim>\<open>FuseNameCodec\<close> (\<^verbatim>\<open>crates/tuxstack-vfs/src/path.rs\<close>): the reversible percent-encoding that turns
  an arbitrary Docker name into a UTF-8 file name, its decoder, and the FNV-1a collision suffix.
  A Rust \<^verbatim>\<open>String\<close> is the list of its UTF-8 bytes.
\<close>

section \<open>Percent-encoding\<close>

definition is_safe :: "nat \<Rightarrow> bool" where
  "is_safe c \<longleftrightarrow> \<not> is_control c \<and> c \<notin> {47, 58, 64, 37, 92}"

definition HEX :: bytes where
  "HEX = ascii ''0123456789ABCDEF''"

definition push_percent :: "byte \<Rightarrow> bytes" where
  "push_percent b = [percent, HEX ! unat (drop_bit 4 b), HEX ! unat (b AND 0x0F)]"

definition encode_char :: "nat \<Rightarrow> bytes" where
  "encode_char c =
     (if is_safe c then encode_utf8 c else concat (map push_percent (encode_utf8 c)))"

definition encode_unicode :: "nat list \<Rightarrow> bytes" where
  "encode_unicode text = concat (map encode_char text)"

function encode_loop :: "bytes \<Rightarrow> bytes" where
  "encode_loop name =
     (if name = [] then []
      else (case from_utf8 name of
          Inr text \<Rightarrow> encode_unicode text
        | Inl (valid_up_to, error_len) \<Rightarrow>
           (let valid =
                  (if valid_up_to > 0 then encode_unicode (expect (from_utf8 (take valid_up_to name)))
                   else []);
                invalid_len =
                  (case error_len of Some k \<Rightarrow> k | None \<Rightarrow> length name - valid_up_to)
            in valid @ concat (map push_percent (take invalid_len (drop valid_up_to name))) @
               encode_loop (drop (valid_up_to + invalid_len) name))))"
  by pat_completeness auto
termination
proof (relation "measure length")
  fix name :: bytes and r v e valid invalid_len
  assume "name \<noteq> []" "from_utf8 name = Inl r" "(v, e) = r"
    and "invalid_len = (case e of Some k \<Rightarrow> k | None \<Rightarrow> length name - v)"
  then show "(drop (v + invalid_len) name, name) \<in> measure length"
    using from_utf8_Inl(1,2) [of name v e] by (auto split: option.splits)
qed simp

declare encode_loop.simps [simp del]

definition codec_encode :: "bytes \<Rightarrow> bytes vfs_result" where
  "codec_encode name =
     (if 0 \<in> set name then Inl (InvalidInput ''NUL is not encodable'')
      else if name = [dot] then Inr (ascii ''%2E'')
      else if name = [dot, dot] then Inr (ascii ''%2E%2E'')
      else Inr (encode_loop name))"

section \<open>Decoding\<close>

definition hex :: "byte \<Rightarrow> byte option" where
  "hex b =
     (if 48 \<le> b \<and> b \<le> 57 then Some (b - 48)
      else if 97 \<le> b \<and> b \<le> 102 then Some (b - 97 + 10)
      else if 65 \<le> b \<and> b \<le> 70 then Some (b - 65 + 10)
      else None)"

function codec_decode :: "bytes \<Rightarrow> bytes vfs_result" where
  "codec_decode encoded =
     (if encoded = [] then Inr []
      else if hd encoded = percent then
        (if 2 \<ge> length encoded then Inl InvalidEncoding
         else (case hex (encoded ! 1) of
            None \<Rightarrow> Inl InvalidEncoding
          | Some high \<Rightarrow>
             (case hex (encoded ! 2) of
                None \<Rightarrow> Inl InvalidEncoding
              | Some low \<Rightarrow>
                 (let b = push_bit 4 high OR low
                  in if b = 0 then Inl (InvalidInput ''decoded NUL is not allowed'')
                     else (case codec_decode (drop 3 encoded) of
                         Inl e \<Rightarrow> Inl e
                       | Inr rest \<Rightarrow> Inr (b # rest))))))
      else (case utf8_first encoded of
          Utf8_Err _ \<Rightarrow> Inl InvalidEncoding
        | Utf8_Ok c w \<Rightarrow>
           (case codec_decode (drop w encoded) of
              Inl e \<Rightarrow> Inl e
            | Inr rest \<Rightarrow> Inr (encode_utf8 c @ rest))))"
  by pat_completeness auto
termination
  by (relation "measure length") (auto dest: utf8_first_width)

declare codec_decode.simps [simp del]

section \<open>Collision suffixes\<close>

definition fnv1a64 :: "bytes \<Rightarrow> u64" where
  "fnv1a64 bs = fold (\<lambda>b h. (h XOR ucast b) * 0x100000001b3) bs 0xcbf29ce484222325"

definition lower_hex :: "u64 \<Rightarrow> byte" where
  "lower_hex d = ascii ''0123456789abcdef'' ! unat d"

text \<open>\<^verbatim>\<open>format!("{hash:016x}")\<close>: sixteen lower-case hexadecimal digits, most significant first.\<close>

definition format_016x :: "u64 \<Rightarrow> bytes" where
  "format_016x h = map (\<lambda>i. lower_hex (drop_bit (4 * i) h AND 0x0F)) (rev [0..<16])"

definition with_collision_suffix :: "bytes \<Rightarrow> bytes \<Rightarrow> bytes" where
  "with_collision_suffix encoded stable_id = encoded @ [126] @ format_016x (fnv1a64 stable_id)"

text \<open>\<^verbatim>\<open>str::rsplit_once\<close> at an ASCII separator: the text before and after its last occurrence.\<close>

fun rsplit_once :: "'a \<Rightarrow> 'a list \<Rightarrow> ('a list \<times> 'a list) option" where
  "rsplit_once c [] = None"
| "rsplit_once c (x # xs) =
     (case rsplit_once c xs of
        Some (a, b) \<Rightarrow> Some (x # a, b)
      | None \<Rightarrow> (if x = c then Some ([], xs) else None))"

definition is_ascii_hexdigit :: "byte \<Rightarrow> bool" where
  "is_ascii_hexdigit b \<longleftrightarrow> (48 \<le> b \<and> b \<le> 57) \<or> (65 \<le> b \<and> b \<le> 70) \<or> (97 \<le> b \<and> b \<le> 102)"

definition split_collision_suffix :: "bytes \<Rightarrow> bytes" where
  "split_collision_suffix name =
     (case rsplit_once 126 name of
        Some (base, sfx) \<Rightarrow>
          (if length sfx = 16 \<and> list_all is_ascii_hexdigit sfx then base else name)
      | None \<Rightarrow> name)"

section \<open>Decoding undoes encoding\<close>

lemma hex_HEX:
  assumes "k < 16"
  shows "hex (HEX ! k) = Some (of_nat k)"
proof -
  have "list_all (\<lambda>k. hex (HEX ! k) = Some (of_nat k)) [0..<16]" by code_simp
  with assms show ?thesis by (simp add: list_all_iff)
qed

lemma high_nibble_bound: "unat (drop_bit 4 (b :: byte)) < 16"
proof -
  have "unat (drop_bit 4 b) = unat b div 16"
    by (simp add: drop_bit_eq_div unat_div)
  moreover have "unat b < 256" using unsigned_less [of b] by simp
  ultimately show ?thesis by linarith
qed

lemma low_nibble_bound: "unat ((b :: byte) AND 0x0F) < 16"
proof -
  have "b AND 0x0F \<le> 0x0F" by (rule word_and_le1)
  then show ?thesis by (simp add: word_le_nat_alt)
qed

lemma nibbles_join: "push_bit 4 (drop_bit 4 b) OR (b AND 0x0F) = (b :: byte)"
proof -
  have "push_bit 4 (drop_bit 4 b) OR (b AND mask 4) = b"
    by (rule bit_word_eqI) (auto simp: bit_simps)
  then show ?thesis by (simp add: mask_eq_exp_minus_1)
qed

lemma decode_push_percent:
  assumes "b \<noteq> 0"
  shows "codec_decode (push_percent b @ rest) = map_sum id ((#) b) (codec_decode rest)"
proof -
  have "hex (HEX ! unat (drop_bit 4 b)) = Some (drop_bit 4 b)"
    "hex (HEX ! unat (b AND 0x0F)) = Some (b AND 0x0F)"
    by (simp_all add: hex_HEX high_nibble_bound low_nibble_bound)
  then show ?thesis
    using assms nibbles_join [of b]
    by (subst codec_decode.simps)
      (simp add: push_percent_def numeral_3_eq_3 Let_def split: sum.splits)
qed

lemma decode_push_percents:
  "0 \<notin> set bs \<Longrightarrow>
     codec_decode (concat (map push_percent bs) @ rest) = map_sum id ((@) bs) (codec_decode rest)"
proof (induction bs)
  case Nil
  then show ?case by (cases "codec_decode rest") simp_all
next
  case (Cons b bs)
  then show ?case
    by (cases "codec_decode rest") (simp_all add: decode_push_percent)
qed

lemma hd_encode_utf8_percent:
  assumes "scalar c" "hd (encode_utf8 c) = percent"
  shows "c = 37"
proof -
  have "utf8_first (encode_utf8 c @ []) = Utf8_Ok c (length (encode_utf8 c))"
    by (rule utf8_first_complete) fact
  moreover obtain bs where "encode_utf8 c = percent # bs"
    using assms(2) encode_utf8_length [of c] by (cases "encode_utf8 c") auto
  ultimately show ?thesis by (simp add: utf8_first.simps(2))
qed

lemma of_nat_byte_nonzero: "0 < n \<Longrightarrow> n < 256 \<Longrightarrow> (0 :: byte) \<noteq> of_nat n"
  by (metis unat_of_nat_byte less_irrefl unat_0)

lemma encode_utf8_nonzero: "scalar c \<Longrightarrow> c \<noteq> 0 \<Longrightarrow> 0 \<notin> set (encode_utf8 c)"
  unfolding encode_utf8_def scalar_def
  by (auto simp del: of_nat_add of_nat_mod intro: of_nat_byte_nonzero [THEN notE, rotated 2])

lemma decode_encode_char:
  assumes "scalar c" "c \<noteq> 0"
  shows "codec_decode (encode_char c @ rest) = map_sum id ((@) (encode_utf8 c)) (codec_decode rest)"
proof (cases "is_safe c")
  case True
  then have "hd (encode_utf8 c @ rest) \<noteq> percent"
    using hd_encode_utf8_percent [OF assms(1)] encode_utf8_length [of c] by (auto simp: is_safe_def)
  moreover have "encode_utf8 c @ rest \<noteq> []" using encode_utf8_length [of c] by auto
  moreover have "utf8_first (encode_utf8 c @ rest) = Utf8_Ok c (length (encode_utf8 c))"
    using assms(1) by (rule utf8_first_complete)
  ultimately have "codec_decode (encode_utf8 c @ rest) =
      (case codec_decode rest of Inl e \<Rightarrow> Inl e | Inr r \<Rightarrow> Inr (encode_utf8 c @ r))"
    by (subst codec_decode.simps) (simp only: if_False utf8_step.case append_eq_conv_conj drop_append, simp)
  with True show ?thesis by (simp add: encode_char_def split: sum.splits)
next
  case False
  have "0 \<notin> set (encode_utf8 c)"
    using assms by (rule encode_utf8_nonzero)
  with False show ?thesis by (simp add: encode_char_def decode_push_percents)
qed


lemma decode_encode_unicode:
  assumes "\<forall>c \<in> set cs. scalar c \<and> c \<noteq> 0"
  shows "codec_decode (encode_unicode cs @ rest) = map_sum id ((@) (str_bytes cs)) (codec_decode rest)"
  using assms
proof (induction cs)
  case Nil
  then show ?case by (cases "codec_decode rest") (simp_all add: encode_unicode_def)
next
  case (Cons c cs)
  then have "codec_decode (encode_unicode (c # cs) @ rest) =
      map_sum id ((@) (encode_utf8 c)) (codec_decode (encode_unicode cs @ rest))"
    by (simp add: encode_unicode_def decode_encode_char)
  with Cons show ?case by (cases "codec_decode rest") simp_all
qed

lemma str_bytes_nonzero: "0 \<notin> set (str_bytes cs) \<Longrightarrow> 0 \<notin> set cs"
proof (induction cs)
  case (Cons c cs)
  have "encode_utf8 0 = [0]" by (simp add: encode_utf8_def)
  with Cons show ?case by (cases "c = 0") auto
qed simp

lemma from_utf8_nonzero:
  "from_utf8 bs = Inr cs \<Longrightarrow> 0 \<notin> set bs \<Longrightarrow> \<forall>c \<in> set cs. scalar c \<and> c \<noteq> 0"
  using str_bytes_nonzero [of cs] by (metis from_utf8_Inr)

text \<open>One unfolding of the loop: the valid prefix, the percent-encoded invalid bytes, the rest.\<close>

lemma encode_loop_cases:
  obtains (Nil) "name = []" "encode_loop name = []"
  | (Valid) cs where "name \<noteq> []" "from_utf8 name = Inr cs" "encode_loop name = encode_unicode cs"
  | (Invalid) cs k v where "name \<noteq> []" "from_utf8 (take v name) = Inr cs" "0 < k" "v + k \<le> length name"
      "encode_loop name = encode_unicode cs @ concat (map push_percent (take k (drop v name))) @
         encode_loop (drop (v + k) name)"
proof (cases "name = []")
  case True
  then show ?thesis using Nil by (simp add: encode_loop.simps)
next
  case False
  show ?thesis
  proof (cases "from_utf8 name")
    case (Inr cs)
    with False show ?thesis using Valid by (simp add: encode_loop.simps)
  next
    case (Inl r)
    obtain v e where r: "r = (v, e)" by (cases r)
    define k where "k = (case e of Some k \<Rightarrow> k | None \<Rightarrow> length name - v)"
    have bounds: "0 < k" "v + k \<le> length name"
      using from_utf8_Inl(1,2) [OF Inl [unfolded r]] by (auto simp: k_def split: option.splits)
    obtain cs where cs: "from_utf8 (take v name) = Inr cs"
      using from_utf8_Inl(3) [OF Inl [unfolded r]] by (auto simp: valid_utf8_def is_ok_iff)
    have "encode_loop name = encode_unicode cs @ concat (map push_percent (take k (drop v name))) @
         encode_loop (drop (v + k) name)"
      using cs
      by (subst encode_loop.simps) (auto simp: False Inl r Let_def k_def encode_unicode_def)
    with False cs bounds show ?thesis by (rule Invalid)
  qed
qed

lemma decode_encode_loop: "0 \<notin> set name \<Longrightarrow> codec_decode (encode_loop name) = Inr name"
proof (induction "length name" arbitrary: name rule: less_induct)
  case less
  show ?case
  proof (cases name rule: encode_loop_cases)
    case Nil
    then show ?thesis by (simp add: codec_decode.simps)
  next
    case (Valid cs)
    then have "codec_decode (encode_unicode cs @ []) = Inr (str_bytes cs)"
      using from_utf8_nonzero [OF Valid(2) less.prems]
      by (subst decode_encode_unicode) (auto simp: codec_decode.simps)
    with Valid show ?thesis by (simp add: from_utf8_Inr)
  next
    case (Invalid cs k v)
    have nz: "0 \<notin> set (take v name)" "0 \<notin> set (take k (drop v name))" "0 \<notin> set (drop (v + k) name)"
      using less.prems by (auto dest: in_set_takeD in_set_dropD)
    have "codec_decode (encode_loop (drop (v + k) name)) = Inr (drop (v + k) name)"
      using Invalid nz(3) by (intro less.hyps) auto
    moreover have "str_bytes cs = take v name" using Invalid(2) by (simp add: from_utf8_Inr)
    moreover have "take v name @ take k (drop v name) @ drop (v + k) name = name"
      by (metis append_assoc append_take_drop_id take_add)
    ultimately show ?thesis
      using decode_encode_unicode [OF from_utf8_nonzero [OF Invalid(2) nz(1)]] nz(2)
      by (simp add: Invalid(5) decode_push_percents)
  qed
qed

lemma codec_decode_encode: "codec_encode name = Inr e \<Longrightarrow> codec_decode e = Inr name"
  by (auto simp: codec_encode_def decode_encode_loop split: if_splits)
    (code_simp | simp)+

section \<open>The encoded name is a portable file name\<close>

definition portable_byte :: "byte \<Rightarrow> bool" where
  "portable_byte b \<longleftrightarrow> 32 \<le> b \<and> b \<noteq> 127 \<and> b \<notin> {slash, 58, 64, 92}"

lemma HEX_portable: "k < 16 \<Longrightarrow> portable_byte (HEX ! k) \<and> HEX ! k < 0x80"
proof -
  have "list_all (\<lambda>k. portable_byte (HEX ! k) \<and> HEX ! k < 0x80) [0..<16]" by code_simp
  then show "k < 16 \<Longrightarrow> portable_byte (HEX ! k) \<and> HEX ! k < 0x80" by (simp add: list_all_iff)
qed

lemma push_percent_portable:
  "\<forall>x \<in> set (push_percent b). portable_byte x \<and> x < 0x80"
  using HEX_portable [OF high_nibble_bound, of b] HEX_portable [OF low_nibble_bound, of b]
  by (simp add: push_percent_def) (simp add: portable_byte_def)

lemma encode_utf8_big: "0x80 \<le> c \<Longrightarrow> scalar c \<Longrightarrow> b \<in> set (encode_utf8 c) \<Longrightarrow> 0x80 \<le> b"
proof -
  have ge: "(0x80 :: byte) \<le> of_nat n" if "0x80 \<le> n" "n < 256" for n
    using that by (simp add: word_le_nat_alt unat_of_nat_byte)
  assume "0x80 \<le> c" "scalar c" "b \<in> set (encode_utf8 c)"
  then show "0x80 \<le> b"
    unfolding encode_utf8_def scalar_def
    by (auto simp del: of_nat_add of_nat_mod split: if_splits intro!: ge)
qed

lemma safe_char_portable:
  assumes "scalar c" "is_safe c" "b \<in> set (encode_utf8 c)"
  shows "portable_byte b"
proof (cases "c < 0x80")
  case True
  then have "b = of_nat c" using assms(3) by (simp add: encode_utf8_def)
  with True assms(2) show ?thesis
    by (simp add: portable_byte_def is_safe_def is_control_def word_le_nat_alt word_unat_eq_iff
        unat_of_nat_byte)
next
  case False
  then have "0x80 \<le> b" using assms by (intro encode_utf8_big [of c]) simp_all
  then show ?thesis by (auto simp: portable_byte_def word_le_nat_alt word_unat_eq_iff)
qed

lemma encode_char_portable: "scalar c \<Longrightarrow> b \<in> set (encode_char c) \<Longrightarrow> portable_byte b"
  using push_percent_portable by (auto simp: encode_char_def safe_char_portable split: if_splits)

lemma encode_unicode_portable:
  "\<forall>c \<in> set cs. scalar c \<Longrightarrow> b \<in> set (encode_unicode cs) \<Longrightarrow> portable_byte b"
  by (auto simp: encode_unicode_def encode_char_portable)

lemma push_percents_utf8: "valid_utf8 (concat (map push_percent bs))"
  using push_percent_portable by (intro valid_utf8_ascii) auto

lemma encode_unicode_utf8: "\<forall>c \<in> set cs. scalar c \<Longrightarrow> valid_utf8 (encode_unicode cs)"
proof (induction cs)
  case Nil
  then show ?case by (simp add: encode_unicode_def)
next
  case (Cons c cs)
  have "valid_utf8 (encode_utf8 c)"
    unfolding valid_utf8_iff using Cons.prems by (intro exI [of _ "[c]"]) simp
  then have "valid_utf8 (encode_char c)" by (simp add: encode_char_def push_percents_utf8)
  with Cons show ?case by (simp add: encode_unicode_def valid_utf8_append)
qed

lemma encode_loop_portable:
  "valid_utf8 (encode_loop name) \<and> (\<forall>b \<in> set (encode_loop name). portable_byte b)"
proof (induction "length name" arbitrary: name rule: less_induct)
  case less
  show ?case
  proof (cases name rule: encode_loop_cases)
    case Nil
    then show ?thesis by simp
  next
    case (Valid cs)
    then have "\<forall>c \<in> set cs. scalar c" by (simp add: from_utf8_Inr)
    with Valid show ?thesis by (auto simp: encode_unicode_utf8 encode_unicode_portable)
  next
    case (Invalid cs k v)
    have "\<forall>c \<in> set cs. scalar c" using Invalid(2) by (simp add: from_utf8_Inr)
    moreover have "valid_utf8 (encode_loop (drop (v + k) name)) \<and>
        (\<forall>b \<in> set (encode_loop (drop (v + k) name)). portable_byte b)"
      using Invalid by (intro less.hyps) auto
    ultimately show ?thesis
      using push_percent_portable unfolding Invalid(5)
      by (auto simp: encode_unicode_utf8 encode_unicode_portable push_percents_utf8
          intro!: valid_utf8_append)
  qed
qed

lemma codec_encode_portable:
  assumes "codec_encode name = Inr e"
  shows "valid_utf8 e" and "\<forall>b \<in> set e. portable_byte b"
proof -
  have "list_all (\<lambda>b. portable_byte b \<and> b < 0x80) (ascii ''%2E%2E'')" by code_simp
  then have dots: "\<forall>b \<in> set (ascii ''%2E%2E'') \<union> set (ascii ''%2E''). portable_byte b \<and> b < 0x80"
    by (auto simp: list_all_iff ascii_def)
  have "e \<in> {ascii ''%2E'', ascii ''%2E%2E'', encode_loop name}"
    using assms by (auto simp: codec_encode_def split: if_splits)
  with dots encode_loop_portable [of name]
  show "valid_utf8 e" and "\<forall>b \<in> set e. portable_byte b" by (auto intro: valid_utf8_ascii)
qed

lemma codec_decode_dots: "codec_decode [dot] = Inr [dot]" "codec_decode [dot, dot] = Inr [dot, dot]"
  by code_simp+

lemma codec_encode_dots: "codec_encode [dot] \<noteq> Inr [dot]" "codec_encode [dot, dot] \<noteq> Inr [dot, dot]"
  by (simp_all add: codec_encode_def ascii_def)

lemma codec_encode_valid_name:
  assumes "codec_encode name = Inr e" "name \<noteq> []" "length e \<le> MAX_NAME_BYTES"
  shows "virtual_file_name_new e = Inr (VirtualFileName e)"
proof -
  have dec: "codec_decode e = Inr name" using assms(1) by (rule codec_decode_encode)
  with assms(2) have "e \<noteq> []" by (auto simp: codec_decode.simps)
  moreover have "e \<noteq> [dot]" "e \<noteq> [dot, dot]"
    using dec assms(1) codec_decode_dots codec_encode_dots by auto
  moreover have "portable_byte b \<Longrightarrow> b \<noteq> 0 \<and> b \<noteq> slash" for b
    by (auto simp: portable_byte_def)
  ultimately show ?thesis
    using assms(3) codec_encode_portable(2) [OF assms(1)]
    by (auto simp: virtual_file_name_new_Inr valid_name_iff)
qed

section \<open>Collision suffixes can be taken off again\<close>

lemma rsplit_once_append:
  "c \<notin> set ys \<Longrightarrow> rsplit_once c (xs @ c # ys) = Some (xs, ys)"
proof (induction xs)
  case Nil
  have "c \<notin> set ys \<Longrightarrow> rsplit_once c ys = None" for ys :: "'a list"
    by (induction ys) auto
  with Nil show ?case by simp
next
  case (Cons x xs)
  then show ?case by simp
qed

lemma lower_hex_digit: "is_ascii_hexdigit (lower_hex (d AND 0x0F))"
proof -
  have "d AND 0x0F \<le> (0x0F :: u64)" by (rule word_and_le1)
  then have "unat (d AND 0x0F) < 16" by (simp add: word_le_nat_alt)
  moreover have "list_all (\<lambda>k. is_ascii_hexdigit (ascii ''0123456789abcdef'' ! k)) [0..<16]"
    by code_simp
  ultimately show ?thesis by (simp add: lower_hex_def list_all_iff)
qed

lemma format_016x_digits: "length (format_016x h) = 16" "list_all is_ascii_hexdigit (format_016x h)"
  by (simp_all add: format_016x_def list_all_iff lower_hex_digit)

lemma split_with_collision_suffix: "split_collision_suffix (with_collision_suffix e i) = e"
proof -
  have "126 \<notin> set (format_016x (fnv1a64 i))"
    using format_016x_digits(2) by (fastforce simp: list_all_iff is_ascii_hexdigit_def)
  then have "rsplit_once 126 (with_collision_suffix e i) = Some (e, format_016x (fnv1a64 i))"
    by (simp add: with_collision_suffix_def rsplit_once_append)
  then show ?thesis
    by (simp add: split_collision_suffix_def format_016x_digits)
qed

section \<open>Properties\<close>

text \<open>C12. Decoding an encoded name gives the original bytes back.\<close>

theorem codec_roundtrip:
  assumes "codec_encode name = Inr e"
  shows "codec_decode e = Inr name"
  using assms by (rule codec_decode_encode)

theorem codec_roundtrip_witness:
  "codec_encode [97, 47, 37, 255] = Inr [97, 37, 50, 70, 37, 50, 53, 37, 70, 70] \<and>
   codec_decode [97, 37, 50, 70, 37, 50, 53, 37, 70, 70] = Inr [97, 47, 37, 255]"
proof -
  have e: "codec_encode [97, 47, 37, 255] = Inr [97, 37, 50, 70, 37, 50, 53, 37, 70, 70]" by code_simp
  then show ?thesis using codec_roundtrip [OF e] by simp
qed

text \<open>
  An encoded name is valid UTF-8 without control characters, slash, colon, at sign and
  backslash, and as a file name component it is accepted whenever it is non-empty and short enough.
\<close>

theorem codec_portable:
  assumes "codec_encode name = Inr e"
  shows "valid_utf8 e \<and> list_all portable_byte e \<and>
    (name \<noteq> [] \<and> length e \<le> MAX_NAME_BYTES \<longrightarrow> virtual_file_name_new e = Inr (VirtualFileName e))"
  using codec_encode_portable [OF assms] codec_encode_valid_name [OF assms] by (simp add: list_all_iff)

theorem codec_portable_witness:
  "virtual_file_name_new [97, 37, 50, 70] = Inr (VirtualFileName [97, 37, 50, 70])"
proof -
  have e: "codec_encode [97, 47] = Inr [97, 37, 50, 70]" by code_simp
  show ?thesis using codec_portable [OF e] by (simp add: MAX_NAME_BYTES_def)
qed

text \<open>The collision suffix of an encoded name is found and removed again, whatever the identity.\<close>

theorem collision_suffix_roundtrip: "split_collision_suffix (with_collision_suffix e i) = e"
  by (rule split_with_collision_suffix)

end
