(* ===== verification/Router.thy ===== *)
theory Router
  imports Vfs_Path
begin

text \<open>
  Routing a container path to the provider that owns it (\<^verbatim>\<open>crates/tuxstack-vfs/src/router.rs\<close>).
  \<open>'p\<close> stands for \<^verbatim>\<open>Arc<dyn ReadOnlyFilesystemProvider>\<close>.
\<close>

datatype provider_key = ProviderKey string

datatype container_path = ContainerPath (cpath: virtual_path)

record 'p resolved_container_mount =
  destination :: virtual_path
  mount_key :: provider_key
  provider_root :: virtual_path
  mount_provider :: 'p

record 'p resolved_route =
  route_container_path :: container_path
  route_key :: provider_key
  provider_path :: virtual_path
  route_provider :: 'p
  route_mount :: "'p resolved_container_mount option"

record 'p container_path_router =
  container_id :: string
  mounts :: "'p resolved_container_mount list"
  rootfs_key :: provider_key
  rootfs :: 'p

text \<open>\<^verbatim>\<open>sort_by\<close> is a stable sort: deeper destinations first, equal depths by their bytes.\<close>

definition mount_order :: "'p resolved_container_mount \<Rightarrow> int \<times> bytes" where
  "mount_order m = (- int (depth (destination m)), path_as_bytes (destination m))"

definition router_new ::
  "string \<Rightarrow> provider_key \<Rightarrow> 'p \<Rightarrow> 'p resolved_container_mount list \<Rightarrow> 'p container_path_router vfs_result" where
  "router_new cid key fs ms =
     (if list_ex (\<lambda>m. is_root (destination m)) ms
      then Inl (InvalidInput ''a mount cannot replace the container root'')
      else Inr \<lparr>container_id = cid, mounts = sort_key mount_order ms, rootfs_key = key, rootfs = fs\<rparr>)"

definition route :: "'p container_path_router \<Rightarrow> container_path \<Rightarrow> 'p resolved_route vfs_result" where
  "route r path =
     (case find (\<lambda>m. path_starts_with (cpath path) (destination m)) (mounts r) of
        Some m \<Rightarrow>
          (let remainder = the (path_strip_prefix (cpath path) (destination m))
           in (case from_components (components (provider_root m) @ components remainder) of
                 Inl e \<Rightarrow> Inl e
               | Inr p \<Rightarrow>
                  Inr \<lparr>route_container_path = path, route_key = mount_key m, provider_path = p,
                       route_provider = mount_provider m, route_mount = Some m\<rparr>))
      | None \<Rightarrow>
          Inr \<lparr>route_container_path = path, route_key = rootfs_key r, provider_path = cpath path,
               route_provider = rootfs r, route_mount = None\<rparr>)"

section \<open>The deepest matching mount wins\<close>

definition matching :: "virtual_path \<Rightarrow> 'p resolved_container_mount list \<Rightarrow> 'p resolved_container_mount list" where
  "matching p ms = filter (\<lambda>m. path_starts_with p (destination m)) ms"

lemma find_filter: "find P xs = (case filter P xs of [] \<Rightarrow> None | x # _ \<Rightarrow> Some x)"
  by (induction xs) auto

lemma matching_destination_eq:
  assumes "m \<in> set (matching p ms)" "m' \<in> set (matching p ms)"
    and "wf_path (destination m)" "wf_path (destination m')"
    and "depth (destination m) = depth (destination m')"
  shows "destination m = destination m'"
  using assms
  by (auto simp: matching_def path_starts_with_def depth_def intro!: wf_path_eqI
      dest: prefix_same_length)

lemma find_sorted_deepest:
  assumes "sorted (map mount_order ms)" "find (\<lambda>m. path_starts_with p (destination m)) ms = Some m"
    and "m' \<in> set (matching p ms)"
  shows "depth (destination m') \<le> depth (destination m)"
proof -
  obtain xs where f: "matching p ms = m # xs"
    using assms(2) by (auto simp: find_filter matching_def split: list.splits)
  have "sorted (map mount_order (matching p ms))"
    using assms(1) by (simp add: matching_def sorted_filter)
  with f assms(3) have "m' = m \<or> mount_order m \<le> mount_order m'" by auto
  then show ?thesis by (auto simp: mount_order_def less_eq_prod_def)
qed

lemma router_new_mounts:
  assumes "router_new cid key fs ms = Inr r"
  shows "mounts r = sort_key mount_order ms" "rootfs_key r = key" "rootfs r = fs"
    "\<forall>m \<in> set ms. \<not> is_root (destination m)"
  using assms by (auto simp: router_new_def list_ex_iff split: if_splits)

text \<open>The \<^verbatim>\<open>expect\<close> on \<^verbatim>\<open>strip_prefix\<close> never fires: the mount was found by the same prefix test.\<close>

lemma route_strip_prefix:
  assumes "find (\<lambda>m. path_starts_with p (destination m)) ms = Some m"
  shows "\<exists>q. path_strip_prefix p (destination m) = Some q"
proof -
  have "path_starts_with p (destination m)"
    using assms by (auto simp: find_Some_iff)
  then show ?thesis by (simp add: path_strip_prefix_def)
qed

lemma route_mount_cases:
  assumes "wf_path (cpath path)" "route r path = Inr rt"
  obtains (Rootfs) "matching (cpath path) (mounts r) = []" "route_mount rt = None"
      "route_provider rt = rootfs r" "route_key rt = rootfs_key r" "provider_path rt = cpath path"
  | (Mount) m and rest :: virtual_path where "find (\<lambda>m. path_starts_with (cpath path) (destination m)) (mounts r) = Some m"
      "route_mount rt = Some m" "route_provider rt = mount_provider m" "route_key rt = mount_key m"
      "components (cpath path) = components (destination m) @ components rest"
      "components (provider_path rt) = components (provider_root m) @ components rest"
proof (cases "find (\<lambda>m. path_starts_with (cpath path) (destination m)) (mounts r)")
  case None
  then have "matching (cpath path) (mounts r) = []"
    by (auto simp: matching_def find_None_iff filter_empty_conv)
  with None assms(2) show ?thesis using Rootfs by (auto simp: route_def)
next
  case (Some m)
  then obtain rest where rest: "path_strip_prefix (cpath path) (destination m) = Some rest"
    using route_strip_prefix by blast
  have "components (cpath path) = components (destination m) @ components rest"
    using rest assms(1) by (simp add: path_strip_prefix_Some)
  with Some rest assms(2) show ?thesis
    by (intro Mount [of m rest]) (auto simp: route_def Let_def from_components_Inr split: sum.splits)
qed

section \<open>Properties\<close>

text \<open>
  C13. A router sends a path to the mount with the deepest destination that is a prefix of it, and the
  provider path is the provider root followed by what is below the destination; without such a
  mount the root filesystem gets the path unchanged.
\<close>

theorem route_deepest:
  assumes "router_new cid key fs ms = Inr r" "wf_path (cpath path)" "route r path = Inr rt"
  shows "(route_mount rt = None \<and> matching (cpath path) ms = [] \<and> route_provider rt = fs \<and>
       provider_path rt = cpath path) \<or>
     (\<exists>m rest. route_mount rt = Some m \<and> m \<in> set (matching (cpath path) ms) \<and>
       (\<forall>m' \<in> set (matching (cpath path) ms). depth (destination m') \<le> depth (destination m)) \<and>
       route_provider rt = mount_provider m \<and>
       components (cpath path) = components (destination m) @ rest \<and>
       components (provider_path rt) = components (provider_root m) @ rest)"
proof -
  note new = router_new_mounts [OF assms(1)]
  have sorted: "sorted (map mount_order (mounts r))" by (simp add: new(1))
  have set: "set (matching (cpath path) (mounts r)) = set (matching (cpath path) ms)"
    by (simp add: matching_def new(1))
  from assms(2,3) show ?thesis
  proof (cases rule: route_mount_cases)
    case Rootfs
    then have "matching (cpath path) ms = []" using set by (metis set_empty)
    with Rootfs new(3) show ?thesis by simp
  next
    case (Mount m rest)
    have "m \<in> set (matching (cpath path) (mounts r))"
      using Mount(1) by (auto simp: find_Some_iff matching_def)
    with Mount find_sorted_deepest [OF sorted Mount(1)] set show ?thesis by auto
  qed
qed

definition mount_b :: "nat resolved_container_mount" where
  "mount_b = \<lparr>destination = path_ab, mount_key = ProviderKey ''vol'', provider_root = path_root, mount_provider = 2\<rparr>"

theorem route_deepest_witness:
  "\<exists>r rt. router_new ''c'' (ProviderKey ''rootfs'') 1 [mount_b] = Inr r \<and>
     route r (ContainerPath path_ab) = Inr rt \<and> route_mount rt = Some mount_b \<and> route_provider rt = 2"
proof -
  let ?r = "\<lparr>container_id = ''c'', mounts = [mount_b], rootfs_key = ProviderKey ''rootfs'', rootfs = 1 :: nat\<rparr>"
  have r: "router_new ''c'' (ProviderKey ''rootfs'') 1 [mount_b] = Inr ?r"
    by (simp add: router_new_def mount_b_def is_root_def path_ab_def)
  have rt: "\<exists>rt. route ?r (ContainerPath path_ab) = Inr rt"
    by (simp add: route_def mount_b_def path_starts_with_def Let_def path_strip_prefix_def
        from_components_def DEFAULT_MAX_PATH_BYTES_def depth_def)
  then obtain rt where rt: "route ?r (ContainerPath path_ab) = Inr rt" by blast
  have "matching path_ab [mount_b] = [mount_b]" by (simp add: matching_def mount_b_def path_starts_with_def)
  then have "route_mount rt = Some mount_b \<and> route_provider rt = mount_provider mount_b"
    using route_deepest [OF r _ rt] by auto
  then show ?thesis using r rt by (auto simp: mount_b_def)
qed

end
