(* ===== verification/Vfs_Model.thy ===== *)
theory Vfs_Model
  imports Vfs_Path
begin

unbundle bit_operations_syntax

text \<open>
  The data model shared by providers, namespace and adapter (\<^verbatim>\<open>crates/tuxstack-vfs/src/model.rs\<close>).
  A \<^verbatim>\<open>SystemTime\<close> or \<^verbatim>\<open>DateTime<Utc>\<close> is the integer number of nanoseconds since the Unix epoch.
\<close>

record image_platform =
  architecture :: string
  operating_system :: string
  variant :: "string option"

datatype docker_filesystem_resource =
    Container string
  | Image string image_platform
  | Volume string

fun canonical_id :: "docker_filesystem_resource \<Rightarrow> string" where
  "canonical_id (Container container_id) = container_id"
| "canonical_id (Image image_id _) = image_id"
| "canonical_id (Volume volume_name) = volume_name"

fun kind_name :: "docker_filesystem_resource \<Rightarrow> string" where
  "kind_name (Container _) = ''container''"
| "kind_name (Image _ _) = ''image''"
| "kind_name (Volume _) = ''volume''"

datatype provider_kind =
    ContainerRootfsSnapshot | ContainerArchiveLive | NamedVolumeLive | LocalBindLive
  | HelperBindLive | TmpfsLive | RuntimeMount | ImageRootfsImmutable | InMemory

datatype consistency_mode =
    Immutable | Live | Snapshot int u64 | OperationTimeRead | ConsistencyUnavailable

section \<open>Capabilities\<close>

datatype provider_capabilities = ProviderCapabilities (bits: u32)

definition LOOKUP :: provider_capabilities where "LOOKUP = ProviderCapabilities (push_bit 0 1)"
definition READDIR :: provider_capabilities where "READDIR = ProviderCapabilities (push_bit 1 1)"
definition GETATTR :: provider_capabilities where "GETATTR = ProviderCapabilities (push_bit 2 1)"
definition READLINK :: provider_capabilities where "READLINK = ProviderCapabilities (push_bit 3 1)"
definition OPEN :: provider_capabilities where "OPEN = ProviderCapabilities (push_bit 4 1)"
definition READ :: provider_capabilities where "READ = ProviderCapabilities (push_bit 5 1)"
definition DOWNLOAD :: provider_capabilities where "DOWNLOAD = ProviderCapabilities (push_bit 6 1)"
definition REFRESH :: provider_capabilities where "REFRESH = ProviderCapabilities (push_bit 7 1)"

definition cap_union :: "provider_capabilities \<Rightarrow> provider_capabilities \<Rightarrow> provider_capabilities" where
  "cap_union a b = ProviderCapabilities (bits a OR bits b)"

definition cap_empty :: provider_capabilities where
  "cap_empty = ProviderCapabilities 0"

definition READ_ONLY :: provider_capabilities where
  "READ_ONLY =
     ProviderCapabilities
       (bits LOOKUP OR bits READDIR OR bits GETATTR OR bits READLINK OR bits OPEN OR bits READ OR
        bits REFRESH)"

definition cap_contains :: "provider_capabilities \<Rightarrow> provider_capabilities \<Rightarrow> bool" where
  "cap_contains c other \<longleftrightarrow> bits c AND bits other = bits other"

lemma cap_contains_bit:
  "cap_contains c d \<longleftrightarrow> (\<forall>n. bit (bits d) n \<longrightarrow> bit (bits c) n)"
proof -
  have "bit (bits d) n \<Longrightarrow> n < 32" for n using bit_imp_le_length [of "bits d" n] by simp
  then show ?thesis by (auto simp: cap_contains_def bit_eq_iff bit_and_iff)
qed

lemma cap_contains_refl: "cap_contains c c"
  by (simp add: cap_contains_bit)

lemma cap_contains_trans: "cap_contains c d \<Longrightarrow> cap_contains d e \<Longrightarrow> cap_contains c e"
  by (simp add: cap_contains_bit)

lemma cap_contains_union [simp]:
  "cap_contains c (cap_union d e) \<longleftrightarrow> cap_contains c d \<and> cap_contains c e"
  by (auto simp: cap_contains_bit cap_union_def bit_or_iff)

section \<open>Descriptors, contexts and metadata\<close>

record provider_descriptor =
  pd_kind :: provider_kind
  pd_consistency :: consistency_mode
  pd_source :: "string option"
  pd_capabilities :: provider_capabilities

record request_context =
  rc_uid :: u32
  rc_gid :: u32
  rc_pid :: u32
  rc_request_id :: u64

datatype virtual_file_type =
    RegularFile | Directory | Symlink | CharacterDevice | BlockDevice | NamedPipe | Socket

definition is_special :: "virtual_file_type \<Rightarrow> bool" where
  "is_special t \<longleftrightarrow> t \<in> {CharacterDevice, BlockDevice, NamedPipe, Socket}"

record original_metadata =
  om_mode :: u32
  om_uid :: u32
  om_gid :: u32

record virtual_metadata =
  node_id :: bytes
  file_type :: virtual_file_type
  md_size :: u64
  nlink :: u32
  mtime :: int
  original :: original_metadata
  device_id :: "u64 option"
  md_generation :: u64

text \<open>Rust's octal permission literals, such as \<^verbatim>\<open>0o755\<close>.\<close>

definition octal3 :: "nat \<Rightarrow> nat \<Rightarrow> nat \<Rightarrow> u32" where
  "octal3 a b c = of_nat (64 * a + 8 * b + c)"

definition metadata_new :: "bytes \<Rightarrow> virtual_file_type \<Rightarrow> u64 \<Rightarrow> virtual_metadata" where
  "metadata_new i t sz =
     \<lparr>node_id = i, file_type = t, md_size = sz, nlink = 1, mtime = 0,
      original =
        \<lparr>om_mode = (case t of Directory \<Rightarrow> octal3 7 5 5 | Symlink \<Rightarrow> octal3 7 7 7 | _ \<Rightarrow> octal3 6 4 4),
         om_uid = 0, om_gid = 0\<rparr>,
      device_id = None, md_generation = 0\<rparr>"

definition metadata_directory :: "bytes \<Rightarrow> virtual_metadata" where
  "metadata_directory i = metadata_new i Directory 0"

definition metadata_file :: "bytes \<Rightarrow> u64 \<Rightarrow> virtual_metadata" where
  "metadata_file i sz = metadata_new i RegularFile sz"

definition metadata_symlink :: "bytes \<Rightarrow> u64 \<Rightarrow> virtual_metadata" where
  "metadata_symlink i sz = metadata_new i Symlink sz"

definition metadata_special :: "bytes \<Rightarrow> virtual_file_type \<Rightarrow> u64 \<Rightarrow> virtual_metadata" where
  "metadata_special i t dev = (metadata_new i t 0)\<lparr>device_id := Some dev\<rparr>"

lemmas metadata_defs = metadata_new_def metadata_directory_def metadata_file_def
  metadata_symlink_def metadata_special_def

record virtual_directory_entry =
  de_name :: virtual_file_name
  de_metadata :: virtual_metadata

record provider_file_handle =
  pfh_id :: u64
  pfh_path :: virtual_path
  content_generation :: u64

end
