(* ===== verification/Provider.thy ===== *)
theory Provider
  imports Vfs_Model "HOL-Library.AList"
begin

unbundle bit_operations_syntax

text \<open>
  The provider trait and the in-memory provider (\<^verbatim>\<open>crates/tuxstack-vfs/src/provider.rs\<close>). A provider
  is a record of operations over a world \<open>'w\<close> that holds whatever state the provider keeps; each
  operation returns its result and the world it leaves. The locale \<open>readonly_provider\<close> is the
  contract the namespace and the FUSE adapter rely on; it is interpreted on the in-memory provider
  here and on the namespace in \<open>Namespace\<close>.
\<close>

section \<open>Read-only opens\<close>

datatype open_acc_mode = O_RDONLY | O_WRONLY | O_RDWR

text \<open>
  \<^verbatim>\<open>OpenFlags::acc_mode\<close> belongs to the \<^verbatim>\<open>fuser\<close> crate and is the parameter \<open>acc_mode\<close>. The flag bits
  are those of Linux.
\<close>

definition O_CREAT :: "32 word" where "O_CREAT = push_bit 6 1"
definition O_EXCL :: "32 word" where "O_EXCL = push_bit 7 1"
definition O_TRUNC :: "32 word" where "O_TRUNC = push_bit 9 1"
definition O_APPEND :: "32 word" where "O_APPEND = push_bit 10 1"

definition is_read_only_open :: "(32 word \<Rightarrow> open_acc_mode) \<Rightarrow> 32 word \<Rightarrow> bool" where
  "is_read_only_open acc_mode flags \<longleftrightarrow>
     (let access_is_read_only = (acc_mode flags = O_RDONLY);
          mutation_flags = O_CREAT OR O_EXCL OR O_TRUNC OR O_APPEND
      in access_is_read_only \<and> flags AND mutation_flags = 0)"

lemma word_eq_0_bits: "x = 0 \<longleftrightarrow> (\<forall>n. \<not> bit x n)" for x :: "'a::len word"
proof
  assume b: "\<forall>n. \<not> bit x n"
  show "x = 0" by (rule bit_word_eqI) (simp add: b)
qed simp

lemma is_read_only_open_bits:
  "is_read_only_open acc_mode flags \<longleftrightarrow>
     acc_mode flags = O_RDONLY \<and>
     \<not> bit flags 6 \<and> \<not> bit flags 7 \<and> \<not> bit flags 9 \<and> \<not> bit flags 10"
proof -
  have m: "bit (O_CREAT OR O_EXCL OR O_TRUNC OR O_APPEND) n \<longleftrightarrow> n = 6 \<or> n = 7 \<or> n = 9 \<or> n = 10" for n
    unfolding O_CREAT_def O_EXCL_def O_TRUNC_def O_APPEND_def bit_or_iff bit_push_bit_iff bit_1_iff
    by auto
  have "flags AND (O_CREAT OR O_EXCL OR O_TRUNC OR O_APPEND) = 0 \<longleftrightarrow>
      (\<forall>n. \<not> (bit flags n \<and> bit (O_CREAT OR O_EXCL OR O_TRUNC OR O_APPEND) n))"
    unfolding bit_and_iff [symmetric] by (rule word_eq_0_bits)
  then show ?thesis unfolding is_read_only_open_def Let_def m by blast
qed

section \<open>The provider interface\<close>

record 'w provider =
  prov_descriptor :: "'w \<Rightarrow> provider_descriptor"
  prov_lookup :: "virtual_path \<Rightarrow> virtual_file_name \<Rightarrow> request_context \<Rightarrow> 'w \<Rightarrow> virtual_metadata vfs_result \<times> 'w"
  prov_getattr :: "virtual_path \<Rightarrow> request_context \<Rightarrow> 'w \<Rightarrow> virtual_metadata vfs_result \<times> 'w"
  prov_read_dir :: "virtual_path \<Rightarrow> request_context \<Rightarrow> 'w \<Rightarrow> virtual_directory_entry list vfs_result \<times> 'w"
  prov_read_link :: "virtual_path \<Rightarrow> request_context \<Rightarrow> 'w \<Rightarrow> virtual_path_bytes vfs_result \<times> 'w"
  prov_open :: "virtual_path \<Rightarrow> 32 word \<Rightarrow> request_context \<Rightarrow> 'w \<Rightarrow> provider_file_handle vfs_result \<times> 'w"
  prov_read_at :: "provider_file_handle \<Rightarrow> u64 \<Rightarrow> u32 \<Rightarrow> request_context \<Rightarrow> 'w \<Rightarrow> bytes vfs_result \<times> 'w"
  prov_close :: "provider_file_handle \<Rightarrow> 'w \<Rightarrow> unit vfs_result \<times> 'w"
  prov_refresh :: "virtual_path option \<Rightarrow> 'w \<Rightarrow> unit vfs_result \<times> 'w"

text \<open>What a client can do to a provider's world, one operation at a time, and what it reaches that way.\<close>

inductive prov_step :: "'w provider \<Rightarrow> 'w \<Rightarrow> 'w \<Rightarrow> bool" for prov where
  step_lookup: "prov_step prov w (snd (prov_lookup prov p n c w))"
| step_getattr: "prov_step prov w (snd (prov_getattr prov p c w))"
| step_read_dir: "prov_step prov w (snd (prov_read_dir prov p c w))"
| step_read_link: "prov_step prov w (snd (prov_read_link prov p c w))"
| step_open: "prov_step prov w (snd (prov_open prov p flags c w))"
| step_read_at: "prov_step prov w (snd (prov_read_at prov h off sz c w))"
| step_close: "prov_step prov w (snd (prov_close prov h w))"
| step_refresh: "prov_step prov w (snd (prov_refresh prov po w))"

abbreviation prov_reaches :: "'w provider \<Rightarrow> 'w \<Rightarrow> 'w \<Rightarrow> bool" where
  "prov_reaches prov \<equiv> (prov_step prov)\<^sup>*\<^sup>*"

text \<open>
  What the layers above rely on, for worlds that satisfy the provider's invariant \<open>I\<close>: \<^verbatim>\<open>lookup\<close> is
  \<^verbatim>\<open>getattr\<close> of the joined path, only read-only opens succeed, a read returns at most the bytes
  asked for, a listing has valid names in strictly increasing order, a link target is a valid
  \<^verbatim>\<open>VirtualPathBytes\<close>, and no operation breaks \<open>I\<close>.
\<close>

locale readonly_provider =
  fixes acc_mode :: "32 word \<Rightarrow> open_acc_mode" and prov :: "'w provider" and I :: "'w \<Rightarrow> bool"
  assumes lookup_getattr:
      "I w \<Longrightarrow> prov_lookup prov p n c w =
         (case path_join p n of Inl e \<Rightarrow> (Inl e, w) | Inr q \<Rightarrow> prov_getattr prov q c w)"
    and open_read_only: "I w \<Longrightarrow> prov_open prov p flags c w = (Inr h, w') \<Longrightarrow> is_read_only_open acc_mode flags"
    and read_bounded: "I w \<Longrightarrow> prov_read_at prov h off sz c w = (Inr bs, w') \<Longrightarrow> length bs \<le> unat sz"
    and listing: "I w \<Longrightarrow> wf_path p \<Longrightarrow> prov_read_dir prov p c w = (Inr es, w') \<Longrightarrow>
         sorted_wrt (<) (map de_name es) \<and> (\<forall>e \<in> set es. valid_name (de_name e))"
    and getattr_inv: "I w \<Longrightarrow> I (snd (prov_getattr prov p c w))"
    and read_dir_inv: "I w \<Longrightarrow> I (snd (prov_read_dir prov p c w))"
    and read_link_inv: "I w \<Longrightarrow> I (snd (prov_read_link prov p c w))"
    and open_inv: "I w \<Longrightarrow> I (snd (prov_open prov p flags c w))"
    and read_at_inv: "I w \<Longrightarrow> I (snd (prov_read_at prov h off sz c w))"
    and close_inv: "I w \<Longrightarrow> I (snd (prov_close prov h w))"
    and refresh_inv: "I w \<Longrightarrow> I (snd (prov_refresh prov po w))"
    and link_valid: "I w \<Longrightarrow> prov_read_link prov p c w = (Inr t, w') \<Longrightarrow> valid_target t"
begin

lemma lookup_inv: "I w \<Longrightarrow> I (snd (prov_lookup prov p n c w))"
  by (simp add: lookup_getattr getattr_inv split: sum.split)

lemma step_inv: "prov_step prov w w' \<Longrightarrow> I w \<Longrightarrow> I w'"
  by (induction rule: prov_step.induct)
     (simp_all add: lookup_inv getattr_inv read_dir_inv read_link_inv open_inv read_at_inv close_inv refresh_inv)

lemma reaches_inv: "prov_reaches prov w w' \<Longrightarrow> I w \<Longrightarrow> I w'"
  by (induction rule: rtranclp_induct) (auto intro: step_inv)

text \<open>Names in a listing are unique, so a client may address its entries by name.\<close>

lemma listing_unique:
  assumes "I w" "wf_path p" "prov_read_dir prov p c w = (Inr es, w')"
    and "e \<in> set es" "f \<in> set es" "de_name e = de_name f"
  shows "e = f"
proof -
  have "distinct (map de_name es)"
    using listing [OF assms(1-3)] strict_sorted_iff by blast
  with assms(4-6) show ?thesis by (meson distinct_map inj_onD)
qed

end

section \<open>The in-memory provider\<close>

datatype memory_content = MemDirectory | MemFile bytes | MemSymlink virtual_path_bytes | MemSpecial

record memory_node =
  mn_metadata :: virtual_metadata
  mn_content :: memory_content

text \<open>The hash map of nodes is iterated by \<^verbatim>\<open>read_dir\<close>: it is an association list, in hash order.\<close>

record memory =
  mem_nodes :: "(virtual_path \<times> memory_node) list"
  mem_next_handle :: u64

definition memory_new :: memory where
  "memory_new =
     \<lparr>mem_nodes = [(path_root, \<lparr>mn_metadata = metadata_directory (ascii ''root''), mn_content = MemDirectory\<rparr>)],
      mem_next_handle = 1\<rparr>"

definition memory_descriptor :: provider_descriptor where
  "memory_descriptor =
     \<lparr>pd_kind = InMemory, pd_consistency = Immutable, pd_source = None, pd_capabilities = READ_ONLY\<rparr>"

definition memory_insert :: "memory \<Rightarrow> virtual_path \<Rightarrow> memory_node \<Rightarrow> unit vfs_result \<times> memory" where
  "memory_insert m path nd =
     (if is_root path then (Inl (InvalidInput ''root cannot be replaced''), m)
      else (case path_parent path of
          None \<Rightarrow> (Inl (InvalidInput ''node has no parent''), m)
        | Some parent \<Rightarrow>
           (case map_of (mem_nodes m) parent of
              Some pn \<Rightarrow>
                (if file_type (mn_metadata pn) = Directory
                 then (Inr (), m\<lparr>mem_nodes := AList.update path nd (mem_nodes m)\<rparr>)
                 else (Inl NotDirectory, m))
            | None \<Rightarrow> (Inl NotFound, m))))"

definition add_directory :: "memory \<Rightarrow> virtual_path \<Rightarrow> bytes \<Rightarrow> unit vfs_result \<times> memory" where
  "add_directory m path i =
     memory_insert m path \<lparr>mn_metadata = metadata_directory i, mn_content = MemDirectory\<rparr>"

definition add_file :: "memory \<Rightarrow> virtual_path \<Rightarrow> bytes \<Rightarrow> bytes \<Rightarrow> unit vfs_result \<times> memory" where
  "add_file m path i content =
     memory_insert m path
       \<lparr>mn_metadata = metadata_file i (of_nat (length content)), mn_content = MemFile content\<rparr>"

definition add_symlink :: "memory \<Rightarrow> virtual_path \<Rightarrow> bytes \<Rightarrow> virtual_path_bytes \<Rightarrow> unit vfs_result \<times> memory" where
  "add_symlink m path i target =
     memory_insert m path
       \<lparr>mn_metadata = metadata_symlink i (of_nat (length (target_bytes target))),
        mn_content = MemSymlink target\<rparr>"

definition add_special ::
  "memory \<Rightarrow> virtual_path \<Rightarrow> bytes \<Rightarrow> virtual_file_type \<Rightarrow> u64 \<Rightarrow> unit vfs_result \<times> memory" where
  "add_special m path i t dev =
     (if \<not> is_special t then (Inl (InvalidInput ''node is not a special file''), m)
      else memory_insert m path \<lparr>mn_metadata = metadata_special i t dev, mn_content = MemSpecial\<rparr>)"

definition memory_node_at :: "memory \<Rightarrow> virtual_path \<Rightarrow> memory_node vfs_result" where
  "memory_node_at m path = ok_or NotFound (map_of (mem_nodes m) path)"

definition memory_getattr :: "virtual_path \<Rightarrow> request_context \<Rightarrow> memory \<Rightarrow> virtual_metadata vfs_result \<times> memory" where
  "memory_getattr path ctx m = (map_sum id mn_metadata (memory_node_at m path), m)"

definition memory_lookup ::
  "virtual_path \<Rightarrow> virtual_file_name \<Rightarrow> request_context \<Rightarrow> memory \<Rightarrow> virtual_metadata vfs_result \<times> memory" where
  "memory_lookup parent name ctx m =
     (case path_join parent name of
        Inl e \<Rightarrow> (Inl e, m)
      | Inr path \<Rightarrow> (map_sum id mn_metadata (memory_node_at m path), m))"

definition memory_read_dir ::
  "virtual_path \<Rightarrow> request_context \<Rightarrow> memory \<Rightarrow> virtual_directory_entry list vfs_result \<times> memory" where
  "memory_read_dir path ctx m =
     (case memory_node_at m path of
        Inl e \<Rightarrow> (Inl e, m)
      | Inr nd \<Rightarrow>
         (if file_type (mn_metadata nd) \<noteq> Directory then (Inl NotDirectory, m)
          else
            (let found = filter (\<lambda>(candidate, _). path_parent candidate = Some path) (mem_nodes m);
                 entries = map (\<lambda>(candidate, n).
                   \<lparr>de_name = the (file_name candidate), de_metadata = mn_metadata n\<rparr>) found
             in (Inr (sort_key de_name entries), m))))"

definition memory_read_link ::
  "virtual_path \<Rightarrow> request_context \<Rightarrow> memory \<Rightarrow> virtual_path_bytes vfs_result \<times> memory" where
  "memory_read_link path ctx m =
     (case memory_node_at m path of
        Inl e \<Rightarrow> (Inl e, m)
      | Inr nd \<Rightarrow>
         (case mn_content nd of
            MemSymlink target \<Rightarrow> (Inr target, m)
          | _ \<Rightarrow> (Inl (InvalidInput ''node is not a symlink''), m)))"

definition memory_open ::
  "(32 word \<Rightarrow> open_acc_mode) \<Rightarrow> virtual_path \<Rightarrow> 32 word \<Rightarrow> request_context \<Rightarrow> memory \<Rightarrow>
     provider_file_handle vfs_result \<times> memory" where
  "memory_open acc_mode path flags ctx m =
     (if \<not> is_read_only_open acc_mode flags then (Inl ReadOnly, m)
      else (case memory_node_at m path of
          Inl e \<Rightarrow> (Inl e, m)
        | Inr nd \<Rightarrow>
           (case file_type (mn_metadata nd) of
              RegularFile \<Rightarrow>
                (Inr \<lparr>pfh_id = mem_next_handle m, pfh_path = path,
                      content_generation = md_generation (mn_metadata nd)\<rparr>,
                 m\<lparr>mem_next_handle := mem_next_handle m + 1\<rparr>)
            | Directory \<Rightarrow> (Inl IsDirectory, m)
            | Symlink \<Rightarrow> (Inl (InvalidInput ''cannot open a symlink''), m)
            | _ \<Rightarrow> (Inl SpecialFile, m))))"

definition memory_read_at ::
  "provider_file_handle \<Rightarrow> u64 \<Rightarrow> u32 \<Rightarrow> request_context \<Rightarrow> memory \<Rightarrow> bytes vfs_result \<times> memory" where
  "memory_read_at h offset sz ctx m =
     (case memory_node_at m (pfh_path h) of
        Inl e \<Rightarrow> (Inl e, m)
      | Inr nd \<Rightarrow>
         (if md_generation (mn_metadata nd) \<noteq> content_generation h then (Inl Stale, m)
          else (case mn_content nd of
              MemFile content \<Rightarrow>
                (let start = min (unat offset) (length content);
                     stop = min (start + unat sz) (length content)
                 in (Inr (take (stop - start) (drop start content)), m))
            | _ \<Rightarrow> (Inl BadHandle, m))))"

definition memory_close :: "provider_file_handle \<Rightarrow> memory \<Rightarrow> unit vfs_result \<times> memory" where
  "memory_close h m = (Inr (), m)"

definition memory_refresh :: "virtual_path option \<Rightarrow> memory \<Rightarrow> unit vfs_result \<times> memory" where
  "memory_refresh p m = (Inr (), m)"

definition memory_provider :: "(32 word \<Rightarrow> open_acc_mode) \<Rightarrow> memory provider" where
  "memory_provider acc_mode =
     \<lparr>prov_descriptor = (\<lambda>_. memory_descriptor), prov_lookup = memory_lookup,
      prov_getattr = memory_getattr, prov_read_dir = memory_read_dir,
      prov_read_link = memory_read_link, prov_open = memory_open acc_mode,
      prov_read_at = memory_read_at, prov_close = memory_close, prov_refresh = memory_refresh\<rparr>"

lemmas memory_op_defs = memory_lookup_def memory_getattr_def memory_read_dir_def memory_read_link_def
  memory_open_def memory_read_at_def memory_close_def memory_refresh_def

subsection \<open>Its invariant and contract\<close>

lemma set_update_subset: "set (AList.update k v xs) \<subseteq> insert (k, v) (set xs)"
  by (induction xs) auto

definition valid_content :: "memory_content \<Rightarrow> bool" where
  "valid_content c = (case c of MemSymlink t \<Rightarrow> valid_target t | _ \<Rightarrow> True)"

lemma valid_content_simps [simp]:
  "valid_content MemDirectory" "valid_content (MemFile bs)" "valid_content MemSpecial"
  "valid_content (MemSymlink t) \<longleftrightarrow> valid_target t"
  by (simp_all add: valid_content_def)

definition memory_inv :: "memory \<Rightarrow> bool" where
  "memory_inv m \<longleftrightarrow>
     distinct (map fst (mem_nodes m)) \<and> (\<forall>(p, _) \<in> set (mem_nodes m). wf_path p) \<and>
     (\<forall>(_, nd) \<in> set (mem_nodes m). valid_content (mn_content nd)) \<and>
     (\<exists>nd. map_of (mem_nodes m) path_root = Some nd \<and> file_type (mn_metadata nd) = Directory)"

lemma memory_inv_new [simp]: "memory_inv memory_new"
  by (simp add: memory_inv_def memory_new_def metadata_defs)

lemma memory_insert_inv:
  assumes "memory_inv m" "wf_path p" "valid_content (mn_content nd)"
  shows "memory_inv (snd (memory_insert m p nd))"
  using assms set_update_subset [of p nd "mem_nodes m"]
  by (auto simp: memory_insert_def memory_inv_def distinct_update update_conv' is_root_wf
      simp del: map_of_eq_Some_iff split: option.splits)

lemma memory_add_inv:
  assumes "memory_inv m" "wf_path p"
  shows "memory_inv (snd (add_directory m p i))" "memory_inv (snd (add_file m p i bs))"
    "valid_target t \<Longrightarrow> memory_inv (snd (add_symlink m p i t))" "memory_inv (snd (add_special m p i ft dev))"
  using assms
  by (simp_all add: add_directory_def add_file_def add_symlink_def add_special_def memory_insert_inv)

lemma child_of_parent:
  assumes "wf_path q" "wf_path p"
  shows "path_parent q = Some p \<longleftrightarrow> (\<exists>n. components q = components p @ [n])"
proof
  assume "path_parent q = Some p"
  then have "components q \<noteq> []" "components p = butlast (components q)"
    using assms(1) by (simp_all add: path_parent_Some)
  then show "\<exists>n. components q = components p @ [n]" by (metis append_butlast_last_id)
next
  assume "\<exists>n. components q = components p @ [n]"
  with assms show "path_parent q = Some p" by (auto simp: path_parent_Some)
qed

lemma child_name: "components q = cs @ [n] \<Longrightarrow> file_name q = Some n"
  by (simp add: file_name_def)

text \<open>The children of a directory, before sorting.\<close>

definition memory_children :: "memory \<Rightarrow> virtual_path \<Rightarrow> virtual_directory_entry list" where
  "memory_children m p =
     map (\<lambda>(q, nd). \<lparr>de_name = the (file_name q), de_metadata = mn_metadata nd\<rparr>)
       (filter (\<lambda>(q, _). path_parent q = Some p) (mem_nodes m))"

lemma memory_read_dir_Inr:
  "memory_read_dir p c m = (Inr es, m') \<longleftrightarrow>
     (\<exists>nd. map_of (mem_nodes m) p = Some nd \<and> file_type (mn_metadata nd) = Directory) \<and>
     es = sort_key de_name (memory_children m p) \<and> m' = m"
  by (auto simp: memory_read_dir_def memory_node_at_def ok_or_def memory_children_def Let_def
      split: option.splits)

lemma memory_children_iff:
  assumes "memory_inv m" "wf_path p"
  shows "\<lparr>de_name = n, de_metadata = d\<rparr> \<in> set (memory_children m p) \<longleftrightarrow>
    (\<exists>q nd. (q, nd) \<in> set (mem_nodes m) \<and> components q = components p @ [n] \<and> mn_metadata nd = d)"
proof -
  have "path_parent q = Some p \<longleftrightarrow> (\<exists>n. components q = components p @ [n])" if "(q, nd) \<in> set (mem_nodes m)" for q nd
    using child_of_parent assms that by (auto simp: memory_inv_def)
  then show ?thesis by (fastforce simp: memory_children_def child_name image_iff)
qed

lemma memory_children_distinct:
  assumes "memory_inv m" "wf_path p"
  shows "distinct (map de_name (memory_children m p))"
proof -
  let ?xs = "filter (\<lambda>(q, _). path_parent q = Some p) (mem_nodes m)"
  have keys: "q = q'" if "(q, a) \<in> set ?xs" "(q', b) \<in> set ?xs" "file_name q = file_name q'" for q a q' b
  proof -
    have wf: "wf_path q" "wf_path q'" "path_parent q = Some p" "path_parent q' = Some p"
      using that assms(1) by (auto simp: memory_inv_def)
    then obtain n n' where "components q = components p @ [n]" "components q' = components p @ [n']"
      using child_of_parent assms(2) by blast
    then show ?thesis using that(3) wf by (auto simp: child_name intro: wf_path_eqI)
  qed
  have some: "file_name q \<noteq> None" if "(q, a) \<in> set ?xs" for q a
    using that by (auto simp: file_name_def path_parent_def is_root_def)
  have d: "distinct (map fst ?xs)" using assms(1) by (simp add: memory_inv_def distinct_map_filter)
  have "inj_on (\<lambda>(q, nd). the (file_name q)) (set ?xs)"
  proof (rule inj_onI)
    fix x y assume x: "x \<in> set ?xs" and y: "y \<in> set ?xs"
      and eq: "(\<lambda>(q, nd). the (file_name q)) x = (\<lambda>(q, nd). the (file_name q)) y"
    obtain q a q' b where xy: "x = (q, a)" "y = (q', b)" by (cases x, cases y)
    have "file_name q = file_name q'" using some x y eq xy by (metis case_prod_conv option.expand)
    with keys x y xy have "q = q'" by blast
    with d x y xy show "x = y" by (metis eq_key_imp_eq_value)
  qed
  moreover have "distinct ?xs" using d by (simp add: distinct_map)
  ultimately have "distinct (map (\<lambda>(q, nd). the (file_name q)) ?xs)" by (simp add: distinct_map)
  moreover have "map de_name (memory_children m p) = map (\<lambda>(q, nd). the (file_name q)) ?xs"
    by (simp add: memory_children_def comp_def case_prod_beta)
  ultimately show ?thesis by simp
qed

lemma memory_children_valid:
  assumes "memory_inv m" "wf_path p" "e \<in> set (memory_children m p)"
  shows "valid_name (de_name e)"
proof -
  obtain q nd where "(q, nd) \<in> set (mem_nodes m)" "components q = components p @ [de_name e]"
    using memory_children_iff [OF assms(1,2), of "de_name e" "de_metadata e"] assms(3)
    by (cases e) auto
  then show ?thesis using assms(1) by (auto simp: memory_inv_def wf_path_def)
qed

lemma sort_key_strict:
  assumes "distinct (map f xs)"
  shows "sorted_wrt (<) (map f (sort_key f xs))"
  using assms by (simp add: strict_sorted_iff distinct_map)

interpretation mem: readonly_provider acc_mode "memory_provider acc_mode" memory_inv
proof (unfold_locales, goal_cases)
  case (3 w h off sz c bs w')
  then show ?case
    by (auto simp: memory_provider_def memory_read_at_def Let_def split: sum.splits if_splits memory_content.splits)
next
  case (4 w p c es w')
  then have "es = sort_key de_name (memory_children w p)"
    by (simp add: memory_provider_def memory_read_dir_Inr)
  with 4 show ?case
    using memory_children_distinct memory_children_valid by (simp add: sort_key_strict)
next
  case (12 w p c t w')
  then obtain nd where "map_of (mem_nodes w) p = Some nd" "mn_content nd = MemSymlink t"
    by (auto simp: memory_provider_def memory_read_link_def memory_node_at_def ok_or_def
        split: option.splits memory_content.splits)
  with 12(1) show ?case by (auto simp: memory_inv_def dest!: map_of_SomeD)
qed (auto simp: memory_provider_def memory_op_defs memory_inv_def Let_def
    split: sum.splits if_splits virtual_file_type.splits memory_content.splits)

text \<open>A name is listed in a directory exactly when a lookup of it there succeeds, with the same metadata.\<close>

lemma memory_listing_lookup:
  assumes "memory_inv m" "wf_path p" "memory_read_dir p c m = (Inr es, m')"
  shows "\<lparr>de_name = n, de_metadata = d\<rparr> \<in> set es \<longleftrightarrow> fst (memory_lookup p n c' m) = Inr d"
proof -
  have d: "distinct (map fst (mem_nodes m))" "\<And>q nd. (q, nd) \<in> set (mem_nodes m) \<Longrightarrow> wf_path q"
    using assms(1) by (auto simp: memory_inv_def)
  have es: "set es = set (memory_children m p)" using assms(3) by (simp add: memory_read_dir_Inr)
  have "fst (memory_lookup p n c' m) = Inr d \<longleftrightarrow>
      (\<exists>q nd. path_join p n = Inr q \<and> map_of (mem_nodes m) q = Some nd \<and> mn_metadata nd = d)"
    by (auto simp: memory_lookup_def memory_node_at_def ok_or_def split: sum.splits option.splits)
  also have "\<dots> \<longleftrightarrow> (\<exists>q nd. path_join p n = Inr q \<and> (q, nd) \<in> set (mem_nodes m) \<and> mn_metadata nd = d)"
    using d(1) by (simp add: map_of_eq_Some_iff)
  also have "\<dots> \<longleftrightarrow> (\<exists>q nd. (q, nd) \<in> set (mem_nodes m) \<and> components q = components p @ [n] \<and> mn_metadata nd = d)"
    using d(2) by (metis from_components_components path_join_components path_join_def)
  finally show ?thesis using memory_children_iff [OF assms(1,2)] es by simp
qed

section \<open>Properties\<close>

text \<open>
  In the in-memory provider a name is listed in a directory exactly when a lookup of it there
  succeeds, with the same metadata.
\<close>

theorem memory_listing_agrees_with_lookup:
  assumes "memory_inv m" "wf_path p" "memory_read_dir p c m = (Inr es, m')"
  shows "\<lparr>de_name = n, de_metadata = d\<rparr> \<in> set es \<longleftrightarrow> fst (memory_lookup p n c' m) = Inr d"
  using assms by (rule memory_listing_lookup)

definition demo_context :: request_context where
  "demo_context = \<lparr>rc_uid = 0, rc_gid = 0, rc_pid = 0, rc_request_id = 0\<rparr>"

theorem memory_listing_agrees_with_lookup_witness:
  "memory_read_dir path_root demo_context memory_new = (Inr [], memory_new) \<and>
   fst (memory_lookup path_root (VirtualFileName [97]) demo_context memory_new) \<noteq> Inr (metadata_directory [])"
proof -
  have r: "memory_read_dir path_root demo_context memory_new = (Inr [], memory_new)"
    by (simp add: memory_read_dir_def memory_node_at_def ok_or_def memory_new_def metadata_defs
        path_parent_def is_root_def path_root_def Let_def)
  then show ?thesis
    using memory_listing_agrees_with_lookup [OF memory_inv_new wf_path_root r] by simp
qed

text \<open>
  A file that was added and then opened reads back its content: every read returns exactly the
  requested slice, cut at the end of the file, and opening needs read-only flags.
\<close>

theorem memory_file_reads_back:
  assumes "wf_path p" "add_file m p i content = (Inr (), m1)" "memory_open acc_mode p flags c m1 = (Inr h, m2)"
  shows "fst (memory_read_at h offset sz c' m2) = Inr (take (unat sz) (drop (unat offset) content)) \<and>
    is_read_only_open acc_mode flags"
proof -
  have m1: "map_of (mem_nodes m1) p =
      Some \<lparr>mn_metadata = metadata_file i (of_nat (length content)), mn_content = MemFile content\<rparr>"
    using assms(2) by (auto simp: add_file_def memory_insert_def update_conv' split: if_splits option.splits)
  then have "memory_node_at m1 p = Inr \<lparr>mn_metadata = metadata_file i (of_nat (length content)), mn_content = MemFile content\<rparr>"
    by (simp add: memory_node_at_def ok_or_def)
  moreover have "file_type (metadata_file i (of_nat (length content))) = RegularFile" by (simp add: metadata_defs)
  ultimately have h: "h = \<lparr>pfh_id = mem_next_handle m1, pfh_path = p,
        content_generation = md_generation (metadata_file i (of_nat (length content)))\<rparr>"
      "m2 = m1\<lparr>mem_next_handle := mem_next_handle m1 + 1\<rparr>" "is_read_only_open acc_mode flags"
    using assms(3) by (auto simp: memory_open_def split: if_splits)
  have "take (min (s + n) (length xs) - s) (drop s xs) = take n (drop s xs)" if "s \<le> length xs" for s n and xs :: bytes
    using that by (auto simp: min_def)
  then show ?thesis using h m1
    by (auto simp: memory_read_at_def memory_node_at_def ok_or_def Let_def min_def)
qed

definition path_a :: virtual_path where
  "path_a = \<lparr>components = [VirtualFileName [97]], byte_len_field = 2\<rparr>"

lemma wf_path_a [simp]: "wf_path path_a"
  by (simp add: path_a_def wf_path_def valid_name_def encoded_len_def Let_def MAX_NAME_BYTES_def
      DEFAULT_MAX_PATH_BYTES_def)

definition linux_acc_mode :: "32 word \<Rightarrow> open_acc_mode" where
  "linux_acc_mode flags =
     (if flags AND 3 = 1 then O_WRONLY else if flags AND 3 = 2 then O_RDWR else O_RDONLY)"

lemma path_parent_a: "path_parent path_a = Some path_root"
  by (simp add: path_parent_Some path_a_def wf_path_a [unfolded path_a_def])

definition demo_memory :: memory where
  "demo_memory = snd (add_file memory_new path_a [7] [1, 2, 3, 4])"

lemma demo_memory_add: "add_file memory_new path_a [7] [1, 2, 3, 4] = (Inr (), demo_memory)"
proof -
  have "\<not> is_root path_a" by (simp add: is_root_def path_a_def)
  then show ?thesis
    by (simp add: demo_memory_def add_file_def memory_insert_def path_parent_a memory_new_def metadata_defs)
qed

lemma demo_memory_inv [simp]: "memory_inv demo_memory"
  by (simp add: demo_memory_def memory_add_inv)

lemma memory_file_opens:
  "\<exists>h m2. memory_open linux_acc_mode path_a 0 demo_context demo_memory = (Inr h, m2)"
proof -
  have ro: "is_read_only_open linux_acc_mode 0" by (simp add: is_read_only_open_def linux_acc_mode_def)
  then show ?thesis
    by (simp add: demo_memory_def add_file_def memory_insert_def path_parent_a memory_new_def metadata_defs
        memory_open_def memory_node_at_def ok_or_def is_root_def)
      (simp add: path_a_def path_root_def)
qed

theorem memory_file_reads_back_witness:
  "\<exists>h m2. memory_open linux_acc_mode path_a 0 demo_context demo_memory = (Inr h, m2) \<and>
     fst (memory_read_at h 1 2 demo_context m2) = Inr [2, 3]"
proof -
  obtain h m2 where o: "memory_open linux_acc_mode path_a 0 demo_context demo_memory = (Inr h, m2)"
    using memory_file_opens by blast
  from memory_file_reads_back [OF wf_path_a demo_memory_add o, of 1 2 demo_context] o show ?thesis by auto
qed

end
