(* ===== verification/Namespace.thy ===== *)
theory Namespace
  imports Provider
begin

text \<open>
  The dynamic namespace (\<^verbatim>\<open>crates/tuxstack-vfs/src/namespace.rs\<close>): it routes an operation to the
  provider mounted at the deepest prefix of the path and owns the synthetic parent directories and
  the aliases. Its world is its own state together with the world of the mounted providers. The
  hash maps of mounts and aliases are iterated and therefore association lists, in hash order; the
  handle map is only read by key. A poisoned lock, the effect of a panic in another thread, is not
  modelled.
\<close>

record 'w mounted_provider =
  mp_key :: string
  mp_provider :: "'w provider"

record 'w open_route =
  or_provider :: "'w provider"
  or_inner :: provider_file_handle

record 'w resolved_namespace_provider =
  rn_key :: string
  rn_provider :: "'w provider"
  mount_path :: virtual_path
  relative_path :: virtual_path

record 'w namespace =
  ns_mounts :: "(virtual_path \<times> 'w mounted_provider) list"
  ns_aliases :: "(virtual_path \<times> virtual_path_bytes) list"
  ns_handles :: "u64 \<rightharpoonup> 'w open_route"
  ns_next_handle :: u64

definition namespace_new :: "'w namespace" where
  "namespace_new = \<lparr>ns_mounts = [], ns_aliases = [], ns_handles = Map.empty, ns_next_handle = 1\<rparr>"

definition ns_mount ::
  "virtual_path \<Rightarrow> string \<Rightarrow> 'w provider \<Rightarrow> 'w namespace \<Rightarrow> unit vfs_result \<times> 'w namespace" where
  "ns_mount path key prov ns =
     (if is_root path then (Inl (InvalidInput ''namespace root cannot be replaced''), ns)
      else (Inr (), ns\<lparr>ns_mounts := AList.update path \<lparr>mp_key = key, mp_provider = prov\<rparr> (ns_mounts ns)\<rparr>))"

definition ns_alias ::
  "virtual_path \<Rightarrow> virtual_path_bytes \<Rightarrow> 'w namespace \<Rightarrow> unit vfs_result \<times> 'w namespace" where
  "ns_alias path target ns =
     (if is_root path \<or> \<not> target_is_absolute target
      then (Inl (InvalidInput ''namespace alias must be absolute and non-root''), ns)
      else (Inr (), ns\<lparr>ns_aliases := AList.update path target (ns_aliases ns)\<rparr>))"

definition ns_unmount :: "virtual_path \<Rightarrow> 'w namespace \<Rightarrow> unit vfs_result \<times> 'w namespace" where
  "ns_unmount path ns =
     (Inr (), ns\<lparr>ns_mounts := AList.delete path (ns_mounts ns),
                 ns_aliases := filter (\<lambda>(a, _). \<not> path_starts_with a path) (ns_aliases ns)\<rparr>)"

definition ns_clear :: "'w namespace \<Rightarrow> unit vfs_result \<times> 'w namespace" where
  "ns_clear ns = (Inr (), ns\<lparr>ns_mounts := [], ns_aliases := []\<rparr>)"

text \<open>\<^verbatim>\<open>Iterator::max_by_key\<close>: the last of the elements with the greatest key.\<close>

fun max_by_key :: "('a \<Rightarrow> nat) \<Rightarrow> 'a list \<Rightarrow> 'a option" where
  "max_by_key f [] = None"
| "max_by_key f (x # xs) =
     (case max_by_key f xs of None \<Rightarrow> Some x | Some y \<Rightarrow> (if f x > f y then Some x else Some y))"

definition provider_at :: "'w namespace \<Rightarrow> virtual_path \<Rightarrow> 'w resolved_namespace_provider option" where
  "provider_at ns path =
     (case max_by_key (\<lambda>(pre, _). depth pre)
             (filter (\<lambda>(pre, _). path_starts_with path pre) (ns_mounts ns)) of
        None \<Rightarrow> None
      | Some (pre, mounted) \<Rightarrow>
          map_option (\<lambda>rel. \<lparr>rn_key = mp_key mounted, rn_provider = mp_provider mounted,
                             mount_path = pre, relative_path = rel\<rparr>)
            (path_strip_prefix path pre))"

definition synthetic_metadata :: "virtual_path \<Rightarrow> virtual_metadata" where
  "synthetic_metadata path =
     (let md = metadata_directory (path_as_bytes path)
      in md\<lparr>original := (original md)\<lparr>om_mode := octal3 5 5 5\<rparr>\<rparr>)"

definition alias_metadata :: "virtual_path \<Rightarrow> virtual_path_bytes \<Rightarrow> virtual_metadata" where
  "alias_metadata path target = metadata_symlink (path_as_bytes path) (of_nat (length (target_bytes target)))"

definition is_synthetic_directory :: "'w namespace \<Rightarrow> virtual_path \<Rightarrow> bool" where
  "is_synthetic_directory ns path \<longleftrightarrow>
     is_root path \<or> list_ex (\<lambda>(m, _). path_starts_with m path \<and> m \<noteq> path) (ns_mounts ns)"

definition alias_for :: "'w namespace \<Rightarrow> virtual_path \<Rightarrow> virtual_path_bytes option" where
  "alias_for ns path = map_of (ns_aliases ns) path"

text \<open>Running a provider operation inside the namespace's world.\<close>

definition on_provider :: "('w \<Rightarrow> 'a \<times> 'w) \<Rightarrow> 'w namespace \<times> 'w \<Rightarrow> 'a \<times> ('w namespace \<times> 'w)" where
  "on_provider f s = (let (r, w) = f (snd s) in (r, (fst s, w)))"

definition ns_metadata ::
  "virtual_path \<Rightarrow> request_context \<Rightarrow> 'w namespace \<times> 'w \<Rightarrow> virtual_metadata vfs_result \<times> ('w namespace \<times> 'w)" where
  "ns_metadata path ctx s =
     (case alias_for (fst s) path of
        Some target \<Rightarrow> (Inr (alias_metadata path target), s)
      | None \<Rightarrow>
         (case provider_at (fst s) path of
            Some r \<Rightarrow> on_provider (prov_getattr (rn_provider r) (relative_path r) ctx) s
          | None \<Rightarrow>
             (if is_synthetic_directory (fst s) path then (Inr (synthetic_metadata path), s)
              else (Inl NotFound, s))))"

definition namespace_descriptor :: provider_descriptor where
  "namespace_descriptor =
     \<lparr>pd_kind = InMemory, pd_consistency = Live, pd_source = Some ''tuxstackd namespace'',
      pd_capabilities = READ_ONLY\<rparr>"

definition ns_lookup ::
  "virtual_path \<Rightarrow> virtual_file_name \<Rightarrow> request_context \<Rightarrow> 'w namespace \<times> 'w \<Rightarrow>
     virtual_metadata vfs_result \<times> ('w namespace \<times> 'w)" where
  "ns_lookup parent name ctx s =
     (case path_join parent name of Inl e \<Rightarrow> (Inl e, s) | Inr path \<Rightarrow> ns_metadata path ctx s)"

definition ns_getattr ::
  "virtual_path \<Rightarrow> request_context \<Rightarrow> 'w namespace \<times> 'w \<Rightarrow> virtual_metadata vfs_result \<times> ('w namespace \<times> 'w)" where
  "ns_getattr path ctx s = ns_metadata path ctx s"

type_synonym children = "(virtual_file_name \<times> virtual_metadata) list"

fun collect_mounts ::
  "virtual_path \<Rightarrow> request_context \<Rightarrow> (virtual_path \<times> 'w mounted_provider) list \<Rightarrow> children \<Rightarrow> 'w \<Rightarrow>
     children vfs_result \<times> 'w" where
  "collect_mounts path ctx [] ch w = (Inr ch, w)"
| "collect_mounts path ctx ((m, mounted) # rest) ch w =
     (if path_parent m = Some path then
        (case file_name m of
           None \<Rightarrow> (Inl (InvalidInput ''mount has no name''), w)
         | Some name \<Rightarrow>
            (case prov_getattr (mp_provider mounted) path_root ctx w of
               (Inl e, w') \<Rightarrow> (Inl e, w')
             | (Inr md, w') \<Rightarrow> collect_mounts path ctx rest (btree_insert name md ch) w'))
      else if path_starts_with m path \<and> depth m > depth path then
        (let child = components m ! depth path
         in (case path_join path child of
               Inl e \<Rightarrow> (Inl e, w)
             | Inr child_path \<Rightarrow>
                collect_mounts path ctx rest (btree_or_insert child (synthetic_metadata child_path) ch) w))
      else collect_mounts path ctx rest ch w)"

fun collect_aliases ::
  "virtual_path \<Rightarrow> (virtual_path \<times> virtual_path_bytes) list \<Rightarrow> children \<Rightarrow> children vfs_result" where
  "collect_aliases path [] ch = Inr ch"
| "collect_aliases path ((a, target) # rest) ch =
     (if path_parent a = Some path then
        (case file_name a of
           None \<Rightarrow> Inl (InvalidInput ''alias has no name'')
         | Some name \<Rightarrow> collect_aliases path rest (btree_insert name (alias_metadata a target) ch))
      else collect_aliases path rest ch)"

definition ns_read_dir ::
  "virtual_path \<Rightarrow> request_context \<Rightarrow> 'w namespace \<times> 'w \<Rightarrow>
     virtual_directory_entry list vfs_result \<times> ('w namespace \<times> 'w)" where
  "ns_read_dir path ctx s =
     (case provider_at (fst s) path of
        Some r \<Rightarrow> on_provider (prov_read_dir (rn_provider r) (relative_path r) ctx) s
      | None \<Rightarrow>
         (if \<not> is_synthetic_directory (fst s) path then (Inl NotDirectory, s)
          else
            (case collect_mounts path ctx (ns_mounts (fst s)) [] (snd s) of
               (Inl e, w) \<Rightarrow> (Inl e, (fst s, w))
             | (Inr ch, w) \<Rightarrow>
                (case collect_aliases path (ns_aliases (fst s)) ch of
                   Inl e \<Rightarrow> (Inl e, (fst s, w))
                 | Inr ch' \<Rightarrow>
                    (Inr (map (\<lambda>(n, md). \<lparr>de_name = n, de_metadata = md\<rparr>) ch'), (fst s, w))))))"

definition anchor_target :: "virtual_path \<Rightarrow> virtual_path_bytes \<Rightarrow> virtual_path_bytes vfs_result" where
  "anchor_target mnt target =
     (if \<not> target_is_absolute target then Inr target
      else (case from_absolute (target_bytes target) of
          Inl e \<Rightarrow> Inl e
        | Inr provider_target \<Rightarrow>
           (case from_components (components mnt @ components provider_target) of
              Inl e \<Rightarrow> Inl e
            | Inr anchored \<Rightarrow> virtual_path_bytes_new (path_as_bytes anchored))))"

definition ns_read_link ::
  "virtual_path \<Rightarrow> request_context \<Rightarrow> 'w namespace \<times> 'w \<Rightarrow> virtual_path_bytes vfs_result \<times> ('w namespace \<times> 'w)" where
  "ns_read_link path ctx s =
     (case alias_for (fst s) path of
        Some target \<Rightarrow> (Inr target, s)
      | None \<Rightarrow>
         (case provider_at (fst s) path of
            None \<Rightarrow> (Inl (InvalidInput ''node is not a symlink''), s)
          | Some r \<Rightarrow>
             (case on_provider (prov_read_link (rn_provider r) (relative_path r) ctx) s of
                (Inl e, s') \<Rightarrow> (Inl e, s')
              | (Inr target, s') \<Rightarrow> (anchor_target (mount_path r) target, s'))))"

definition ns_open ::
  "virtual_path \<Rightarrow> 32 word \<Rightarrow> request_context \<Rightarrow> 'w namespace \<times> 'w \<Rightarrow>
     provider_file_handle vfs_result \<times> ('w namespace \<times> 'w)" where
  "ns_open path flags ctx s =
     (case provider_at (fst s) path of
        None \<Rightarrow> (Inl (if is_synthetic_directory (fst s) path then IsDirectory else NotFound), s)
      | Some r \<Rightarrow>
         (case on_provider (prov_open (rn_provider r) (relative_path r) flags ctx) s of
            (Inl e, s') \<Rightarrow> (Inl e, s')
          | (Inr inner, (ns, w)) \<Rightarrow>
             (let i = ns_next_handle ns
              in (Inr \<lparr>pfh_id = i, pfh_path = path, content_generation = content_generation inner\<rparr>,
                  (ns\<lparr>ns_next_handle := i + 1,
                      ns_handles := (ns_handles ns)(i \<mapsto> \<lparr>or_provider = rn_provider r, or_inner = inner\<rparr>)\<rparr>,
                   w)))))"

definition ns_read_at ::
  "provider_file_handle \<Rightarrow> u64 \<Rightarrow> u32 \<Rightarrow> request_context \<Rightarrow> 'w namespace \<times> 'w \<Rightarrow>
     bytes vfs_result \<times> ('w namespace \<times> 'w)" where
  "ns_read_at h offset sz ctx s =
     (case ns_handles (fst s) (pfh_id h) of
        None \<Rightarrow> (Inl BadHandle, s)
      | Some r \<Rightarrow> on_provider (prov_read_at (or_provider r) (or_inner r) offset sz ctx) s)"

definition ns_close :: "provider_file_handle \<Rightarrow> 'w namespace \<times> 'w \<Rightarrow> unit vfs_result \<times> ('w namespace \<times> 'w)" where
  "ns_close h s =
     (case ns_handles (fst s) (pfh_id h) of
        None \<Rightarrow> (Inl BadHandle, s)
      | Some r \<Rightarrow>
         on_provider (prov_close (or_provider r) (or_inner r))
           ((fst s)\<lparr>ns_handles := (ns_handles (fst s))(pfh_id h := None)\<rparr>, snd s))"

fun refresh_all :: "'w provider list \<Rightarrow> 'w \<Rightarrow> unit vfs_result \<times> 'w" where
  "refresh_all [] w = (Inr (), w)"
| "refresh_all (p # ps) w =
     (case prov_refresh p None w of (Inl e, w') \<Rightarrow> (Inl e, w') | (Inr _, w') \<Rightarrow> refresh_all ps w')"

definition ns_refresh :: "virtual_path option \<Rightarrow> 'w namespace \<times> 'w \<Rightarrow> unit vfs_result \<times> ('w namespace \<times> 'w)" where
  "ns_refresh po s =
     (case Option.bind po (provider_at (fst s)) of
        Some r \<Rightarrow> on_provider (prov_refresh (rn_provider r) (Some (relative_path r))) s
      | None \<Rightarrow> on_provider (refresh_all (map (\<lambda>(_, m). mp_provider m) (ns_mounts (fst s)))) s)"

definition namespace_provider :: "('w namespace \<times> 'w) provider" where
  "namespace_provider =
     \<lparr>prov_descriptor = (\<lambda>_. namespace_descriptor), prov_lookup = ns_lookup,
      prov_getattr = ns_getattr, prov_read_dir = ns_read_dir, prov_read_link = ns_read_link,
      prov_open = ns_open, prov_read_at = ns_read_at, prov_close = ns_close,
      prov_refresh = ns_refresh\<rparr>"

section \<open>Routing\<close>

definition ns_inv :: "'w namespace \<Rightarrow> bool" where
  "ns_inv ns \<longleftrightarrow>
     distinct (map fst (ns_mounts ns)) \<and> (\<forall>(p, _) \<in> set (ns_mounts ns). wf_path p \<and> \<not> is_root p) \<and>
     distinct (map fst (ns_aliases ns)) \<and>
     (\<forall>(p, t) \<in> set (ns_aliases ns). wf_path p \<and> \<not> is_root p \<and> target_is_absolute t \<and> valid_target t)"

lemma ns_invD:
  assumes "ns_inv ns"
  shows "distinct (map fst (ns_mounts ns))" "(p, m) \<in> set (ns_mounts ns) \<Longrightarrow> wf_path p \<and> \<not> is_root p"
    "distinct (map fst (ns_aliases ns))"
    "(p, t) \<in> set (ns_aliases ns) \<Longrightarrow> wf_path p \<and> \<not> is_root p \<and> target_is_absolute t \<and> valid_target t"
  using assms by (auto simp: ns_inv_def)

lemma namespace_new_inv [simp]: "ns_inv namespace_new"
  by (simp add: ns_inv_def namespace_new_def)

lemma ns_mount_inv: "ns_inv ns \<Longrightarrow> wf_path p \<Longrightarrow> ns_inv (snd (ns_mount p k prov ns))"
  using set_update_subset [of p "\<lparr>mp_key = k, mp_provider = prov\<rparr>" "ns_mounts ns"]
  by (auto simp: ns_inv_def ns_mount_def distinct_update)

lemma ns_alias_inv: "ns_inv ns \<Longrightarrow> wf_path p \<Longrightarrow> valid_target t \<Longrightarrow> ns_inv (snd (ns_alias p t ns))"
  using set_update_subset [of p t "ns_aliases ns"]
  by (auto simp: ns_inv_def ns_alias_def distinct_update)

lemma ns_unmount_inv: "ns_inv ns \<Longrightarrow> ns_inv (snd (ns_unmount p ns))"
  by (auto simp: ns_inv_def ns_unmount_def AList.delete_eq distinct_map_filter)

lemma ns_clear_inv: "ns_inv ns \<Longrightarrow> ns_inv (snd (ns_clear ns))"
  by (simp add: ns_inv_def ns_clear_def)

lemma max_by_key_None [simp]: "max_by_key f xs = None \<longleftrightarrow> xs = []"
  by (cases xs) (auto split: option.splits)

lemma max_by_key_Some: "max_by_key f xs = Some y \<Longrightarrow> y \<in> set xs \<and> (\<forall>x \<in> set xs. f x \<le> f y)"
  by (induction xs arbitrary: y) (fastforce split: option.splits if_splits)+

lemma provider_at_None: "provider_at ns p = None \<longleftrightarrow> (\<forall>(q, m) \<in> set (ns_mounts ns). \<not> path_starts_with p q)"
proof -
  let ?xs = "filter (\<lambda>(pre, _). path_starts_with p pre) (ns_mounts ns)"
  have strip: "path_strip_prefix p q \<noteq> None" if "path_starts_with p q" for q
    using that by (simp add: path_strip_prefix_def)
  have "provider_at ns p = None \<longleftrightarrow> ?xs = []"
  proof (cases "max_by_key (\<lambda>(pre, _). depth pre) ?xs")
    case None
    then show ?thesis by (simp only: max_by_key_None) (simp add: provider_at_def)
  next
    case (Some y)
    obtain q m where y: "y = (q, m)" by (cases y)
    have "path_starts_with p q" using max_by_key_Some [OF Some] by (auto simp: y)
    moreover have "?xs \<noteq> []" using max_by_key_Some [OF Some] by (metis empty_iff list.set(1))
    ultimately show ?thesis using strip [of q] Some by (simp add: provider_at_def y)
  qed
  then show ?thesis by (auto simp: filter_empty_conv)
qed

text \<open>The route of a path depends on the set of mounts only, and the deepest mount wins.\<close>

definition routes_to :: "'w namespace \<Rightarrow> virtual_path \<Rightarrow> 'w resolved_namespace_provider \<Rightarrow> bool" where
  "routes_to ns p r \<longleftrightarrow>
     (mount_path r, \<lparr>mp_key = rn_key r, mp_provider = rn_provider r\<rparr>) \<in> set (ns_mounts ns) \<and>
     (\<forall>(q, m) \<in> set (ns_mounts ns). path_starts_with p q \<longrightarrow> depth q \<le> depth (mount_path r)) \<and>
     wf_path (relative_path r) \<and>
     components p = components (mount_path r) @ components (relative_path r)"

lemma provider_at_routes:
  assumes "wf_path p" "provider_at ns p = Some r"
  shows "routes_to ns p r"
proof -
  obtain pre m where mx: "max_by_key (\<lambda>(pre, _). depth pre)
      (filter (\<lambda>(pre, _). path_starts_with p pre) (ns_mounts ns)) = Some (pre, m)"
    using assms(2) by (auto simp: provider_at_def split: option.splits)
  then have strip: "path_strip_prefix p pre = Some (relative_path r)" "rn_key r = mp_key m"
      "rn_provider r = mp_provider m" "mount_path r = pre"
    using assms(2) by (auto simp: provider_at_def)
  obtain k pr where "m = \<lparr>mp_key = k, mp_provider = pr\<rparr>" by (cases m)
  then show ?thesis
    using max_by_key_Some [OF mx] strip path_strip_prefix_Some [OF assms(1), of pre "relative_path r"]
    by (auto simp: routes_to_def)
qed

lemma routes_toD:
  assumes "routes_to ns p r"
  shows "(mount_path r, \<lparr>mp_key = rn_key r, mp_provider = rn_provider r\<rparr>) \<in> set (ns_mounts ns)"
    "(q, m) \<in> set (ns_mounts ns) \<Longrightarrow> path_starts_with p q \<Longrightarrow> depth q \<le> depth (mount_path r)"
    "wf_path (relative_path r)"
    "components p = components (mount_path r) @ components (relative_path r)"
    "path_starts_with p (mount_path r)"
  using assms by (auto simp: routes_to_def path_starts_with_def)

lemma routes_to_unique:
  assumes "ns_inv ns" "routes_to ns p r" "routes_to ns p r'"
  shows "r = r'"
proof -
  note r = routes_toD [OF assms(2)] and r' = routes_toD [OF assms(3)] and inv = ns_invD [OF assms(1)]
  have "depth (mount_path r) = depth (mount_path r')"
    using r(2) [OF r'(1,5)] r'(2) [OF r(1,5)] by simp
  then have c: "components (mount_path r) = components (mount_path r')"
    using r(4) r'(4) by (auto simp: depth_def)
  then have m: "mount_path r = mount_path r'"
    using inv(2) [OF r(1)] inv(2) [OF r'(1)] by (auto intro: wf_path_eqI)
  moreover have "relative_path r = relative_path r'"
    using r(3,4) r'(3,4) c by (auto intro: wf_path_eqI)
  moreover have "rn_key r = rn_key r' \<and> rn_provider r = rn_provider r'"
    using eq_key_imp_eq_value [OF inv(1) r(1), of "\<lparr>mp_key = rn_key r', mp_provider = rn_provider r'\<rparr>"] r'(1) m
    by simp
  ultimately show ?thesis by simp
qed

lemma provider_at_iff:
  assumes "ns_inv ns" "wf_path p"
  shows "provider_at ns p = Some r \<longleftrightarrow> routes_to ns p r"
proof
  assume r: "routes_to ns p r"
  have "path_starts_with p (mount_path r)" by (rule routes_toD(5) [OF r])
  with r have "provider_at ns p \<noteq> None"
    unfolding provider_at_None routes_to_def by blast
  then show "provider_at ns p = Some r"
    using provider_at_routes [OF assms(2)] routes_to_unique [OF assms(1) _ r] by auto
qed (rule provider_at_routes [OF assms(2)])

section \<open>Listing a synthetic directory\<close>

text \<open>
  \<open>child_entry\<close> says which name a synthetic directory shows and with which metadata: the root of a
  provider mounted right there, or a synthetic directory that leads to a deeper mount.
\<close>

definition direct_mount :: "virtual_path \<Rightarrow> (virtual_path \<times> 'w mounted_provider) list \<Rightarrow> virtual_file_name \<Rightarrow> bool" where
  "direct_mount p ms n \<longleftrightarrow> (\<exists>(m, _) \<in> set ms. components m = components p @ [n])"

definition deeper_mount :: "virtual_path \<Rightarrow> (virtual_path \<times> 'w mounted_provider) list \<Rightarrow> virtual_file_name \<Rightarrow> bool" where
  "deeper_mount p ms n \<longleftrightarrow> (\<exists>(m, _) \<in> set ms. strict_prefix (components p @ [n]) (components m))"

definition child_entry ::
  "virtual_path \<Rightarrow> request_context \<Rightarrow> (virtual_path \<times> 'w mounted_provider) list \<Rightarrow> 'w \<Rightarrow>
     virtual_file_name \<Rightarrow> virtual_metadata \<Rightarrow> bool" where
  "child_entry p ctx ms w n md \<longleftrightarrow>
     (\<exists>(m, mp) \<in> set ms. components m = components p @ [n] \<and>
        fst (prov_getattr (mp_provider mp) path_root ctx w) = Inr md) \<or>
     \<not> direct_mount p ms n \<and> deeper_mount p ms n \<and>
     (\<exists>q. path_join p n = Inr q \<and> md = synthetic_metadata q)"

definition stable_roots :: "request_context \<Rightarrow> (virtual_path \<times> 'w mounted_provider) list \<Rightarrow> 'w \<Rightarrow> bool" where
  "stable_roots ctx ms w \<longleftrightarrow>
     (\<forall>(m, mp) \<in> set ms. snd (prov_getattr (mp_provider mp) path_root ctx w) = w)"

lemma prefix_child:
  assumes "strict_prefix xs ys"
  shows "prefix (xs @ [ys ! length xs]) ys"
proof -
  obtain z zs where "ys = xs @ z # zs" using assms by (rule strict_prefixE')
  then show ?thesis by simp
qed

lemma child_entry_direct:
  assumes "distinct (map fst (ms @ [(m, mp)]))" "\<forall>(q, _) \<in> set (ms @ [(m, mp)]). wf_path q"
    and m: "components m = components p @ [n]" "fst (prov_getattr (mp_provider mp) path_root ctx w) = Inr md"
  shows "child_entry p ctx (ms @ [(m, mp)]) w k d \<longleftrightarrow> (if k = n then d = md else child_entry p ctx ms w k d)"
proof -
  have "components q \<noteq> components p @ [n]" if "(q, x) \<in> set ms" for q x
    using that assms(1,2) m(1) by (force dest: wf_path_eqI [of q m])
  moreover have "\<not> strict_prefix (components p @ [k]) (components m)"
    using m(1) by (auto simp: strict_prefix_def prefix_def)
  ultimately show ?thesis
    using m by (auto simp: child_entry_def direct_mount_def deeper_mount_def)
qed

lemma child_entry_deeper:
  assumes m: "strict_prefix (components p @ [n]) (components m)" and q: "path_join p n = Inr q"
  shows "child_entry p ctx (ms @ [(m, mp)]) w k d \<longleftrightarrow>
    (if k = n \<and> \<not> direct_mount p ms n then d = synthetic_metadata q else child_entry p ctx ms w k d)"
proof -
  have n: "components m \<noteq> components p @ [k]" for k using m by (auto simp: strict_prefix_def prefix_def)
  have k: "strict_prefix (components p @ [k]) (components m) \<longleftrightarrow> k = n" for k
    using m by (auto simp: strict_prefix_def prefix_def)
  show ?thesis
    using q by (auto simp: child_entry_def direct_mount_def deeper_mount_def n k)
qed

lemma child_entry_other:
  assumes "\<And>k. \<not> prefix (components p @ [k]) (components m)"
  shows "child_entry p ctx (ms @ [(m, mp)]) w k d \<longleftrightarrow> child_entry p ctx ms w k d"
proof -
  have "components m \<noteq> components p @ [k]" "\<not> strict_prefix (components p @ [k]) (components m)" for k
    using assms [of k] by auto
  then show ?thesis by (auto simp: child_entry_def direct_mount_def deeper_mount_def)
qed

lemma child_entry_unique_direct:
  assumes "child_entry p ctx ms w n d" "direct_mount p ms n" shows
    "\<exists>(m, mp) \<in> set ms. components m = components p @ [n] \<and>
        fst (prov_getattr (mp_provider mp) path_root ctx w) = Inr d"
  using assms by (auto simp: child_entry_def)

lemma collect_mounts_entries:
  assumes "distinct (map fst (done @ ms))" "\<forall>(q, _) \<in> set (done @ ms). wf_path q" "wf_path p"
    and "stable_roots ctx ms w"
    and "\<And>n md. map_of ch n = Some md \<longleftrightarrow> child_entry p ctx done w n md"
    and "\<And>n. direct_mount p done n \<Longrightarrow> map_of ch n \<noteq> None"
    and "collect_mounts p ctx ms ch w = (Inr ch', w')"
  shows "w' = w \<and> (\<forall>n md. map_of ch' n = Some md \<longleftrightarrow> child_entry p ctx (done @ ms) w n md)"
  using assms
proof (induction ms arbitrary: "done" ch)
  case Nil
  then show ?case by simp
next
  case (Cons x ms)
  obtain m mp where x: "x = (m, mp)" by (cases x)
  have wfm: "wf_path m" using Cons.prems(2) x by auto
  have shape: "distinct (map fst ((done @ [x]) @ ms))" "\<forall>(q, _) \<in> set ((done @ [x]) @ ms). wf_path q"
    "stable_roots ctx ms w" "distinct (map fst (done @ [(m, mp)]))" "\<forall>(q, _) \<in> set (done @ [(m, mp)]). wf_path q"
    using Cons.prems(1,2,4) x by (auto simp: stable_roots_def)
  note IH = Cons.IH [OF shape(1,2) Cons.prems(3) shape(3)]
  note ch = Cons.prems(5) and dir = Cons.prems(6) and run = Cons.prems(7) [unfolded x]
  consider (direct) n where "components m = components p @ [n]"
    | (deeper) n where "strict_prefix (components p @ [n]) (components m)"
    | (other) "\<And>k. \<not> prefix (components p @ [k]) (components m)"
    by (metis prefix_order.le_less)
  then show ?case
  proof cases
    case direct
    then have par: "path_parent m = Some p" "file_name m = Some n"
      using child_of_parent [OF wfm Cons.prems(3)] by (auto simp: child_name)
    obtain md where md: "prov_getattr (mp_provider mp) path_root ctx w = (Inr md, w)"
      using run par Cons.prems(4) x
      by (cases "prov_getattr (mp_provider mp) path_root ctx w") (auto simp: stable_roots_def split: sum.splits)
    have run': "collect_mounts p ctx ms (btree_insert n md ch) w = (Inr ch', w')"
      using run par md by simp
    have "w' = w \<and> (\<forall>n md. map_of ch' n = Some md \<longleftrightarrow> child_entry p ctx ((done @ [x]) @ ms) w n md)"
    proof (rule IH [OF _ _ run'])
      show "map_of (btree_insert n md ch) k = Some d \<longleftrightarrow> child_entry p ctx (done @ [x]) w k d" for k d
        using child_entry_direct [OF shape(4,5) direct, of ctx w md k d] ch [of k d] md x by auto
      show "map_of (btree_insert n md ch) k \<noteq> None" if "direct_mount p (done @ [x]) k" for k
        using that dir [of k] direct x by (auto simp: direct_mount_def)
    qed
    then show ?thesis by simp
  next
    case deeper
    have ne: "path_parent m \<noteq> Some p"
      using child_of_parent [OF wfm Cons.prems(3)] deeper by (auto simp: strict_prefix_def prefix_def)
    have below: "path_starts_with m p" "depth m > depth p" "components m ! depth p = n"
      using deeper by (auto simp: path_starts_with_def depth_def strict_prefix_def prefix_def nth_append)
    obtain q where q: "path_join p n = Inr q"
      using run ne below by (auto simp: Let_def split: sum.splits)
    have run': "collect_mounts p ctx ms (btree_or_insert n (synthetic_metadata q) ch) w = (Inr ch', w')"
      using run ne below q by (simp add: Let_def)
    have synth: "child_entry p ctx done w n d \<Longrightarrow> \<not> direct_mount p done n \<Longrightarrow> d = synthetic_metadata q" for d
      using q by (auto simp: child_entry_def direct_mount_def)
    have "w' = w \<and> (\<forall>n md. map_of ch' n = Some md \<longleftrightarrow> child_entry p ctx ((done @ [x]) @ ms) w n md)"
    proof (rule IH [OF _ _ run'])
      show "map_of (btree_or_insert n (synthetic_metadata q) ch) k = Some d \<longleftrightarrow> child_entry p ctx (done @ [x]) w k d" for k d
        using child_entry_deeper [OF deeper q, of ctx "done" mp w k d] ch [of k d] dir [of n] synth x
          ch [of n] by (cases "k = n"; cases "map_of ch n") auto
      show "map_of (btree_or_insert n (synthetic_metadata q) ch) k \<noteq> None" if "direct_mount p (done @ [x]) k" for k
        using that dir [of k] deeper x by (auto simp: direct_mount_def strict_prefix_def prefix_def)
    qed
    then show ?thesis by simp
  next
    case other
    have ne: "path_parent m \<noteq> Some p"
      using child_of_parent [OF wfm Cons.prems(3)] other by fastforce
    have "\<not> (path_starts_with m p \<and> depth m > depth p)"
    proof
      assume below: "path_starts_with m p \<and> depth m > depth p"
      then have "strict_prefix (components p) (components m)"
        by (auto simp: path_starts_with_def depth_def strict_prefix_def)
      then show False using prefix_child other by blast
    qed
    then have run': "collect_mounts p ctx ms ch w = (Inr ch', w')"
      using run ne by auto
    have "w' = w \<and> (\<forall>n md. map_of ch' n = Some md \<longleftrightarrow> child_entry p ctx ((done @ [x]) @ ms) w n md)"
    proof (rule IH [OF _ _ run'])
      show "map_of ch k = Some d \<longleftrightarrow> child_entry p ctx (done @ [x]) w k d" for k d
        using child_entry_other [OF other, of ctx "done" mp w k d] ch [of k d] x by simp
      show "map_of ch k \<noteq> None" if "direct_mount p (done @ [x]) k" for k
        using that dir [of k] other [of k] x by (auto simp: direct_mount_def)
    qed
    then show ?thesis by simp
  qed
qed

lemma collect_aliases_Inr:
  assumes "\<forall>(a, _) \<in> set as. wf_path a"
  shows "\<exists>ch'. collect_aliases p as ch = Inr ch'"
  using assms
proof (induction as arbitrary: ch)
  case (Cons x as)
  obtain a t where x: "x = (a, t)" by (cases x)
  have "file_name a \<noteq> None" if "path_parent a = Some p"
    using that by (auto simp: file_name_def path_parent_def is_root_def)
  then show ?case using Cons by (auto simp: x)
qed simp

lemma collect_aliases_entries:
  assumes "distinct (map fst as)" "\<forall>(a, _) \<in> set as. wf_path a" "wf_path p"
    and "collect_aliases p as ch = Inr ch'"
  shows "map_of ch' n = Some md \<longleftrightarrow>
    (\<exists>(a, t) \<in> set as. components a = components p @ [n] \<and> md = alias_metadata a t) \<or>
    (\<forall>(a, t) \<in> set as. components a \<noteq> components p @ [n]) \<and> map_of ch n = Some md"
  using assms
proof (induction as arbitrary: ch)
  case Nil
  then show ?case by simp
next
  case (Cons x as)
  obtain a t where x: "x = (a, t)" by (cases x)
  have wfa: "wf_path a" "distinct (map fst as)" "\<forall>(a, _) \<in> set as. wf_path a"
    using Cons.prems x by auto
  note IH = Cons.IH [OF wfa(2,3) Cons.prems(3)]
  have other: "components b \<noteq> components a" if "(b, u) \<in> set as" for b u
    using that Cons.prems(1) wfa x by (force dest: wf_path_eqI [of b a])
  show ?case
  proof (cases "\<exists>k. components a = components p @ [k]")
    case True
    then obtain k where k: "components a = components p @ [k]" by blast
    then have "collect_aliases p as (btree_insert k (alias_metadata a t) ch) = Inr ch'"
      using Cons.prems(4) x child_of_parent [OF wfa(1) Cons.prems(3)] by (simp add: child_name)
    from IH [OF this] k other show ?thesis by (cases "n = k") (auto simp: x)
  next
    case False
    then have "collect_aliases p as ch = Inr ch'"
      using Cons.prems(4) x child_of_parent [OF wfa(1) Cons.prems(3)] by (simp split: if_splits)
    from IH [OF this] False show ?thesis by (auto simp: x)
  qed
qed

lemma collect_sorted:
  "collect_mounts p ctx ms ch w = (Inr ch', w') \<Longrightarrow> sorted_wrt (<) (map fst ch) \<Longrightarrow>
     sorted_wrt (<) (map fst ch')"
  "collect_aliases p as ch = Inr ch' \<Longrightarrow> sorted_wrt (<) (map fst ch) \<Longrightarrow> sorted_wrt (<) (map fst ch')"
  subgoal
    by (induction p ctx ms ch w rule: collect_mounts.induct)
      (auto simp: Let_def sorted_btree_insert sorted_btree_or_insert
        split: if_splits option.splits prod.splits sum.splits)
  subgoal
    by (induction p as ch rule: collect_aliases.induct)
      (auto simp: sorted_btree_insert split: if_splits option.splits)
  done

lemma ns_read_dir_synthetic:
  assumes "ns_inv ns" "wf_path p" "provider_at ns p = None" "stable_roots ctx (ns_mounts ns) w"
    and "ns_read_dir p ctx (ns, w) = (Inr es, s')"
  shows "s' = (ns, w)"
    and "\<lparr>de_name = n, de_metadata = md\<rparr> \<in> set es \<longleftrightarrow>
      (\<exists>(a, t) \<in> set (ns_aliases ns). components a = components p @ [n] \<and> md = alias_metadata a t) \<or>
      (\<forall>(a, t) \<in> set (ns_aliases ns). components a \<noteq> components p @ [n]) \<and>
      child_entry p ctx (ns_mounts ns) w n md"
proof -
  note inv = ns_invD [OF assms(1)]
  obtain ch w' ch' where ch: "collect_mounts p ctx (ns_mounts ns) [] w = (Inr ch, w')"
      "collect_aliases p (ns_aliases ns) ch = Inr ch'" "s' = (ns, w')"
      "es = map (\<lambda>(n, md). \<lparr>de_name = n, de_metadata = md\<rparr>) ch'"
    using assms(3,5) by (auto simp: ns_read_dir_def split: if_splits prod.splits sum.splits)
  have wf: "\<forall>(q, _) \<in> set (ns_mounts ns). wf_path q" "\<forall>(q, _) \<in> set (ns_aliases ns). wf_path q"
    using inv(2,4) by auto
  have c: "w' = w" "\<And>n md. map_of ch n = Some md \<longleftrightarrow> child_entry p ctx (ns_mounts ns) w n md"
    using collect_mounts_entries [of "[]" "ns_mounts ns" p ctx w "[]" ch w'] inv(1) wf(1) assms(2,4) ch(1)
    by (auto simp: child_entry_def direct_mount_def deeper_mount_def)
  show "s' = (ns, w)" using c(1) ch(3) by simp
  have "sorted_wrt (<) (map fst ch')"
    using collect_sorted(2) [OF ch(2)] collect_sorted(1) [OF ch(1)] by simp
  then have "\<lparr>de_name = n, de_metadata = md\<rparr> \<in> set es \<longleftrightarrow> map_of ch' n = Some md"
    using btree_map_of [of ch' n md] by (force simp: ch(4) image_iff)
  then show "\<lparr>de_name = n, de_metadata = md\<rparr> \<in> set es \<longleftrightarrow>
      (\<exists>(a, t) \<in> set (ns_aliases ns). components a = components p @ [n] \<and> md = alias_metadata a t) \<or>
      (\<forall>(a, t) \<in> set (ns_aliases ns). components a \<noteq> components p @ [n]) \<and>
      child_entry p ctx (ns_mounts ns) w n md"
    using collect_aliases_entries [OF inv(3) wf(2) assms(2) ch(2)] c(2) by simp
qed

text \<open>Looking a child of a synthetic directory up, on the same description of the children.\<close>

lemma path_join_eq:
  assumes "path_join p n = Inr q" "wf_path a"
  shows "components a = components p @ [n] \<longleftrightarrow> a = q"
  using assms(1) from_components_components [OF assms(2)] path_join_components [OF assms(1)]
  by (auto simp: path_join_def)

lemma provider_at_child:
  assumes "ns_inv ns" "provider_at ns p = None" "path_join p n = Inr q" "wf_path q"
  shows "direct_mount p (ns_mounts ns) n \<Longrightarrow>
      \<exists>mp. (q, mp) \<in> set (ns_mounts ns) \<and>
        provider_at ns q = Some \<lparr>rn_key = mp_key mp, rn_provider = mp_provider mp, mount_path = q, relative_path = path_root\<rparr>"
    and "\<not> direct_mount p (ns_mounts ns) n \<Longrightarrow> provider_at ns q = None"
proof -
  have q: "components q = components p @ [n]" using assms(3) by (rule path_join_components)
  note inv = ns_invD [OF assms(1)]
  have pre: "(m, x) \<in> set (ns_mounts ns) \<Longrightarrow> path_starts_with q m \<Longrightarrow> m = q" for m x
    using assms(2) inv(2) [of m x] assms(4) q
    by (fastforce simp: provider_at_None path_starts_with_def intro: wf_path_eqI)
  show "provider_at ns q = None" if "\<not> direct_mount p (ns_mounts ns) n"
    using that pre q by (fastforce simp: provider_at_None direct_mount_def)
  assume "direct_mount p (ns_mounts ns) n"
  then obtain m mp where m: "(m, mp) \<in> set (ns_mounts ns)" "components m = components q"
    by (auto simp: direct_mount_def q)
  then have mq: "m = q" using inv(2) [OF m(1)] assms(4) by (auto intro: wf_path_eqI)
  obtain k pr where mp: "mp = \<lparr>mp_key = k, mp_provider = pr\<rparr>" by (cases mp)
  have "routes_to ns q \<lparr>rn_key = mp_key mp, rn_provider = mp_provider mp, mount_path = q, relative_path = path_root\<rparr>"
    using m(1) mq mp by (auto simp: routes_to_def path_starts_with_def depth_def dest: prefix_length_le)
  then show "\<exists>mp. (q, mp) \<in> set (ns_mounts ns) \<and>
      provider_at ns q = Some \<lparr>rn_key = mp_key mp, rn_provider = mp_provider mp, mount_path = q, relative_path = path_root\<rparr>"
    using m(1) mq provider_at_iff [OF assms(1,4)] by blast
qed

lemma synthetic_child:
  assumes "ns_inv ns" "path_join p n = Inr q" "wf_path q"
  shows "is_synthetic_directory ns q \<longleftrightarrow> deeper_mount p (ns_mounts ns) n"
proof -
  have q: "components q = components p @ [n]" using assms(2) by (rule path_join_components)
  have "path_starts_with m q \<and> m \<noteq> q \<longleftrightarrow> strict_prefix (components q) (components m)"
    if "(m, x) \<in> set (ns_mounts ns)" for m x
    using ns_invD(2) [OF assms(1) that] assms(3)
    by (auto simp: path_starts_with_def strict_prefix_def intro: wf_path_eqI)
  then show ?thesis
    by (fastforce simp: is_synthetic_directory_def deeper_mount_def list_ex_iff is_root_def q)
qed

lemma ns_lookup_child:
  assumes "ns_inv ns" "wf_path p" "valid_name n" "provider_at ns p = None" "path_join p n = Inr q"
  shows "fst (ns_lookup p n ctx (ns, w)) = Inr md \<longleftrightarrow>
      (\<exists>(a, t) \<in> set (ns_aliases ns). components a = components p @ [n] \<and> md = alias_metadata a t) \<or>
      (\<forall>(a, t) \<in> set (ns_aliases ns). components a \<noteq> components p @ [n]) \<and>
      child_entry p ctx (ns_mounts ns) w n md"
proof -
  note inv = ns_invD [OF assms(1)]
  have wfq: "wf_path q" using assms(2,3,5) by (rule path_join_wf)
  have alias_key: "components a = components p @ [n] \<longleftrightarrow> a = q" if "(a, t) \<in> set (ns_aliases ns)" for a t
    using path_join_eq [OF assms(5)] inv(4) [OF that] by blast
  have mount_key: "components a = components p @ [n] \<longleftrightarrow> a = q" if "(a, t) \<in> set (ns_mounts ns)" for a t
    using path_join_eq [OF assms(5)] inv(2) [OF that] by blast
  show ?thesis
  proof (cases "alias_for ns q")
    case (Some t)
    then have t: "(q, t) \<in> set (ns_aliases ns)" by (auto simp: alias_for_def dest: map_of_SomeD)
    have u: "(q, t') \<in> set (ns_aliases ns) \<Longrightarrow> t' = t" for t'
      using Some inv(3) by (auto simp: alias_for_def)
    have "fst (ns_lookup p n ctx (ns, w)) = Inr md \<longleftrightarrow> md = alias_metadata q t"
      using Some assms(5) by (auto simp: ns_lookup_def ns_metadata_def)
    moreover have "(\<exists>(a, t) \<in> set (ns_aliases ns). components a = components p @ [n] \<and> md = alias_metadata a t)
        \<longleftrightarrow> md = alias_metadata q t" (is "?L \<longleftrightarrow> ?R")
    proof
      assume ?L
      then obtain a t' where a: "(a, t') \<in> set (ns_aliases ns)" "components a = components p @ [n]"
          "md = alias_metadata a t'" by blast
      with alias_key [OF a(1)] u show ?R by simp
    next
      assume ?R
      with t alias_key [OF t] show ?L by blast
    qed
    moreover have "\<not> (\<forall>(a, t) \<in> set (ns_aliases ns). components a \<noteq> components p @ [n])"
      using t alias_key [OF t] by blast
    ultimately show ?thesis by blast
  next
    case None
    then have na: "\<forall>(a, t) \<in> set (ns_aliases ns). components a \<noteq> components p @ [n]"
      using alias_key by (force simp: alias_for_def map_of_eq_None_iff)
    have "fst (ns_lookup p n ctx (ns, w)) = Inr md \<longleftrightarrow> child_entry p ctx (ns_mounts ns) w n md"
    proof (cases "direct_mount p (ns_mounts ns) n")
      case True
      then obtain mp where mp: "(q, mp) \<in> set (ns_mounts ns)"
          "provider_at ns q = Some \<lparr>rn_key = mp_key mp, rn_provider = mp_provider mp, mount_path = q, relative_path = path_root\<rparr>"
        using provider_at_child(1) [OF assms(1,4,5) wfq] by blast
      have "fst (ns_lookup p n ctx (ns, w)) = fst (prov_getattr (mp_provider mp) path_root ctx w)"
        using None mp(2) assms(5) by (simp add: ns_lookup_def ns_metadata_def on_provider_def case_prod_beta)
      moreover have "child_entry p ctx (ns_mounts ns) w n md \<longleftrightarrow>
          fst (prov_getattr (mp_provider mp) path_root ctx w) = Inr md"
      proof
        assume "child_entry p ctx (ns_mounts ns) w n md"
        then obtain m mp' where m: "(m, mp') \<in> set (ns_mounts ns)" "components m = components p @ [n]"
            "fst (prov_getattr (mp_provider mp') path_root ctx w) = Inr md"
          using True unfolding child_entry_def by blast
        then have "m = q" using mount_key by blast
        with m eq_key_imp_eq_value [OF inv(1) mp(1)] show "fst (prov_getattr (mp_provider mp) path_root ctx w) = Inr md"
          by metis
      next
        assume "fst (prov_getattr (mp_provider mp) path_root ctx w) = Inr md"
        then show "child_entry p ctx (ns_mounts ns) w n md"
          using mp(1) mount_key [OF mp(1)] unfolding child_entry_def by blast
      qed
      ultimately show ?thesis by simp
    next
      case False
      then have "provider_at ns q = None" using provider_at_child(2) [OF assms(1,4,5) wfq] by blast
      then show ?thesis
        using None False assms(5) synthetic_child [OF assms(1,5) wfq]
        by (auto simp: ns_lookup_def ns_metadata_def child_entry_def direct_mount_def)
    qed
    with na show ?thesis by blast
  qed
qed

lemma ns_listing_lookup:
  assumes "ns_inv ns" "wf_path p" "valid_name n" "provider_at ns p = None"
    and "stable_roots ctx (ns_mounts ns) w" "ns_read_dir p ctx (ns, w) = (Inr es, s')"
  shows "\<lparr>de_name = n, de_metadata = md\<rparr> \<in> set es \<longleftrightarrow> fst (ns_lookup p n ctx (ns, w)) = Inr md"
proof (cases "path_join p n")
  case (Inr q)
  then show ?thesis
    using ns_read_dir_synthetic(2) [OF assms(1,2,4,5,6)] ns_lookup_child [OF assms(1-4) Inr] by simp
next
  case (Inl e)
  have big: "\<not> prefix (components p @ [n]) (components m)" if "wf_path m" for m
  proof
    assume "prefix (components p @ [n]) (components m)"
    then obtain k where "take k (components m) = components p @ [n]"
      by (metis append_eq_conv_conj prefix_def)
    then show False using Inl parent_no_panic [OF that, of k] by (simp add: path_join_def)
  qed
  then have "\<not> child_entry p ctx (ns_mounts ns) w n md" "\<forall>(a, t) \<in> set (ns_aliases ns). components a \<noteq> components p @ [n]"
    using ns_invD(2,4) [OF assms(1)] Inl
    by (fastforce simp: child_entry_def deeper_mount_def)+
  then show ?thesis
    using ns_read_dir_synthetic(2) [OF assms(1,2,4,5,6)] Inl by (fastforce simp: ns_lookup_def)
qed

section \<open>The namespace keeps the provider contract\<close>

text \<open>
  \<open>J\<close> is an invariant of the world shared by the mounted providers. When every provider that is
  mounted or behind an open handle keeps the contract for \<open>J\<close>, so does the namespace.
\<close>

definition ns_lawful :: "(32 word \<Rightarrow> open_acc_mode) \<Rightarrow> ('w \<Rightarrow> bool) \<Rightarrow> 'w namespace \<Rightarrow> bool" where
  "ns_lawful acc_mode J ns \<longleftrightarrow>
     (\<forall>(_, m) \<in> set (ns_mounts ns). readonly_provider acc_mode (mp_provider m) J) \<and>
     (\<forall>r \<in> ran (ns_handles ns). readonly_provider acc_mode (or_provider r) J)"

definition ns_ok :: "(32 word \<Rightarrow> open_acc_mode) \<Rightarrow> ('w \<Rightarrow> bool) \<Rightarrow> 'w namespace \<times> 'w \<Rightarrow> bool" where
  "ns_ok acc_mode J s \<longleftrightarrow> ns_inv (fst s) \<and> ns_lawful acc_mode J (fst s) \<and> J (snd s)"

lemma provider_at_mounted:
  assumes "provider_at ns p = Some r"
  shows "\<exists>m. (mount_path r, m) \<in> set (ns_mounts ns) \<and> mp_provider m = rn_provider r \<and>
    path_strip_prefix p (mount_path r) = Some (relative_path r)"
  using assms by (auto simp: provider_at_def split: option.splits dest!: max_by_key_Some)

lemma route_lawful:
  assumes "ns_ok acc_mode J s" "provider_at (fst s) p = Some r"
  shows "readonly_provider acc_mode (rn_provider r) J"
  using provider_at_mounted [OF assms(2)] assms(1) by (auto simp: ns_ok_def ns_lawful_def)

lemma handle_lawful:
  assumes "ns_ok acc_mode J s" "ns_handles (fst s) i = Some r"
  shows "readonly_provider acc_mode (or_provider r) J"
  using assms by (auto simp: ns_ok_def ns_lawful_def intro: ranI)

lemma on_provider_ok:
  assumes "ns_ok acc_mode J s" "J (snd s) \<Longrightarrow> J (snd (f (snd s)))"
  shows "ns_ok acc_mode J (snd (on_provider f s))"
  using assms by (simp add: ns_ok_def on_provider_def case_prod_beta)

lemma on_provider_Inr: "on_provider f s = (r, s') \<longleftrightarrow> f (snd s) = (r, snd s') \<and> fst s' = fst s"
  by (cases s') (auto simp: on_provider_def split: prod.splits)

lemma collect_mounts_inv:
  assumes "\<forall>(_, m) \<in> set ms. readonly_provider acc_mode (mp_provider m) J" "J w"
  shows "J (snd (collect_mounts p ctx ms ch w))"
  using assms
proof (induction p ctx ms ch w rule: collect_mounts.induct)
  case (2 p ctx m mounted rest ch w)
  have "J (snd (prov_getattr (mp_provider mounted) path_root ctx w))"
    using 2(4,5) by (auto intro: readonly_provider.getattr_inv)
  then show ?case
    using 2 by (auto simp: Let_def split: option.splits prod.splits sum.splits)
qed simp

definition all_valid :: "children \<Rightarrow> bool" where
  "all_valid ch \<longleftrightarrow> (\<forall>n \<in> fst ` set ch. valid_name n)"

lemma all_valid_insert: "all_valid (btree_insert n v ch) \<longleftrightarrow> valid_name n \<and> all_valid ch"
  unfolding all_valid_def fst_set_btree_insert by simp

lemma all_valid_or_insert: "all_valid ch \<Longrightarrow> valid_name n \<Longrightarrow> all_valid (btree_or_insert n v ch)"
  by (simp add: btree_or_insert_def all_valid_insert)

lemma wf_path_valid:
  assumes "wf_path (m :: virtual_path)"
  shows "file_name m = Some n \<Longrightarrow> valid_name n" "i < depth m \<Longrightarrow> valid_name (components m ! i)"
  using assms by (auto simp: wf_path_def file_name_def depth_def split: if_splits)

lemma collect_mounts_valid:
  "collect_mounts p ctx ms ch w = (Inr ch', w') \<Longrightarrow> \<forall>(m, _) \<in> set ms. wf_path m \<Longrightarrow>
     all_valid ch \<Longrightarrow> all_valid ch'"
proof (induction ms arbitrary: ch w)
  case (Cons x ms)
  obtain m mp where x: "x = (m, mp)" by (cases x)
  have wf: "wf_path m" "\<forall>(m, _) \<in> set ms. wf_path m" using Cons.prems(2) x by auto
  note IH = Cons.IH [OF _ wf(2)] and run = Cons.prems(1) [unfolded x]
  show ?case
  proof (cases "path_parent m = Some p")
    case True
    then obtain n md w1 where "file_name m = Some n" "collect_mounts p ctx ms (btree_insert n md ch) w1 = (Inr ch', w')"
      using run by (auto split: option.splits prod.splits sum.splits)
    with IH [of "btree_insert n md ch" w1] wf_path_valid(1) [OF wf(1)] Cons.prems(3) show ?thesis
      by (simp add: all_valid_insert)
  next
    case False
    show ?thesis
    proof (cases "path_starts_with m p \<and> depth m > depth p")
      case True
      then obtain q where "collect_mounts p ctx ms
          (btree_or_insert (components m ! depth p) (synthetic_metadata q) ch) w = (Inr ch', w')"
        using run False by (auto simp: Let_def split: sum.splits)
      then show ?thesis
        using IH wf_path_valid(2) [OF wf(1), of "depth p"] True Cons.prems(3) all_valid_or_insert by blast
    next
      case no: False
      then have "collect_mounts p ctx ms ch w = (Inr ch', w')" using run False by auto
      then show ?thesis using IH Cons.prems(3) by blast
    qed
  qed
qed simp

lemma collect_aliases_valid:
  "collect_aliases p as ch = Inr ch' \<Longrightarrow> \<forall>(m, _) \<in> set as. wf_path m \<Longrightarrow> all_valid ch \<Longrightarrow> all_valid ch'"
  by (induction p as ch rule: collect_aliases.induct)
    (auto simp: all_valid_insert dest: wf_path_valid(1) split: if_splits option.splits)

lemma ns_listing_sorted:
  assumes "ns_ok acc_mode J s" "wf_path p" "ns_read_dir p c s = (Inr es, s')"
  shows "sorted_wrt (<) (map de_name es) \<and> (\<forall>e \<in> set es. valid_name (de_name e))"
proof (cases "provider_at (fst s) p")
  case (Some r)
  have "prov_read_dir (rn_provider r) (relative_path r) c (snd s) = (Inr es, snd s')"
    using Some assms(3) by (simp add: ns_read_dir_def on_provider_Inr)
  moreover have "wf_path (relative_path r)"
    using provider_at_routes [OF assms(2) Some] by (simp add: routes_to_def)
  moreover have "J (snd s)" using assms(1) by (simp add: ns_ok_def)
  ultimately show ?thesis
    using readonly_provider.listing [OF route_lawful [OF assms(1) Some]] by blast
next
  case None
  obtain ch w' ch' where ch: "collect_mounts p c (ns_mounts (fst s)) [] (snd s) = (Inr ch, w')"
      "collect_aliases p (ns_aliases (fst s)) ch = Inr ch'"
      "es = map (\<lambda>(n, md). \<lparr>de_name = n, de_metadata = md\<rparr>) ch'"
    using None assms(3) by (auto simp: ns_read_dir_def split: if_splits prod.splits sum.splits)
  have wf: "\<forall>(q, _) \<in> set (ns_mounts (fst s)). wf_path q" "\<forall>(q, _) \<in> set (ns_aliases (fst s)). wf_path q"
    using assms(1) by (auto simp: ns_ok_def ns_inv_def)
  have names: "map de_name es = map fst ch'" by (auto simp: ch(3))
  moreover have "sorted_wrt (<) (map fst ch')"
    using collect_sorted(2) [OF ch(2)] collect_sorted(1) [OF ch(1)] by simp
  moreover have "all_valid ch'"
    using collect_aliases_valid [OF ch(2) wf(2)] collect_mounts_valid [OF ch(1) wf(1)]
    by (simp add: all_valid_def)
  moreover have "de_name ` set es = fst ` set ch'" using names by (metis list.set_map)
  ultimately show ?thesis unfolding all_valid_def by (metis imageI)
qed

lemma refresh_all_inv:
  assumes "\<forall>p \<in> set ps. readonly_provider acc_mode p J" "J w"
  shows "J (snd (refresh_all ps w))"
  using assms
proof (induction ps w rule: refresh_all.induct)
  case (2 p ps w)
  have "J (snd (prov_refresh p None w))" using 2(2,3) by (auto intro: readonly_provider.refresh_inv)
  then show ?case using 2 by (auto split: prod.splits sum.splits)
qed simp

lemma ns_open_ok:
  assumes "ns_ok acc_mode J s"
  shows "ns_ok acc_mode J (snd (ns_open p flags c s))"
proof (cases "provider_at (fst s) p")
  case None
  with assms show ?thesis by (simp add: ns_open_def)
next
  case (Some r)
  let ?o = "on_provider (prov_open (rn_provider r) (relative_path r) flags c) s"
  have "ns_ok acc_mode J (snd ?o)"
    using on_provider_ok [OF assms] readonly_provider.open_inv [OF route_lawful [OF assms Some]] by blast
  moreover have "fst (snd ?o) = fst s" by (simp add: on_provider_def case_prod_beta)
  moreover have "ran ((ns_handles ns)(i \<mapsto> x)) \<subseteq> insert x (ran (ns_handles ns))" for ns :: "'a namespace" and i x
    by (auto simp: ran_def)
  ultimately show ?thesis
    using Some route_lawful [OF assms Some]
    by (cases ?o) (fastforce simp: ns_open_def ns_ok_def ns_lawful_def ns_inv_def Let_def split: sum.splits)
qed

lemma ns_close_ok:
  assumes "ns_ok acc_mode J s"
  shows "ns_ok acc_mode J (snd (ns_close h s))"
proof (cases "ns_handles (fst s) (pfh_id h)")
  case None
  with assms show ?thesis by (simp add: ns_close_def)
next
  case (Some r)
  have "ns_ok acc_mode J ((fst s)\<lparr>ns_handles := (ns_handles (fst s))(pfh_id h := None)\<rparr>, snd s)"
    using assms by (auto simp: ns_ok_def ns_lawful_def ns_inv_def ran_def)
  then have "ns_ok acc_mode J (snd (on_provider (prov_close (or_provider r) (or_inner r))
      ((fst s)\<lparr>ns_handles := (ns_handles (fst s))(pfh_id h := None)\<rparr>, snd s)))"
    using readonly_provider.close_inv [OF handle_lawful [OF assms Some]] by (rule on_provider_ok) simp
  with Some show ?thesis by (simp add: ns_close_def)
qed

interpretation ns: readonly_provider acc_mode namespace_provider "ns_ok acc_mode J"
proof (unfold_locales, goal_cases)
  case (1 w p n c)
  show ?case by (simp add: namespace_provider_def ns_lookup_def ns_getattr_def split: sum.split)
next
  case (2 w p flags c h w')
  then obtain r inner w1 where r: "provider_at (fst w) p = Some r"
      "prov_open (rn_provider r) (relative_path r) flags c (snd w) = (Inr inner, w1)"
    by (auto simp: namespace_provider_def ns_open_def on_provider_def Let_def
        split: option.splits prod.splits sum.splits)
  then show ?case
    using readonly_provider.open_read_only [OF route_lawful [OF 2(1) r(1)]] 2(1) by (auto simp: ns_ok_def)
next
  case (3 w h off sz c bs w')
  then obtain r where r: "ns_handles (fst w) (pfh_id h) = Some r"
      "prov_read_at (or_provider r) (or_inner r) off sz c (snd w) = (Inr bs, snd w')"
    by (auto simp: namespace_provider_def ns_read_at_def on_provider_Inr split: option.splits)
  then show ?case
    using readonly_provider.read_bounded [OF handle_lawful [OF 3(1) r(1)]] 3(1) by (auto simp: ns_ok_def)
next
  case (4 w p c es w')
  then show ?case using ns_listing_sorted by (simp add: namespace_provider_def)
next
  case (5 w p c)
  then show ?case
    using readonly_provider.getattr_inv [OF route_lawful [OF 5]]
    by (auto simp: namespace_provider_def ns_getattr_def ns_metadata_def intro!: on_provider_ok split: option.split)
next
  case (6 w p c)
  have "J (snd (collect_mounts p c (ns_mounts (fst w)) [] (snd w)))"
    using 6 collect_mounts_inv [of "ns_mounts (fst w)" acc_mode J] by (simp add: ns_ok_def ns_lawful_def)
  then have own: "ns_ok acc_mode J (fst w, snd (collect_mounts p c (ns_mounts (fst w)) [] (snd w)))"
    using 6 by (simp add: ns_ok_def)
  show ?case
  proof (cases "provider_at (fst w) p")
    case (Some r)
    have "ns_ok acc_mode J (snd (on_provider (prov_read_dir (rn_provider r) (relative_path r) c) w))"
      using on_provider_ok [OF 6] readonly_provider.read_dir_inv [OF route_lawful [OF 6 Some]] by blast
    with Some show ?thesis by (simp add: namespace_provider_def ns_read_dir_def)
  next
    case None
    with own 6 show ?thesis
      by (auto simp: namespace_provider_def ns_read_dir_def split: prod.splits sum.splits)
  qed
next
  case (7 w p c)
  have "ns_ok acc_mode J (snd (on_provider (prov_read_link (rn_provider r) (relative_path r) c) w))"
    if "provider_at (fst w) p = Some r" for r
    using on_provider_ok [OF 7] readonly_provider.read_link_inv [OF route_lawful [OF 7 that]] by blast
  then show ?case using 7
    by (auto simp: namespace_provider_def ns_read_link_def split: option.split prod.splits sum.splits)
next
  case (8 w p flags c)
  then show ?case using ns_open_ok by (simp add: namespace_provider_def)
next
  case (9 w h off sz c)
  then show ?case
    using readonly_provider.read_at_inv [OF handle_lawful [OF 9]]
    by (auto simp: namespace_provider_def ns_read_at_def intro!: on_provider_ok split: option.split)
next
  case (10 w h)
  then show ?case using ns_close_ok by (simp add: namespace_provider_def)
next
  case (11 w po)
  have "\<forall>p \<in> set (map (\<lambda>(_, m). mp_provider m) (ns_mounts (fst w))). readonly_provider acc_mode p J"
    using 11 by (auto simp: ns_ok_def ns_lawful_def)
  from refresh_all_inv [OF this] show ?case
    using readonly_provider.refresh_inv [OF route_lawful [OF 11]] 11
    by (auto simp: namespace_provider_def ns_refresh_def intro!: on_provider_ok split: option.split bind_splits)
next
  case (12 w p c t w')
  show ?case
  proof (cases "alias_for (fst w) p")
    case (Some a)
    then have "a = t" "(p, a) \<in> set (ns_aliases (fst w))"
      using 12(2) by (auto simp: namespace_provider_def ns_read_link_def alias_for_def dest: map_of_SomeD)
    then show ?thesis using 12(1) ns_invD(4) by (auto simp: ns_ok_def)
  next
    case None
    obtain r t1 w1 where r: "provider_at (fst w) p = Some r"
        "prov_read_link (rn_provider r) (relative_path r) c (snd w) = (Inr t1, w1)" "anchor_target (mount_path r) t1 = Inr t"
      using 12(2) None
      by (auto simp: namespace_provider_def ns_read_link_def on_provider_def split: option.splits prod.splits sum.splits)
    have "valid_target t1"
      using readonly_provider.link_valid [OF route_lawful [OF 12(1) r(1)] _ r(2)] 12(1) by (simp add: ns_ok_def)
    then show ?thesis using r(3)
      by (auto simp: anchor_target_def virtual_path_bytes_new_Inr split: if_splits sum.splits)
  qed
qed

section \<open>Links and handles\<close>

text \<open>An absolute link target of a provider is resolved below that provider's mount point.\<close>

lemma anchor_target_absolute:
  assumes "wf_path mnt" "target_is_absolute t" "anchor_target mnt t = Inr t'"
  shows "\<exists>q a. from_absolute (target_bytes t) = Inr q \<and> target_bytes t' = path_as_bytes a \<and> wf_path a \<and>
    components a = components mnt @ components q"
proof -
  obtain q a where q: "from_absolute (target_bytes t) = Inr q"
      "from_components (components mnt @ components q) = Inr a" "virtual_path_bytes_new (path_as_bytes a) = Inr t'"
    using assms(2,3) by (auto simp: anchor_target_def split: sum.splits)
  have "wf_path q" using q(1) by (rule from_absolute_wf)
  then have "wf_path a" "components a = components mnt @ components q"
    using q(2) assms(1) by (auto simp: from_components_Inr wf_path_def)
  then show ?thesis using q by (auto simp: virtual_path_bytes_new_Inr)
qed

text \<open>
  Handle numbers below the counter are in use or closed, so while the counter has not come round a
  new handle never captures an old one.
\<close>

definition handles_below :: "'w namespace \<Rightarrow> bool" where
  "handles_below ns \<longleftrightarrow> (\<forall>i \<in> dom (ns_handles ns). i < ns_next_handle ns)"

lemma ns_open_handle:
  assumes "handles_below ns" "ns_next_handle ns < ns_next_handle ns + 1"
    and "ns_open p flags ctx (ns, w) = (Inr h, (ns', w'))"
  shows "ns_handles ns (pfh_id h) = None" "handles_below ns'"
    "\<exists>r inner. provider_at ns p = Some r \<and> prov_open (rn_provider r) (relative_path r) flags ctx w = (Inr inner, w') \<and>
       ns_handles ns' = (ns_handles ns)(pfh_id h \<mapsto> \<lparr>or_provider = rn_provider r, or_inner = inner\<rparr>) \<and>
       pfh_path h = p \<and> content_generation h = content_generation inner"
proof -
  obtain r inner where r: "provider_at ns p = Some r"
      "prov_open (rn_provider r) (relative_path r) flags ctx w = (Inr inner, w')"
      "h = \<lparr>pfh_id = ns_next_handle ns, pfh_path = p, content_generation = content_generation inner\<rparr>"
      "ns' = ns\<lparr>ns_next_handle := ns_next_handle ns + 1,
         ns_handles := (ns_handles ns)(ns_next_handle ns \<mapsto> \<lparr>or_provider = rn_provider r, or_inner = inner\<rparr>)\<rparr>"
    using assms(3) by (auto simp: ns_open_def on_provider_def Let_def split: option.splits prod.splits sum.splits)
  show "ns_handles ns (pfh_id h) = None"
    using assms(1) by (force simp: handles_below_def r(3))
  show "handles_below ns'"
    using assms(1,2) by (auto simp: handles_below_def r(4) dest: order.strict_trans)
  show "\<exists>r inner. provider_at ns p = Some r \<and> prov_open (rn_provider r) (relative_path r) flags ctx w = (Inr inner, w') \<and>
       ns_handles ns' = (ns_handles ns)(pfh_id h \<mapsto> \<lparr>or_provider = rn_provider r, or_inner = inner\<rparr>) \<and>
       pfh_path h = p \<and> content_generation h = content_generation inner"
    using r by auto
qed

lemma ns_close_handle:
  assumes "ns_close h (ns, w) = (res, (ns', w'))"
  shows "ns_handles ns' = (ns_handles ns)(pfh_id h := None)"
    and "ns_mounts ns' = ns_mounts ns" "ns_aliases ns' = ns_aliases ns"
  using assms by (auto simp: ns_close_def on_provider_def split: option.splits prod.splits)

section \<open>Properties\<close>

text \<open>
  A path is routed to the deepest mount that is a prefix of it, with the rest of the path as the
  provider-relative path, and the route does not depend on the iteration order of the mount table.
\<close>

theorem namespace_routes_deepest:
  assumes "ns_inv ns" "wf_path p" "ns_inv ns'" "set (ns_mounts ns') = set (ns_mounts ns)"
  shows "(provider_at ns p = Some r \<longleftrightarrow> routes_to ns p r) \<and> provider_at ns' p = provider_at ns p"
proof -
  have "routes_to ns' p x \<longleftrightarrow> routes_to ns p x" for x by (simp add: routes_to_def assms(4))
  then have "provider_at ns' p = Some x \<longleftrightarrow> provider_at ns p = Some x" for x
    using provider_at_iff [OF assms(1,2)] provider_at_iff [OF assms(3,2)] by simp
  then have "provider_at ns' p = provider_at ns p" by (cases "provider_at ns' p") (metis not_None_eq)+
  then show ?thesis using provider_at_iff [OF assms(1,2)] by simp
qed

definition demo_ns :: "memory namespace" where
  "demo_ns = snd (ns_mount path_a ''vol'' (memory_provider linux_acc_mode) namespace_new)"

lemma demo_ns_inv [simp]: "ns_inv demo_ns"
  by (simp add: demo_ns_def ns_mount_inv)

lemma demo_ns_mounts:
  "ns_mounts demo_ns = [(path_a, \<lparr>mp_key = ''vol'', mp_provider = memory_provider linux_acc_mode\<rparr>)]"
  "ns_aliases demo_ns = []" "ns_handles demo_ns = Map.empty" "ns_next_handle demo_ns = 1"
  by (simp_all add: demo_ns_def ns_mount_def namespace_new_def is_root_def path_a_def)

theorem namespace_routes_deepest_witness:
  "\<exists>r. provider_at demo_ns path_ab = Some r \<and> mount_path r = path_a \<and> components (relative_path r) = [VirtualFileName [98]]"
proof -
  have "path_starts_with path_ab path_a" by (simp add: path_starts_with_def path_a_def path_ab_def)
  then obtain r where r: "provider_at demo_ns path_ab = Some r"
    using provider_at_None [of demo_ns path_ab] by (cases "provider_at demo_ns path_ab") (auto simp: demo_ns_mounts)
  then have "routes_to demo_ns path_ab r"
    using namespace_routes_deepest [of demo_ns path_ab demo_ns r] by simp
  then have "mount_path r = path_a" "components path_ab = components path_a @ components (relative_path r)"
    by (auto simp: routes_to_def demo_ns_mounts)
  with r show ?thesis by (simp add: path_a_def path_ab_def)
qed


lemma demo_ns_root:
  "provider_at demo_ns path_root = None" "stable_roots demo_context (ns_mounts demo_ns) demo_memory"
  "\<exists>s'. ns_read_dir path_root demo_context (demo_ns, demo_memory) =
     (Inr [\<lparr>de_name = VirtualFileName [97], de_metadata = metadata_directory (ascii ''root'')\<rparr>], s')"
proof -
  show none: "provider_at demo_ns path_root = None"
    by (simp add: provider_at_None demo_ns_mounts path_starts_with_def path_a_def)
  show "stable_roots demo_context (ns_mounts demo_ns) demo_memory"
    by (simp add: stable_roots_def demo_ns_mounts memory_provider_def memory_getattr_def)
  have ne: "path_root \<noteq> path_a" by (simp add: path_root_def path_a_def)
  have get: "memory_getattr path_root demo_context demo_memory = (Inr (metadata_directory (ascii ''root'')), demo_memory)"
    using ne by (simp add: demo_memory_def add_file_def memory_insert_def path_parent_a memory_new_def metadata_defs
        memory_getattr_def memory_node_at_def ok_or_def update_conv')
  have "file_name path_a = Some (VirtualFileName [97])" by (simp add: file_name_def path_a_def)
  then show "\<exists>s'. ns_read_dir path_root demo_context (demo_ns, demo_memory) =
     (Inr [\<lparr>de_name = VirtualFileName [97], de_metadata = metadata_directory (ascii ''root'')\<rparr>], s')"
    using none get path_parent_a
    by (simp add: ns_read_dir_def is_synthetic_directory_def is_root_def demo_ns_mounts memory_provider_def)
qed


text \<open>
  C5. The namespace is itself a provider that keeps the contract: for every invariant of the
  providers' world, if all mounted providers and all providers behind open handles keep the contract,
  then so does the namespace built from them.
\<close>

theorem namespace_keeps_contract: "readonly_provider acc_mode namespace_provider (ns_ok acc_mode J)"
  by unfold_locales

text \<open>
  An absolute link target of a mounted provider is answered as an absolute path below the mount
  point, whose remaining components are the provider's own resolution of the target.
\<close>

theorem namespace_link_anchored:
  assumes "ns_inv ns" "wf_path p" "alias_for ns p = None" "provider_at ns p = Some r"
    and "prov_read_link (rn_provider r) (relative_path r) ctx w = (Inr t, w1)" "target_is_absolute t"
    and "ns_read_link p ctx (ns, w) = (Inr t', s')"
  shows "\<exists>q a. from_absolute (target_bytes t) = Inr q \<and> target_bytes t' = path_as_bytes a \<and>
    components a = components (mount_path r) @ components q \<and> from_absolute (target_bytes t') = Inr a"
proof -
  have "anchor_target (mount_path r) t = Inr t'"
    using assms(3-5,7) by (simp add: ns_read_link_def on_provider_def)
  moreover have "wf_path (mount_path r)"
    using provider_at_mounted [OF assms(4)] ns_invD(2) [OF assms(1)] by blast
  ultimately obtain q a where "from_absolute (target_bytes t) = Inr q" "target_bytes t' = path_as_bytes a"
      "wf_path a" "components a = components (mount_path r) @ components q"
    using anchor_target_absolute assms(6) by blast
  then show ?thesis by (intro exI [of _ q] exI [of _ a]) simp
qed

definition link_provider :: "unit provider" where
  "link_provider =
     \<lparr>prov_descriptor = (\<lambda>_. memory_descriptor), prov_lookup = (\<lambda>_ _ _ w. (Inl NotFound, w)),
      prov_getattr = (\<lambda>_ _ w. (Inl NotFound, w)), prov_read_dir = (\<lambda>_ _ w. (Inl NotFound, w)),
      prov_read_link = (\<lambda>_ _ w. (Inr (VirtualPathBytes [slash, 98]), w)),
      prov_open = (\<lambda>_ _ _ w. (Inl NotFound, w)), prov_read_at = (\<lambda>_ _ _ _ w. (Inl NotFound, w)),
      prov_close = (\<lambda>_ w. (Inr (), w)), prov_refresh = (\<lambda>_ w. (Inr (), w))\<rparr>"

definition link_ns :: "unit namespace" where
  "link_ns = namespace_new\<lparr>ns_mounts := [(path_a, \<lparr>mp_key = ''k'', mp_provider = link_provider\<rparr>)]\<rparr>"

theorem namespace_link_anchored_witness:
  "\<exists>t' s' (q :: virtual_path) a. ns_read_link path_a demo_context (link_ns, ()) = (Inr t', s') \<and>
     target_bytes t' = path_as_bytes a \<and> components a = components path_a @ components q"
proof -
  have inv: "ns_inv link_ns" by (simp add: ns_inv_def link_ns_def namespace_new_def is_root_def) (simp add: path_a_def)
  let ?r = "\<lparr>rn_key = ''k'', rn_provider = link_provider, mount_path = path_a, relative_path = path_root\<rparr>"
  have "routes_to link_ns path_a ?r" by (simp add: routes_to_def link_ns_def namespace_new_def)
  then have at: "provider_at link_ns path_a = Some ?r" using provider_at_iff [OF inv wf_path_a] by simp
  have al: "alias_for link_ns path_a = None" by (simp add: alias_for_def link_ns_def namespace_new_def)
  let ?t = "VirtualPathBytes [slash, 98]"
  have rl: "prov_read_link (rn_provider ?r) (relative_path ?r) demo_context () = (Inr ?t, ())"
    by (simp add: link_provider_def)
  have abs: "target_is_absolute ?t" by (simp add: target_is_absolute_def)
  have "\<exists>t'. anchor_target path_a ?t = Inr t'"
    using abs by (simp add: anchor_target_def from_absolute_def from_absolute_with_limit_def
        virtual_file_name_new_def path_join_def from_components_def path_root_def path_a_def
        virtual_path_bytes_new_def path_as_bytes_def is_root_def MAX_NAME_BYTES_def DEFAULT_MAX_PATH_BYTES_def)
  then obtain t' where t': "anchor_target path_a ?t = Inr t'" by blast
  then have run: "ns_read_link path_a demo_context (link_ns, ()) = (Inr t', (link_ns, ()))"
    using al at rl by (simp add: ns_read_link_def on_provider_def)
  obtain q :: virtual_path and a where "target_bytes t' = path_as_bytes a" "components a = components path_a @ components q"
    using namespace_link_anchored [OF inv wf_path_a al at rl abs run] by auto
  with run show ?thesis by blast
qed

text \<open>
  Opening through the namespace yields a handle that no open file has, reading with it is reading
  the inner handle of the provider that owned the path, and after closing it the handle is invalid;
  the counter has not come round.
\<close>

theorem namespace_handle_lifecycle:
  assumes "handles_below ns" "ns_next_handle ns < ns_next_handle ns + 1"
    and "ns_open p flags ctx (ns, w) = (Inr h, (ns1, w1))" "ns_close h (ns1, w2) = (res, (ns2, w3))"
  shows "ns_handles ns (pfh_id h) = None \<and> handles_below ns1 \<and>
    (\<exists>r inner. provider_at ns p = Some r \<and>
       prov_open (rn_provider r) (relative_path r) flags ctx w = (Inr inner, w1) \<and>
       fst (ns_read_at h off sz ctx' (ns1, w2)) = fst (prov_read_at (rn_provider r) inner off sz ctx' w2)) \<and>
    ns_read_at h off sz ctx' (ns2, w3) = (Inl BadHandle, (ns2, w3)) \<and> ns_handles ns2 = ns_handles ns"
proof -
  note o = ns_open_handle [OF assms(1-3)]
  obtain r inner where r: "provider_at ns p = Some r"
      "prov_open (rn_provider r) (relative_path r) flags ctx w = (Inr inner, w1)"
      "ns_handles ns1 = (ns_handles ns)(pfh_id h \<mapsto> \<lparr>or_provider = rn_provider r, or_inner = inner\<rparr>)"
    using o(3) by blast
  have n2: "ns_handles ns2 = (ns_handles ns1)(pfh_id h := None)" by (rule ns_close_handle(1) [OF assms(4)])
  have "fst (ns_read_at h off sz ctx' (ns1, w2)) = fst (prov_read_at (rn_provider r) inner off sz ctx' w2)"
    by (simp add: ns_read_at_def r(3) on_provider_def case_prod_beta)
  moreover have "ns_read_at h off sz ctx' (ns2, w3) = (Inl BadHandle, (ns2, w3))"
    by (simp add: ns_read_at_def n2)
  moreover have "ns_handles ns2 = ns_handles ns" using o(1) by (auto simp: n2 r(3) fun_eq_iff)
  ultimately show ?thesis using o(1,2) r(1,2) by blast
qed

lemma demo_ns_open:
  "\<exists>h ns1 w1. ns_open (\<lparr>components = [VirtualFileName [97], VirtualFileName [97]], byte_len_field = 4\<rparr>) 0 demo_context
     (demo_ns, demo_memory) = (Inr h, (ns1, w1))"
proof -
  let ?p = "\<lparr>components = [VirtualFileName [97], VirtualFileName [97]], byte_len_field = 4\<rparr> :: virtual_path"
  have wf: "wf_path ?p"
    by (simp add: wf_path_def valid_name_def encoded_len_def Let_def MAX_NAME_BYTES_def DEFAULT_MAX_PATH_BYTES_def)
  let ?r = "\<lparr>rn_key = ''vol'', rn_provider = memory_provider linux_acc_mode, mount_path = path_a, relative_path = path_a\<rparr>"
  have "routes_to demo_ns ?p ?r" by (simp add: routes_to_def demo_ns_mounts) (simp add: path_a_def)
  then have at: "provider_at demo_ns ?p = Some ?r" using provider_at_iff [OF demo_ns_inv wf] by simp
  have "\<exists>h m2. memory_open linux_acc_mode path_a 0 demo_context demo_memory = (Inr h, m2)"
    using memory_file_opens by blast
  then show ?thesis
    using at by (auto simp: ns_open_def on_provider_def memory_provider_def Let_def)
qed

theorem namespace_handle_lifecycle_witness:
  "\<exists>h ns1 w1 (ns2 :: memory namespace) w3.
     ns_open (\<lparr>components = [VirtualFileName [97], VirtualFileName [97]], byte_len_field = 4\<rparr>) 0
       demo_context (demo_ns, demo_memory) = (Inr h, (ns1, w1)) \<and>
     ns_read_at h 0 1 demo_context (ns2, w3) = (Inl BadHandle, (ns2, w3))"
proof -
  obtain h ns1 w1 where o: "ns_open (\<lparr>components = [VirtualFileName [97], VirtualFileName [97]], byte_len_field = 4\<rparr>) 0
       demo_context (demo_ns, demo_memory) = (Inr h, (ns1, w1))" using demo_ns_open by blast
  obtain res ns2 w3 where c: "ns_close h (ns1, w1) = (res, (ns2, w3))" by (metis surj_pair)
  have b: "handles_below demo_ns" by (simp add: handles_below_def demo_ns_mounts)
  have n: "ns_next_handle demo_ns < ns_next_handle demo_ns + 1" by (simp add: demo_ns_mounts)
  show ?thesis using namespace_handle_lifecycle [OF b n o c, of 0 1 demo_context] o by blast
qed

end
