(* ===== verification/Inode_Table.thy ===== *)
theory Inode_Table
  imports Vfs_Path
begin

text \<open>
  The inode table of the FUSE adapter (\<^verbatim>\<open>crates/tuxstack-vfs/src/inode.rs\<close>). Its three hash maps
  are partial functions; every operation returns its result and the table it leaves, also when
  it fails. \<open>inode_inv\<close> is the agreement between the maps that every operation keeps; inode
  numbers are handed out once and never recycled.
\<close>

definition ROOT_INODE :: u64 where "ROOT_INODE = 1"

record virtual_node_key =
  nk_daemon_identity :: string
  nk_resource_kind :: string
  nk_resource_id :: string
  nk_provider_key :: string
  logical_path :: virtual_path
  nk_generation :: u64

definition node_key_root :: virtual_node_key where
  "node_key_root =
     \<lparr>nk_daemon_identity = '''', nk_resource_kind = ''root'', nk_resource_id = '''',
      nk_provider_key = ''namespace'', logical_path = path_root, nk_generation = 0\<rparr>"

record hardlink_key =
  hk_daemon_identity :: string
  hk_resource_kind :: string
  hk_resource_id :: string
  hk_provider_key :: string
  provider_node_id :: bytes
  hk_generation :: u64

record inode_record =
  rec_inode :: u64
  canonical_key :: virtual_node_key
  rec_hardlink_key :: "hardlink_key option"
  aliases :: "virtual_node_key set"
  deleted :: bool
  lookup_count :: u64

record inode_table =
  by_key :: "virtual_node_key \<rightharpoonup> u64"
  by_hardlink :: "hardlink_key \<rightharpoonup> u64"
  by_inode :: "u64 \<rightharpoonup> inode_record"
  next_inode :: u64

definition inode_table_new :: inode_table where
  "inode_table_new =
     (let root_record =
            \<lparr>rec_inode = ROOT_INODE, canonical_key = node_key_root, rec_hardlink_key = None,
             aliases = {node_key_root}, deleted = False, lookup_count = 1\<rparr>
      in \<lparr>by_key = [node_key_root \<mapsto> ROOT_INODE], by_hardlink = Map.empty,
          by_inode = [ROOT_INODE \<mapsto> root_record], next_inode = ROOT_INODE + 1\<rparr>)"

definition set_record :: "inode_table \<Rightarrow> u64 \<Rightarrow> inode_record \<Rightarrow> inode_table" where
  "set_record t i r = t\<lparr>by_inode := (by_inode t)(i \<mapsto> r)\<rparr>"

definition fresh_inode ::
  "inode_table \<Rightarrow> virtual_node_key \<Rightarrow> hardlink_key option \<Rightarrow> u64 vfs_result \<times> inode_table" where
  "fresh_inode t key hardlink =
     (let inode = next_inode t
      in (case checked_add (next_inode t) 1 of
            None \<Rightarrow> (Inl (Unavailable ''inode number space exhausted''), t)
          | Some n \<Rightarrow>
             (let r = \<lparr>rec_inode = inode, canonical_key = key, rec_hardlink_key = hardlink,
                       aliases = {key}, deleted = False, lookup_count = 1\<rparr>
              in (Inr inode,
                  \<lparr>by_key = (by_key t)(key \<mapsto> inode),
                   by_hardlink =
                     (case hardlink of None \<Rightarrow> by_hardlink t | Some h \<Rightarrow> (by_hardlink t)(h \<mapsto> inode)),
                   by_inode = (by_inode t)(inode \<mapsto> r),
                   next_inode = n\<rparr>))))"

definition inode_for ::
  "inode_table \<Rightarrow> virtual_node_key \<Rightarrow> hardlink_key option \<Rightarrow> u64 vfs_result \<times> inode_table" where
  "inode_for t key hardlink =
     (case by_key t key of
        Some inode \<Rightarrow>
          (case by_inode t inode of
             Some r \<Rightarrow>
               (if deleted r then (Inl NotFound, t)
                else (Inr inode, set_record t inode (r\<lparr>lookup_count := saturating_add (lookup_count r) 1\<rparr>)))
           | None \<Rightarrow> (Inr inode, t))
      | None \<Rightarrow>
          (case Option.bind hardlink (by_hardlink t) of
             Some inode \<Rightarrow>
               (case by_inode t inode of
                  None \<Rightarrow> (Inl Stale, t)
                | Some r \<Rightarrow>
                   (if \<not> deleted r then
                      (Inr inode,
                       (set_record t inode
                          (r\<lparr>aliases := insert key (aliases r),
                             lookup_count := saturating_add (lookup_count r) 1\<rparr>))
                       \<lparr>by_key := (by_key t)(key \<mapsto> inode)\<rparr>)
                    else fresh_inode t key hardlink))
           | None \<Rightarrow> fresh_inode t key hardlink))"

definition add_alias :: "inode_table \<Rightarrow> u64 \<Rightarrow> virtual_node_key \<Rightarrow> unit vfs_result \<times> inode_table" where
  "add_alias t inode new_alias =
     (case by_inode t inode of
        None \<Rightarrow> (Inl NotFound, t)
      | Some r \<Rightarrow>
         (if deleted r then (Inl NotFound, t)
          else (case by_key t new_alias of
              Some existing \<Rightarrow>
                (if existing = inode then (Inr (), t)
                 else (Inl (InvalidInput ''alias already identifies another inode''), t))
            | None \<Rightarrow>
                (Inr (),
                 (set_record t inode (r\<lparr>aliases := insert new_alias (aliases r)\<rparr>))
                 \<lparr>by_key := (by_key t)(new_alias \<mapsto> inode)\<rparr>))))"

definition rename_alias ::
  "inode_table \<Rightarrow> virtual_node_key \<Rightarrow> virtual_node_key \<Rightarrow> u64 vfs_result \<times> inode_table" where
  "rename_alias t old new =
     (if by_key t new \<noteq> None then (Inl (InvalidInput ''rename destination already exists''), t)
      else (case by_key t old of
          None \<Rightarrow> (Inl NotFound, t)
        | Some inode \<Rightarrow>
           (let t1 = t\<lparr>by_key := (by_key t)(old := None)\<rparr>
            in (case by_inode t inode of
                  None \<Rightarrow> (Inl Stale, t1)
                | Some r \<Rightarrow>
                   (let r1 = r\<lparr>aliases := insert new (aliases r - {old}),
                               canonical_key := (if canonical_key r = old then new else canonical_key r)\<rparr>
                    in (Inr inode, (set_record t1 inode r1)\<lparr>by_key := (by_key t1)(new \<mapsto> inode)\<rparr>))))))"

definition delete_inode :: "inode_table \<Rightarrow> u64 \<Rightarrow> unit vfs_result \<times> inode_table" where
  "delete_inode t inode =
     (if inode = ROOT_INODE then (Inl (InvalidInput ''root cannot be deleted''), t)
      else (case by_inode t inode of
          None \<Rightarrow> (Inl NotFound, t)
        | Some r \<Rightarrow>
           (Inr (),
            (set_record t inode (r\<lparr>deleted := True, aliases := {}\<rparr>))
            \<lparr>by_key := (\<lambda>k. if k \<in> aliases r then None else by_key t k),
             by_hardlink :=
               (case rec_hardlink_key r of None \<Rightarrow> by_hardlink t | Some h \<Rightarrow> (by_hardlink t)(h := None))\<rparr>)))"

definition forget :: "inode_table \<Rightarrow> u64 \<Rightarrow> u64 \<Rightarrow> inode_table" where
  "forget t inode n =
     (case by_inode t inode of
        None \<Rightarrow> t
      | Some r \<Rightarrow> set_record t inode (r\<lparr>lookup_count := saturating_sub (lookup_count r) n\<rparr>))"

definition get_record :: "inode_table \<Rightarrow> u64 \<Rightarrow> inode_record option" where
  "get_record t inode = by_inode t inode"

definition lookup_key :: "inode_table \<Rightarrow> virtual_node_key \<Rightarrow> u64 option" where
  "lookup_key t key = by_key t key"

lemmas inode_op_defs = inode_for_def fresh_inode_def add_alias_def rename_alias_def
  delete_inode_def forget_def set_record_def Let_def

section \<open>The invariant\<close>

text \<open>
  Every key names the live inode that lists it as an alias, every hardlink key names a live inode
  that carries it, a record knows its own number, a deleted record has no aliases, the root is
  live, and numbers from \<open>next_inode\<close> on are unused.
\<close>

definition inode_inv :: "inode_table \<Rightarrow> bool" where
  "inode_inv t \<longleftrightarrow>
     (\<forall>k i. by_key t k = Some i \<longrightarrow> (\<exists>r. by_inode t i = Some r \<and> \<not> deleted r \<and> k \<in> aliases r)) \<and>
     (\<forall>i r k. by_inode t i = Some r \<longrightarrow> k \<in> aliases r \<longrightarrow> by_key t k = Some i) \<and>
     (\<forall>h i. by_hardlink t h = Some i \<longrightarrow>
        (\<exists>r. by_inode t i = Some r \<and> \<not> deleted r \<and> rec_hardlink_key r = Some h)) \<and>
     (\<forall>i r. by_inode t i = Some r \<longrightarrow>
        rec_inode r = i \<and> 1 \<le> i \<and> i < next_inode t \<and> (deleted r \<longrightarrow> aliases r = {})) \<and>
     (\<exists>r. by_inode t ROOT_INODE = Some r \<and> \<not> deleted r)"

lemma inode_invD:
  assumes "inode_inv t"
  shows "by_key t k = Some i \<Longrightarrow> \<exists>r. by_inode t i = Some r \<and> \<not> deleted r \<and> k \<in> aliases r"
    and "by_inode t i = Some r \<Longrightarrow> k \<in> aliases r \<Longrightarrow> by_key t k = Some i"
    and "by_hardlink t h = Some i \<Longrightarrow>
      \<exists>r. by_inode t i = Some r \<and> \<not> deleted r \<and> rec_hardlink_key r = Some h"
    and "by_inode t i = Some r \<Longrightarrow> rec_inode r = i"
    and "by_inode t i = Some r \<Longrightarrow> 1 \<le> i"
    and "by_inode t i = Some r \<Longrightarrow> i < next_inode t"
    and "by_inode t i = Some r \<Longrightarrow> deleted r \<Longrightarrow> aliases r = {}"
    and "\<exists>r. by_inode t ROOT_INODE = Some r \<and> \<not> deleted r"
  using assms unfolding inode_inv_def by blast+

lemma inode_inv_new [simp]: "inode_inv inode_table_new"
  by (auto simp: inode_inv_def inode_table_new_def ROOT_INODE_def Let_def split: if_splits)

lemma checked_add_1:
  assumes "checked_add x (1 :: u64) = Some n"
  shows "n = x + 1" "x < n"
proof -
  have n: "n = x + 1" "unat x + 1 < 2 ^ 64" using assms by (simp_all add: checked_add_Some)
  then have "unat (x + 1) = unat x + 1" by (simp add: unat_word_ariths)
  with n show "n = x + 1" "x < n" by (simp_all add: word_less_nat_alt)
qed

text \<open>Rebuilding the invariant from its five parts.\<close>

lemma inode_invI:
  assumes "\<And>k i. by_key t k = Some i \<Longrightarrow> \<exists>r. by_inode t i = Some r \<and> \<not> deleted r \<and> k \<in> aliases r"
    and "\<And>i r k. by_inode t i = Some r \<Longrightarrow> k \<in> aliases r \<Longrightarrow> by_key t k = Some i"
    and "\<And>h i. by_hardlink t h = Some i \<Longrightarrow>
      \<exists>r. by_inode t i = Some r \<and> \<not> deleted r \<and> rec_hardlink_key r = Some h"
    and "\<And>i r. by_inode t i = Some r \<Longrightarrow>
      rec_inode r = i \<and> 1 \<le> i \<and> i < next_inode t \<and> (deleted r \<longrightarrow> aliases r = {})"
    and "\<exists>r. by_inode t ROOT_INODE = Some r \<and> \<not> deleted r"
  shows "inode_inv t"
  using assms unfolding inode_inv_def by blast

lemma inode_inv_next: "inode_inv t \<Longrightarrow> by_inode t (next_inode t) = None"
  using inode_invD(6) [of t "next_inode t"] by (cases "by_inode t (next_inode t)") auto

text \<open>
  Replacing one record keeps the invariant when the key map follows the record's aliases and the
  hardlink map loses at most entries.
\<close>

lemma inode_inv_set:
  assumes "inode_inv t" and r: "by_inode t i = Some r"
    and same: "rec_inode r' = rec_inode r" "rec_hardlink_key r' = rec_hardlink_key r"
    and dead: "deleted r' \<Longrightarrow> aliases r' = {} \<and> i \<noteq> ROOT_INODE"
    and fresh: "\<And>k. k \<in> aliases r' \<Longrightarrow> k \<notin> aliases r \<Longrightarrow> by_key t k = None"
    and bk: "\<And>k. bk k = (if k \<in> aliases r' then Some i else if k \<in> aliases r then None else by_key t k)"
    and bh: "\<And>h j. bh h = Some j \<Longrightarrow> by_hardlink t h = Some j \<and> (j = i \<longrightarrow> \<not> deleted r')"
  shows "inode_inv (t\<lparr>by_inode := (by_inode t)(i \<mapsto> r'), by_key := bk, by_hardlink := bh\<rparr>)" (is "inode_inv ?t")
proof -
  note inv = inode_invD [OF assms(1)]
  have f: "by_key ?t = bk" "by_inode ?t = (by_inode t)(i \<mapsto> r')" "by_hardlink ?t = bh"
    "next_inode ?t = next_inode t" by simp_all
  have own: "k \<in> aliases r" if "by_key t k = Some i" for k
    using inv(1) [OF that] r by auto
  show ?thesis
  proof (rule inode_invI, unfold f)
    fix k j assume k: "bk k = Some j"
    show "\<exists>s. ((by_inode t)(i \<mapsto> r')) j = Some s \<and> \<not> deleted s \<and> k \<in> aliases s"
    proof (cases "k \<in> aliases r'")
      case True
      then have "j = i" "\<not> deleted r'" using k bk [of k] dead by auto
      with True show ?thesis by simp
    next
      case False
      then have "k \<notin> aliases r" "by_key t k = Some j" using k bk [of k] by (auto split: if_splits)
      moreover from this have "j \<noteq> i" using own by auto
      ultimately show ?thesis using inv(1) by auto
    qed
  next
    fix j s k assume s: "((by_inode t)(i \<mapsto> r')) j = Some s" "k \<in> aliases s"
    show "bk k = Some j"
    proof (cases "j = i")
      case True
      with s bk [of k] show ?thesis by simp
    next
      case False
      with s have "by_key t k = Some j" using inv(2) by simp
      moreover from this have "k \<notin> aliases r" using False inv(2) [OF r] by fastforce
      moreover from calculation have "k \<notin> aliases r'" using fresh by fastforce
      ultimately show ?thesis using bk [of k] by simp
    qed
  next
    fix h j assume "bh h = Some j"
    then have "by_hardlink t h = Some j" "j = i \<longrightarrow> \<not> deleted r'" using bh by blast+
    with inv(3) [OF this(1)] r same(2)
    show "\<exists>s. ((by_inode t)(i \<mapsto> r')) j = Some s \<and> \<not> deleted s \<and> rec_hardlink_key s = Some h"
      by (cases "j = i") auto
  next
    fix j s assume s: "((by_inode t)(i \<mapsto> r')) j = Some s"
    show "rec_inode s = j \<and> 1 \<le> j \<and> j < next_inode t \<and> (deleted s \<longrightarrow> aliases s = {})"
    proof (cases "j = i")
      case True
      with s dead same(1) inv(4-6) [OF r] show ?thesis by simp
    next
      case False
      with s inv(4-7) [of j s] show ?thesis by simp
    qed
  next
    show "\<exists>s. ((by_inode t)(i \<mapsto> r')) ROOT_INODE = Some s \<and> \<not> deleted s"
      using inv(8) dead by (cases "ROOT_INODE = i") auto
  qed
qed

lemma inode_inv_count:
  assumes "inode_inv t" "by_inode t i = Some r"
  shows "inode_inv (set_record t i (r\<lparr>lookup_count := c\<rparr>))"
proof -
  note inv = inode_invD [OF assms(1)]
  have "by_key t k = (if k \<in> aliases r then Some i else if k \<in> aliases r then None else by_key t k)" for k
    using inv(2) [OF assms(2)] by simp
  moreover have "by_hardlink t h = Some j \<Longrightarrow> by_hardlink t h = Some j \<and> (j = i \<longrightarrow> \<not> deleted r)" for h j
    using inv(3) assms(2) by fastforce
  moreover have "deleted r \<Longrightarrow> aliases r = {} \<and> i \<noteq> ROOT_INODE"
    using inv(7) [OF assms(2)] inv(8) assms(2) by auto
  ultimately show ?thesis
    using inode_inv_set [OF assms, of "r\<lparr>lookup_count := c\<rparr>" "by_key t" "by_hardlink t"]
    by (simp add: set_record_def)
qed

lemma fresh_inode_inv:
  assumes "inode_inv t" "by_key t key = None"
  shows "inode_inv (snd (fresh_inode t key hl))"
proof (cases "checked_add (next_inode t) 1")
  case None
  with assms show ?thesis by (simp add: fresh_inode_def)
next
  case (Some n)
  note n = checked_add_1 [OF Some]
  note inv = inode_invD [OF assms(1)] and fresh = inode_inv_next [OF assms(1)]
  have unaliased: "key \<notin> aliases r" if "by_inode t i = Some r" for i r
    using inv(2) [OF that, of key] assms(2) by auto
  have pos: "1 \<le> next_inode t"
    using inv(5,6,8) by (metis order.strict_implies_order order.trans)
  have old: "i \<noteq> next_inode t" if "by_inode t i = Some r" for i r using that fresh by auto
  define m where "m = next_inode t"
  define t' where "t' = snd (fresh_inode t key hl)"
  define r0 where "r0 = \<lparr>rec_inode = m, canonical_key = key, rec_hardlink_key = hl,
    aliases = {key}, deleted = False, lookup_count = 1\<rparr>"
  have f: "by_key t' = (by_key t)(key \<mapsto> m)" "by_inode t' = (by_inode t)(m \<mapsto> r0)"
    "by_hardlink t' = (case hl of None \<Rightarrow> by_hardlink t | Some h \<Rightarrow> (by_hardlink t)(h \<mapsto> m))"
    "next_inode t' = n"
    by (simp_all add: t'_def fresh_inode_def Some m_def r0_def Let_def split: option.split)
  have "inode_inv t'"
  proof (rule inode_invI)
    fix k i assume "by_key t' k = Some i"
    then show "\<exists>r. by_inode t' i = Some r \<and> \<not> deleted r \<and> k \<in> aliases r"
      using inv(1) [of k i] old by (cases "k = key") (auto simp: f r0_def m_def)
  next
    fix i r k assume "by_inode t' i = Some r" "k \<in> aliases r"
    then show "by_key t' k = Some i"
      using inv(2) [of i r k] unaliased [of i r] by (cases "i = m") (auto simp: f r0_def)
  next
    fix h i assume "by_hardlink t' h = Some i"
    then show "\<exists>r. by_inode t' i = Some r \<and> \<not> deleted r \<and> rec_hardlink_key r = Some h"
      using inv(3) [of h i] old by (auto simp: f r0_def m_def split: option.splits if_splits)
  next
    fix i r assume "by_inode t' i = Some r"
    then show "rec_inode r = i \<and> 1 \<le> i \<and> i < next_inode t' \<and> (deleted r \<longrightarrow> aliases r = {})"
      using inv(4-7) [of i r] pos n(2) by (cases "i = m") (auto simp: f r0_def m_def)
  next
    show "\<exists>r. by_inode t' ROOT_INODE = Some r \<and> \<not> deleted r"
      using inv(8) by (auto simp: f r0_def)
  qed
  then show ?thesis by (simp add: t'_def)
qed

text \<open>Adding an unused key as an alias of a live inode.\<close>

definition link_key :: "inode_table \<Rightarrow> u64 \<Rightarrow> inode_record \<Rightarrow> virtual_node_key \<Rightarrow> inode_table" where
  "link_key t i r key =
     (set_record t i (r\<lparr>aliases := insert key (aliases r)\<rparr>))\<lparr>by_key := (by_key t)(key \<mapsto> i)\<rparr>"

lemma link_key_inv:
  assumes "inode_inv t" "by_inode t i = Some r" "\<not> deleted r" "by_key t key = None"
  shows "inode_inv (link_key t i r key)"
proof -
  note inv = inode_invD [OF assms(1)]
  let ?r = "r\<lparr>aliases := insert key (aliases r)\<rparr>" and ?bk = "(by_key t)(key \<mapsto> i)"
  have "?bk k = (if k \<in> aliases ?r then Some i else if k \<in> aliases r then None else by_key t k)" for k
    using inv(2) [OF assms(2), of k] by simp
  then have "inode_inv (t\<lparr>by_inode := (by_inode t)(i \<mapsto> ?r), by_key := ?bk, by_hardlink := by_hardlink t\<rparr>)"
    using assms by (intro inode_inv_set) auto
  then show ?thesis by (simp add: link_key_def set_record_def)
qed

lemma table_update_commute: "t\<lparr>by_key := a, by_inode := b\<rparr> = t\<lparr>by_inode := b, by_key := a\<rparr>"
  by (cases t) simp

lemma inode_for_inv:
  assumes "inode_inv t"
  shows "inode_inv (snd (inode_for t key hl))"
proof (cases "by_key t key")
  case (Some i)
  with assms show ?thesis
    by (auto simp: inode_for_def inode_inv_count split: option.splits)
next
  case None
  show ?thesis
  proof (cases "Option.bind hl (by_hardlink t)")
    case no: None
    with None assms show ?thesis by (simp add: inode_for_def fresh_inode_inv)
  next
    case (Some i)
    then obtain h where "hl = Some h" "by_hardlink t h = Some i" by (cases hl) auto
    then obtain r where r: "by_inode t i = Some r" "\<not> deleted r"
      using inode_invD(3) [OF assms] by blast
    have "inode_inv (link_key t i r key)"
      "by_inode (link_key t i r key) i = Some (r\<lparr>aliases := insert key (aliases r)\<rparr>)"
      using link_key_inv [OF assms r None] by (simp_all add: link_key_def set_record_def)
    from inode_inv_count [OF this, of "saturating_add (lookup_count r) 1"] None Some r show ?thesis
      by (simp add: inode_for_def link_key_def set_record_def table_update_commute)
  qed
qed

lemma add_alias_inv: "inode_inv t \<Longrightarrow> inode_inv (snd (add_alias t i key))"
  using link_key_inv [of t i _ key] by (auto simp: add_alias_def link_key_def split: option.splits)

lemma forget_inv: "inode_inv t \<Longrightarrow> inode_inv (forget t i n)"
  by (simp add: forget_def inode_inv_count split: option.splits)

lemma rename_alias_inv:
  assumes "inode_inv t"
  shows "inode_inv (snd (rename_alias t old new))"
proof (cases "by_key t new \<noteq> None \<or> by_key t old = None")
  case True
  with assms show ?thesis by (auto simp: rename_alias_def split: option.splits)
next
  case False
  then obtain i where i: "by_key t new = None" "by_key t old = Some i" by auto
  note inv = inode_invD [OF assms]
  obtain r where r: "by_inode t i = Some r" "\<not> deleted r" "old \<in> aliases r"
    using inv(1) [OF i(2)] by blast
  have ne: "old \<noteq> new" using i by auto
  let ?r = "r\<lparr>aliases := insert new (aliases r - {old}),
    canonical_key := (if canonical_key r = old then new else canonical_key r)\<rparr>"
  let ?bk = "(by_key t)(old := None, new \<mapsto> i)"
  have "?bk k = (if k \<in> aliases ?r then Some i else if k \<in> aliases r then None else by_key t k)" for k
    using inv(2) [OF r(1), of k] r(3) ne by simp
  then have "inode_inv (t\<lparr>by_inode := (by_inode t)(i \<mapsto> ?r), by_key := ?bk, by_hardlink := by_hardlink t\<rparr>)"
    using assms r i by (intro inode_inv_set) auto
  with i r show ?thesis
    by (cases "canonical_key r = old") (simp_all add: rename_alias_def set_record_def Let_def)
qed

lemma delete_inode_inv:
  assumes "inode_inv t"
  shows "inode_inv (snd (delete_inode t i))"
proof (cases "i = ROOT_INODE \<or> by_inode t i = None")
  case True
  with assms show ?thesis by (auto simp: delete_inode_def split: option.splits)
next
  case False
  then obtain r where r: "i \<noteq> ROOT_INODE" "by_inode t i = Some r" by auto
  note inv = inode_invD [OF assms]
  let ?r = "r\<lparr>deleted := True, aliases := {}\<rparr>"
  let ?bk = "\<lambda>k. if k \<in> aliases r then None else by_key t k"
  let ?bh = "case rec_hardlink_key r of None \<Rightarrow> by_hardlink t | Some h \<Rightarrow> (by_hardlink t)(h := None)"
  have "by_hardlink t h = Some j \<and> (j = i \<longrightarrow> \<not> deleted ?r)" if "?bh h = Some j" for h j
  proof -
    have h: "by_hardlink t h = Some j" "rec_hardlink_key r \<noteq> Some h"
      using that by (auto split: option.splits if_splits)
    with inv(3) [OF h(1)] r(2) show ?thesis by auto
  qed
  then have "inode_inv (t\<lparr>by_inode := (by_inode t)(i \<mapsto> ?r), by_key := ?bk, by_hardlink := ?bh\<rparr>)"
    using assms r by (intro inode_inv_set) auto
  with r show ?thesis by (simp add: delete_inode_def set_record_def)
qed


section \<open>Steps and reachable tables\<close>

text \<open>A step is one call of a mutating method; the adapter serialises them with a mutex.\<close>

inductive table_step :: "inode_table \<Rightarrow> inode_table \<Rightarrow> bool" where
  step_inode_for: "table_step t (snd (inode_for t key hl))"
| step_add_alias: "table_step t (snd (add_alias t i key))"
| step_rename: "table_step t (snd (rename_alias t old new))"
| step_delete: "table_step t (snd (delete_inode t i))"
| step_forget: "table_step t (forget t i n)"

inductive reachable_table :: "inode_table \<Rightarrow> bool" where
  table_start: "reachable_table inode_table_new"
| table_next: "reachable_table t \<Longrightarrow> table_step t t' \<Longrightarrow> reachable_table t'"

lemma table_step_inv: "table_step t t' \<Longrightarrow> inode_inv t \<Longrightarrow> inode_inv t'"
  by (induction rule: table_step.induct)
    (simp_all add: inode_for_inv add_alias_inv rename_alias_inv delete_inode_inv forget_inv)

lemma reachable_table_inv: "reachable_table t \<Longrightarrow> inode_inv t"
  by (induction rule: reachable_table.induct) (auto dest: table_step_inv)

subsection \<open>What a step never does\<close>

text \<open>
  A record is never dropped, its number and hardlink key never change, a deleted one stays
  deleted, and the counter never moves back.
\<close>

definition table_extends :: "inode_table \<Rightarrow> inode_table \<Rightarrow> bool" where
  "table_extends t t' \<longleftrightarrow>
     next_inode t \<le> next_inode t' \<and>
     (\<forall>i r. by_inode t i = Some r \<longrightarrow>
        (\<exists>r'. by_inode t' i = Some r' \<and> rec_inode r' = rec_inode r \<and>
           rec_hardlink_key r' = rec_hardlink_key r \<and> (deleted r \<longrightarrow> deleted r')))"

lemma table_extends_refl [simp]: "table_extends t t"
  by (auto simp: table_extends_def)

lemma table_extendsD:
  assumes "table_extends t t'" "by_inode t i = Some r"
  obtains r' where "by_inode t' i = Some r'" "rec_inode r' = rec_inode r"
    "rec_hardlink_key r' = rec_hardlink_key r" "deleted r \<longrightarrow> deleted r'"
  using assms unfolding table_extends_def by blast

lemma table_extends_trans:
  assumes "table_extends t u" "table_extends u v"
  shows "table_extends t v"
  unfolding table_extends_def
proof (intro conjI allI impI)
  show "next_inode t \<le> next_inode v" using assms by (auto simp: table_extends_def)
next
  fix i r assume "by_inode t i = Some r"
  then obtain r' where r': "by_inode u i = Some r'" "rec_inode r' = rec_inode r"
    "rec_hardlink_key r' = rec_hardlink_key r" "deleted r \<longrightarrow> deleted r'"
    by (rule table_extendsD [OF assms(1)])
  from table_extendsD [OF assms(2) r'(1)] obtain r'' where
    "by_inode v i = Some r''" "rec_inode r'' = rec_inode r'"
    "rec_hardlink_key r'' = rec_hardlink_key r'" "deleted r' \<longrightarrow> deleted r''" .
  with r' show "\<exists>r''. by_inode v i = Some r'' \<and> rec_inode r'' = rec_inode r \<and>
      rec_hardlink_key r'' = rec_hardlink_key r \<and> (deleted r \<longrightarrow> deleted r'')"
    by auto
qed

lemma table_extends_set:
  assumes "by_inode t i = Some r" "rec_inode r' = rec_inode r" "rec_hardlink_key r' = rec_hardlink_key r"
    and "deleted r \<longrightarrow> deleted r'"
  shows "table_extends t (t\<lparr>by_inode := (by_inode t)(i \<mapsto> r'), by_key := bk, by_hardlink := bh\<rparr>)"
  using assms by (auto simp: table_extends_def)

lemma table_extends_fresh:
  assumes "inode_inv t"
  shows "table_extends t (snd (fresh_inode t key hl))"
proof (cases "checked_add (next_inode t) 1")
  case None
  then show ?thesis by (simp add: fresh_inode_def)
next
  case (Some n)
  have "i \<noteq> next_inode t" if "by_inode t i = Some r" for i r
    using that inode_inv_next [OF assms] by auto
  with checked_add_1 [OF Some] show ?thesis
    by (auto simp: table_extends_def fresh_inode_def Some Let_def)
qed

lemma table_extends_set':
  assumes "by_inode t i = Some r" "rec_inode r' = rec_inode r" "rec_hardlink_key r' = rec_hardlink_key r"
    and "deleted r \<longrightarrow> deleted r'"
  shows "table_extends t (t\<lparr>by_inode := (by_inode t)(i \<mapsto> r')\<rparr>)"
    and "table_extends t (t\<lparr>by_inode := (by_inode t)(i \<mapsto> r'), by_key := bk\<rparr>)"
  using assms by (auto simp: table_extends_def)

lemma table_step_extends:
  assumes "table_step t t'" "inode_inv t"
  shows "table_extends t t'"
  using assms
proof (induction rule: table_step.induct)
  case (step_inode_for t key hl)
  then show ?case
    by (auto simp: inode_for_def set_record_def table_extends_fresh
        intro!: table_extends_set' split: option.splits)
next
  case (step_add_alias t i key)
  then show ?case
    by (auto simp: add_alias_def set_record_def intro!: table_extends_set' split: option.splits)
next
  case (step_rename t old new)
  show ?case
  proof (cases "by_key t new \<noteq> None \<or> by_key t old = None")
    case True
    then show ?thesis by (auto simp: rename_alias_def split: option.splits)
  next
    case False
    then obtain i r where "by_key t new = None" "by_key t old = Some i" "by_inode t i = Some r"
      using inode_invD(1) [OF step_rename] by blast
    then show ?thesis
      by (auto simp: rename_alias_def set_record_def Let_def intro!: table_extends_set')
  qed
next
  case (step_delete t i)
  then show ?case
    by (auto simp: delete_inode_def set_record_def intro!: table_extends_set table_extends_set'
        split: option.splits)
next
  case (step_forget t i n)
  then show ?case
    by (auto simp: forget_def set_record_def intro!: table_extends_set' split: option.splits)
qed

lemma table_steps_extends:
  assumes "table_step\<^sup>*\<^sup>* t t'" "inode_inv t"
  shows "table_extends t t' \<and> inode_inv t'"
  using assms
proof (induction rule: rtranclp_induct)
  case (step u v)
  then show ?case using table_step_inv table_step_extends table_extends_trans by blast
qed simp

lemma deleted_unreachable:
  assumes "inode_inv t" "by_inode t i = Some r" "deleted r"
  shows "by_key t k \<noteq> Some i" "by_hardlink t h \<noteq> Some i" "fst (inode_for t k hl) \<noteq> Inr i"
proof -
  show k: "by_key t k \<noteq> Some i" for k using inode_invD(1) [OF assms(1), of k i] assms(2,3) by auto
  show h: "by_hardlink t h \<noteq> Some i" for h using inode_invD(3) [OF assms(1), of h i] assms(2,3) by auto
  have "i \<noteq> next_inode t" using inode_inv_next [OF assms(1)] assms(2) by auto
  moreover have "Option.bind hl (by_hardlink t) \<noteq> Some i" using h by (cases hl) auto
  ultimately show "fst (inode_for t k hl) \<noteq> Inr i"
    using k [of k] by (auto simp: inode_for_def fresh_inode_def Let_def split: option.splits)
qed

subsection \<open>What a lookup returns\<close>

lemma inode_for_result:
  assumes "inode_inv t" "inode_for t key hl = (Inr i, t')"
  shows "by_key t' key = Some i"
    and "\<exists>r. by_inode t' i = Some r \<and> \<not> deleted r \<and> key \<in> aliases r"
    and "\<And>k. k \<noteq> key \<Longrightarrow> by_key t' k = by_key t k"
proof -
  show key: "by_key t' key = Some i" "\<And>k. k \<noteq> key \<Longrightarrow> by_key t' k = by_key t k"
    using assms
    by (auto simp: inode_for_def fresh_inode_def set_record_def Let_def split: option.splits if_splits)
  have "inode_inv t'" using inode_for_inv [OF assms(1), of key hl] assms(2) by simp
  then show "\<exists>r. by_inode t' i = Some r \<and> \<not> deleted r \<and> key \<in> aliases r"
    using key(1) by (rule inode_invD(1))
qed

lemma inode_for_known:
  assumes "inode_inv t" "by_key t key = Some i"
  shows "fst (inode_for t key hl) = Inr i"
  using inode_invD(1) [OF assms] assms(2) by (auto simp: inode_for_def)

lemma inode_for_hardlink:
  assumes "inode_inv t" "by_key t key = None" "by_hardlink t h = Some i"
  shows "fst (inode_for t key (Some h)) = Inr i"
  using inode_invD(3) [OF assms(1,3)] assms(2,3) by (auto simp: inode_for_def)

lemma inode_for_fresh:
  assumes "by_key t key = None" "Option.bind hl (by_hardlink t) = None"
  shows "inode_for t key hl = fresh_inode t key hl"
  using assms by (simp add: inode_for_def)

lemma inode_for_error:
  assumes "inode_inv t" "inode_for t key hl = (Inl e, t')"
  shows "e = Unavailable ''inode number space exhausted'' \<and> next_inode t = - 1 \<and> t' = t"
proof -
  have f: "inode_for t key hl = fresh_inode t key hl"
  proof (cases "by_key t key")
    case (Some i)
    with inode_for_known [OF assms(1), of key i hl] assms(2) show ?thesis by simp
  next
    case None
    show ?thesis
    proof (cases "Option.bind hl (by_hardlink t)")
      case (Some i)
      then obtain h where "hl = Some h" "by_hardlink t h = Some i" by (cases hl) auto
      with inode_for_hardlink [OF assms(1) None, of h i] assms(2) show ?thesis by simp
    next
      case none: None
      with None show ?thesis by (rule inode_for_fresh)
    qed
  qed
  then have "checked_add (next_inode t) 1 = None" "e = Unavailable ''inode number space exhausted''" "t' = t"
    using assms(2) by (auto simp: fresh_inode_def Let_def split: option.splits)
  moreover have "next_inode t = - 1" if "checked_add (next_inode t) 1 = None"
  proof -
    have "2 ^ 64 \<le> unat (next_inode t) + 1" using that by (simp add: checked_add_None)
    moreover have "unat (next_inode t) < 2 ^ 64" using unsigned_less [of "next_inode t"] by simp
    ultimately have "unat (next_inode t) = 2 ^ 64 - 1" by linarith
    then have "unat (next_inode t) = unat (- 1 :: u64)"
      by (simp add: unsigned_minus_1_eq_mask mask_eq_exp_minus_1)
    then show ?thesis by (simp only: word_unat_eq_iff)
  qed
  ultimately show ?thesis by simp
qed

subsection \<open>Keys are kept and the root stays private\<close>

definition keys_kept :: "inode_table \<Rightarrow> inode_table \<Rightarrow> bool" where
  "keys_kept t t' \<longleftrightarrow> (\<forall>k i. by_key t k = Some i \<longrightarrow> by_key t' k = Some i)"

lemma keys_kept_refl [simp]: "keys_kept t t"
  by (simp add: keys_kept_def)

lemma keys_kept_trans: "keys_kept t u \<Longrightarrow> keys_kept u v \<Longrightarrow> keys_kept t v"
  by (simp add: keys_kept_def)

lemma inode_for_keys_kept:
  assumes "inode_inv t"
  shows "keys_kept t (snd (inode_for t key hl))"
proof (cases "inode_for t key hl")
  case (Pair r t')
  show ?thesis
  proof (cases r)
    case (Inl e)
    with Pair inode_for_error [OF assms, of key hl e t'] show ?thesis by simp
  next
    case (Inr i)
    note res = inode_for_result [OF assms Pair [unfolded Inr]]
    have "by_key t' k = Some j" if "by_key t k = Some j" for k j
    proof (cases "k = key")
      case True
      with that inode_for_known [OF assms, of key j hl] Pair Inr res(1) show ?thesis by simp
    next
      case False
      with res(3) that show ?thesis by simp
    qed
    then show ?thesis by (simp add: keys_kept_def Pair)
  qed
qed

definition root_private :: "inode_table \<Rightarrow> bool" where
  "root_private t \<longleftrightarrow>
     (\<forall>k. by_key t k = Some ROOT_INODE \<longrightarrow> k = node_key_root) \<and> (\<forall>h. by_hardlink t h \<noteq> Some ROOT_INODE)"

lemma root_private_new [simp]: "root_private inode_table_new"
  by (auto simp: root_private_def inode_table_new_def Let_def split: if_splits)

lemma inode_for_root_private:
  assumes "inode_inv t" "root_private t" "key \<noteq> node_key_root" "inode_for t key hl = (r, t')"
  shows "root_private t'" "r \<noteq> Inr ROOT_INODE"
proof -
  have n: "next_inode t \<noteq> ROOT_INODE" using inode_invD(8) [OF assms(1)] inode_inv_next [OF assms(1)] by auto
  have b: "by_key t key \<noteq> Some ROOT_INODE" "Option.bind hl (by_hardlink t) \<noteq> Some ROOT_INODE"
    using assms(2,3) by (cases hl; auto simp: root_private_def)+
  show "root_private t'" "r \<noteq> Inr ROOT_INODE"
    using assms(2-4) n b
    by (auto simp: inode_for_def fresh_inode_def set_record_def root_private_def Let_def
        split: option.splits if_splits)
qed

section \<open>Properties\<close>

text \<open>
  C7. In every table reached by any sequence of calls, the key map, the hardlink map and the records
  agree: keys and hardlink keys name live inodes that own them, records know their number, deleted
  records have no aliases, the root is live and the numbers from the counter on are unused.
\<close>

theorem inode_table_consistent:
  assumes "reachable_table t"
  shows "inode_inv t"
  using assms by (rule reachable_table_inv)

definition demo_key :: "string \<Rightarrow> virtual_node_key" where
  "demo_key n = node_key_root\<lparr>nk_resource_id := n\<rparr>"

definition demo_link :: hardlink_key where
  "demo_link = \<lparr>hk_daemon_identity = ''d'', hk_resource_kind = ''volume'', hk_resource_id = ''v'',
     hk_provider_key = ''p'', provider_node_id = [1], hk_generation = 0\<rparr>"

lemma demo_key_neq:
  "demo_key [x] \<noteq> node_key_root" "demo_key [x] = demo_key [y] \<longleftrightarrow> x = y"
  by (auto simp: demo_key_def node_key_root_def)

definition demo_table :: inode_table where
  "demo_table = snd (inode_for inode_table_new (demo_key ''a'') (Some demo_link))"

lemma demo_table_reachable: "reachable_table demo_table"
  unfolding demo_table_def by (rule table_next [OF table_start step_inode_for])

lemmas demo_defs = demo_table_def inode_table_new_def inode_for_def fresh_inode_def delete_inode_def
  set_record_def checked_add_def ROOT_INODE_def Let_def

lemma demo_lookup: "inode_for inode_table_new (demo_key ''a'') (Some demo_link) = (Inr 2, demo_table)"
  by (simp add: demo_defs demo_key_neq)

theorem inode_table_consistent_witness: "reachable_table demo_table \<and> inode_inv demo_table"
  using inode_table_consistent [OF demo_table_reachable] demo_table_reachable by simp

text \<open>
  C6. A deleted inode number is never handed out again: after any further calls no lookup returns it
  and no key leads to it.
\<close>

theorem deleted_inode_never_returns:
  assumes "reachable_table t" "by_inode t i = Some r" "deleted r" "table_step\<^sup>*\<^sup>* t t'"
  shows "fst (inode_for t' key hl) \<noteq> Inr i \<and> lookup_key t' key \<noteq> Some i"
proof -
  have inv: "table_extends t t'" "inode_inv t'"
    using table_steps_extends [OF assms(4) reachable_table_inv [OF assms(1)]] by simp_all
  obtain r' where "by_inode t' i = Some r'" "deleted r'"
    using table_extendsD [OF inv(1) assms(2)] assms(3) by blast
  then show ?thesis using deleted_unreachable [OF inv(2)] by (auto simp: lookup_key_def)
qed

theorem deleted_inode_never_returns_witness:
  "fst (inode_for (snd (delete_inode demo_table 2)) (demo_key ''a'') (Some demo_link)) \<noteq> Inr 2"
proof -
  let ?t = "snd (delete_inode demo_table 2)"
  have "reachable_table ?t" by (rule table_next [OF demo_table_reachable step_delete])
  moreover have "\<exists>r. by_inode ?t 2 = Some r \<and> deleted r" by (simp add: demo_defs demo_key_neq)
  ultimately show ?thesis using deleted_inode_never_returns [of ?t 2 _ ?t] by blast
qed

text \<open>
  A lookup that succeeds registers its key under the returned live inode, leaves every other key
  alone, and looking the same key up again returns the same inode, whatever hardlink key is given.
\<close>

theorem lookup_stable:
  assumes "reachable_table t" "inode_for t key hl = (Inr i, t')"
  shows "by_key t' key = Some i \<and> (\<exists>r. by_inode t' i = Some r \<and> \<not> deleted r \<and> key \<in> aliases r) \<and>
    (\<forall>k. k \<noteq> key \<longrightarrow> by_key t' k = by_key t k) \<and> fst (inode_for t' key hl') = Inr i"
proof -
  have inv: "inode_inv t" "inode_inv t'"
    using reachable_table_inv [OF assms(1)] inode_for_inv [of t key hl] assms(2) by simp_all
  note res = inode_for_result [OF inv(1) assms(2)]
  show ?thesis using res inode_for_known [OF inv(2) res(1)] by blast
qed

theorem lookup_stable_witness: "fst (inode_for demo_table (demo_key ''a'') None) = Inr 2"
  using lookup_stable [OF table_start demo_lookup] by blast

text \<open>
  Two names with the same hardlink identity share an inode: a new key with the hardlink key of a
  live inode becomes another alias of that inode and no new number is used.
\<close>

theorem hardlink_shares_inode:
  assumes "reachable_table t" "by_key t key = None" "by_hardlink t h = Some i"
    and "inode_for t key (Some h) = (r, t')"
  shows "r = Inr i \<and> next_inode t' = next_inode t \<and>
    (\<exists>x y. by_inode t i = Some x \<and> by_inode t' i = Some y \<and> aliases y = insert key (aliases x))"
proof -
  have inv: "inode_inv t" by (rule reachable_table_inv [OF assms(1)])
  obtain x where "by_inode t i = Some x" "\<not> deleted x" using inode_invD(3) [OF inv assms(3)] by blast
  with assms(2-4) show ?thesis by (auto simp: inode_for_def set_record_def)
qed

theorem hardlink_shares_inode_witness:
  "fst (inode_for demo_table (demo_key ''b'') (Some demo_link)) = Inr 2"
proof -
  have "by_key demo_table (demo_key ''b'') = None" "by_hardlink demo_table demo_link = Some 2"
    by (simp_all add: demo_defs demo_key_neq)
  from hardlink_shares_inode [OF demo_table_reachable this prod.collapse [symmetric]] show ?thesis by blast
qed

text \<open>
  On a consistent table the only error of a lookup is the exhaustion of the 64-bit number space,
  with the counter at its maximum and the table unchanged; otherwise a number is returned.
\<close>

theorem lookup_fails_only_when_exhausted:
  assumes "inode_inv t" "inode_for t key hl = (Inl e, t')"
  shows "e = Unavailable ''inode number space exhausted'' \<and> next_inode t = - 1 \<and> t' = t"
  using inode_for_error [OF assms] .

theorem lookup_fails_only_when_exhausted_witness:
  "inode_inv (inode_table_new\<lparr>next_inode := - 1\<rparr>) \<and>
   inode_for (inode_table_new\<lparr>next_inode := - 1\<rparr>) (demo_key ''a'') None =
     (Inl (Unavailable ''inode number space exhausted''), inode_table_new\<lparr>next_inode := - 1\<rparr>)"
proof -
  let ?t = "inode_table_new\<lparr>next_inode := - 1\<rparr>"
  have "(1 :: u64) < - 1" by code_simp
  then have inv: "inode_inv ?t"
    by (auto simp: inode_inv_def inode_table_new_def ROOT_INODE_def Let_def split: if_splits)
  have "\<exists>e t'. inode_for ?t (demo_key ''a'') None = (Inl e, t')" by (simp add: demo_defs demo_key_neq)
  then obtain e t' where e: "inode_for ?t (demo_key ''a'') None = (Inl e, t')" by blast
  show ?thesis using lookup_fails_only_when_exhausted [OF inv e] e inv by simp
qed

text \<open>
  Deleting an inode twice is accepted, and the second call removes the hardlink entry of a newer
  live inode with the same hardlink key: a further link to that file then gets a number of its own.
\<close>

theorem double_delete_splits_hardlink:
  "let t2 = snd (delete_inode demo_table 2);
       (r3, t3) = inode_for t2 (demo_key ''b'') (Some demo_link);
       (r4, t4) = delete_inode t3 2;
       (r5, t5) = inode_for t4 (demo_key ''c'') (Some demo_link)
   in r3 = Inr 3 \<and> r4 = Inr () \<and> r5 = Inr 4 \<and>
      map_option rec_hardlink_key (by_inode t5 3) = Some (Some demo_link) \<and>
      map_option deleted (by_inode t5 3) = Some False"
  by (simp add: demo_defs demo_key_neq)

end
