(* ===== verification/Handle_Table.thy ===== *)
theory Handle_Table
  imports Vfs_Model
begin

unbundle bit_operations_syntax

text \<open>
  The table of open file handles (\<^verbatim>\<open>crates/tuxstack-vfs/src/handle.rs\<close>). The table stores its
  handles in the \<^verbatim>\<open>slab\<close> crate, which is not part of the repository: its operations are the record
  \<open>slab_ops\<close>, an argument of every table operation, and the locale \<open>slab_laws\<close> states the documented
  behaviour the table relies on. \<^verbatim>\<open>Instant::now()\<close> is an argument \<open>now\<close>; instants and durations are
  natural numbers of nanoseconds. \<open>'p\<close> stands for \<^verbatim>\<open>Arc<dyn ReadOnlyFilesystemProvider>\<close>.
\<close>

section \<open>The slab interface\<close>

record ('s, 'h) slab_ops =
  slab_empty :: 's
  slab_len :: "'s \<Rightarrow> nat"
  slab_insert :: "'s \<Rightarrow> 'h \<Rightarrow> nat \<times> 's"
  slab_get :: "'s \<Rightarrow> nat \<Rightarrow> 'h option"
  slab_set :: "'s \<Rightarrow> nat \<Rightarrow> 'h \<Rightarrow> 's"
  slab_remove :: "'s \<Rightarrow> nat \<Rightarrow> 'h \<times> 's"
  slab_iter :: "'s \<Rightarrow> (nat \<times> 'h) list"

text \<open>
  \<open>slab_set\<close> is a write through the reference of \<^verbatim>\<open>get_mut\<close>. \<open>slots\<close> is the number of entries, vacant
  or occupied, of the backing vector: vacant entries are reused before the vector grows.
\<close>

locale slab_laws =
  fixes ops :: "('s, 'h) slab_ops" and slots :: "'s \<Rightarrow> nat"
  assumes get_empty: "slab_get ops (slab_empty ops) i = None"
    and slots_empty: "slots (slab_empty ops) = 0"
    and get_slots: "slab_get ops s i = Some h \<Longrightarrow> i < slots s"
    and len_card: "slab_len ops s = card (dom (slab_get ops s))"
    and insert_vacant: "slab_insert ops s h = (i, s') \<Longrightarrow> slab_get ops s i = None"
    and insert_get: "slab_insert ops s h = (i, s') \<Longrightarrow> slab_get ops s' = (slab_get ops s)(i \<mapsto> h)"
    and insert_slot:
      "slab_insert ops s h = (i, s') \<Longrightarrow>
         (if slab_len ops s = slots s then i = slots s \<and> slots s' = Suc (slots s)
          else i < slots s \<and> slots s' = slots s)"
    and set_get: "slab_get ops s i \<noteq> None \<Longrightarrow> slab_get ops (slab_set ops s i h) = (slab_get ops s)(i \<mapsto> h)"
    and set_slots: "slab_get ops s i \<noteq> None \<Longrightarrow> slots (slab_set ops s i h) = slots s"
    and remove_get:
      "slab_get ops s i = Some h \<Longrightarrow>
         fst (slab_remove ops s i) = h \<and> slab_get ops (snd (slab_remove ops s i)) = (slab_get ops s)(i := None)"
    and remove_slots: "slab_get ops s i \<noteq> None \<Longrightarrow> slots (snd (slab_remove ops s i)) = slots s"
    and iter_get: "(i, h) \<in> set (slab_iter ops s) \<longleftrightarrow> slab_get ops s i = Some h"
    and iter_distinct: "distinct (map fst (slab_iter ops s))"

section \<open>The table\<close>

record 'p open_handle =
  oh_provider :: 'p
  oh_provider_handle :: provider_file_handle
  oh_resource :: docker_filesystem_resource
  oh_path :: virtual_path
  oh_content_generation :: u64
  backing_strategy :: string
  opened_at :: nat
  last_accessed_at :: nat

datatype open_handle_id = OpenHandleId (handle_id: u64)

record 's open_handle_table =
  handles :: 's
  generations :: "u32 list"
  max_handles :: nat
  idle_timeout :: nat

definition pack :: "nat \<Rightarrow> u32 \<Rightarrow> u64" where
  "pack index generation = push_bit 32 (ucast generation) OR of_nat index"

definition unpack :: "u64 \<Rightarrow> nat \<times> u32" where
  "unpack i = (unat (ucast i :: u32), ucast (drop_bit 32 i))"

definition handle_table_new ::
  "('s, 'p open_handle) slab_ops \<Rightarrow> nat \<Rightarrow> nat \<Rightarrow> 's open_handle_table vfs_result" where
  "handle_table_new ops limit idle =
     (if limit = 0 \<or> limit > 2 ^ 32 - 1
      then Inl (InvalidInput ''handle limit must be in 1..=u32::MAX'')
      else Inr \<lparr>handles = slab_empty ops, generations = [], max_handles = limit, idle_timeout = idle\<rparr>)"

definition handle_insert ::
  "('s, 'p open_handle) slab_ops \<Rightarrow> nat \<Rightarrow> 's open_handle_table \<Rightarrow> 'p open_handle \<Rightarrow>
     open_handle_id vfs_result \<times> 's open_handle_table" where
  "handle_insert ops now t h =
     (if slab_len ops (handles t) \<ge> max_handles t then (Inl TooManyHandles, t)
      else
        (let h1 = h\<lparr>opened_at := now, last_accessed_at := now\<rparr>;
             (index, s) = slab_insert ops (handles t) h1;
             gens = (if index \<ge> length (generations t)
                     then generations t @ replicate (index + 1 - length (generations t)) 0
                     else generations t)
         in (Inr (OpenHandleId (pack index (gens ! index))), t\<lparr>handles := s, generations := gens\<rparr>)))"

definition gen_get :: "u32 list \<Rightarrow> nat \<Rightarrow> u32 option" where
  "gen_get gens i = (if i < length gens then Some (gens ! i) else None)"

definition handle_get_mut ::
  "('s, 'p open_handle) slab_ops \<Rightarrow> nat \<Rightarrow> 's open_handle_table \<Rightarrow> open_handle_id \<Rightarrow>
     'p open_handle vfs_result \<times> 's open_handle_table" where
  "handle_get_mut ops now t i =
     (let (index, generation) = unpack (handle_id i)
      in (if gen_get (generations t) index \<noteq> Some generation then (Inl BadHandle, t)
          else (case slab_get ops (handles t) index of
              None \<Rightarrow> (Inl BadHandle, t)
            | Some h \<Rightarrow>
               (let h1 = h\<lparr>last_accessed_at := now\<rparr>
                in (Inr h1, t\<lparr>handles := slab_set ops (handles t) index h1\<rparr>)))))"

definition handle_remove ::
  "('s, 'p open_handle) slab_ops \<Rightarrow> 's open_handle_table \<Rightarrow> open_handle_id \<Rightarrow>
     'p open_handle vfs_result \<times> 's open_handle_table" where
  "handle_remove ops t i =
     (let (index, generation) = unpack (handle_id i)
      in (if gen_get (generations t) index \<noteq> Some generation \<or> slab_get ops (handles t) index = None
          then (Inl BadHandle, t)
          else
            (let (h, s) = slab_remove ops (handles t) index
             in (Inr h, t\<lparr>handles := s,
                          generations := (generations t)[index := generations t ! index + 1]\<rparr>))))"

text \<open>\<^verbatim>\<open>saturating_duration_since\<close> is truncated subtraction.\<close>

definition expired_ids ::
  "('s, 'p open_handle) slab_ops \<Rightarrow> 's open_handle_table \<Rightarrow> nat \<Rightarrow> open_handle_id list" where
  "expired_ids ops t now =
     map (\<lambda>(index, _). OpenHandleId (pack index (generations t ! index)))
       (filter (\<lambda>(_, h). now - last_accessed_at h \<ge> idle_timeout t) (slab_iter ops (handles t)))"

definition handle_len :: "('s, 'p open_handle) slab_ops \<Rightarrow> 's open_handle_table \<Rightarrow> nat" where
  "handle_len ops t = slab_len ops (handles t)"

section \<open>Identifiers\<close>

lemma unpack_pack:
  assumes "i < 2 ^ 32"
  shows "unpack (pack i g) = (i, g)"
proof -
  have b: "bit (of_nat i :: u64) n \<longleftrightarrow> bit i n" if "n < 64" for n
    using that by (simp add: bit_of_nat_iff)
  have hi: "\<not> bit i n" if "32 \<le> n" for n
  proof -
    have "i div 2 ^ n = 0" using assms that
      by (meson div_less less_le_trans one_le_numeral power_increasing)
    then show ?thesis by (simp add: bit_iff_odd)
  qed
  have "(ucast (pack i g) :: u32) = of_nat i"
    by (rule bit_word_eqI) (simp add: pack_def bit_ucast_iff bit_or_iff bit_push_bit_iff bit_of_nat_iff)
  then have "unat (ucast (pack i g) :: u32) = i"
    using assms by (simp add: unat_of_nat take_bit_nat_eq_self)
  moreover have "ucast (drop_bit 32 (pack i g)) = g"
    by (rule bit_word_eqI)
      (auto simp: pack_def bit_ucast_iff bit_drop_bit_eq bit_or_iff bit_push_bit_iff bit_of_nat_iff hi)
  ultimately show ?thesis by (simp add: unpack_def)
qed

lemma pack_unpack: "unpack j = (i, g) \<Longrightarrow> pack i g = j"
proof -
  assume u: "unpack j = (i, g)"
  have "push_bit 32 (ucast (ucast (drop_bit 32 j) :: u32)) OR ucast (ucast j :: u32) = j"
    by (rule bit_word_eqI) (auto simp: bit_ucast_iff bit_or_iff bit_push_bit_iff bit_drop_bit_eq)
  then show "pack i g = j" using u by (auto simp: pack_def unpack_def)
qed

lemma unpack_less: "unpack j = (i, g) \<Longrightarrow> i < 2 ^ 32"
proof -
  assume "unpack j = (i, g)"
  then have "i = unat (ucast j :: u32)" by (simp add: unpack_def)
  then show "i < 2 ^ 32" using unsigned_less [of "ucast j :: u32"] by simp
qed

lemma pack_inject:
  assumes "i < 2 ^ 32" "j < 2 ^ 32"
  shows "pack i g = pack j h \<longleftrightarrow> i = j \<and> g = h"
proof
  assume "pack i g = pack j h"
  then have "unpack (pack i g) = unpack (pack j h)" by simp
  then show "i = j \<and> g = h"
    unfolding unpack_pack [OF assms(1)] unpack_pack [OF assms(2)] by simp
qed simp

section \<open>The abstract table: a finite map from identifiers to handles\<close>

definition handle_map ::
  "('s, 'p open_handle) slab_ops \<Rightarrow> 's open_handle_table \<Rightarrow> open_handle_id \<Rightarrow> 'p open_handle option" where
  "handle_map ops t i =
     (let (index, generation) = unpack (handle_id i)
      in (if gen_get (generations t) index = Some generation then slab_get ops (handles t) index else None))"

text \<open>One generation per slot of the slab, and never more slots than handles are allowed.\<close>

definition handle_inv :: "('s \<Rightarrow> nat) \<Rightarrow> 's open_handle_table \<Rightarrow> bool" where
  "handle_inv slots t \<longleftrightarrow>
     length (generations t) = slots (handles t) \<and> slots (handles t) \<le> max_handles t \<and>
     max_handles t < 2 ^ 32"

lemma handle_map_pack:
  assumes "i < 2 ^ 32"
  shows "handle_map ops t (OpenHandleId (pack i g)) =
    (if gen_get (generations t) i = Some g then slab_get ops (handles t) i else None)"
  by (simp add: handle_map_def unpack_pack [OF assms])

lemma handle_id_cases:
  obtains i g where "h = OpenHandleId (pack i g)" "i < 2 ^ 32" "unpack (handle_id h) = (i, g)"
proof -
  obtain i g where u: "unpack (handle_id h) = (i, g)" by (cases "unpack (handle_id h)")
  then show thesis using that [of i g] pack_unpack [OF u] unpack_less [OF u] by (cases h) auto
qed

locale handle_slab = slab_laws ops slots
  for ops :: "('s, 'p open_handle) slab_ops" and slots :: "'s \<Rightarrow> nat"
begin

lemma new_inv:
  assumes "handle_table_new ops limit idle = Inr t"
  shows "handle_inv slots t" "handle_map ops t = Map.empty" "max_handles t = limit" "idle_timeout t = idle"
  using assms slots_empty get_empty
  by (auto simp: handle_table_new_def handle_inv_def handle_map_def fun_eq_iff split: if_splits prod.splits)

lemma insert_grows:
  assumes "handle_inv slots t" "slab_len ops (handles t) < max_handles t"
    and ins: "slab_insert ops (handles t) h = (i, s)"
  defines "gens \<equiv> if i \<ge> length (generations t)
                 then generations t @ replicate (i + 1 - length (generations t)) 0 else generations t"
  shows "length gens = slots s" "i < length gens" "slots s \<le> max_handles t"
    "gens = generations t \<or> gens = generations t @ [0]" "gens = generations t @ [0] \<Longrightarrow> i = length (generations t)"
  using insert_slot [OF ins] assms(1,2) by (auto simp: handle_inv_def gens_def split: if_splits)

lemma insert_map:
  assumes "handle_inv slots t" "handle_insert ops now t h = (Inr i, t')"
  shows "handle_inv slots t'" "handle_map ops t i = None"
    "handle_map ops t' = (handle_map ops t)(i \<mapsto> h\<lparr>opened_at := now, last_accessed_at := now\<rparr>)"
    "max_handles t' = max_handles t" "idle_timeout t' = idle_timeout t"
proof -
  let ?h = "h\<lparr>opened_at := now, last_accessed_at := now\<rparr>"
  have len: "slab_len ops (handles t) < max_handles t"
    using assms(2) by (auto simp: handle_insert_def split: if_splits)
  obtain k s where ins: "slab_insert ops (handles t) ?h = (k, s)" by (cases "slab_insert ops (handles t) ?h")
  define gens where "gens = (if k \<ge> length (generations t)
                 then generations t @ replicate (k + 1 - length (generations t)) 0 else generations t)"
  note g = insert_grows [OF assms(1) len ins, folded gens_def]
  have t': "i = OpenHandleId (pack k (gens ! k))" "t' = t\<lparr>handles := s, generations := gens\<rparr>"
    using assms(2) len by (auto simp: handle_insert_def ins Let_def gens_def)
  show "handle_inv slots t'" "max_handles t' = max_handles t" "idle_timeout t' = idle_timeout t"
    using assms(1) g by (auto simp: handle_inv_def t')
  have k: "k < 2 ^ 32" using g(1-3) assms(1) by (simp add: handle_inv_def)
  show "handle_map ops t i = None"
    using insert_vacant [OF ins] by (simp add: t' handle_map_pack [OF k])
  show "handle_map ops t' = (handle_map ops t)(i \<mapsto> ?h)"
  proof
    fix j
    obtain l gl where j: "j = OpenHandleId (pack l gl)" "l < 2 ^ 32" by (rule handle_id_cases)
    have same: "gen_get gens m = gen_get (generations t) m" if "m \<noteq> k" for m
      using g(4,5) that by (auto simp: gen_get_def nth_append)
    have m': "handle_map ops t' j = (if gen_get gens l = Some gl then ((slab_get ops (handles t))(k \<mapsto> ?h)) l else None)"
      unfolding j(1) handle_map_pack [OF j(2)] using insert_get [OF ins] by (simp add: t')
    show "handle_map ops t' j = ((handle_map ops t)(i \<mapsto> ?h)) j"
    proof (cases "l = k")
      case True
      then have "j = i \<longleftrightarrow> gl = gens ! k" using k by (auto simp: j(1) t'(1) pack_inject)
      moreover have "handle_map ops t j = None"
        unfolding j(1) handle_map_pack [OF j(2)] using True insert_vacant [OF ins] by simp
      ultimately show ?thesis using m' True g(2) by (auto simp: gen_get_def)
    next
      case False
      then have "j \<noteq> i" using j k by (auto simp: t'(1) pack_inject)
      then show ?thesis using m' False same [OF False]
        by (simp add: j(1) handle_map_pack [OF j(2)])
    qed
  qed
qed

lemma insert_full:
  "handle_insert ops now t h = (Inl e, t') \<longleftrightarrow>
     max_handles t \<le> slab_len ops (handles t) \<and> e = TooManyHandles \<and> t' = t"
  by (auto simp: handle_insert_def Let_def split: prod.splits)

lemma get_mut_None:
  "handle_map ops t i = None \<Longrightarrow> handle_get_mut ops now t i = (Inl BadHandle, t)"
  by (auto simp: handle_map_def handle_get_mut_def split: prod.splits if_splits option.splits)

lemma get_mut_Some:
  assumes "handle_inv slots t" "handle_map ops t i = Some h"
  obtains t' where "handle_get_mut ops now t i = (Inr (h\<lparr>last_accessed_at := now\<rparr>), t')"
    "handle_inv slots t'" "handle_map ops t' = (handle_map ops t)(i \<mapsto> h\<lparr>last_accessed_at := now\<rparr>)"
    "max_handles t' = max_handles t" "idle_timeout t' = idle_timeout t" "generations t' = generations t"
proof -
  obtain k g where i: "i = OpenHandleId (pack k g)" "k < 2 ^ 32" "unpack (handle_id i) = (k, g)"
    by (rule handle_id_cases)
  have k: "gen_get (generations t) k = Some g" "slab_get ops (handles t) k = Some h"
    using assms(2) by (auto simp: handle_map_def i(3) split: if_splits)
  let ?h = "h\<lparr>last_accessed_at := now\<rparr>"
  let ?t = "t\<lparr>handles := slab_set ops (handles t) k ?h\<rparr>"
  have set: "slab_get ops (slab_set ops (handles t) k ?h) = (slab_get ops (handles t))(k \<mapsto> ?h)"
    "slots (slab_set ops (handles t) k ?h) = slots (handles t)"
    using k by (simp_all add: set_get set_slots)
  have "handle_map ops ?t j = ((handle_map ops t)(i \<mapsto> ?h)) j" for j
  proof -
    obtain l gl where j: "j = OpenHandleId (pack l gl)" "l < 2 ^ 32" by (rule handle_id_cases)
    then have "j = i \<longleftrightarrow> l = k \<and> gl = g" using i(1,2) by (auto simp: pack_inject)
    with k set(1) show ?thesis unfolding j(1) fun_upd_def handle_map_pack [OF j(2)] by auto
  qed
  moreover have "handle_get_mut ops now t i = (Inr ?h, ?t)"
    using k by (simp add: handle_get_mut_def i(3) Let_def)
  ultimately show thesis
    using assms(1) set(2) by (intro that [of ?t]) (auto simp: handle_inv_def)
qed

lemma remove_None: "handle_map ops t i = None \<Longrightarrow> handle_remove ops t i = (Inl BadHandle, t)"
  by (auto simp: handle_map_def handle_remove_def split: prod.splits if_splits option.splits)

lemma remove_Some:
  assumes "handle_inv slots t" "handle_map ops t i = Some h" "unpack (handle_id i) = (k, g)"
  obtains t' where "handle_remove ops t i = (Inr h, t')" "handle_inv slots t'"
    "handle_map ops t' = (handle_map ops t)(i := None)" "max_handles t' = max_handles t"
    "idle_timeout t' = idle_timeout t" "generations t' = (generations t)[k := generations t ! k + 1]"
proof -
  have i: "i = OpenHandleId (pack k g)" "k < 2 ^ 32"
    using pack_unpack [OF assms(3)] unpack_less [OF assms(3)] by (cases i; simp)+
  have k: "gen_get (generations t) k = Some g" "slab_get ops (handles t) k = Some h"
    using assms(2) by (auto simp: handle_map_def assms(3) split: if_splits)
  obtain h' s where rem: "slab_remove ops (handles t) k = (h', s)" by (cases "slab_remove ops (handles t) k")
  have s: "h' = h" "slab_get ops s = (slab_get ops (handles t))(k := None)" "slots s = slots (handles t)"
    using remove_get [OF k(2)] remove_slots [of "handles t" k] k(2) by (simp_all add: rem)
  let ?gens = "(generations t)[k := generations t ! k + 1]"
  let ?t = "t\<lparr>handles := s, generations := ?gens\<rparr>"
  have "handle_map ops ?t j = ((handle_map ops t)(i := None)) j" for j
  proof -
    obtain l gl where j: "j = OpenHandleId (pack l gl)" "l < 2 ^ 32" by (rule handle_id_cases)
    then have "j = i \<longleftrightarrow> l = k \<and> gl = g" using i by (auto simp: pack_inject)
    moreover have "gen_get ?gens l = gen_get (generations t) l" if "l \<noteq> k"
      using that by (simp add: gen_get_def)
    ultimately show ?thesis
      using k s(2) unfolding j(1) fun_upd_def handle_map_pack [OF j(2)] by auto
  qed
  moreover have "handle_remove ops t i = (Inr h, ?t)"
    using k by (simp add: handle_remove_def assms(3) rem s(1))
  ultimately show thesis
    using assms(1) s(3) by (intro that [of ?t]) (auto simp: handle_inv_def)
qed

lemma live_ids:
  assumes "handle_inv slots t"
  shows "slab_get ops (handles t) k = Some h \<Longrightarrow>
      k < 2 ^ 32 \<and> handle_map ops t (OpenHandleId (pack k (generations t ! k))) = Some h"
    and "handle_map ops t i = Some h \<Longrightarrow>
      \<exists>k. i = OpenHandleId (pack k (generations t ! k)) \<and> slab_get ops (handles t) k = Some h"
proof -
  assume h: "slab_get ops (handles t) k = Some h"
  then have k: "k < length (generations t)" "k < 2 ^ 32"
    using get_slots [OF h] assms by (auto simp: handle_inv_def)
  show "k < 2 ^ 32 \<and> handle_map ops t (OpenHandleId (pack k (generations t ! k))) = Some h"
    using h k unfolding handle_map_pack [OF k(2)] by (simp add: gen_get_def)
next
  assume m: "handle_map ops t i = Some h"
  obtain k g where i: "i = OpenHandleId (pack k g)" "k < 2 ^ 32" by (rule handle_id_cases)
  from m have "gen_get (generations t) k = Some g" "slab_get ops (handles t) k = Some h"
    unfolding i(1) handle_map_pack [OF i(2)] by (simp_all split: if_splits)
  then show "\<exists>k. i = OpenHandleId (pack k (generations t ! k)) \<and> slab_get ops (handles t) k = Some h"
    using i(1) by (auto simp: gen_get_def split: if_splits)
qed

text \<open>The sweep lists exactly the live handles that have been idle for the timeout, each once.\<close>

lemma expired_ids_set:
  assumes "handle_inv slots t"
  shows "set (expired_ids ops t now) =
      {i. \<exists>h. handle_map ops t i = Some h \<and> idle_timeout t \<le> now - last_accessed_at h}"
  using live_ids [OF assms] by (fastforce simp: expired_ids_def iter_get)

lemma expired_ids_distinct:
  assumes "handle_inv slots t"
  shows "distinct (expired_ids ops t now)"
proof -
  let ?xs = "filter (\<lambda>(_, h). now - last_accessed_at h \<ge> idle_timeout t) (slab_iter ops (handles t))"
  have "inj_on (\<lambda>(k, h). OpenHandleId (pack k (generations t ! k))) (set ?xs)"
  proof (rule inj_onI, clarsimp simp: iter_get)
    fix k h l h'
    assume k: "slab_get ops (handles t) k = Some h" and l: "slab_get ops (handles t) l = Some h'"
      and eq: "pack k (generations t ! k) = pack l (generations t ! l)"
    have "k < 2 ^ 32" "l < 2 ^ 32" using live_ids(1) [OF assms] k l by blast+
    with eq have "k = l" by (simp add: pack_inject)
    with k l show "k = l \<and> h = h'" by simp
  qed
  moreover have "distinct ?xs" using iter_distinct [of "handles t"] by (simp add: distinct_map)
  ultimately show ?thesis by (simp add: expired_ids_def distinct_map)
qed

lemma len_bounded:
  assumes "handle_inv slots t"
  shows "handle_len ops t \<le> max_handles t"
proof -
  have "dom (slab_get ops (handles t)) \<subseteq> {..<slots (handles t)}" using get_slots by auto
  then have "card (dom (slab_get ops (handles t))) \<le> slots (handles t)"
    using card_mono [of "{..<slots (handles t)}"] by simp
  then show ?thesis using assms by (simp add: handle_len_def len_card handle_inv_def)
qed

lemma len_map:
  assumes "handle_inv slots t"
  shows "handle_len ops t = card (dom (handle_map ops t))"
proof -
  let ?f = "\<lambda>k. OpenHandleId (pack k (generations t ! k))"
  have "inj_on ?f (dom (slab_get ops (handles t)))"
  proof (rule inj_onI)
    fix k l assume "k \<in> dom (slab_get ops (handles t))" "l \<in> dom (slab_get ops (handles t))" "?f k = ?f l"
    moreover from this have "k < 2 ^ 32" "l < 2 ^ 32" using live_ids(1) [OF assms] by blast+
    ultimately show "k = l" by (simp add: pack_inject)
  qed
  moreover have "?f ` dom (slab_get ops (handles t)) = dom (handle_map ops t)"
    using live_ids [OF assms] by (fastforce simp: dom_def image_iff)
  ultimately show ?thesis using card_image [of ?f "dom (slab_get ops (handles t))"]
    by (simp add: handle_len_def len_card)
qed

end

section \<open>Runs and stale identifiers\<close>

text \<open>
  A run is any sequence of calls; it is labelled with the slots its successful removals freed, in
  order.
\<close>

definition freed :: "'a vfs_result \<Rightarrow> open_handle_id \<Rightarrow> nat list" where
  "freed r i = (if is_ok r then [fst (unpack (handle_id i))] else [])"

inductive handle_run ::
  "('s, 'p open_handle) slab_ops \<Rightarrow> 's open_handle_table \<Rightarrow> nat list \<Rightarrow> 's open_handle_table \<Rightarrow> bool"
  for ops where
  run_start: "handle_run ops t [] t"
| run_insert: "handle_run ops t ks u \<Longrightarrow> handle_run ops t ks (snd (handle_insert ops now u h))"
| run_get_mut: "handle_run ops t ks u \<Longrightarrow> handle_run ops t ks (snd (handle_get_mut ops now u i))"
| run_remove: "handle_run ops t ks u \<Longrightarrow>
    handle_run ops t (ks @ freed (fst (handle_remove ops u i)) i) (snd (handle_remove ops u i))"

definition same_generations :: "u32 list \<Rightarrow> nat list \<Rightarrow> u32 list \<Rightarrow> bool" where
  "same_generations gens ks gens' \<longleftrightarrow>
     length gens \<le> length gens' \<and>
     (\<forall>i < length gens. gens' ! i = gens ! i + of_nat (count_list ks i))"

context handle_slab
begin

lemma insert_any:
  assumes "handle_inv slots t"
  shows "handle_inv slots (snd (handle_insert ops now t h)) \<and>
    same_generations (generations t) [] (generations (snd (handle_insert ops now t h)))"
proof (cases "handle_insert ops now t h")
  case (Pair r t')
  show ?thesis
  proof (cases r)
    case (Inl e)
    with Pair have "snd (handle_insert ops now t h) = t" using insert_full [of now t h e t'] by simp
    with assms show ?thesis by (simp add: same_generations_def)
  next
    case (Inr i)
    have "\<exists>zs. generations t' = generations t @ zs"
      using Pair Inr by (auto simp: handle_insert_def Let_def split: if_splits prod.splits)
    then have "same_generations (generations t) [] (generations t')"
      by (auto simp: same_generations_def nth_append)
    with Pair Inr insert_map(1) [OF assms, of now h i t'] show ?thesis by simp
  qed
qed

lemma get_mut_any:
  assumes "handle_inv slots t"
  shows "handle_inv slots (snd (handle_get_mut ops now t i)) \<and>
    same_generations (generations t) [] (generations (snd (handle_get_mut ops now t i)))"
proof (cases "handle_map ops t i")
  case None
  with assms show ?thesis by (simp add: get_mut_None same_generations_def)
next
  case (Some h)
  obtain t' where "handle_get_mut ops now t i = (Inr (h\<lparr>last_accessed_at := now\<rparr>), t')"
    "handle_inv slots t'" "generations t' = generations t"
    by (rule get_mut_Some [OF assms Some])
  then show ?thesis by (simp add: same_generations_def)
qed

lemma remove_any:
  assumes "handle_inv slots t"
  shows "handle_inv slots (snd (handle_remove ops t i)) \<and>
    same_generations (generations t) (freed (fst (handle_remove ops t i)) i)
      (generations (snd (handle_remove ops t i)))"
proof (cases "handle_map ops t i")
  case None
  with assms show ?thesis by (simp add: remove_None same_generations_def freed_def)
next
  case (Some h)
  obtain k g where k: "unpack (handle_id i) = (k, g)" by (cases "unpack (handle_id i)")
  obtain t' where "handle_remove ops t i = (Inr h, t')" "handle_inv slots t'"
    "generations t' = (generations t)[k := generations t ! k + 1]"
    by (rule remove_Some [OF assms Some k])
  then show ?thesis by (auto simp: same_generations_def freed_def k nth_list_update)
qed

lemma same_generations_trans:
  assumes "same_generations a ks b" "same_generations b ls c"
  shows "same_generations a (ks @ ls) c"
  using assms by (auto simp: same_generations_def add.assoc)

lemma run_generations:
  assumes "handle_run ops t ks t'" "handle_inv slots t"
  shows "handle_inv slots t' \<and> same_generations (generations t) ks (generations t')"
  using assms
proof (induction rule: handle_run.induct)
  case (run_start t)
  then show ?case by (simp add: same_generations_def)
next
  case (run_insert t ks u now h)
  then show ?case using insert_any [of u now h] same_generations_trans [of _ ks _ "[]"] by auto
next
  case (run_get_mut t ks u now i)
  then show ?case using get_mut_any [of u now i] same_generations_trans [of _ ks _ "[]"] by auto
next
  case (run_remove t ks u i)
  then show ?case using remove_any [of u i] same_generations_trans by blast
qed

text \<open>
  A removed identifier stays dead while its slot is freed fewer than \<open>2 ^ 32 - 1\<close> more times, the
  point at which the generation would come round again.
\<close>

lemma stale_after_remove:
  assumes inv: "handle_inv slots t" and rem: "handle_remove ops t i = (Inr h, t1)"
    and run: "handle_run ops t1 ks t2" and few: "count_list ks (fst (unpack (handle_id i))) < 2 ^ 32 - 1"
  shows "handle_map ops t2 i = None"
proof -
  obtain k g where k: "unpack (handle_id i) = (k, g)" by (cases "unpack (handle_id i)")
  have live: "handle_map ops t i = Some h"
  proof (cases "handle_map ops t i")
    case None
    then show ?thesis using rem remove_None by fastforce
  next
    case (Some h')
    then show ?thesis using rem remove_Some [OF inv Some k] by (metis prod.inject sum.inject(2))
  qed
  have g: "gen_get (generations t) k = Some g"
    using live by (auto simp: handle_map_def k split: if_splits)
  have t1: "handle_inv slots t1" "generations t1 = (generations t)[k := generations t ! k + 1]"
    using rem remove_Some [OF inv live k] by (metis prod.inject)+
  have "same_generations (generations t1) ks (generations t2)"
    using run_generations [OF run t1(1)] by simp
  then have "generations t2 ! k = g + 1 + of_nat (count_list ks k)"
    using g t1(2) by (auto simp: same_generations_def gen_get_def split: if_splits)
  then have g2: "generations t2 ! k = g + of_nat (Suc (count_list ks k))" by simp
  have c: "Suc (count_list ks k) < 2 ^ 32" using few by (simp add: k)
  have "(of_nat (Suc (count_list ks k)) :: u32) \<noteq> 0"
  proof
    assume "(of_nat (Suc (count_list ks k)) :: u32) = 0"
    then have "unat (of_nat (Suc (count_list ks k)) :: u32) = 0" by (simp only: unat_0)
    then show False using c by (simp add: unat_of_nat take_bit_nat_eq_self del: of_nat_Suc)
  qed
  then have "generations t2 ! k \<noteq> g" unfolding g2 by simp
  then show ?thesis by (auto simp: handle_map_def k gen_get_def)
qed

end

section \<open>A slab that satisfies the laws\<close>

text \<open>A vector of optional entries; an insertion takes the first vacant one, or appends.\<close>

fun vacant :: "'h option list \<Rightarrow> nat" where
  "vacant [] = 0"
| "vacant (None # _) = 0"
| "vacant (Some _ # xs) = Suc (vacant xs)"

definition vec_slab :: "('h option list, 'h) slab_ops" where
  "vec_slab =
     \<lparr>slab_empty = [],
      slab_len = (\<lambda>s. length (filter (\<lambda>x. x \<noteq> None) s)),
      slab_insert = (\<lambda>s h. (vacant s, if vacant s < length s then s[vacant s := Some h] else s @ [Some h])),
      slab_get = (\<lambda>s i. if i < length s then s ! i else None),
      slab_set = (\<lambda>s i h. s[i := Some h]),
      slab_remove = (\<lambda>s i. (the (s ! i), s[i := None])),
      slab_iter = (\<lambda>s. map (\<lambda>(i, x). (i, the x)) (filter (\<lambda>(_, x). x \<noteq> None) (enumerate 0 s)))\<rparr>"

lemma vacant_le: "vacant s \<le> length s"
  by (induction s rule: vacant.induct) auto

lemma vacant_None: "vacant s < length s \<Longrightarrow> s ! vacant s = None"
  by (induction s rule: vacant.induct) auto

lemma vacant_full: "vacant s = length s \<longleftrightarrow> length (filter (\<lambda>x. x \<noteq> None) s) = length s"
proof (induction s rule: vacant.induct)
  case (2 xs)
  have "length (filter (\<lambda>x. x \<noteq> None) xs) \<noteq> Suc (length xs)"
    using length_filter_le [of "\<lambda>x. x \<noteq> None" xs] by linarith
  then show ?case by simp
qed auto

interpretation vs: handle_slab "vec_slab :: ('p open_handle option list, 'p open_handle) slab_ops" length
proof (unfold_locales, goal_cases)
  case (4 s)
  have "dom (\<lambda>i. if i < length s then s ! i else None) = {i. i < length s \<and> s ! i \<noteq> None}"
    by (auto split: if_splits)
  then show ?case by (simp add: vec_slab_def length_filter_conv_card)
next
  case (5 s h i s')
  then show ?case using vacant_None [of s] by (auto simp: vec_slab_def)
next
  case (6 s h i s')
  then show ?case using vacant_le [of s]
    by (auto simp: vec_slab_def fun_eq_iff nth_append nth_list_update split: if_splits)
next
  case (7 s h i s')
  then show ?case using vacant_le [of s] vacant_full [of s] by (auto simp: vec_slab_def split: if_splits)
next
  case (12 i h s)
  show ?case by (auto simp: vec_slab_def in_set_enumerate_eq image_iff split: if_splits)
next
  case (13 s)
  have "map fst (slab_iter vec_slab s) = map fst (filter (\<lambda>(_, x). x \<noteq> None) (enumerate 0 s))"
    by (simp add: vec_slab_def comp_def case_prod_beta)
  then show ?case by (simp add: distinct_map_filter)
qed (auto simp: vec_slab_def fun_eq_iff nth_list_update split: if_splits)

section \<open>Properties\<close>

lemma slab_handle: "slab_laws ops slots \<Longrightarrow> handle_slab ops slots"
  by (simp add: handle_slab_def)

text \<open>
  C8. The handle table refines a finite map from identifiers to handles, on every branch: an insertion
  adds a fresh identifier, an access touches the handle it finds and a removal deletes it, while an
  identifier outside the map is answered with \<^verbatim>\<open>BadHandle\<close> and changes nothing.
\<close>

theorem handle_table_refines_map:
  assumes "slab_laws ops slots" "handle_inv slots t"
  shows "(case handle_insert ops now t h of
        (Inl e, t') \<Rightarrow> e = TooManyHandles \<and> t' = t \<and> max_handles t \<le> handle_len ops t
      | (Inr i, t') \<Rightarrow> handle_inv slots t' \<and> handle_map ops t i = None \<and>
          handle_map ops t' = (handle_map ops t)(i \<mapsto> h\<lparr>opened_at := now, last_accessed_at := now\<rparr>)) \<and>
    (case handle_map ops t j of
        None \<Rightarrow> handle_get_mut ops now t j = (Inl BadHandle, t) \<and> handle_remove ops t j = (Inl BadHandle, t)
      | Some g \<Rightarrow>
          (\<exists>t'. handle_get_mut ops now t j = (Inr (g\<lparr>last_accessed_at := now\<rparr>), t') \<and> handle_inv slots t' \<and>
             handle_map ops t' = (handle_map ops t)(j \<mapsto> g\<lparr>last_accessed_at := now\<rparr>)) \<and>
          (\<exists>t'. handle_remove ops t j = (Inr g, t') \<and> handle_inv slots t' \<and>
             handle_map ops t' = (handle_map ops t)(j := None)))" (is "?ins \<and> ?acc")
proof
  note hs = slab_handle [OF assms(1)]
  show ?ins
  proof (cases "handle_insert ops now t h")
    case (Pair r t')
    show ?thesis
    proof (cases r)
      case (Inl e)
      have "max_handles t \<le> slab_len ops (handles t) \<and> e = TooManyHandles \<and> t' = t"
        using handle_slab.insert_full [OF hs, of now t h e t'] Pair Inl by simp
      then show ?thesis unfolding Pair Inl by (simp add: handle_len_def)
    next
      case (Inr i)
      show ?thesis using handle_slab.insert_map [OF hs assms(2) Pair [unfolded Inr]] unfolding Pair Inr by simp
    qed
  qed
  show ?acc
  proof (cases "handle_map ops t j")
    case None
    then show ?thesis
      by (simp add: handle_slab.get_mut_None [OF hs] handle_slab.remove_None [OF hs])
  next
    case (Some g)
    obtain k gen where k: "unpack (handle_id j) = (k, gen)" by (cases "unpack (handle_id j)")
    have "\<exists>t'. handle_get_mut ops now t j = (Inr (g\<lparr>last_accessed_at := now\<rparr>), t') \<and> handle_inv slots t' \<and>
             handle_map ops t' = (handle_map ops t)(j \<mapsto> g\<lparr>last_accessed_at := now\<rparr>)"
      by (rule handle_slab.get_mut_Some [OF hs assms(2) Some]) blast
    moreover have "\<exists>t'. handle_remove ops t j = (Inr g, t') \<and> handle_inv slots t' \<and>
             handle_map ops t' = (handle_map ops t)(j := None)"
      by (rule handle_slab.remove_Some [OF hs assms(2) Some k]) blast
    ultimately show ?thesis using Some by simp
  qed
qed

definition demo_handle :: "nat open_handle" where
  "demo_handle = \<lparr>oh_provider = 0, oh_provider_handle = \<lparr>pfh_id = 1, pfh_path = path_root, content_generation = 0\<rparr>,
     oh_resource = Volume ''v'', oh_path = path_root, oh_content_generation = 0,
     backing_strategy = ''provider'', opened_at = 0, last_accessed_at = 0\<rparr>"

definition demo_handles :: "nat open_handle option list open_handle_table" where
  "demo_handles = \<lparr>handles = [Some demo_handle], generations = [0], max_handles = 2, idle_timeout = 5\<rparr>"

lemma demo_handles_inv: "handle_inv length demo_handles"
  by (simp add: handle_inv_def demo_handles_def)

lemma demo_slab: "slab_laws (vec_slab :: (nat open_handle option list, nat open_handle) slab_ops) length"
  by unfold_locales

lemma demo_handles_map: "handle_map vec_slab demo_handles (OpenHandleId 0) = Some demo_handle"
  by (simp add: handle_map_def unpack_def gen_get_def demo_handles_def vec_slab_def)

theorem handle_table_refines_map_witness:
  "\<exists>t'. handle_get_mut vec_slab 7 demo_handles (OpenHandleId 0) = (Inr (demo_handle\<lparr>last_accessed_at := 7\<rparr>), t')"
  using handle_table_refines_map [OF demo_slab demo_handles_inv, of 7 demo_handle "OpenHandleId 0"]
  by (auto simp: demo_handles_map)

text \<open>
  C9. A removed identifier stays invalid: whatever calls follow, as long as its slot is freed fewer
  than \<open>2 ^ 32 - 1\<close> more times, an access or removal with it is answered with \<^verbatim>\<open>BadHandle\<close>.
\<close>

theorem removed_handle_stays_invalid:
  assumes "slab_laws ops slots" "handle_inv slots t" "handle_remove ops t i = (Inr h, t1)"
    and "handle_run ops t1 ks t2" "count_list ks (fst (unpack (handle_id i))) < 2 ^ 32 - 1"
  shows "handle_get_mut ops now t2 i = (Inl BadHandle, t2) \<and> handle_remove ops t2 i = (Inl BadHandle, t2)"
proof -
  note hs = slab_handle [OF assms(1)]
  have "handle_map ops t2 i = None" by (rule handle_slab.stale_after_remove [OF hs assms(2-5)])
  then show ?thesis by (simp add: handle_slab.get_mut_None [OF hs] handle_slab.remove_None [OF hs])
qed

theorem removed_handle_stays_invalid_witness:
  "fst (handle_get_mut vec_slab 7 (snd (handle_remove vec_slab demo_handles (OpenHandleId 0))) (OpenHandleId 0))
     = Inl BadHandle"
proof -
  have "\<exists>t1. handle_remove vec_slab demo_handles (OpenHandleId 0) = (Inr demo_handle, t1)"
    by (simp add: handle_remove_def unpack_def gen_get_def demo_handles_def vec_slab_def)
  then obtain t1 where r: "handle_remove vec_slab demo_handles (OpenHandleId 0) = (Inr demo_handle, t1)" by blast
  show ?thesis
    using removed_handle_stays_invalid [OF demo_slab demo_handles_inv r run_start, of 7] r by simp
qed

text \<open>
  The idle sweep lists exactly the live identifiers whose handle has been idle for the timeout,
  each once, and the table never holds more handles than its limit.
\<close>

theorem idle_sweep_exact:
  assumes "slab_laws ops slots" "handle_inv slots t"
  shows "set (expired_ids ops t now) =
      {i. \<exists>h. handle_map ops t i = Some h \<and> idle_timeout t \<le> now - last_accessed_at h} \<and>
    distinct (expired_ids ops t now) \<and>
    handle_len ops t = card (dom (handle_map ops t)) \<and> handle_len ops t \<le> max_handles t"
  using handle_slab.expired_ids_set [OF slab_handle [OF assms(1)] assms(2)]
    handle_slab.expired_ids_distinct [OF slab_handle [OF assms(1)] assms(2)]
    handle_slab.len_map [OF slab_handle [OF assms(1)] assms(2)]
    handle_slab.len_bounded [OF slab_handle [OF assms(1)] assms(2)]
  by simp

theorem idle_sweep_exact_witness: "OpenHandleId 0 \<in> set (expired_ids vec_slab demo_handles 5)"
  using idle_sweep_exact [OF demo_slab demo_handles_inv, of 5]
  by (simp add: demo_handles_map) (simp add: demo_handles_def demo_handle_def)

text \<open>A packed identifier determines its slot and generation, for every slot a table can have.\<close>

theorem handle_id_roundtrip:
  assumes "i < 2 ^ 32"
  shows "unpack (pack i g) = (i, g) \<and> pack (fst (unpack j)) (snd (unpack j)) = j"
  using unpack_pack [OF assms] pack_unpack [of j "fst (unpack j)" "snd (unpack j)"] by simp

theorem handle_id_roundtrip_witness: "unpack (pack 3 5) = (3, 5)"
  using handle_id_roundtrip [of 3 5] by simp

end
