(* ===== verification/Executor.thy ===== *)
theory Executor
  imports Vfs_Error
begin

text \<open>
  The provider executor (\<^verbatim>\<open>crates/tuxstack-vfs/src/executor.rs\<close>). FUSE callbacks run concurrently
  and each call of \<^verbatim>\<open>execute\<close> takes a token from a bounded channel, runs its future on the Tokio
  runtime, waits for the one-shot result and gives the token back. A state records the tokens in the
  channel and how far each call has come; the relation \<open>exec_step\<close> interleaves the calls. How a task
  ends is decided by Tokio and is an argument of the step.
\<close>

datatype 'r task_end = Completed 'r | Elapsed | Cancelled

text \<open>What \<^verbatim>\<open>execute\<close> makes of the end of its task.\<close>

fun task_result :: "'a vfs_result task_end \<Rightarrow> 'a vfs_result" where
  "task_result (Completed r) = r"
| "task_result Elapsed = Inl TimedOut"
| "task_result Cancelled = Inl (Unavailable ''provider task was cancelled'')"

datatype 'a call_state =
    Waiting
  | Running
  | TaskDone "'a vfs_result"
  | Returned "'a vfs_result"

record 'a executor =
  capacity :: nat
  available :: nat
  ex_timeout :: nat
  calls :: "nat \<rightharpoonup> 'a call_state"

definition WORKER_THREADS :: nat where "WORKER_THREADS = 4"

text \<open>Sending a token into the channel blocks when the channel is full.\<close>

definition send_token :: "'a executor \<Rightarrow> 'a executor option" where
  "send_token e = (if available e < capacity e then Some (e\<lparr>available := available e + 1\<rparr>) else None)"

fun fill_tokens :: "nat \<Rightarrow> 'a executor \<Rightarrow> 'a executor option" where
  "fill_tokens 0 e = Some e"
| "fill_tokens (Suc n) e = Option.bind (send_token e) (fill_tokens n)"

text \<open>
  \<open>built\<close> is the result of building the Tokio runtime. \<open>None\<close> would be a constructor that blocks on a
  full channel.
\<close>

definition executor_new :: "unit vfs_result \<Rightarrow> nat \<Rightarrow> nat \<Rightarrow> 'a executor vfs_result option" where
  "executor_new built max_in_flight timeout =
     (if max_in_flight = 0 then Some (Inl (InvalidInput ''executor limit must be non-zero''))
      else if timeout = 0 then Some (Inl (InvalidInput ''operation timeout must be non-zero''))
      else (case built of
          Inl err \<Rightarrow> Some (Inl err)
        | Inr _ \<Rightarrow>
           map_option Inr
             (fill_tokens max_in_flight
                \<lparr>capacity = max_in_flight, available = 0, ex_timeout = timeout, calls = Map.empty\<rparr>)))"

inductive exec_step :: "'a executor \<Rightarrow> 'a executor \<Rightarrow> bool" where
  enter: "calls e c = None \<Longrightarrow> exec_step e (e\<lparr>calls := (calls e)(c \<mapsto> Waiting)\<rparr>)"
| acquire: "calls e c = Some Waiting \<Longrightarrow> available e > 0 \<Longrightarrow>
    exec_step e (e\<lparr>available := available e - 1, calls := (calls e)(c \<mapsto> Running)\<rparr>)"
| task: "calls e c = Some Running \<Longrightarrow>
    exec_step e (e\<lparr>calls := (calls e)(c \<mapsto> TaskDone (task_result t))\<rparr>)"
| give_back: "calls e c = Some (TaskDone r) \<Longrightarrow> send_token e = Some e' \<Longrightarrow>
    exec_step e (e'\<lparr>calls := (calls e')(c \<mapsto> Returned r)\<rparr>)"

inductive_cases exec_stepE: "exec_step e e'"

section \<open>Tokens are conserved\<close>

definition in_flight :: "'a executor \<Rightarrow> nat set" where
  "in_flight e = {c. calls e c = Some Running \<or> (\<exists>r. calls e c = Some (TaskDone r))}"

definition executor_inv :: "'a executor \<Rightarrow> bool" where
  "executor_inv e \<longleftrightarrow>
     capacity e > 0 \<and> finite (in_flight e) \<and> available e + card (in_flight e) = capacity e"

lemma fill_tokens_Some:
  "available e + n \<le> capacity e \<Longrightarrow> fill_tokens n e = Some (e\<lparr>available := available e + n\<rparr>)"
  by (induction n arbitrary: e) (auto simp: send_token_def)

lemma executor_new_Some:
  assumes "max_in_flight > 0" "timeout > 0"
  shows "executor_new (Inr ()) max_in_flight timeout =
    Some (Inr \<lparr>capacity = max_in_flight, available = max_in_flight, ex_timeout = timeout, calls = Map.empty\<rparr>)"
  using assms by (simp add: executor_new_def fill_tokens_Some)

lemma executor_new_returns: "executor_new built m t \<noteq> None"
  by (cases built) (simp_all add: executor_new_def fill_tokens_Some)

lemma executor_new_inv: "executor_new built m t = Some (Inr e) \<Longrightarrow> executor_inv e \<and> capacity e = m"
  by (cases built) (auto simp: executor_new_def fill_tokens_Some executor_inv_def in_flight_def split: if_splits)

lemma in_flight_upd:
  "in_flight (e\<lparr>calls := (calls e)(c \<mapsto> s)\<rparr>) =
     (if s = Running \<or> (\<exists>r. s = TaskDone r) then insert c (in_flight e) else in_flight e - {c})"
  by (auto simp: in_flight_def)

lemma in_flight_available [simp]: "in_flight (e\<lparr>available := n\<rparr>) = in_flight e"
  by (simp add: in_flight_def)

lemma not_in_flight: "calls e c = None \<or> calls e c = Some Waiting \<Longrightarrow> c \<notin> in_flight e"
  by (auto simp: in_flight_def)

lemma is_in_flight: "calls e c = Some Running \<or> calls e c = Some (TaskDone r) \<Longrightarrow> c \<in> in_flight e"
  by (auto simp: in_flight_def)

lemma update_swap: "e\<lparr>available := n, calls := f\<rparr> = e\<lparr>calls := f, available := n\<rparr>"
  by (cases e) simp

lemma exec_step_inv:
  assumes "exec_step e e'" "executor_inv e"
  shows "executor_inv e' \<and> capacity e' = capacity e"
  using assms
proof (induction rule: exec_step.induct)
  case (enter e c)
  then show ?case using not_in_flight [of e c] by (simp add: executor_inv_def in_flight_upd)
next
  case (acquire e c)
  then show ?case using not_in_flight [of e c]
    by (simp add: executor_inv_def in_flight_upd update_swap)
next
  case (task e c t)
  then show ?case using is_in_flight [of e c] by (simp add: executor_inv_def in_flight_upd insert_absorb)
next
  case (give_back e c r e')
  then have "e' = e\<lparr>available := available e + 1\<rparr>" "card (in_flight e) > 0" "c \<in> in_flight e"
    using is_in_flight [of e c r] by (auto simp: send_token_def executor_inv_def card_gt_0_iff split: if_splits)
  with give_back show ?case by (simp add: executor_inv_def in_flight_upd update_swap)
qed

inductive executor_reachable :: "nat \<Rightarrow> 'a executor \<Rightarrow> bool" for m where
  exec_start: "executor_new (Inr ()) m t = Some (Inr e) \<Longrightarrow> executor_reachable m e"
| exec_next: "executor_reachable m e \<Longrightarrow> exec_step e e' \<Longrightarrow> executor_reachable m e'"

lemma executor_reachable_inv: "executor_reachable m e \<Longrightarrow> executor_inv e \<and> capacity e = m"
  by (induction rule: executor_reachable.induct) (auto dest: executor_new_inv exec_step_inv)

text \<open>Giving a token back never blocks: a finished task holds one.\<close>

lemma give_back_enabled:
  assumes "executor_inv e" "calls e c = Some (TaskDone r)"
  shows "send_token e = Some (e\<lparr>available := available e + 1\<rparr>)"
proof -
  have "card (in_flight e) > 0"
    using assms is_in_flight [of e c r] by (auto simp: executor_inv_def card_gt_0_iff)
  then show ?thesis using assms(1) by (simp add: send_token_def executor_inv_def)
qed

text \<open>Every call can be driven to its return, whatever the other calls hold.\<close>

lemma finish_running:
  assumes "executor_inv e" "calls e c = Some Running"
  shows "\<exists>e'. exec_step\<^sup>*\<^sup>* e e' \<and> calls e' c = Some (Returned (task_result t)) \<and>
    available e' = available e + 1 \<and> (\<forall>d. d \<noteq> c \<longrightarrow> calls e' d = calls e d)"
proof -
  let ?e1 = "e\<lparr>calls := (calls e)(c \<mapsto> TaskDone (task_result t))\<rparr>"
  have s1: "exec_step e ?e1" using assms(2) by (rule exec_step.task)
  then have "executor_inv ?e1" using exec_step_inv assms(1) by blast
  moreover have d: "calls ?e1 c = Some (TaskDone (task_result t))" by simp
  ultimately have "send_token ?e1 = Some (?e1\<lparr>available := available ?e1 + 1\<rparr>)" by (rule give_back_enabled)
  from exec_step.give_back [OF d this] s1 show ?thesis
    by (intro exI [of _ "(?e1\<lparr>available := available ?e1 + 1\<rparr>)\<lparr>calls := (calls e)(c \<mapsto> Returned (task_result t))\<rparr>"])
      (auto intro: rtranclp.rtrancl_into_rtrancl)
qed

lemma finish_done:
  assumes "executor_inv e" "calls e c = Some (TaskDone r)"
  shows "\<exists>e'. exec_step\<^sup>*\<^sup>* e e' \<and> calls e' c = Some (Returned r) \<and> available e' = available e + 1 \<and>
    (\<forall>d. d \<noteq> c \<longrightarrow> calls e' d = calls e d)"
proof -
  let ?e = "e\<lparr>available := available e + 1\<rparr>"
  have "exec_step e (?e\<lparr>calls := (calls ?e)(c \<mapsto> Returned r)\<rparr>)"
    using assms(2) give_back_enabled [OF assms] by (rule exec_step.give_back)
  then show ?thesis by (intro exI [of _ "?e\<lparr>calls := (calls ?e)(c \<mapsto> Returned r)\<rparr>"]) auto
qed

lemma acquire_possible:
  assumes "executor_inv e" "calls e c = Some Waiting"
  shows "\<exists>e'. exec_step\<^sup>*\<^sup>* e e' \<and> executor_inv e' \<and> calls e' c = Some Waiting \<and> available e' > 0"
proof (cases "available e > 0")
  case True
  with assms show ?thesis by blast
next
  case False
  then have "in_flight e \<noteq> {}" using assms(1) by (auto simp: executor_inv_def)
  then obtain d where d: "d \<in> in_flight e" by blast
  then have "d \<noteq> c" using assms(2) by (auto simp: in_flight_def)
  obtain e' where "exec_step\<^sup>*\<^sup>* e e'" "available e' = available e + 1" "calls e' c = calls e c"
    using d finish_running [OF assms(1), of d Elapsed] finish_done [OF assms(1), of d] \<open>d \<noteq> c\<close>
    by (auto simp: in_flight_def)
  moreover from this(1) have "executor_inv e'"
    using assms(1) by (induction rule: rtranclp_induct) (auto dest: exec_step_inv)
  ultimately show ?thesis using assms(2) by auto
qed

lemma waiting_returns:
  assumes "executor_inv e" "calls e c = Some Waiting"
  shows "\<exists>e'. exec_step\<^sup>*\<^sup>* e e' \<and> calls e' c = Some (Returned (task_result t))"
proof -
  obtain e1 where e1: "exec_step\<^sup>*\<^sup>* e e1" "executor_inv e1" "calls e1 c = Some Waiting" "available e1 > 0"
    using acquire_possible [OF assms] by blast
  have s: "exec_step e1 (e1\<lparr>available := available e1 - 1, calls := (calls e1)(c \<mapsto> Running)\<rparr>)" (is "exec_step e1 ?e2")
    using e1(3,4) by (rule exec_step.acquire)
  have "executor_inv ?e2" using exec_step_inv [OF s e1(2)] by simp
  moreover have "calls ?e2 c = Some Running" by simp
  ultimately obtain e3 where "exec_step\<^sup>*\<^sup>* ?e2 e3" "calls e3 c = Some (Returned (task_result t))"
    using finish_running by blast
  with e1(1) s show ?thesis by (meson converse_rtranclp_into_rtranclp rtranclp_trans)
qed

section \<open>Properties\<close>

text \<open>
  C16. Under any interleaving of calls the tokens are conserved: those in the channel and those held by
  calls in flight add up to the limit, so never more than the limit run at once, and a call that has
  its result can always give its token back without blocking.
\<close>

theorem executor_tokens_conserved:
  assumes "executor_reachable m e"
  shows "finite (in_flight e) \<and> available e + card (in_flight e) = m \<and> card (in_flight e) \<le> m \<and>
    (calls e c = Some (TaskDone r) \<longrightarrow> send_token e \<noteq> None)"
  using executor_reachable_inv [OF assms] give_back_enabled [of e c r] by (auto simp: executor_inv_def)

definition demo_executor :: "unit executor" where
  "demo_executor = \<lparr>capacity = 1, available = 1, ex_timeout = 5, calls = Map.empty\<rparr>"

lemma demo_executor_reachable: "executor_reachable 1 demo_executor"
proof (rule exec_start)
  show "executor_new (Inr ()) 1 5 = Some (Inr demo_executor)" by (simp add: executor_new_Some demo_executor_def)
qed

theorem executor_tokens_conserved_witness: "available demo_executor + card (in_flight demo_executor) = 1"
  using executor_tokens_conserved [OF demo_executor_reachable] by blast

text \<open>
  C17. No call is starved of the possibility to finish: from every reachable state a waiting call can
  be driven to its return with the result of its task, even when all tokens are held by others.
\<close>

theorem executor_call_can_return:
  assumes "executor_reachable m e" "calls e c = Some Waiting"
  shows "\<exists>e'. exec_step\<^sup>*\<^sup>* e e' \<and> calls e' c = Some (Returned (task_result t))"
  using waiting_returns [of e c t] executor_reachable_inv [OF assms(1)] assms(2) by blast

theorem executor_call_can_return_witness:
  "\<exists>e'. exec_step\<^sup>*\<^sup>* (demo_executor\<lparr>calls := [7 \<mapsto> Waiting]\<rparr>) e' \<and> calls e' 7 = Some (Returned (Inl TimedOut))"
proof -
  have "exec_step demo_executor (demo_executor\<lparr>calls := (calls demo_executor)(7 \<mapsto> Waiting)\<rparr>)"
    by (rule exec_step.enter) (simp add: demo_executor_def)
  then have "executor_reachable 1 (demo_executor\<lparr>calls := [7 \<mapsto> Waiting]\<rparr>)"
    using exec_next [OF demo_executor_reachable] by (simp add: demo_executor_def)
  from executor_call_can_return [OF this, of 7 Elapsed] show ?thesis by simp
qed

end
