(* ===== verification/Symlink.thy ===== *)
theory Symlink
  imports Vfs_Path
begin

text \<open>
  Symbolic links inside a Docker resource (\<^verbatim>\<open>crates/tuxstack-vfs/src/symlink.rs\<close>): resolving a
  target against the link's directory, rewriting an absolute target to a relative one that
  cannot leave the resource root, and following a bounded chain of links. The callback
  \<^verbatim>\<open>read_link: FnMut\<close> threads a state of its own.
\<close>

definition DEFAULT_MAX_SYMLINK_DEPTH :: nat where
  "DEFAULT_MAX_SYMLINK_DEPTH = 40"

fun resolve_loop :: "virtual_file_name list \<Rightarrow> bytes list \<Rightarrow> virtual_file_name list vfs_result" where
  "resolve_loop cs [] = Inr cs"
| "resolve_loop cs (raw # rest) =
     (if raw = [] \<or> raw = [dot] then resolve_loop cs rest
      else if raw = [dot, dot] then
        (if cs = [] then Inl SymlinkEscape else resolve_loop (butlast cs) rest)
      else (case virtual_file_name_new raw of
          Inl e \<Rightarrow> Inl e
        | Inr n \<Rightarrow> resolve_loop (cs @ [n]) rest))"

definition resolve_target :: "virtual_path \<Rightarrow> virtual_path_bytes \<Rightarrow> virtual_path vfs_result" where
  "resolve_target link_parent target =
     (let start = (if target_is_absolute target then [] else components link_parent);
          raws = drop (if target_is_absolute target then 1 else 0) (split_on slash (target_bytes target))
      in (case resolve_loop start raws of Inl e \<Rightarrow> Inl e | Inr cs \<Rightarrow> from_components cs))"

definition push_part :: "bytes \<Rightarrow> bytes \<Rightarrow> bytes" where
  "push_part rewritten part = (if rewritten = [] then part else rewritten @ [slash] @ part)"

definition rewrite_symlink :: "virtual_path \<Rightarrow> virtual_path_bytes \<Rightarrow> virtual_path_bytes vfs_result" where
  "rewrite_symlink link_path target =
     (case path_parent link_path of
        None \<Rightarrow> Inl (InvalidInput ''resource root cannot be a symlink'')
      | Some parent \<Rightarrow>
         (case resolve_target parent target of
            Inl e \<Rightarrow> Inl e
          | Inr _ \<Rightarrow>
             if \<not> target_is_absolute target then Inr target
             else (case from_absolute (target_bytes target) of
                 Inl e \<Rightarrow> Inl e
               | Inr normalized_target \<Rightarrow>
                  (let ups = foldl push_part [] (replicate (depth parent) [dot, dot]);
                       rewritten = foldl push_part ups (map name_bytes (components normalized_target))
                   in virtual_path_bytes_new (if rewritten = [] then [dot] else rewritten)))))"

type_synonym 's read_link = "virtual_path \<Rightarrow> 's \<Rightarrow> virtual_path_bytes option vfs_result \<times> 's"

fun chain_loop :: "nat \<Rightarrow> 's read_link \<Rightarrow> virtual_path \<Rightarrow> virtual_path set \<Rightarrow> 's \<Rightarrow> virtual_path vfs_result \<times> 's" where
  "chain_loop 0 read_link current visited s = (Inl SymlinkLoop, s)"
| "chain_loop (Suc n) read_link current visited s =
     (if current \<in> visited then (Inl SymlinkLoop, s)
      else (case read_link current s of
          (Inl e, s') \<Rightarrow> (Inl e, s')
        | (Inr None, s') \<Rightarrow> (Inr current, s')
        | (Inr (Some target), s') \<Rightarrow>
           (case path_parent current of
              None \<Rightarrow> (Inl (InvalidInput ''resource root cannot be a symlink''), s')
            | Some parent \<Rightarrow>
               (case resolve_target parent target of
                  Inl e \<Rightarrow> (Inl e, s')
                | Inr next_path \<Rightarrow> chain_loop n read_link next_path (insert current visited) s'))))"

definition resolve_symlink_chain :: "virtual_path \<Rightarrow> nat \<Rightarrow> 's read_link \<Rightarrow> 's \<Rightarrow> virtual_path vfs_result \<times> 's" where
  "resolve_symlink_chain start max_depth read_link s =
     (if max_depth = 0 then (Inl SymlinkLoop, s)
      else chain_loop max_depth read_link start {} s)"

section \<open>Resolution is lexical resolution\<close>

lemma resolve_loop_iff:
  assumes "\<forall>r \<in> set rs. 0 \<notin> set r \<and> slash \<notin> set r" and "\<forall>n \<in> set cs. valid_name n"
  shows "resolve_loop cs rs = Inr ds \<longleftrightarrow>
    (\<forall>n \<in> set ds. valid_name n) \<and> (\<forall>r \<in> set rs. length r \<le> MAX_NAME_BYTES) \<and>
    lex_resolve (map name_bytes cs) rs = Some (map name_bytes ds)"
  using assms
proof (induction cs rs rule: resolve_loop.induct)
  case (1 cs)
  then show ?case by auto
next
  case (2 cs r rs)
  consider "r = [] \<or> r = [dot]" | "r = [dot, dot]" | "r \<noteq> []" "r \<noteq> [dot]" "r \<noteq> [dot, dot]"
    by blast
  then show ?case
  proof cases
    case 1
    with 2 show ?thesis by (auto simp: MAX_NAME_BYTES_def)
  next
    case dd: 2
    have "\<forall>n \<in> set (butlast cs). valid_name n"
      using "2.prems"(2) by (auto dest: in_set_butlastD)
    with 2 dd show ?thesis by (auto simp: map_butlast MAX_NAME_BYTES_def)
  next
    case 3
    show ?thesis
    proof (cases "length r \<le> MAX_NAME_BYTES")
      case False
      with 3 "2.prems" show ?thesis by (simp add: virtual_file_name_new_def)
    next
      case True
      with 3 "2.prems"(1) have n: "virtual_file_name_new r = Inr (VirtualFileName r)"
        "valid_name (VirtualFileName r)"
        by (simp_all add: virtual_file_name_new_Inr valid_name_iff)
      with 2 3 True show ?thesis by simp
    qed
  qed
qed

definition target_base :: "virtual_path \<Rightarrow> virtual_path_bytes \<Rightarrow> bytes list" where
  "target_base p t = (if target_is_absolute t then [] else component_bytes p)"

lemma absolute_split:
  assumes "target_is_absolute t"
  obtains cs where "split_on slash (target_bytes t) = [] # split_on slash cs" "target_bytes t = slash # cs"
  using assms by (cases "target_bytes t") (auto simp: target_is_absolute_def)

lemma target_parts:
  assumes "0 \<notin> set bs"
  shows "\<forall>r \<in> set (split_on slash bs). 0 \<notin> set r \<and> slash \<notin> set r"
  using assms split_on_parts [of _ slash bs] split_on_subset [of _ slash bs] by blast

lemma resolve_target_iff:
  assumes "wf_path p" "valid_target t"
  shows "resolve_target p t = Inr q \<longleftrightarrow>
    wf_path q \<and> (\<forall>r \<in> set (split_on slash (target_bytes t)). length r \<le> MAX_NAME_BYTES) \<and>
    lex_resolve (target_base p t) (split_on slash (target_bytes t)) = Some (component_bytes q)"
proof -
  define start where "start = (if target_is_absolute t then [] else components p)"
  define raws where "raws = drop (if target_is_absolute t then 1 else 0) (split_on slash (target_bytes t))"
  have parts: "\<forall>r \<in> set raws. 0 \<notin> set r \<and> slash \<notin> set r"
    using assms(2) target_parts [of "target_bytes t"] unfolding raws_def valid_target_def
    by (meson in_set_dropD)
  have names: "\<forall>n \<in> set start. valid_name n" using assms(1) wf_pathD(1) by (auto simp: start_def)
  have base: "target_base p t = map name_bytes start" by (simp add: target_base_def start_def)
  have same: "lex_resolve st raws = lex_resolve st (split_on slash (target_bytes t))" for st
    unfolding raws_def by (cases "target_is_absolute t") (auto elim!: absolute_split)
  have lens: "(\<forall>r \<in> set raws. length r \<le> MAX_NAME_BYTES) \<longleftrightarrow>
      (\<forall>r \<in> set (split_on slash (target_bytes t)). length r \<le> MAX_NAME_BYTES)"
    unfolding raws_def by (cases "target_is_absolute t") (auto elim!: absolute_split)
  have "resolve_target p t = Inr q \<longleftrightarrow>
      (\<exists>cs. resolve_loop start raws = Inr cs \<and> from_components cs = Inr q)"
    by (auto simp: resolve_target_def start_def raws_def Let_def split: sum.splits)
  also have "\<dots> \<longleftrightarrow> resolve_loop start raws = Inr (components q) \<and> from_components (components q) = Inr q"
    by (metis from_components_Inr)
  also have "\<dots> \<longleftrightarrow> wf_path q \<and> (\<forall>r \<in> set raws. length r \<le> MAX_NAME_BYTES) \<and>
      lex_resolve (map name_bytes start) raws = Some (component_bytes q)"
    using resolve_loop_iff [OF parts names, of "components q"] from_components_wf wf_pathD(1)
    by (metis from_components_components)
  finally show ?thesis by (simp add: base same lens)
qed

lemma resolve_target_wf:
  "wf_path p \<Longrightarrow> valid_target t \<Longrightarrow> resolve_target p t = Inr q \<Longrightarrow> wf_path q"
  by (simp add: resolve_target_iff)

section \<open>Rewriting\<close>

lemma foldl_push_part:
  assumes "\<And>p. p \<in> set ps \<Longrightarrow> p \<noteq> []"
  shows "foldl push_part acc ps =
    (if acc = [] then (case ps of [] \<Rightarrow> [] | p # qs \<Rightarrow> p @ prefixed slash qs) else acc @ prefixed slash ps)"
  using assms
proof (induction ps arbitrary: acc)
  case (Cons p ps)
  have "push_part acc p \<noteq> []" using Cons.prems by (auto simp: push_part_def)
  with Cons show ?case by (auto simp: push_part_def)
qed simp

lemma split_foldl_push_part:
  assumes "\<And>p. p \<in> set ps \<Longrightarrow> p \<noteq> [] \<and> slash \<notin> set p" and "ps \<noteq> []"
  shows "split_on slash (foldl push_part [] ps) = ps"
proof -
  obtain p qs where ps: "ps = p # qs" using assms(2) by (cases ps) auto
  then have "foldl push_part [] ps = p @ prefixed slash qs"
    using foldl_push_part [of ps "[]"] assms(1) by auto
  moreover have "split_on slash (p @ prefixed slash qs) = p # qs"
    using split_on_prefixed [of qs slash p] assms(1) ps by (simp add: split_on_no_sep)
  ultimately show ?thesis using ps by simp
qed

lemma set_foldl_push_part:
  "b \<in> set (foldl push_part acc ps) \<Longrightarrow> b \<in> set acc \<or> b = slash \<or> (\<exists>p \<in> set ps. b \<in> set p)"
proof (induction ps arbitrary: acc)
  case (Cons p ps)
  have "b \<in> set (push_part acc p) \<Longrightarrow> b \<in> set acc \<or> b = slash \<or> b \<in> set p"
    by (auto simp: push_part_def split: if_splits)
  with Cons.IH [of "push_part acc p"] Cons.prems show ?case by auto
qed simp

lemma foldl_push_part_hd:
  assumes "\<And>p. p \<in> set ps \<Longrightarrow> p \<noteq> []" "ps \<noteq> []"
  shows "take 1 (foldl push_part [] ps) = take 1 (hd ps)" and "foldl push_part [] ps \<noteq> []"
proof -
  obtain p qs where ps: "ps = p # qs" "p \<noteq> []" using assms by (cases ps) auto
  then have "foldl push_part [] ps = p @ prefixed slash qs"
    using foldl_push_part [of ps "[]"] assms(1) by auto
  with ps show "take 1 (foldl push_part [] ps) = take 1 (hd ps)" and "foldl push_part [] ps \<noteq> []"
    by (cases p; simp)+
qed

text \<open>The components of the relative target written for an absolute one.\<close>

definition rewritten_parts :: "virtual_path \<Rightarrow> virtual_path \<Rightarrow> bytes list" where
  "rewritten_parts parent target = replicate (depth parent) [dot, dot] @ component_bytes target"

lemma lex_resolve_rewritten:
  assumes "wf_path q"
  shows "lex_resolve (b @ component_bytes p) (rewritten_parts p q) = Some (b @ component_bytes q)"
proof -
  have "lex_resolve (b @ component_bytes p) (replicate (depth p) [dot, dot]) = Some b"
    by (simp add: lex_resolve_ups depth_def)
  moreover have "lex_resolve b (component_bytes q) = Some (b @ component_bytes q)"
    using valid_nameD wf_pathD(1) [OF assms] by (intro lex_resolve_plain) auto
  ultimately show ?thesis by (simp add: rewritten_parts_def lex_resolve_append)
qed

lemma lex_resolve_base: "lex_resolve st rs = Some st' \<Longrightarrow> lex_resolve (b @ st) rs = Some (b @ st')"
proof (induction st rs rule: lex_resolve.induct)
  case (2 st r rs)
  then show ?case by (auto simp: butlast_append split: if_splits)
qed simp


lemma from_absolute_resolve:
  assumes "valid_target t" "target_is_absolute t" "wf_path p" "resolve_target p t = Inr q"
  shows "from_absolute (target_bytes t) = Inr q"
  using assms resolve_target_iff [OF assms(3,1), of q]
  by (auto simp: from_absolute_def from_absolute_with_limit_iff valid_target_def
      target_is_absolute_def target_base_def)

lemma rewritten_parts_plain:
  assumes "wf_path q" "r \<in> set (rewritten_parts p q)"
  shows "r \<noteq> [] \<and> slash \<notin> set r \<and> 0 \<notin> set r \<and> length r \<le> MAX_NAME_BYTES"
  using assms valid_nameD wf_pathD(1) [OF assms(1)]
  by (fastforce simp: rewritten_parts_def MAX_NAME_BYTES_def split: if_splits)

text \<open>The bytes written for an absolute target that normalizes to \<open>q\<close>.\<close>

definition rewritten_bytes :: "virtual_path \<Rightarrow> virtual_path \<Rightarrow> bytes" where
  "rewritten_bytes parent q =
     (let w = foldl push_part [] (rewritten_parts parent q) in if w = [] then [dot] else w)"

lemma rewritten_bytes_props:
  assumes "wf_path q"
  shows "split_on slash (rewritten_bytes p q) =
      (if rewritten_parts p q = [] then [[dot]] else rewritten_parts p q)"
    and "take 1 (rewritten_bytes p q) \<noteq> [slash]"
    and "0 \<notin> set (rewritten_bytes p q)"
proof -
  note plain = rewritten_parts_plain [OF assms, of _ p]
  show "split_on slash (rewritten_bytes p q) =
      (if rewritten_parts p q = [] then [[dot]] else rewritten_parts p q)"
    using split_foldl_push_part [of "rewritten_parts p q"] foldl_push_part_hd(2) [of "rewritten_parts p q"] plain
    by (auto simp: rewritten_bytes_def Let_def)
  show "0 \<notin> set (rewritten_bytes p q)"
    using set_foldl_push_part [of 0 "[]" "rewritten_parts p q"] plain
    by (auto simp: rewritten_bytes_def Let_def)
  show "take 1 (rewritten_bytes p q) \<noteq> [slash]"
  proof (cases "rewritten_parts p q")
    case Nil
    then show ?thesis by (simp add: rewritten_bytes_def)
  next
    case (Cons r rs)
    then have r: "r \<noteq> []" "slash \<notin> set r" using plain [of r] by auto
    have "take 1 (rewritten_bytes p q) = take 1 r"
      using foldl_push_part_hd [of "rewritten_parts p q"] plain Cons
      by (simp add: rewritten_bytes_def Let_def)
    with r show ?thesis by (cases r) auto
  qed
qed

lemma rewrite_symlink_eq:
  assumes "wf_path link_path" "valid_target t"
  shows "rewrite_symlink link_path t =
    (case path_parent link_path of
       None \<Rightarrow> Inl (InvalidInput ''resource root cannot be a symlink'')
     | Some parent \<Rightarrow>
        (case resolve_target parent t of
           Inl e \<Rightarrow> Inl e
         | Inr q \<Rightarrow> if target_is_absolute t then virtual_path_bytes_new (rewritten_bytes parent q) else Inr t))"
proof (cases "path_parent link_path")
  case None
  then show ?thesis by (simp add: rewrite_symlink_def)
next
  case (Some parent)
  then have "wf_path parent" using assms(1) path_parent_wf by blast
  with Some assms(2) show ?thesis
    by (auto simp: rewrite_symlink_def from_absolute_resolve rewritten_bytes_def rewritten_parts_def
        Let_def split: sum.splits)
qed

lemma resolve_rewritten:
  assumes "wf_path p" "wf_path q" "target_bytes r = rewritten_bytes p q" "valid_target r"
  shows "\<not> target_is_absolute r" and "resolve_target p r = Inr q"
    and "lex_resolve (b @ component_bytes p) (split_on slash (target_bytes r)) = Some (b @ component_bytes q)"
proof -
  show rel: "\<not> target_is_absolute r"
    using rewritten_bytes_props(2) [OF assms(2)] assms(3) by (simp add: target_is_absolute_def)
  have lex: "lex_resolve (b @ component_bytes p) (split_on slash (target_bytes r)) = Some (b @ component_bytes q)" for b
    using lex_resolve_rewritten [OF assms(2), of b p] rewritten_bytes_props(1) [OF assms(2), of p]
    by (cases "rewritten_parts p q = []") (simp_all add: assms(3))
  then show "lex_resolve (b @ component_bytes p) (split_on slash (target_bytes r)) = Some (b @ component_bytes q)" .
  have "\<forall>x \<in> set (split_on slash (target_bytes r)). length x \<le> MAX_NAME_BYTES"
    using rewritten_bytes_props(1) [OF assms(2), of p] rewritten_parts_plain [OF assms(2), of _ p]
    by (auto simp: assms(3) MAX_NAME_BYTES_def)
  then show "resolve_target p r = Inr q"
    using lex [of "[]"] rel assms(2) by (simp add: resolve_target_iff [OF assms(1,4)] target_base_def)
qed

lemma rewrite_symlink_sound:
  assumes "wf_path link_path" "valid_target t" "rewrite_symlink link_path t = Inr r"
  obtains parent q where "path_parent link_path = Some parent" "resolve_target parent t = Inr q"
    "valid_target r" "\<not> target_is_absolute r" "resolve_target parent r = Inr q"
    "\<And>b. lex_resolve (b @ component_bytes parent) (split_on slash (target_bytes r)) = Some (b @ component_bytes q)"
proof -
  obtain parent q where pq: "path_parent link_path = Some parent" "resolve_target parent t = Inr q"
    and r: "(if target_is_absolute t then virtual_path_bytes_new (rewritten_bytes parent q) else Inr t) = Inr r"
    using assms(3) by (auto simp: rewrite_symlink_eq [OF assms(1,2)] split: option.splits sum.splits)
  have wf: "wf_path parent" "wf_path q"
    using pq assms(1,2) path_parent_wf resolve_target_wf by blast+
  show ?thesis
  proof (cases "target_is_absolute t")
    case True
    with r have "valid_target r" "target_bytes r = rewritten_bytes parent q"
      by (simp_all add: virtual_path_bytes_new_Inr)
    with resolve_rewritten [OF wf] pq show ?thesis by (metis that)
  next
    case False
    with r have "r = t" by simp
    moreover have "lex_resolve (component_bytes parent) (split_on slash (target_bytes t)) = Some (component_bytes q)"
      using pq(2) False by (simp add: resolve_target_iff [OF wf(1) assms(2)] target_base_def)
    ultimately show ?thesis using that [OF pq] assms(2) False pq(2) lex_resolve_base by blast
  qed
qed

section \<open>Following a chain\<close>

text \<open>
  One hop of a side-effect-free reader, and the specification of a finished chain: the end of a
  run of hops at a path that is not a link.
\<close>

definition link_hop :: "(virtual_path \<Rightarrow> virtual_path_bytes option vfs_result) \<Rightarrow> virtual_path \<Rightarrow> virtual_path \<Rightarrow> bool" where
  "link_hop f p q \<longleftrightarrow>
     (\<exists>t parent. f p = Inr (Some t) \<and> path_parent p = Some parent \<and> resolve_target parent t = Inr q)"

lemma link_hop_deterministic: "link_hop f p q \<Longrightarrow> link_hop f p q' \<Longrightarrow> q = q'"
  by (auto simp: link_hop_def)

lemma link_hop_end: "f p = Inr None \<Longrightarrow> \<not> link_hop f p q"
  by (auto simp: link_hop_def)

lemma link_hops_deterministic:
  "(link_hop f ^^ n) p q \<Longrightarrow> (link_hop f ^^ n) p q' \<Longrightarrow> q = q'"
proof (induction n arbitrary: q q')
  case (Suc n)
  then show ?case by (metis link_hop_deterministic relpowp_Suc_E)
qed simp

lemma link_hops_end_unique:
  assumes "(link_hop f ^^ m) p q" "f q = Inr None" "(link_hop f ^^ n) p q'" "f q' = Inr None"
  shows "m = n"
proof (rule ccontr)
  have no: "\<not> (m' < n')" if "(link_hop f ^^ m') p x" "f x = Inr None" "(link_hop f ^^ n') p y"
    for m' n' x y
  proof
    assume "m' < n'"
    then have "(link_hop f ^^ m' OO link_hop f ^^ (n' - m')) p y"
      using that(3) by (metis relpowp_add le_add_diff_inverse less_imp_le)
    then obtain z where z: "(link_hop f ^^ m') p z" "(link_hop f ^^ (n' - m')) z y" by auto
    then have "z = x" using that(1) link_hops_deterministic by blast
    with z(2) \<open>m' < n'\<close> that(2) show False
      by (metis Suc_diff_Suc link_hop_end relpowp_Suc_D2)
  qed
  assume "m \<noteq> n"
  with no [OF assms(1,2,3)] no [OF assms(3,4,1)] show False by linarith
qed

lemma chain_loop_sound:
  assumes "chain_loop n (\<lambda>p s. (f p, s)) p visited s = (Inr q, s')"
  shows "s' = s \<and> (\<exists>k < n. (link_hop f ^^ k) p q \<and> f q = Inr None)"
  using assms
proof (induction n arbitrary: p visited)
  case (Suc n)
  show ?case
  proof (cases "f p")
    case (Inl e)
    with Suc.prems show ?thesis by (simp split: if_splits)
  next
    case (Inr lt)
    show ?thesis
    proof (cases lt)
      case None
      with Inr Suc.prems show ?thesis by (auto split: if_splits intro!: exI [of _ 0])
    next
      case (Some t)
      with Inr Suc.prems obtain parent q1 where hop: "path_parent p = Some parent"
          "resolve_target parent t = Inr q1"
        and rest: "chain_loop n (\<lambda>p s. (f p, s)) q1 (insert p visited) s = (Inr q, s')"
        by (auto split: if_splits option.splits sum.splits)
      then obtain k where "k < n" "(link_hop f ^^ k) q1 q" "f q = Inr None" "s' = s"
        using Suc.IH by blast
      moreover have "link_hop f p q1" using hop Inr Some by (auto simp: link_hop_def)
      ultimately show ?thesis by (meson Suc_less_eq relpowp_Suc_I2)
    qed
  qed
qed simp

lemma chain_loop_complete:
  assumes "(link_hop f ^^ k) p q" "f q = Inr None" "k < n"
    and "\<And>v j. v \<in> visited \<Longrightarrow> j \<le> k \<Longrightarrow> \<not> (link_hop f ^^ j) p v"
  shows "chain_loop n (\<lambda>p s. (f p, s)) p visited s = (Inr q, s)"
  using assms
proof (induction n arbitrary: p k visited)
  case (Suc n)
  have new: "p \<notin> visited" using Suc.prems(4) [of p 0] by auto
  show ?case
  proof (cases k)
    case 0
    with Suc.prems new show ?thesis by simp
  next
    case (Suc k')
    then obtain p1 where p1: "link_hop f p p1" "(link_hop f ^^ k') p1 q"
      using Suc.prems(1) by (meson relpowp_Suc_D2)
    have fresh: "\<not> (link_hop f ^^ j) p1 v" if "v \<in> insert p visited" "j \<le> k'" for v j
    proof (cases "v = p")
      case True
      show ?thesis
      proof
        assume "(link_hop f ^^ j) p1 v"
        then have "(link_hop f ^^ Suc j) p p" using p1(1) True by (meson relpowp_Suc_I2)
        then have "(link_hop f ^^ (Suc j + k)) p q" using Suc.prems(1)
          by (metis relpowp_add relcomppI)
        with link_hops_end_unique [OF Suc.prems(1,2) this Suc.prems(2)] show False by simp
      qed
    next
      case False
      then show ?thesis
        using that Suc Suc.prems(4) [of v "Suc j"] p1(1) by (meson Suc_le_mono insertE relpowp_Suc_I2)
    qed
    obtain t parent where "f p = Inr (Some t)" "path_parent p = Some parent" "resolve_target parent t = Inr p1"
      using p1(1) by (auto simp: link_hop_def)
    moreover have "chain_loop n (\<lambda>p s. (f p, s)) p1 (insert p visited) s = (Inr q, s)"
      using Suc Suc.prems(3) by (intro Suc.IH [OF p1(2) Suc.prems(2)] fresh) auto
    ultimately show ?thesis using new by simp
  qed
qed simp

lemma resolve_symlink_chain_iff:
  "resolve_symlink_chain start max_depth (\<lambda>p s. (f p, s)) s = (Inr q, s) \<longleftrightarrow>
     (\<exists>k < max_depth. (link_hop f ^^ k) start q \<and> f q = Inr None)"
  using chain_loop_sound [of max_depth f start "{}" s q s]
    chain_loop_complete [of _ f start q max_depth "{}" s]
  by (auto simp: resolve_symlink_chain_def)

lemma chain_loop_wf:
  assumes "wf_path p" "\<And>p s t s'. read_link p s = (Inr (Some t), s') \<Longrightarrow> valid_target t"
    and "chain_loop n read_link p visited s = (Inr q, s')"
  shows "wf_path q"
  using assms(1,3)
proof (induction n arbitrary: p visited s)
  case (Suc n)
  then consider "q = p"
    | t s1 parent p1 where "read_link p s = (Inr (Some t), s1)" "path_parent p = Some parent"
        "resolve_target parent t = Inr p1" "chain_loop n read_link p1 (insert p visited) s1 = (Inr q, s')"
    by (auto split: if_splits prod.splits sum.splits option.splits)
  then show ?case
  proof cases
    case 1
    with Suc.prems show ?thesis by simp
  next
    case 2
    have "wf_path parent" using 2(2) Suc.prems(1) path_parent_wf by blast
    then have "wf_path p1" using 2(1,3) assms(2) resolve_target_wf by blast
    then show ?thesis using 2(4) by (rule Suc.IH)
  qed
qed simp

section \<open>Properties\<close>

text \<open>
  A rewritten link is relative and, followed from the directory of the link below any mount
  prefix \<open>b\<close>, reaches the resource path the original target names: it never leaves the resource.
\<close>

theorem rewrite_symlink_confined:
  assumes "wf_path link_path" "valid_target t" "rewrite_symlink link_path t = Inr r"
  shows "\<exists>parent q. path_parent link_path = Some parent \<and> resolve_target parent t = Inr q \<and>
    \<not> target_is_absolute r \<and>
    (\<forall>b. lex_resolve (b @ component_bytes parent) (split_on slash (target_bytes r)) = Some (b @ component_bytes q))"
  by (rule rewrite_symlink_sound [OF assms]) blast

definition target_etc :: virtual_path_bytes where
  "target_etc = VirtualPathBytes [47, 99]"

theorem rewrite_symlink_confined_witness:
  "rewrite_symlink path_ab target_etc = Inr (VirtualPathBytes [46, 46, 47, 99]) \<and>
   (\<exists>parent q. path_parent path_ab = Some parent \<and> resolve_target parent target_etc = Inr q)"
proof -
  have v: "valid_target target_etc"
    by (simp add: valid_target_def target_etc_def DEFAULT_MAX_PATH_BYTES_def)
  have r: "rewrite_symlink path_ab target_etc = Inr (VirtualPathBytes [46, 46, 47, 99])"
    by (simp add: rewrite_symlink_def target_etc_def path_ab_def path_parent_def is_root_def depth_def
        from_components_def target_is_absolute_def resolve_target_def from_absolute_def
        from_absolute_with_limit_def virtual_file_name_new_def path_join_def path_root_def
        virtual_path_bytes_new_def push_part_def MAX_NAME_BYTES_def DEFAULT_MAX_PATH_BYTES_def Let_def)
  then show ?thesis using rewrite_symlink_confined [OF wf_path_ab v r] by blast
qed

text \<open>
  C10. Following a chain of links succeeds exactly when some number of hops below the limit ends at a
  path that is not a link; in particular a cycle is always reported as an error.
\<close>

theorem symlink_chain_complete:
  "resolve_symlink_chain start max_depth (\<lambda>p s. (f p, s)) s = (Inr q, s) \<longleftrightarrow>
     (\<exists>k < max_depth. (link_hop f ^^ k) start q \<and> f q = Inr None)"
  by (rule resolve_symlink_chain_iff)

end
