(* ===== verification/Fuse_Adapter.thy ===== *)
theory Fuse_Adapter
  imports Namespace Inode_Table Handle_Table Executor Symlink
begin

unbundle bit_operations_syntax

text \<open>
  The FUSE adapter (\<^verbatim>\<open>crates/tuxstack-vfs/src/adapter.rs\<close>): the callbacks that answer kernel requests
  from a provider, the inode table, the node cache and the handle table. A callback takes the state
  of the adapter together with the world of its provider and returns its reply with the state it
  leaves. What the outside decides is in the record \<open>fuse_env\<close>: the clock, how the executor's task
  ends, the slab operations, \<^verbatim>\<open>OpenFlags::acc_mode\<close>, and when \<^verbatim>\<open>ReplyDirectory::add\<close> reports a full
  buffer. Mounting, kernel invalidation and a poisoned lock are not modelled.
\<close>

definition TTL :: nat where "TTL = 1000000000"

record cached_node =
  cn_path :: virtual_path
  cn_metadata :: virtual_metadata

record ('w, 's) adapter =
  ad_provider :: "'w provider"
  ad_resource :: docker_filesystem_resource
  ad_daemon_identity :: string
  ad_provider_key :: string
  ad_uid :: u32
  ad_gid :: u32
  ad_inodes :: inode_table
  ad_nodes :: "(u64 \<times> cached_node) list"
  ad_handles :: "'s open_handle_table"
  next_request_id :: u64

type_synonym ('w, 's) fuse_state = "('w, 's) adapter \<times> 'w"

record fuse_request =
  rq_uid :: u32
  rq_gid :: u32
  rq_pid :: u32

text \<open>
  A timed-out or cancelled task leaves a world of its own making; \<open>execute\<close> is the caller's view of
  the executor.
\<close>

datatype 'w task_outcome = OpCompleted | OpElapsed 'w | OpCancelled 'w

definition execute :: "'w task_outcome \<Rightarrow> ('w \<Rightarrow> 'a vfs_result \<times> 'w) \<Rightarrow> 'w \<Rightarrow> 'a vfs_result \<times> 'w" where
  "execute oc f w =
     (case oc of
        OpCompleted \<Rightarrow> (let (r, w') = f w in (task_result (Completed r), w'))
      | OpElapsed w' \<Rightarrow> (task_result Elapsed, w')
      | OpCancelled w' \<Rightarrow> (task_result Cancelled, w'))"

datatype fuser_file_type =
    FtRegularFile | FtDirectory | FtSymlink | FtCharDevice | FtBlockDevice | FtNamedPipe | FtSocket

fun fuse_file_type :: "virtual_file_type \<Rightarrow> fuser_file_type" where
  "fuse_file_type RegularFile = FtRegularFile"
| "fuse_file_type Directory = FtDirectory"
| "fuse_file_type Symlink = FtSymlink"
| "fuse_file_type CharacterDevice = FtCharDevice"
| "fuse_file_type BlockDevice = FtBlockDevice"
| "fuse_file_type NamedPipe = FtNamedPipe"
| "fuse_file_type Socket = FtSocket"

record file_attr =
  fa_ino :: u64
  fa_size :: u64
  fa_blocks :: u64
  fa_atime :: int
  fa_mtime :: int
  fa_ctime :: int
  fa_crtime :: int
  fa_kind :: fuser_file_type
  fa_perm :: u16
  fa_nlink :: u32
  fa_uid :: u32
  fa_gid :: u32
  fa_rdev :: u32
  fa_blksize :: u32
  fa_flags :: u32

text \<open>A directory reply carries the inode, the offset of the next entry, the kind and the name.\<close>

type_synonym dir_reply_entry = "u64 \<times> u64 \<times> fuser_file_type \<times> bytes"

datatype reply =
    NoReply
  | RError errno
  | REntry nat file_attr u64
  | RAttr nat file_attr
  | RData bytes
  | ROpened u64
  | ROk
  | RDirectory "dir_reply_entry list"
  | RStatfs u64 u64 u64 u64 u64 u32 u32 u32
  | RXattrSize u32

record ('w, 's) fuse_env =
  env_acc_mode :: "32 word \<Rightarrow> open_acc_mode"
  env_slab :: "('s, 'w provider open_handle) slab_ops"
  env_now :: nat
  env_outcome :: "'w task_outcome"
  env_fits :: "dir_reply_entry list \<Rightarrow> dir_reply_entry \<Rightarrow> bool"

definition adapter_new ::
  "('w, 's) fuse_env \<Rightarrow> 'w provider \<Rightarrow> docker_filesystem_resource \<Rightarrow> string \<Rightarrow> string \<Rightarrow> u32 \<Rightarrow> u32 \<Rightarrow>
     unit vfs_result \<Rightarrow> nat \<Rightarrow> nat \<Rightarrow> 'w \<Rightarrow> ('w, 's) adapter vfs_result \<times> 'w" where
  "adapter_new env prov res daemon key uid gid executor_built limit idle w =
     (case executor_built of
        Inl e \<Rightarrow> (Inl e, w)
      | Inr _ \<Rightarrow>
         (case execute (env_outcome env)
                 (prov_getattr prov path_root \<lparr>rc_uid = uid, rc_gid = gid, rc_pid = 0, rc_request_id = 0\<rparr>) w of
            (Inl e, w') \<Rightarrow> (Inl e, w')
          | (Inr md, w') \<Rightarrow>
             (if file_type md \<noteq> Directory then (Inl (InvalidInput ''provider root must be a directory''), w')
              else (case handle_table_new (env_slab env) limit idle of
                  Inl e \<Rightarrow> (Inl e, w')
                | Inr hs \<Rightarrow>
                   (Inr \<lparr>ad_provider = prov, ad_resource = res, ad_daemon_identity = daemon,
                         ad_provider_key = key, ad_uid = uid, ad_gid = gid,
                         ad_inodes = inode_table_new,
                         ad_nodes = [(ROOT_INODE, \<lparr>cn_path = path_root, cn_metadata = md\<rparr>)],
                         ad_handles = hs, next_request_id = 1\<rparr>, w')))))"

definition fuse_context :: "fuse_request \<Rightarrow> ('w, 's) fuse_state \<Rightarrow> (vfs_error + request_context) \<times> ('w, 's) fuse_state" where
  "fuse_context rq s =
     (Inr \<lparr>rc_uid = rq_uid rq, rc_gid = rq_gid rq, rc_pid = rq_pid rq,
           rc_request_id = next_request_id (fst s)\<rparr>,
      ((fst s)\<lparr>next_request_id := next_request_id (fst s) + 1\<rparr>, snd s))"

definition ad_node :: "('w, 's) adapter \<Rightarrow> u64 \<Rightarrow> cached_node vfs_result" where
  "ad_node a inode = ok_or NotFound (map_of (ad_nodes a) inode)"

definition node_key :: "('w, 's) adapter \<Rightarrow> virtual_path \<Rightarrow> u64 \<Rightarrow> virtual_node_key" where
  "node_key a path gen =
     \<lparr>nk_daemon_identity = ad_daemon_identity a, nk_resource_kind = kind_name (ad_resource a),
      nk_resource_id = canonical_id (ad_resource a), nk_provider_key = ad_provider_key a,
      logical_path = path, nk_generation = gen\<rparr>"

definition node_hardlink :: "('w, 's) adapter \<Rightarrow> virtual_metadata \<Rightarrow> hardlink_key" where
  "node_hardlink a md =
     \<lparr>hk_daemon_identity = ad_daemon_identity a, hk_resource_kind = kind_name (ad_resource a),
      hk_resource_id = canonical_id (ad_resource a), hk_provider_key = ad_provider_key a,
      provider_node_id = node_id md, hk_generation = md_generation md\<rparr>"

definition cache_node ::
  "virtual_path \<Rightarrow> virtual_metadata \<Rightarrow> ('w, 's) fuse_state \<Rightarrow> u64 vfs_result \<times> ('w, 's) fuse_state" where
  "cache_node path md s =
     (let a = fst s
      in (case inode_for (ad_inodes a) (node_key a path (md_generation md)) (Some (node_hardlink a md)) of
            (Inl e, t) \<Rightarrow> (Inl e, (a\<lparr>ad_inodes := t\<rparr>, snd s))
          | (Inr inode, t) \<Rightarrow>
             (Inr inode,
              (a\<lparr>ad_inodes := t,
                 ad_nodes := AList.update inode \<lparr>cn_path = path, cn_metadata = md\<rparr> (ad_nodes a)\<rparr>, snd s))))"

definition ad_attr :: "('w, 's) adapter \<Rightarrow> u64 \<Rightarrow> virtual_metadata \<Rightarrow> file_attr" where
  "ad_attr a inode md =
     (let mode = (case file_type md of
                    Directory \<Rightarrow> octal3 5 5 5
                  | RegularFile \<Rightarrow> octal3 4 4 4
                  | Symlink \<Rightarrow> octal3 7 7 7
                  | _ \<Rightarrow> octal3 4 4 4);
          dev = (case device_id md of None \<Rightarrow> 0 | Some d \<Rightarrow> d)
      in \<lparr>fa_ino = inode, fa_size = md_size md,
          fa_blocks = (if md_size md mod 512 > 0 then md_size md div 512 + 1 else md_size md div 512),
          fa_atime = mtime md, fa_mtime = mtime md, fa_ctime = mtime md, fa_crtime = 0,
          fa_kind = fuse_file_type (file_type md), fa_perm = ucast mode, fa_nlink = max (nlink md) 1,
          fa_uid = ad_uid a, fa_gid = ad_gid a, fa_rdev = (if dev < 2 ^ 32 then ucast dev else 0),
          fa_blksize = 4096, fa_flags = 0\<rparr>)"

text \<open>Running a provider operation through the executor, and an operation on the handle table.\<close>

definition on_world ::
  "('w, 's) fuse_env \<Rightarrow> ('w \<Rightarrow> 'a vfs_result \<times> 'w) \<Rightarrow> ('w, 's) fuse_state \<Rightarrow> 'a vfs_result \<times> ('w, 's) fuse_state" where
  "on_world env f s = (let (r, w) = execute (env_outcome env) f (snd s) in (r, (fst s, w)))"

definition on_handles ::
  "('s open_handle_table \<Rightarrow> 'a vfs_result \<times> 's open_handle_table) \<Rightarrow> ('w, 's) fuse_state \<Rightarrow>
     'a vfs_result \<times> ('w, 's) fuse_state" where
  "on_handles f s = (let (r, t) = f (ad_handles (fst s)) in (r, ((fst s)\<lparr>ad_handles := t\<rparr>, snd s)))"

definition reply_with ::
  "('a \<Rightarrow> ('w, 's) adapter \<Rightarrow> reply) \<Rightarrow> 'a vfs_result \<times> ('w, 's) fuse_state \<Rightarrow> reply \<times> ('w, 's) fuse_state" where
  "reply_with ok rs =
     (case fst rs of Inl e \<Rightarrow> RError (errno_of e) | Inr v \<Rightarrow> ok v (fst (snd rs)), snd rs)"

definition fuse_lookup ::
  "('w, 's) fuse_env \<Rightarrow> fuse_request \<Rightarrow> u64 \<Rightarrow> bytes \<Rightarrow> ('w, 's) fuse_state \<Rightarrow> reply \<times> ('w, 's) fuse_state" where
  "fuse_lookup env rq parent name s =
     reply_with (\<lambda>(inode, md) a. REntry TTL (ad_attr a inode md) (md_generation md))
       (bindE (readE (\<lambda>s. ad_node (fst s) parent)) (\<lambda>pn.
        bindE (readE (\<lambda>_. virtual_file_name_new name)) (\<lambda>n.
        bindE (readE (\<lambda>_. path_join (cn_path pn) n)) (\<lambda>path.
        bindE (fuse_context rq) (\<lambda>ctx.
        bindE (on_world env (prov_lookup (ad_provider (fst s)) (cn_path pn) n ctx)) (\<lambda>md.
        bindE (cache_node path md) (\<lambda>inode.
        returnE (inode, md))))))) s)"

definition fuse_forget :: "u64 \<Rightarrow> u64 \<Rightarrow> ('w, 's) fuse_state \<Rightarrow> reply \<times> ('w, 's) fuse_state" where
  "fuse_forget inode n s =
     (NoReply, ((fst s)\<lparr>ad_inodes := forget (ad_inodes (fst s)) inode n\<rparr>, snd s))"

definition set_node ::
  "u64 \<Rightarrow> cached_node \<Rightarrow> ('w, 's) fuse_state \<Rightarrow> unit vfs_result \<times> ('w, 's) fuse_state" where
  "set_node inode nd s = (Inr (), ((fst s)\<lparr>ad_nodes := AList.update inode nd (ad_nodes (fst s))\<rparr>, snd s))"

definition fuse_getattr ::
  "('w, 's) fuse_env \<Rightarrow> fuse_request \<Rightarrow> u64 \<Rightarrow> ('w, 's) fuse_state \<Rightarrow> reply \<times> ('w, 's) fuse_state" where
  "fuse_getattr env rq inode s =
     reply_with (\<lambda>md a. RAttr TTL (ad_attr a inode md))
       (bindE (readE (\<lambda>s. ad_node (fst s) inode)) (\<lambda>nd.
        bindE (fuse_context rq) (\<lambda>ctx.
        bindE (on_world env (prov_getattr (ad_provider (fst s)) (cn_path nd) ctx)) (\<lambda>md.
        bindE (set_node inode \<lparr>cn_path = cn_path nd, cn_metadata = md\<rparr>) (\<lambda>_.
        returnE md)))) s)"

definition fuse_readlink ::
  "('w, 's) fuse_env \<Rightarrow> fuse_request \<Rightarrow> u64 \<Rightarrow> ('w, 's) fuse_state \<Rightarrow> reply \<times> ('w, 's) fuse_state" where
  "fuse_readlink env rq inode s =
     reply_with (\<lambda>t a. RData (target_bytes t))
       (bindE (readE (\<lambda>s. ad_node (fst s) inode)) (\<lambda>nd.
        bindE (readE (\<lambda>_. if file_type (cn_metadata nd) \<noteq> Symlink
                          then Inl (InvalidInput ''node is not a symlink'') else Inr ())) (\<lambda>_.
        bindE (fuse_context rq) (\<lambda>ctx.
        bindE (on_world env (prov_read_link (ad_provider (fst s)) (cn_path nd) ctx)) (\<lambda>target.
        readE (\<lambda>_. rewrite_symlink (cn_path nd) target))))) s)"

definition check_openable :: "virtual_file_type \<Rightarrow> unit vfs_result" where
  "check_openable t =
     (case t of
        Directory \<Rightarrow> Inl IsDirectory
      | RegularFile \<Rightarrow> Inr ()
      | Symlink \<Rightarrow> Inl (InvalidInput ''cannot open symlink directly'')
      | _ \<Rightarrow> Inl SpecialFile)"

definition fuse_open ::
  "('w, 's) fuse_env \<Rightarrow> fuse_request \<Rightarrow> u64 \<Rightarrow> 32 word \<Rightarrow> ('w, 's) fuse_state \<Rightarrow> reply \<times> ('w, 's) fuse_state" where
  "fuse_open env rq inode flags s =
     reply_with (\<lambda>h a. ROpened (handle_id h))
       (bindE (readE (\<lambda>_. if \<not> is_read_only_open (env_acc_mode env) flags then Inl ReadOnly else Inr ())) (\<lambda>_.
        bindE (readE (\<lambda>s. ad_node (fst s) inode)) (\<lambda>nd.
        bindE (readE (\<lambda>_. check_openable (file_type (cn_metadata nd)))) (\<lambda>_.
        bindE (fuse_context rq) (\<lambda>ctx.
        bindE (on_world env (prov_open (ad_provider (fst s)) (cn_path nd) flags ctx)) (\<lambda>ph.
        on_handles (\<lambda>t. handle_insert (env_slab env) (env_now env) t
          \<lparr>oh_provider = ad_provider (fst s), oh_provider_handle = ph, oh_resource = ad_resource (fst s),
           oh_path = cn_path nd, oh_content_generation = md_generation (cn_metadata nd),
           backing_strategy = ''provider'', opened_at = env_now env, last_accessed_at = env_now env\<rparr>)))))) s)"

definition fuse_read ::
  "('w, 's) fuse_env \<Rightarrow> fuse_request \<Rightarrow> u64 \<Rightarrow> u64 \<Rightarrow> u32 \<Rightarrow> ('w, 's) fuse_state \<Rightarrow> reply \<times> ('w, 's) fuse_state" where
  "fuse_read env rq fh offset sz s =
     reply_with (\<lambda>bs a. RData bs)
       (bindE (on_handles (\<lambda>t. handle_get_mut (env_slab env) (env_now env) t (OpenHandleId fh))) (\<lambda>h.
        bindE (fuse_context rq) (\<lambda>ctx.
        on_world env (prov_read_at (oh_provider h) (oh_provider_handle h) offset sz ctx))) s)"

definition fuse_release ::
  "('w, 's) fuse_env \<Rightarrow> u64 \<Rightarrow> ('w, 's) fuse_state \<Rightarrow> reply \<times> ('w, 's) fuse_state" where
  "fuse_release env fh s =
     reply_with (\<lambda>_ a. ROk)
       (bindE (on_handles (\<lambda>t. handle_remove (env_slab env) t (OpenHandleId fh))) (\<lambda>h.
        on_world env (prov_close (oh_provider h) (oh_provider_handle h))) s)"

text \<open>Directory listings: the dot entries, then the provider's entries with their inodes.\<close>

fun resolve_entries ::
  "virtual_path \<Rightarrow> virtual_directory_entry list \<Rightarrow> ('w, 's) fuse_state \<Rightarrow>
     (u64 \<times> virtual_file_type \<times> bytes) list vfs_result \<times> ('w, 's) fuse_state" where
  "resolve_entries path [] s = (Inr [], s)"
| "resolve_entries path (e # es) s =
     bindE (readE (\<lambda>_. path_join path (de_name e))) (\<lambda>child.
     bindE (cache_node child (de_metadata e)) (\<lambda>inode.
     bindE (resolve_entries path es) (\<lambda>rest.
     returnE ((inode, file_type (de_metadata e), name_bytes (de_name e)) # rest)))) s"

definition parent_inode :: "('w, 's) adapter \<Rightarrow> virtual_path \<Rightarrow> u64" where
  "parent_inode a path =
     (case Option.bind (path_parent path) (\<lambda>pp. find (\<lambda>(_, nd). cn_path nd = pp) (ad_nodes a)) of
        None \<Rightarrow> ROOT_INODE
      | Some (i, _) \<Rightarrow> i)"

definition resolved_listing ::
  "('w, 's) fuse_env \<Rightarrow> fuse_request \<Rightarrow> u64 \<Rightarrow> ('w, 's) fuse_state \<Rightarrow>
     (u64 \<times> virtual_file_type \<times> bytes) list vfs_result \<times> ('w, 's) fuse_state" where
  "resolved_listing env rq inode s =
     bindE (readE (\<lambda>s. ad_node (fst s) inode)) (\<lambda>nd.
     bindE (readE (\<lambda>_. if file_type (cn_metadata nd) \<noteq> Directory then Inl NotDirectory else Inr ())) (\<lambda>_.
     bindE (fuse_context rq) (\<lambda>ctx.
     bindE (on_world env (prov_read_dir (ad_provider (fst s)) (cn_path nd) ctx)) (\<lambda>entries.
     bindE (readE (\<lambda>s. Inr (parent_inode (fst s) (cn_path nd)))) (\<lambda>up.
     bindE (resolve_entries (cn_path nd) entries) (\<lambda>rest.
     returnE ([(inode, Directory, [dot]), (up, Directory, [dot, dot])] @ rest))))))) s"

text \<open>\<^verbatim>\<open>reply.add\<close> in a loop that stops at the first entry that does not fit.\<close>

fun fill_reply ::
  "(dir_reply_entry list \<Rightarrow> dir_reply_entry \<Rightarrow> bool) \<Rightarrow> nat \<Rightarrow> (u64 \<times> virtual_file_type \<times> bytes) list \<Rightarrow>
     dir_reply_entry list \<Rightarrow> dir_reply_entry list" where
  "fill_reply fits index [] acc = acc"
| "fill_reply fits index ((i, kind, name) # es) acc =
     (let e = (i, of_nat (index + 1), fuse_file_type kind, name)
      in if fits acc e then fill_reply fits (Suc index) es (acc @ [e]) else acc)"

definition fuse_readdir ::
  "('w, 's) fuse_env \<Rightarrow> fuse_request \<Rightarrow> u64 \<Rightarrow> u64 \<Rightarrow> ('w, 's) fuse_state \<Rightarrow> reply \<times> ('w, 's) fuse_state" where
  "fuse_readdir env rq inode offset s =
     reply_with
       (\<lambda>entries a. let start = unat offset
                     in RDirectory (fill_reply (env_fits env) start (drop start entries) []))
       (resolved_listing env rq inode s)"

definition fuse_statfs :: "('w, 's) fuse_state \<Rightarrow> reply \<times> ('w, 's) fuse_state" where
  "fuse_statfs s = (RStatfs 1 0 0 1 0 4096 255 4096, s)"

text \<open>Of the access mask only the answers of \<^verbatim>\<open>contains\<close> for \<^verbatim>\<open>W_OK\<close> and \<^verbatim>\<open>X_OK\<close> matter.\<close>

record access_flags =
  contains_W_OK :: bool
  contains_X_OK :: bool

definition fuse_access :: "u64 \<Rightarrow> access_flags \<Rightarrow> ('w, 's) fuse_state \<Rightarrow> reply \<times> ('w, 's) fuse_state" where
  "fuse_access inode flags s =
     (case ad_node (fst s) inode of
        Inl e \<Rightarrow> (RError (errno_of e), s)
      | Inr nd \<Rightarrow>
         (if contains_W_OK flags then (RError EROFS, s)
          else if contains_X_OK flags \<and> file_type (cn_metadata nd) \<noteq> Directory then (RError EACCES, s)
          else (ROk, s)))"

section \<open>Extended attributes\<close>

text \<open>Rust's \<^verbatim>\<open>to_string\<close> and \<^verbatim>\<open>{:04o}\<close> on unsigned integers.\<close>

fun digits :: "nat \<Rightarrow> nat \<Rightarrow> string" where
  "digits b n =
     (if b < 2 \<or> n < b then [char_of (48 + n)] else digits b (n div b) @ [char_of (48 + n mod b)])"

declare digits.simps [simp del]

definition to_decimal :: "u32 \<Rightarrow> string" where
  "to_decimal n = digits 10 (unat n)"

definition to_octal4 :: "u32 \<Rightarrow> string" where
  "to_octal4 n = (let d = digits 8 (unat n) in replicate (4 - length d) CHR ''0'' @ d)"

fun provider_kind_debug :: "provider_kind \<Rightarrow> string" where
  "provider_kind_debug ContainerRootfsSnapshot = ''ContainerRootfsSnapshot''"
| "provider_kind_debug ContainerArchiveLive = ''ContainerArchiveLive''"
| "provider_kind_debug NamedVolumeLive = ''NamedVolumeLive''"
| "provider_kind_debug LocalBindLive = ''LocalBindLive''"
| "provider_kind_debug HelperBindLive = ''HelperBindLive''"
| "provider_kind_debug TmpfsLive = ''TmpfsLive''"
| "provider_kind_debug RuntimeMount = ''RuntimeMount''"
| "provider_kind_debug ImageRootfsImmutable = ''ImageRootfsImmutable''"
| "provider_kind_debug InMemory = ''InMemory''"

definition original_xattrs :: "('w, 's) fuse_state \<Rightarrow> virtual_metadata \<Rightarrow> (string \<times> string) list" where
  "original_xattrs s md =
     [(''user.tuxstack.original_uid'', to_decimal (om_uid (original md))),
      (''user.tuxstack.original_gid'', to_decimal (om_gid (original md))),
      (''user.tuxstack.original_mode'', to_octal4 (om_mode (original md) AND 4095)),
      (''user.tuxstack.provider'', provider_kind_debug (pd_kind (prov_descriptor (ad_provider (fst s)) (snd s)))),
      (''user.tuxstack.resource_id'', canonical_id (ad_resource (fst s)))]"

definition xattr_reply :: "bytes vfs_result \<Rightarrow> u32 \<Rightarrow> reply" where
  "xattr_reply r sz =
     (case r of
        Inl e \<Rightarrow> RError (errno_of e)
      | Inr v \<Rightarrow>
         (if sz = 0 then RXattrSize (of_nat (length v))
          else if length v > unat sz then RError ERANGE
          else RData v))"

definition fuse_getxattr :: "u64 \<Rightarrow> bytes \<Rightarrow> u32 \<Rightarrow> ('w, 's) fuse_state \<Rightarrow> reply \<times> ('w, 's) fuse_state" where
  "fuse_getxattr inode name sz s =
     (xattr_reply
        (case ad_node (fst s) inode of
           Inl e \<Rightarrow> Inl e
         | Inr nd \<Rightarrow>
            ok_or NotFound
              (map_option (\<lambda>(_, v). ascii v)
                 (find (\<lambda>(candidate, _). name = ascii candidate) (original_xattrs s (cn_metadata nd))))) sz, s)"

definition fuse_listxattr :: "u64 \<Rightarrow> u32 \<Rightarrow> ('w, 's) fuse_state \<Rightarrow> reply \<times> ('w, 's) fuse_state" where
  "fuse_listxattr inode sz s =
     (xattr_reply
        (map_sum id (\<lambda>nd. concat (map (\<lambda>(n, _). ascii n @ [0]) (original_xattrs s (cn_metadata nd))))
           (ad_node (fst s) inode)) sz, s)"

section \<open>Requests\<close>

text \<open>
  Every callback of the \<^verbatim>\<open>Filesystem\<close> implementation. The callbacks that would change the filesystem
  ignore their arguments, so only the inode is kept.
\<close>

datatype fuse_call =
    Lookup u64 bytes
  | Forget u64 u64
  | Getattr u64
  | Readlink u64
  | Open u64 "32 word"
  | Read u64 u64 u32
  | Release u64
  | Readdir u64 u64
  | Statfs u64
  | Access u64 access_flags
  | Getxattr u64 bytes u32
  | Listxattr u64 u32
  | Setattr u64
  | Mknod u64
  | Mkdir u64
  | Unlink u64
  | Rmdir u64
  | SymlinkAt u64
  | Rename u64 u64
  | Link u64 u64
  | Write u64
  | Setxattr u64
  | Removexattr u64
  | Create u64
  | Fallocate u64
  | CopyFileRange u64 u64

definition is_mutating :: "fuse_call \<Rightarrow> bool" where
  "is_mutating c =
     (case c of
        Setattr _ \<Rightarrow> True | Mknod _ \<Rightarrow> True | Mkdir _ \<Rightarrow> True | Unlink _ \<Rightarrow> True | Rmdir _ \<Rightarrow> True
      | SymlinkAt _ \<Rightarrow> True | Rename _ _ \<Rightarrow> True | Link _ _ \<Rightarrow> True | Write _ \<Rightarrow> True
      | Setxattr _ \<Rightarrow> True | Removexattr _ \<Rightarrow> True | Create _ \<Rightarrow> True | Fallocate _ \<Rightarrow> True
      | CopyFileRange _ _ \<Rightarrow> True | _ \<Rightarrow> False)"

definition fuse_setattr :: "('w, 's) fuse_state \<Rightarrow> reply \<times> ('w, 's) fuse_state" where
  "fuse_setattr s = (RError EROFS, s)"

definition fuse_reject :: "('w, 's) fuse_state \<Rightarrow> reply \<times> ('w, 's) fuse_state" where
  "fuse_reject s = (RError EROFS, s)"

fun fuse_handle ::
  "('w, 's) fuse_env \<Rightarrow> fuse_request \<Rightarrow> fuse_call \<Rightarrow> ('w, 's) fuse_state \<Rightarrow> reply \<times> ('w, 's) fuse_state" where
  "fuse_handle env rq (Lookup parent name) s = fuse_lookup env rq parent name s"
| "fuse_handle env rq (Forget inode n) s = fuse_forget inode n s"
| "fuse_handle env rq (Getattr inode) s = fuse_getattr env rq inode s"
| "fuse_handle env rq (Readlink inode) s = fuse_readlink env rq inode s"
| "fuse_handle env rq (Open inode flags) s = fuse_open env rq inode flags s"
| "fuse_handle env rq (Read fh offset sz) s = fuse_read env rq fh offset sz s"
| "fuse_handle env rq (Release fh) s = fuse_release env fh s"
| "fuse_handle env rq (Readdir inode offset) s = fuse_readdir env rq inode offset s"
| "fuse_handle env rq (Statfs inode) s = fuse_statfs s"
| "fuse_handle env rq (Access inode flags) s = fuse_access inode flags s"
| "fuse_handle env rq (Getxattr inode name sz) s = fuse_getxattr inode name sz s"
| "fuse_handle env rq (Listxattr inode sz) s = fuse_listxattr inode sz s"
| "fuse_handle env rq (Setattr _) s = fuse_setattr s"
| "fuse_handle env rq (Mknod _) s = fuse_reject s"
| "fuse_handle env rq (Mkdir _) s = fuse_reject s"
| "fuse_handle env rq (Unlink _) s = fuse_reject s"
| "fuse_handle env rq (Rmdir _) s = fuse_reject s"
| "fuse_handle env rq (SymlinkAt _) s = fuse_reject s"
| "fuse_handle env rq (Rename _ _) s = fuse_reject s"
| "fuse_handle env rq (Link _ _) s = fuse_reject s"
| "fuse_handle env rq (Write _) s = fuse_reject s"
| "fuse_handle env rq (Setxattr _) s = fuse_reject s"
| "fuse_handle env rq (Removexattr _) s = fuse_reject s"
| "fuse_handle env rq (Create _) s = fuse_reject s"
| "fuse_handle env rq (Fallocate _) s = fuse_reject s"
| "fuse_handle env rq (CopyFileRange _ _) s = fuse_reject s"

lemmas fuse_defs = fuse_lookup_def fuse_forget_def fuse_getattr_def fuse_readlink_def fuse_open_def
  fuse_read_def fuse_release_def fuse_readdir_def fuse_statfs_def fuse_access_def fuse_getxattr_def
  fuse_listxattr_def fuse_setattr_def fuse_reject_def

end
