(* ===== verification/Fuse_Invariant.thy ===== *)
theory Fuse_Invariant
  imports Fuse_Adapter
begin

text \<open>
  The invariant of the adapter and its preservation by every callback, proved once over the slab
  laws and the provider contract: the inode table and the handle table are consistent, every cached
  node is a well-formed path registered under its inode number, the root inode stands for the root
  path only, and the provider keeps its contract.
\<close>

section \<open>The invariant\<close>

definition nodes_ok :: "('w, 's) adapter \<Rightarrow> bool" where
  "nodes_ok a \<longleftrightarrow>
     distinct (map fst (ad_nodes a)) \<and> map_of (ad_nodes a) ROOT_INODE \<noteq> None \<and>
     (\<forall>i nd. map_of (ad_nodes a) i = Some nd \<longrightarrow>
        wf_path (cn_path nd) \<and>
        (if i = ROOT_INODE then cn_path nd = path_root
         else \<exists>g. by_key (ad_inodes a) (node_key a (cn_path nd) g) = Some i))"

definition adapter_ok ::
  "(32 word \<Rightarrow> open_acc_mode) \<Rightarrow> ('s, 'w provider open_handle) slab_ops \<Rightarrow> ('s \<Rightarrow> nat) \<Rightarrow> ('w \<Rightarrow> bool) \<Rightarrow>
     ('w, 's) fuse_state \<Rightarrow> bool" where
  "adapter_ok acc_mode ops slots I s \<longleftrightarrow>
     inode_inv (ad_inodes (fst s)) \<and> root_private (ad_inodes (fst s)) \<and> nodes_ok (fst s) \<and>
     handle_inv slots (ad_handles (fst s)) \<and>
     (\<forall>i h. handle_map ops (ad_handles (fst s)) i = Some h \<longrightarrow> oh_provider h = ad_provider (fst s)) \<and>
     readonly_provider acc_mode (ad_provider (fst s)) I \<and> I (snd s)"

text \<open>What no callback changes: the adapter's identity, and the inode a key is registered under.\<close>

definition adapter_same :: "('w, 's) adapter \<Rightarrow> ('w, 's) adapter \<Rightarrow> bool" where
  "adapter_same a b \<longleftrightarrow>
     ad_provider b = ad_provider a \<and> ad_resource b = ad_resource a \<and>
     ad_daemon_identity b = ad_daemon_identity a \<and> ad_provider_key b = ad_provider_key a \<and>
     ad_uid b = ad_uid a \<and> ad_gid b = ad_gid a \<and> keys_kept (ad_inodes a) (ad_inodes b)"

definition env_ok ::
  "(32 word \<Rightarrow> open_acc_mode) \<Rightarrow> ('s, 'w provider open_handle) slab_ops \<Rightarrow> ('w \<Rightarrow> bool) \<Rightarrow> ('w, 's) fuse_env \<Rightarrow> bool" where
  "env_ok acc_mode ops I env \<longleftrightarrow>
     env_acc_mode env = acc_mode \<and> env_slab env = ops \<and>
     (case env_outcome env of OpCompleted \<Rightarrow> True | OpElapsed w \<Rightarrow> I w | OpCancelled w \<Rightarrow> I w)"

lemma adapter_same_refl [simp]: "adapter_same a a"
  by (simp add: adapter_same_def)

lemma adapter_same_trans: "adapter_same a b \<Longrightarrow> adapter_same b c \<Longrightarrow> adapter_same a c"
  by (auto simp: adapter_same_def intro: keys_kept_trans)

lemma node_key_same: "adapter_same a b \<Longrightarrow> node_key b p g = node_key a p g"
  by (simp add: adapter_same_def node_key_def)

lemma node_key_not_root: "node_key a p g \<noteq> node_key_root"
  by (cases "ad_resource a") (simp_all add: node_key_def node_key_root_def)

lemma nodes_okD:
  assumes "nodes_ok a" "map_of (ad_nodes a) i = Some nd"
  shows "wf_path (cn_path nd)" "i = ROOT_INODE \<Longrightarrow> cn_path nd = path_root"
    "i \<noteq> ROOT_INODE \<Longrightarrow> \<exists>g. by_key (ad_inodes a) (node_key a (cn_path nd) g) = Some i"
  using assms by (auto simp: nodes_ok_def)

text \<open>Registering a node under its inode keeps the cache consistent.\<close>

lemma nodes_ok_update:
  assumes "nodes_ok a" "wf_path (cn_path nd)"
    and same: "adapter_same a b" "ad_nodes b = AList.update i nd (ad_nodes a)"
    and i: "if i = ROOT_INODE then cn_path nd = path_root
            else \<exists>g. by_key (ad_inodes b) (node_key b (cn_path nd) g) = Some i"
  shows "nodes_ok b"
proof -
  have kept: "by_key (ad_inodes b) (node_key b p g) = Some j" if "by_key (ad_inodes a) (node_key a p g) = Some j" for p g j
    using that same(1) node_key_same [OF same(1)] by (auto simp: adapter_same_def keys_kept_def)
  have "map_of (ad_nodes b) = (map_of (ad_nodes a))(i \<mapsto> nd)" by (simp add: same(2) update_conv')
  moreover have "distinct (map fst (ad_nodes b))"
    using assms(1) by (simp add: same(2) distinct_update nodes_ok_def)
  ultimately show ?thesis
    using assms(1,2) i kept unfolding nodes_ok_def by (auto split: if_splits) blast+
qed

lemma nodes_ok_same:
  assumes "nodes_ok a" "adapter_same a b" "ad_nodes b = ad_nodes a"
  shows "nodes_ok b"
proof -
  have kept: "by_key (ad_inodes b) (node_key b p g) = Some j" if "by_key (ad_inodes a) (node_key a p g) = Some j" for p g j
    using that assms(2) node_key_same [OF assms(2)] by (auto simp: adapter_same_def keys_kept_def)
  then show ?thesis using assms(1,3) unfolding nodes_ok_def by (auto split: if_splits) blast+
qed

section \<open>Preservation\<close>

text \<open>The state is consistent and a successor of \<open>a0\<close>.\<close>

abbreviation (input) okay ::
  "(32 word \<Rightarrow> open_acc_mode) \<Rightarrow> ('s, 'w provider open_handle) slab_ops \<Rightarrow> ('s \<Rightarrow> nat) \<Rightarrow> ('w \<Rightarrow> bool) \<Rightarrow>
     ('w, 's) adapter \<Rightarrow> ('w, 's) fuse_state \<Rightarrow> bool" where
  "okay acc_mode ops slots I a0 s \<equiv> adapter_ok acc_mode ops slots I s \<and> adapter_same a0 (fst s)"

locale fuse_adapter = handle_slab ops slots
  for ops :: "('s, 'w provider open_handle) slab_ops" and slots :: "'s \<Rightarrow> nat" +
  fixes acc_mode :: "32 word \<Rightarrow> open_acc_mode" and I :: "'w \<Rightarrow> bool"
begin

lemma context_ok: "triple (okay acc_mode ops slots I a0) (fuse_context rq) (\<lambda>_. okay acc_mode ops slots I a0) (okay acc_mode ops slots I a0)"
proof -
  have "okay acc_mode ops slots I a0 (snd (fuse_context rq s))" if s: "okay acc_mode ops slots I a0 s" for s
  proof -
    let ?b = "(fst s)\<lparr>next_request_id := next_request_id (fst s) + 1\<rparr>"
    have same: "adapter_same (fst s) ?b" by (simp add: adapter_same_def)
    have "nodes_ok (fst s)" using s by (simp add: adapter_ok_def)
    then have "nodes_ok ?b" using same by (rule nodes_ok_same) simp
    with s same show ?thesis by (auto simp: fuse_context_def adapter_ok_def intro: adapter_same_trans)
  qed
  then show ?thesis by (intro tripleI) fastforce+
qed

lemma execute_inv:
  assumes "env_ok acc_mode ops I env" "I w" "\<And>w. I w \<Longrightarrow> I (snd (f w))"
  shows "I (snd (execute (env_outcome env) f w))"
  using assms by (auto simp: execute_def env_ok_def case_prod_beta split: task_outcome.splits)

lemma on_world_ok:
  assumes "env_ok acc_mode ops I env" "\<And>w. I w \<Longrightarrow> I (snd (f w))"
  shows "triple (okay acc_mode ops slots I a0) (on_world env f) (\<lambda>_. okay acc_mode ops slots I a0) (okay acc_mode ops slots I a0)"
proof -
  have "okay acc_mode ops slots I a0 (snd (on_world env f s))" if "okay acc_mode ops slots I a0 s" for s
    using that execute_inv [OF assms(1) _ assms(2), of "snd s"]
    by (simp add: on_world_def adapter_ok_def case_prod_beta)
  then show ?thesis by (intro tripleI) fastforce+
qed

lemma cache_node_ok:
  assumes "wf_path path"
  shows "triple (okay acc_mode ops slots I a0) (cache_node path md)
    (\<lambda>inode s. okay acc_mode ops slots I a0 s \<and> by_key (ad_inodes (fst s)) (node_key a0 path (md_generation md)) = Some inode)
    (okay acc_mode ops slots I a0)"
proof -
  have step: "okay acc_mode ops slots I a0 s' \<and> (\<forall>i. r = Inr i \<longrightarrow> by_key (ad_inodes (fst s')) (node_key a0 path (md_generation md)) = Some i)"
    if s: "okay acc_mode ops slots I a0 s" and run: "cache_node path md s = (r, s')" for s r s'
  proof -
    obtain a w where sa: "s = (a, w)" by (cases s)
    let ?k = "node_key a path (md_generation md)"
    obtain q t where q: "inode_for (ad_inodes a) ?k (Some (node_hardlink a md)) = (q, t)" by fastforce
    have inv: "inode_inv (ad_inodes a)" "root_private (ad_inodes a)" "nodes_ok a"
      using s by (auto simp: sa adapter_ok_def)
    have t: "inode_inv t" "keys_kept (ad_inodes a) t" "root_private t" "q \<noteq> Inr ROOT_INODE"
      using inode_for_inv [OF inv(1), of ?k "Some (node_hardlink a md)"]
        inode_for_keys_kept [OF inv(1), of ?k "Some (node_hardlink a md)"]
        inode_for_root_private [OF inv(1,2) node_key_not_root q] by (simp_all add: q)
    have key0: "node_key a path (md_generation md) = node_key a0 path (md_generation md)"
      using s by (simp add: sa node_key_same)
    show ?thesis
    proof (cases q)
      case (Inl e)
      then have s': "s' = (a\<lparr>ad_inodes := t\<rparr>, w)" "r = Inl e" using run q by (simp_all add: cache_node_def sa)
      have same: "adapter_same a (a\<lparr>ad_inodes := t\<rparr>)" using t(2) by (simp add: adapter_same_def)
      have "nodes_ok (a\<lparr>ad_inodes := t\<rparr>)" using inv(3) same by (rule nodes_ok_same) simp
      with s s' t same show ?thesis by (auto simp: sa adapter_ok_def intro: adapter_same_trans)
    next
      case (Inr i)
      let ?nd = "\<lparr>cn_path = path, cn_metadata = md\<rparr>"
      let ?b = "a\<lparr>ad_inodes := t, ad_nodes := AList.update i ?nd (ad_nodes a)\<rparr>"
      have s': "s' = (?b, w)" "r = Inr i" using run q Inr by (simp_all add: cache_node_def sa)
      have same: "adapter_same a ?b" using t(2) by (simp add: adapter_same_def)
      have key: "by_key t ?k = Some i" using inode_for_result(1) [OF inv(1)] q Inr by blast
      have "nodes_ok ?b"
      proof (rule nodes_ok_update [OF inv(3) _ same])
        show "if i = ROOT_INODE then cn_path ?nd = path_root
            else \<exists>g. by_key (ad_inodes ?b) (node_key ?b (cn_path ?nd) g) = Some i"
          using key t(4) Inr by (auto simp: node_key_def)
      qed (use assms in simp_all)
      with s s' t same key key0 show ?thesis by (auto simp: sa adapter_ok_def intro: adapter_same_trans)
    qed
  qed
  show ?thesis by (rule tripleI) (use step in blast)+
qed

lemma set_node_ok:
  "triple (\<lambda>s. okay acc_mode ops slots I a0 s \<and> (\<exists>nd. map_of (ad_nodes (fst s)) i = Some nd \<and> cn_path nd = p)) (set_node i \<lparr>cn_path = p, cn_metadata = md\<rparr>)
     (\<lambda>_. okay acc_mode ops slots I a0) (okay acc_mode ops slots I a0)"
proof (rule tripleI)
  fix s v s'
  assume s: "okay acc_mode ops slots I a0 s \<and> (\<exists>nd. map_of (ad_nodes (fst s)) i = Some nd \<and> cn_path nd = p)"
    and run: "set_node i \<lparr>cn_path = p, cn_metadata = md\<rparr> s = (Inr v, s')"
  then obtain nd where nd: "map_of (ad_nodes (fst s)) i = Some nd" "cn_path nd = p" by blast
  let ?a = "fst s" and ?b = "(fst s)\<lparr>ad_nodes := AList.update i \<lparr>cn_path = p, cn_metadata = md\<rparr> (ad_nodes (fst s))\<rparr>"
  have same: "adapter_same ?a ?b" by (simp add: adapter_same_def)
  have ok: "nodes_ok ?a" using s by (simp add: adapter_ok_def)
  have "nodes_ok ?b"
    using nodes_okD [OF ok nd(1)] nd(2)
    by (intro nodes_ok_update [OF ok _ same, where i = i and nd = "\<lparr>cn_path = p, cn_metadata = md\<rparr>"])
      (auto simp: node_key_def)
  with s run same show "okay acc_mode ops slots I a0 s'"
    by (auto simp: set_node_def adapter_ok_def intro: adapter_same_trans)
qed (auto simp: set_node_def)

text \<open>Operations on the handle table.\<close>

lemma handles_ok:
  assumes "okay acc_mode ops slots I a0 s" "handle_inv slots t"
    and "\<And>i h. handle_map ops t i = Some h \<Longrightarrow> oh_provider h = ad_provider a0"
  shows "okay acc_mode ops slots I a0 ((fst s)\<lparr>ad_handles := t\<rparr>, snd s)"
proof -
  let ?b = "(fst s)\<lparr>ad_handles := t\<rparr>"
  have same: "adapter_same (fst s) ?b" by (simp add: adapter_same_def)
  have "nodes_ok (fst s)" using assms(1) by (simp add: adapter_ok_def)
  then have "nodes_ok ?b" using same by (rule nodes_ok_same) simp
  moreover have "ad_provider (fst s) = ad_provider a0" using assms(1) by (simp add: adapter_same_def)
  ultimately show ?thesis
    using assms same by (auto simp: adapter_ok_def intro: adapter_same_trans)
qed

lemma okay_handles:
  assumes "okay acc_mode ops slots I a0 s"
  shows "handle_inv slots (ad_handles (fst s))"
    "handle_map ops (ad_handles (fst s)) i = Some h \<Longrightarrow> oh_provider h = ad_provider a0"
  using assms by (auto simp: adapter_ok_def adapter_same_def)

lemma insert_handle_ok:
  assumes "oh_provider h = ad_provider a0"
  shows "triple (okay acc_mode ops slots I a0) (on_handles (\<lambda>t. handle_insert ops now t h)) (\<lambda>_. okay acc_mode ops slots I a0) (okay acc_mode ops slots I a0)"
proof (rule tripleI)
  fix s v s'
  assume s: "okay acc_mode ops slots I a0 s" and run: "on_handles (\<lambda>t. handle_insert ops now t h) s = (Inr v, s')"
  obtain t where t: "handle_insert ops now (ad_handles (fst s)) h = (Inr v, t)" "s' = ((fst s)\<lparr>ad_handles := t\<rparr>, snd s)"
    using run by (auto simp: on_handles_def split: prod.splits)
  note ins = insert_map [OF okay_handles(1) [OF s] t(1)]
  show "okay acc_mode ops slots I a0 s'" unfolding t(2)
    using assms okay_handles(2) [OF s] by (intro handles_ok [OF s ins(1)]) (auto simp: ins(3) split: if_splits)
next
  fix s e s'
  assume s: "okay acc_mode ops slots I a0 s" and run: "on_handles (\<lambda>t. handle_insert ops now t h) s = (Inl e, s')"
  then obtain t where "handle_insert ops now (ad_handles (fst s)) h = (Inl e, t)" "s' = ((fst s)\<lparr>ad_handles := t\<rparr>, snd s)"
    by (auto simp: on_handles_def split: prod.splits)
  then have "s' = s" using insert_full [of now "ad_handles (fst s)" h e t] by simp
  with s show "okay acc_mode ops slots I a0 s'" by simp
qed

lemma get_handle_ok:
  "triple (okay acc_mode ops slots I a0) (on_handles (\<lambda>t. handle_get_mut ops now t i))
     (\<lambda>h s. okay acc_mode ops slots I a0 s \<and> oh_provider h = ad_provider a0) (okay acc_mode ops slots I a0)"
proof -
  have "okay acc_mode ops slots I a0 s' \<and> (\<forall>h. r = Inr h \<longrightarrow> oh_provider h = ad_provider a0)"
    if s: "okay acc_mode ops slots I a0 s" and run: "on_handles (\<lambda>t. handle_get_mut ops now t i) s = (r, s')" for s r s'
  proof (cases "handle_map ops (ad_handles (fst s)) i")
    case None
    then show ?thesis using s run get_mut_None [OF None, of now] by (auto simp: on_handles_def)
  next
    case (Some h)
    obtain t where t: "handle_get_mut ops now (ad_handles (fst s)) i = (Inr (h\<lparr>last_accessed_at := now\<rparr>), t)"
      "handle_inv slots t" "handle_map ops t = (handle_map ops (ad_handles (fst s)))(i \<mapsto> h\<lparr>last_accessed_at := now\<rparr>)"
      by (rule get_mut_Some [OF okay_handles(1) [OF s] Some])
    have "okay acc_mode ops slots I a0 ((fst s)\<lparr>ad_handles := t\<rparr>, snd s)"
      using okay_handles(2) [OF s] Some
      by (intro handles_ok [OF s t(2)]) (auto simp: t(3) split: if_splits)
    then show ?thesis using run t(1) okay_handles(2) [OF s Some] by (auto simp: on_handles_def)
  qed
  then show ?thesis by (intro tripleI) blast+
qed

lemma remove_handle_ok:
  "triple (okay acc_mode ops slots I a0) (on_handles (\<lambda>t. handle_remove ops t i))
     (\<lambda>h s. okay acc_mode ops slots I a0 s \<and> oh_provider h = ad_provider a0) (okay acc_mode ops slots I a0)"
proof -
  have "okay acc_mode ops slots I a0 s' \<and> (\<forall>h. r = Inr h \<longrightarrow> oh_provider h = ad_provider a0)"
    if s: "okay acc_mode ops slots I a0 s" and run: "on_handles (\<lambda>t. handle_remove ops t i) s = (r, s')" for s r s'
  proof (cases "handle_map ops (ad_handles (fst s)) i")
    case None
    then show ?thesis using s run remove_None [OF None] by (auto simp: on_handles_def)
  next
    case (Some h)
    obtain k g where k: "unpack (handle_id i) = (k, g)" by (cases "unpack (handle_id i)")
    obtain t where t: "handle_remove ops (ad_handles (fst s)) i = (Inr h, t)"
      "handle_inv slots t" "handle_map ops t = (handle_map ops (ad_handles (fst s)))(i := None)"
      by (rule remove_Some [OF okay_handles(1) [OF s] Some k])
    have "okay acc_mode ops slots I a0 ((fst s)\<lparr>ad_handles := t\<rparr>, snd s)"
      using okay_handles(2) [OF s]
      by (intro handles_ok [OF s t(2)]) (auto simp: t(3) split: if_splits)
    then show ?thesis using run t(1) okay_handles(2) [OF s Some] by (auto simp: on_handles_def)
  qed
  then show ?thesis by (intro tripleI) blast+
qed

text \<open>The callbacks.\<close>

lemma read_node_ok:
  "triple (okay acc_mode ops slots I a0) (readE (\<lambda>s. ad_node (fst s) i))
     (\<lambda>nd s. (okay acc_mode ops slots I a0 s \<and> map_of (ad_nodes (fst s)) i = Some nd) \<and> wf_path (cn_path nd)) (okay acc_mode ops slots I a0)"
  by (rule triple_readE) (auto simp: ad_node_def adapter_ok_def dest: nodes_okD(1))

lemma read_pure_ok:
  "triple P (readE (\<lambda>_. r)) (\<lambda>v s. P s \<and> r = Inr v) P"
  by (rule triple_readE) auto

lemma triple_weaken: "triple P m Q E \<Longrightarrow> (\<And>s. P' s \<Longrightarrow> P s) \<Longrightarrow> triple P' m Q E"
  by (auto simp: triple_def)

lemma triple_post: "triple P m Q E \<Longrightarrow> (\<And>v s. Q v s \<Longrightarrow> Q' v s) \<Longrightarrow> triple P m Q' E"
  by (intro tripleI) (auto dest: tripleD)

lemma lookup_ok:
  assumes env: "env_ok acc_mode ops I env" and s: "adapter_ok acc_mode ops slots I s"
  shows "okay acc_mode ops slots I (fst s) (snd (fuse_lookup env rq parent name s))"
proof -
  have prov: "readonly_provider acc_mode (ad_provider (fst s)) I" using s by (simp add: adapter_ok_def)
  have "triple (okay acc_mode ops slots I (fst s))
       (bindE (readE (\<lambda>s. ad_node (fst s) parent)) (\<lambda>pn.
        bindE (readE (\<lambda>_. virtual_file_name_new name)) (\<lambda>n.
        bindE (readE (\<lambda>_. path_join (cn_path pn) n)) (\<lambda>path.
        bindE (fuse_context rq) (\<lambda>ctx.
        bindE (on_world env (prov_lookup (ad_provider (fst s)) (cn_path pn) n ctx)) (\<lambda>md.
        bindE (cache_node path md) (\<lambda>inode.
        returnE (inode, md)))))))) (\<lambda>_. okay acc_mode ops slots I (fst s)) (okay acc_mode ops slots I (fst s))" (is "triple _ ?m _ _")
    by (intro triple_bindE [OF read_node_ok] triple_pure triple_weaken [OF triple_bindE [OF read_pure_ok], of "okay acc_mode ops slots I (fst s)"]
        triple_bindE [OF read_pure_ok] triple_bindE [OF context_ok] triple_bindE [OF on_world_ok [OF env]]
        triple_bindE [OF cache_node_ok] triple_returnE)
      (auto simp: virtual_file_name_new_Inr readonly_provider.lookup_inv [OF prov] dest: path_join_wf)
  then have "okay acc_mode ops slots I (fst s) (snd (?m s))" by (rule triple_snd) (simp add: s)
  then show ?thesis by (simp add: fuse_lookup_def reply_with_def)
qed

lemma getattr_ok:
  assumes env: "env_ok acc_mode ops I env" and s: "adapter_ok acc_mode ops slots I s"
  shows "okay acc_mode ops slots I (fst s) (snd (fuse_getattr env rq inode s))"
proof -
  have prov: "readonly_provider acc_mode (ad_provider (fst s)) I" using s by (simp add: adapter_ok_def)
  let ?P = "\<lambda>nd s'. okay acc_mode ops slots I (fst s) s' \<and> map_of (ad_nodes (fst s')) inode = Some nd"
  have ctx: "triple (?P nd) (fuse_context rq) (\<lambda>_. ?P nd) (okay acc_mode ops slots I (fst s))" for nd
    using context_ok [of "fst s" rq]
    by (intro tripleI) (auto simp: fuse_context_def dest: tripleD)
  have world: "triple (?P nd) (on_world env (prov_getattr (ad_provider (fst s)) (cn_path nd) c)) (\<lambda>_. ?P nd) (okay acc_mode ops slots I (fst s))" for nd c
    using on_world_ok [OF env, of "prov_getattr (ad_provider (fst s)) (cn_path nd) c" "fst s"]
      readonly_provider.getattr_inv [OF prov]
    by (intro tripleI) (auto simp: on_world_def split: prod.splits dest: tripleD)
  have "triple (okay acc_mode ops slots I (fst s))
       (bindE (readE (\<lambda>s. ad_node (fst s) inode)) (\<lambda>nd.
        bindE (fuse_context rq) (\<lambda>ctx.
        bindE (on_world env (prov_getattr (ad_provider (fst s)) (cn_path nd) ctx)) (\<lambda>md.
        bindE (set_node inode \<lparr>cn_path = cn_path nd, cn_metadata = md\<rparr>) (\<lambda>_.
        returnE md))))) (\<lambda>_. okay acc_mode ops slots I (fst s)) (okay acc_mode ops slots I (fst s))" (is "triple _ ?m _ _")
    by (intro triple_bindE [OF read_node_ok] triple_pure triple_bindE [OF ctx] triple_bindE [OF world]
        triple_bindE [OF triple_weaken [OF set_node_ok]] triple_returnE) auto
  then have "okay acc_mode ops slots I (fst s) (snd (?m s))" by (rule triple_snd) (simp add: s)
  then show ?thesis by (simp add: fuse_getattr_def reply_with_def)
qed

lemma readlink_ok:
  assumes env: "env_ok acc_mode ops I env" and s: "adapter_ok acc_mode ops slots I s"
  shows "okay acc_mode ops slots I (fst s) (snd (fuse_readlink env rq inode s))"
proof -
  have prov: "readonly_provider acc_mode (ad_provider (fst s)) I" using s by (simp add: adapter_ok_def)
  have "triple (okay acc_mode ops slots I (fst s))
       (bindE (readE (\<lambda>s. ad_node (fst s) inode)) (\<lambda>nd.
        bindE (readE (\<lambda>_. if file_type (cn_metadata nd) \<noteq> Symlink
                          then Inl (InvalidInput ''node is not a symlink'') else Inr ())) (\<lambda>_.
        bindE (fuse_context rq) (\<lambda>ctx.
        bindE (on_world env (prov_read_link (ad_provider (fst s)) (cn_path nd) ctx)) (\<lambda>target.
        readE (\<lambda>_. rewrite_symlink (cn_path nd) target)))))) (\<lambda>_. okay acc_mode ops slots I (fst s)) (okay acc_mode ops slots I (fst s))" (is "triple _ ?m _ _")
    by (intro triple_bindE [OF read_node_ok] triple_pure triple_weaken [OF triple_bindE [OF read_pure_ok], of "okay acc_mode ops slots I (fst s)"]
        triple_bindE [OF context_ok] triple_bindE [OF on_world_ok [OF env]] triple_readE)
      (auto simp: readonly_provider.read_link_inv [OF prov])
  then have "okay acc_mode ops slots I (fst s) (snd (?m s))" by (rule triple_snd) (simp add: s)
  then show ?thesis by (simp add: fuse_readlink_def reply_with_def)
qed

lemma open_ok:
  assumes env: "env_ok acc_mode ops I env" and s: "adapter_ok acc_mode ops slots I s"
  shows "okay acc_mode ops slots I (fst s) (snd (fuse_open env rq inode flags s))"
proof -
  have prov: "readonly_provider acc_mode (ad_provider (fst s)) I" using s by (simp add: adapter_ok_def)
  have slab: "env_slab env = ops" using env by (simp add: env_ok_def)
  have "triple (okay acc_mode ops slots I (fst s))
       (bindE (readE (\<lambda>_. if \<not> is_read_only_open (env_acc_mode env) flags then Inl ReadOnly else Inr ())) (\<lambda>_.
        bindE (readE (\<lambda>s. ad_node (fst s) inode)) (\<lambda>nd.
        bindE (readE (\<lambda>_. check_openable (file_type (cn_metadata nd)))) (\<lambda>_.
        bindE (fuse_context rq) (\<lambda>ctx.
        bindE (on_world env (prov_open (ad_provider (fst s)) (cn_path nd) flags ctx)) (\<lambda>ph.
        on_handles (\<lambda>t. handle_insert (env_slab env) (env_now env) t
          \<lparr>oh_provider = ad_provider (fst s), oh_provider_handle = ph, oh_resource = ad_resource (fst s),
           oh_path = cn_path nd, oh_content_generation = md_generation (cn_metadata nd),
           backing_strategy = ''provider'', opened_at = env_now env, last_accessed_at = env_now env\<rparr>))))))) (\<lambda>_. okay acc_mode ops slots I (fst s)) (okay acc_mode ops slots I (fst s))" (is "triple _ ?m _ _")
    unfolding slab
    by (intro triple_bindE [OF read_node_ok] triple_pure triple_weaken [OF triple_bindE [OF read_pure_ok], of "okay acc_mode ops slots I (fst s)"]
        triple_bindE [OF read_pure_ok] triple_bindE [OF context_ok] triple_bindE [OF on_world_ok [OF env]]
        insert_handle_ok)
      (auto simp: readonly_provider.open_inv [OF prov])
  then have "okay acc_mode ops slots I (fst s) (snd (?m s))" by (rule triple_snd) (simp add: s)
  then show ?thesis by (simp add: fuse_open_def reply_with_def)
qed

lemma read_ok:
  assumes env: "env_ok acc_mode ops I env" and s: "adapter_ok acc_mode ops slots I s"
  shows "okay acc_mode ops slots I (fst s) (snd (fuse_read env rq fh off sz s))"
proof -
  have prov: "readonly_provider acc_mode (ad_provider (fst s)) I" using s by (simp add: adapter_ok_def)
  have slab: "env_slab env = ops" using env by (simp add: env_ok_def)
  have "triple (okay acc_mode ops slots I (fst s))
       (bindE (on_handles (\<lambda>t. handle_get_mut (env_slab env) (env_now env) t (OpenHandleId fh))) (\<lambda>h.
        bindE (fuse_context rq) (\<lambda>ctx.
        on_world env (prov_read_at (oh_provider h) (oh_provider_handle h) off sz ctx)))) (\<lambda>_. okay acc_mode ops slots I (fst s)) (okay acc_mode ops slots I (fst s))" (is "triple _ ?m _ _")
    unfolding slab
    by (intro triple_bindE [OF get_handle_ok] triple_pure triple_bindE [OF context_ok] on_world_ok [OF env])
      (simp add: readonly_provider.read_at_inv [OF prov])
  then have "okay acc_mode ops slots I (fst s) (snd (?m s))" by (rule triple_snd) (simp add: s)
  then show ?thesis by (simp add: fuse_read_def reply_with_def)
qed

lemma release_ok:
  assumes env: "env_ok acc_mode ops I env" and s: "adapter_ok acc_mode ops slots I s"
  shows "okay acc_mode ops slots I (fst s) (snd (fuse_release env fh s))"
proof -
  have prov: "readonly_provider acc_mode (ad_provider (fst s)) I" using s by (simp add: adapter_ok_def)
  have slab: "env_slab env = ops" using env by (simp add: env_ok_def)
  have "triple (okay acc_mode ops slots I (fst s))
       (bindE (on_handles (\<lambda>t. handle_remove (env_slab env) t (OpenHandleId fh))) (\<lambda>h.
        on_world env (prov_close (oh_provider h) (oh_provider_handle h)))) (\<lambda>_. okay acc_mode ops slots I (fst s)) (okay acc_mode ops slots I (fst s))" (is "triple _ ?m _ _")
    unfolding slab
    by (intro triple_bindE [OF remove_handle_ok] triple_pure on_world_ok [OF env])
      (simp add: readonly_provider.close_inv [OF prov])
  then have "okay acc_mode ops slots I (fst s) (snd (?m s))" by (rule triple_snd) (simp add: s)
  then show ?thesis by (simp add: fuse_release_def reply_with_def)
qed

lemma resolve_entries_ok:
  assumes "wf_path path" "\<forall>e \<in> set es. valid_name (de_name e)"
  shows "triple (okay acc_mode ops slots I a0) (resolve_entries path es) (\<lambda>_. okay acc_mode ops slots I a0) (okay acc_mode ops slots I a0)"
  using assms(2)
proof (induction es)
  case Nil
  show ?case by (rule tripleI) auto
next
  case (Cons e es)
  have IH: "triple (okay acc_mode ops slots I a0) (resolve_entries path es) (\<lambda>_. okay acc_mode ops slots I a0) (okay acc_mode ops slots I a0)" using Cons by simp
  have "triple (okay acc_mode ops slots I a0)
     (bindE (readE (\<lambda>_. path_join path (de_name e))) (\<lambda>child.
     bindE (cache_node child (de_metadata e)) (\<lambda>inode.
     bindE (resolve_entries path es) (\<lambda>rest.
     returnE ((inode, file_type (de_metadata e), name_bytes (de_name e)) # rest))))) (\<lambda>_. okay acc_mode ops slots I a0) (okay acc_mode ops slots I a0)"
    using assms(1) Cons.prems
    by (intro triple_bindE [OF read_pure_ok] triple_pure triple_bindE [OF cache_node_ok]
        triple_bindE [OF triple_weaken [OF IH]] triple_returnE)
      (auto dest: path_join_wf)
  then show ?case by (simp add: triple_def)
qed

lemma listing_ok:
  assumes env: "env_ok acc_mode ops I env" and s: "adapter_ok acc_mode ops slots I s"
  shows "okay acc_mode ops slots I (fst s) (snd (resolved_listing env rq inode s))"
proof -
  have prov: "readonly_provider acc_mode (ad_provider (fst s)) I" using s by (simp add: adapter_ok_def)
  have world: "triple (okay acc_mode ops slots I (fst s)) (on_world env (prov_read_dir (ad_provider (fst s)) p c))
     (\<lambda>es s'. okay acc_mode ops slots I (fst s) s' \<and> (\<forall>e \<in> set es. valid_name (de_name e))) (okay acc_mode ops slots I (fst s))" if "wf_path p" for p c
  proof (rule tripleI)
    fix t v t' assume t: "okay acc_mode ops slots I (fst s) t" and run: "on_world env (prov_read_dir (ad_provider (fst s)) p c) t = (Inr v, t')"
    have "okay acc_mode ops slots I (fst s) t'"
      using tripleD(2) [OF on_world_ok [OF env] t run] readonly_provider.read_dir_inv [OF prov] by blast
    moreover have "prov_read_dir (ad_provider (fst s)) p c (snd t) = (Inr v, snd t')"
      using run by (auto simp: on_world_def execute_def split: task_outcome.splits prod.splits)
    ultimately show "okay acc_mode ops slots I (fst s) t' \<and> (\<forall>e \<in> set v. valid_name (de_name e))"
      using readonly_provider.listing [OF prov _ that, of "snd t"] t by (auto simp: adapter_ok_def)
  next
    fix t e t' assume t: "okay acc_mode ops slots I (fst s) t" and run: "on_world env (prov_read_dir (ad_provider (fst s)) p c) t = (Inl e, t')"
    show "okay acc_mode ops slots I (fst s) t'"
      using tripleD(1) [OF on_world_ok [OF env] t run] readonly_provider.read_dir_inv [OF prov] by blast
  qed
  have "triple (okay acc_mode ops slots I (fst s))
     (bindE (readE (\<lambda>s. ad_node (fst s) inode)) (\<lambda>nd.
     bindE (readE (\<lambda>_. if file_type (cn_metadata nd) \<noteq> Directory then Inl NotDirectory else Inr ())) (\<lambda>_.
     bindE (fuse_context rq) (\<lambda>ctx.
     bindE (on_world env (prov_read_dir (ad_provider (fst s)) (cn_path nd) ctx)) (\<lambda>entries.
     bindE (readE (\<lambda>s. Inr (parent_inode (fst s) (cn_path nd)))) (\<lambda>up.
     bindE (resolve_entries (cn_path nd) entries) (\<lambda>rest.
     returnE ([(inode, Directory, [dot]), (up, Directory, [dot, dot])] @ rest)))))))) (\<lambda>_. okay acc_mode ops slots I (fst s)) (okay acc_mode ops slots I (fst s))" (is "triple _ ?m _ _")
    by (intro triple_bindE [OF read_node_ok] triple_pure triple_weaken [OF triple_bindE [OF read_pure_ok], of "okay acc_mode ops slots I (fst s)"]
        triple_bindE [OF context_ok] triple_bindE [OF world] triple_bindE [OF triple_readE, of _ _ _ "\<lambda>_. okay acc_mode ops slots I (fst s)"]
        triple_bindE [OF resolve_entries_ok] triple_returnE) auto
  then have "okay acc_mode ops slots I (fst s) (snd (?m s))" by (rule triple_snd) (simp add: s)
  then show ?thesis by (simp add: resolved_listing_def)
qed

lemma forget_ok:
  assumes s: "adapter_ok acc_mode ops slots I s"
  shows "okay acc_mode ops slots I (fst s) (snd (fuse_forget inode n s))"
proof -
  let ?b = "(fst s)\<lparr>ad_inodes := forget (ad_inodes (fst s)) inode n\<rparr>"
  have same: "adapter_same (fst s) ?b"
    by (auto simp: adapter_same_def keys_kept_def forget_def set_record_def split: option.split)
  have "nodes_ok (fst s)" using s by (simp add: adapter_ok_def)
  then have "nodes_ok ?b" using same by (rule nodes_ok_same) simp
  moreover have "root_private (ad_inodes ?b)"
    using s by (auto simp: adapter_ok_def root_private_def forget_def set_record_def split: option.split)
  ultimately show ?thesis
    using s same by (simp add: fuse_forget_def adapter_ok_def forget_inv)
qed

lemma handle_ok:
  assumes env: "env_ok acc_mode ops I env" and s: "adapter_ok acc_mode ops slots I s"
  shows "okay acc_mode ops slots I (fst s) (snd (fuse_handle env rq c s))"
  using lookup_ok [OF assms] getattr_ok [OF assms] readlink_ok [OF assms] open_ok [OF assms]
    read_ok [OF assms] release_ok [OF assms] forget_ok [OF s] listing_ok [OF assms] s
  by (cases c)
    (simp_all add: fuse_readdir_def fuse_statfs_def fuse_access_def fuse_getxattr_def fuse_listxattr_def
      fuse_setattr_def fuse_reject_def reply_with_def split: sum.split)

end

interpretation fa: fuse_adapter
  "vec_slab :: ('w provider open_handle option list, 'w provider open_handle) slab_ops" length acc_mode I
  for acc_mode and I :: "'w \<Rightarrow> bool"
  by unfold_locales

section \<open>Reachable adapters\<close>

text \<open>A step is one request of the kernel, in any environment that satisfies \<open>env_ok\<close>.\<close>

inductive fuse_step ::
  "(32 word \<Rightarrow> open_acc_mode) \<Rightarrow> ('s, 'w provider open_handle) slab_ops \<Rightarrow> ('w \<Rightarrow> bool) \<Rightarrow>
     ('w, 's) fuse_state \<Rightarrow> ('w, 's) fuse_state \<Rightarrow> bool"
  for acc_mode ops I where
  request: "env_ok acc_mode ops I env \<Longrightarrow> fuse_step acc_mode ops I s (snd (fuse_handle env rq c s))"

inductive fuse_reachable ::
  "(32 word \<Rightarrow> open_acc_mode) \<Rightarrow> ('s, 'w provider open_handle) slab_ops \<Rightarrow> ('w \<Rightarrow> bool) \<Rightarrow>
     ('w, 's) fuse_state \<Rightarrow> bool"
  for acc_mode ops I where
  mounted: "env_ok acc_mode ops I env \<Longrightarrow> readonly_provider acc_mode prov I \<Longrightarrow> I w \<Longrightarrow>
    adapter_new env prov res daemon key uid gid (Inr ()) limit idle w = (Inr a, w') \<Longrightarrow>
    fuse_reachable acc_mode ops I (a, w')"
| served: "fuse_reachable acc_mode ops I s \<Longrightarrow> fuse_step acc_mode ops I s s' \<Longrightarrow>
    fuse_reachable acc_mode ops I s'"

definition child_path :: "('w, 's) fuse_state \<Rightarrow> u64 \<Rightarrow> bytes \<Rightarrow> virtual_path vfs_result" where
  "child_path s parent name =
     (case ad_node (fst s) parent of
        Inl e \<Rightarrow> Inl e
      | Inr pn \<Rightarrow> (case virtual_file_name_new name of Inl e \<Rightarrow> Inl e | Inr n \<Rightarrow> path_join (cn_path pn) n))"

lemma reply_with_ok:
  assumes "reply_with ok rs = (r, s')" "\<And>e. r \<noteq> RError e"
  shows "\<exists>v. rs = (Inr v, s') \<and> r = ok v (fst s')"
  using assms by (cases rs; cases "fst rs") (auto simp: reply_with_def)

context fuse_adapter
begin

lemma new_ok:
  assumes "env_ok acc_mode ops I env" "readonly_provider acc_mode prov I" "I w"
    and "adapter_new env prov res daemon key uid gid built limit idle w = (Inr a, w')"
  shows "adapter_ok acc_mode ops slots I (a, w')"
proof -
  let ?ctx = "\<lparr>rc_uid = uid, rc_gid = gid, rc_pid = 0, rc_request_id = 0\<rparr>"
  obtain md hs where run: "execute (env_outcome env) (prov_getattr prov path_root ?ctx) w = (Inr md, w')"
      "handle_table_new ops limit idle = Inr hs"
    and a: "a = \<lparr>ad_provider = prov, ad_resource = res, ad_daemon_identity = daemon,
                         ad_provider_key = key, ad_uid = uid, ad_gid = gid,
                         ad_inodes = inode_table_new,
                         ad_nodes = [(ROOT_INODE, \<lparr>cn_path = path_root, cn_metadata = md\<rparr>)],
                         ad_handles = hs, next_request_id = 1\<rparr>"
    using assms(1,4) by (auto simp: adapter_new_def env_ok_def split: sum.splits prod.splits if_splits)
  have "I (snd (execute (env_outcome env) (prov_getattr prov path_root ?ctx) w))"
    using assms(1,3) by (rule execute_inv) (rule readonly_provider.getattr_inv [OF assms(2)])
  then have "I w'" by (simp add: run(1))
  then show ?thesis
    using assms(2) new_inv(1,2) [OF run(2)] by (simp add: adapter_ok_def a nodes_ok_def)
qed

lemma steps_ok:
  assumes "(fuse_step acc_mode ops I)\<^sup>*\<^sup>* s s'" "adapter_ok acc_mode ops slots I s"
  shows "okay acc_mode ops slots I (fst s) s'"
  using assms
proof (induction rule: rtranclp_induct)
  case base
  then show ?case by simp
next
  case (step u v)
  then obtain env rq c where "env_ok acc_mode ops I env" "v = snd (fuse_handle env rq c u)"
    by (auto elim: fuse_step.cases)
  with step handle_ok [of env u rq c] show ?case by (auto intro: adapter_same_trans)
qed

lemma reachable_ok: "fuse_reachable acc_mode ops I s \<Longrightarrow> adapter_ok acc_mode ops slots I s"
proof (induction rule: fuse_reachable.induct)
  case (mounted env prov w res daemon key uid gid limit idle a w')
  then show ?case by (rule new_ok)
next
  case (served s s')
  then show ?case using steps_ok [of s s'] by auto
qed

lemma lookup_entry:
  assumes env: "env_ok acc_mode ops I env" and s: "adapter_ok acc_mode ops slots I s"
    and run: "fuse_lookup env rq parent name s = (REntry t at g, s')"
  shows "\<exists>path. child_path s parent name = Inr path \<and>
    by_key (ad_inodes (fst s')) (node_key (fst s) path g) = Some (fa_ino at)"
proof -
  have prov: "readonly_provider acc_mode (ad_provider (fst s)) I" using s by (simp add: adapter_ok_def)
  obtain v where v: "bindE (readE (\<lambda>s. ad_node (fst s) parent)) (\<lambda>pn.
        bindE (readE (\<lambda>_. virtual_file_name_new name)) (\<lambda>n.
        bindE (readE (\<lambda>_. path_join (cn_path pn) n)) (\<lambda>path.
        bindE (fuse_context rq) (\<lambda>ctx.
        bindE (on_world env (prov_lookup (ad_provider (fst s)) (cn_path pn) n ctx)) (\<lambda>md.
        bindE (cache_node path md) (\<lambda>inode.
        returnE (inode, md))))))) s = (Inr v, s')"
      "REntry t at g = (\<lambda>(inode, md) a. REntry TTL (ad_attr a inode md) (md_generation md)) v (fst s')"
    using reply_with_ok [OF run [unfolded fuse_lookup_def]] by auto
  then obtain pn n path ctx s1 md s2 inode where n: "ad_node (fst s) parent = Inr pn"
      "virtual_file_name_new name = Inr n" "path_join (cn_path pn) n = Inr path"
    and c: "fuse_context rq s = (Inr ctx, s1)"
      "on_world env (prov_lookup (ad_provider (fst s)) (cn_path pn) n ctx) s1 = (Inr md, s2)"
      "cache_node path md s2 = (Inr inode, s')" and v2: "v = (inode, md)"
    by (auto simp: bindE_Inr readE_def returnE_def)
  have g: "g = md_generation md" "fa_ino at = inode" using v(2) by (auto simp: v2 ad_attr_def Let_def)
  have wf: "wf_path path"
    using n s by (auto simp: ad_node_def adapter_ok_def virtual_file_name_new_Inr
        intro: path_join_wf dest: nodes_okD(1))
  have "okay acc_mode ops slots I (fst s) s1"
    using tripleD(2) [OF context_ok [of "fst s" rq] _ c(1)] s by simp
  then have "okay acc_mode ops slots I (fst s) s2"
    using tripleD(2) [OF on_world_ok [OF env] _ c(2)] readonly_provider.lookup_inv [OF prov] by blast
  then have "by_key (ad_inodes (fst s')) (node_key (fst s) path g) = Some inode"
    using tripleD(2) [OF cache_node_ok [OF wf] _ c(3)] g(1) by blast
  then show ?thesis using n g(2) by (auto simp: child_path_def)
qed

end

end
