(* ===== verification/Path_Token.thy ===== *)
theory Path_Token
  imports Prelude
begin

text \<open>
  The filesystem-helper wire protocol, \<^verbatim>\<open>tuxstack-fs-protocol/src/lib.rs\<close>: entry kinds, error
  codes, the base64 byte fields and the versioned path token. A Rust \<^verbatim>\<open>String\<close> is the list of its
  UTF-8 bytes; error texts that only people read are constructors of an error type.
\<close>

unbundle bit_operations_syntax

section \<open>Entry kinds and error codes\<close>

datatype helper_file_type =
  HDirectory | HFile | HSymlink | HSocket | HFifo | HBlockDevice | HCharacterDevice | HUnknown

definition helper_is_directory :: "helper_file_type \<Rightarrow> bool" where
  "helper_is_directory t \<longleftrightarrow> t = HDirectory"

text \<open>
  \<open>std::fs::FileType\<close> classifies the \<open>S_IFMT\<close> bits of \<open>st_mode\<close>; each predicate compares them with
  one constant.
\<close>

definition S_IFMT :: u32 where "S_IFMT = 0xF000"

definition from_mode :: "u32 \<Rightarrow> helper_file_type" where
  "from_mode mode =
     (let ft = mode AND S_IFMT in
      if ft = 0x4000 then HDirectory
      else if ft = 0x8000 then HFile
      else if ft = 0xA000 then HSymlink
      else if ft = 0xC000 then HSocket
      else if ft = 0x1000 then HFifo
      else if ft = 0x6000 then HBlockDevice
      else if ft = 0x2000 then HCharacterDevice
      else HUnknown)"

datatype helper_error_code =
  InvalidArgs | InvalidToken | PathEscapeRejected | NotFound | NotDirectory | IsDirectory
| PermissionDenied | SymlinkLoop | UnsupportedFileType | Io

fun error_code_as_str :: "helper_error_code \<Rightarrow> string" where
  "error_code_as_str InvalidArgs = ''invalid_args''"
| "error_code_as_str InvalidToken = ''invalid_token''"
| "error_code_as_str PathEscapeRejected = ''path_escape_rejected''"
| "error_code_as_str NotFound = ''not_found''"
| "error_code_as_str NotDirectory = ''not_directory''"
| "error_code_as_str IsDirectory = ''is_directory''"
| "error_code_as_str PermissionDenied = ''permission_denied''"
| "error_code_as_str SymlinkLoop = ''symlink_loop''"
| "error_code_as_str UnsupportedFileType = ''unsupported_file_type''"
| "error_code_as_str Io = ''io''"

section \<open>Base64 byte fields\<close>

abbreviation pad :: byte where "pad \<equiv> 61"

definition B64_ALPHABET :: bytes where
  "B64_ALPHABET = ascii ''ABCDEFGHIJKLMNOPQRSTUVWXYZabcdefghijklmnopqrstuvwxyz0123456789+/''"

definition b64_char :: "u32 \<Rightarrow> byte" where
  "b64_char w = B64_ALPHABET ! unat (w AND 63)"

text \<open>The body of the loop over \<^verbatim>\<open>data.chunks(3)\<close>; missing bytes count as zero.\<close>

definition encode_chunk :: "bytes \<Rightarrow> bytes" where
  "encode_chunk chunk =
     (let b0 = ucast (chunk ! 0) :: u32;
          b1 = (if 1 < length chunk then ucast (chunk ! 1) else 0);
          b2 = (if 2 < length chunk then ucast (chunk ! 2) else 0);
          triple = push_bit 16 b0 OR push_bit 8 b1 OR b2
      in [b64_char (drop_bit 18 triple),
          b64_char (drop_bit 12 triple),
          if 1 < length chunk then b64_char (drop_bit 6 triple) else pad,
          if 2 < length chunk then b64_char triple else pad])"

text \<open>\<^verbatim>\<open>slice.chunks(n)\<close> for a positive \<open>n\<close>; the last chunk may be shorter.\<close>

function chunks :: "nat \<Rightarrow> 'a list \<Rightarrow> 'a list list" where
  "chunks n xs = (if xs = [] \<or> n = 0 then [] else take n xs # chunks n (drop n xs))"
  by pat_completeness auto
termination by (relation "measure (\<lambda>(n, xs). length xs)") auto

declare chunks.simps [simp del]

definition encode_base64 :: "bytes \<Rightarrow> bytes" where
  "encode_base64 data = concat (map encode_chunk (chunks 3 data))"

datatype base64_error = Invalid_length | Invalid_character

definition b64_value :: "byte \<Rightarrow> u32 option" where
  "b64_value byte =
     (if 65 \<le> byte \<and> byte \<le> 90 then Some (ucast (byte - 65))
      else if 97 \<le> byte \<and> byte \<le> 122 then Some (ucast (byte - 97 + 26))
      else if 48 \<le> byte \<and> byte \<le> 57 then Some (ucast (byte - 48 + 52))
      else if byte = 43 then Some 62
      else if byte = 47 then Some 63
      else None)"

text \<open>\<^verbatim>\<open>u8::is_ascii_whitespace\<close>: space, tab, line feed, form feed, carriage return.\<close>

definition is_ascii_whitespace :: "byte \<Rightarrow> bool" where
  "is_ascii_whitespace b \<longleftrightarrow> b \<in> {32, 9, 10, 12, 13}"

fun decode_quad :: "bytes \<Rightarrow> base64_error + u32 list" where
  "decode_quad [] = Inr []"
| "decode_quad (byte # rest) =
     (case (if byte = pad then Inr 0 else ok_or Invalid_character (b64_value byte)) of
        Inl e \<Rightarrow> Inl e
      | Inr v \<Rightarrow> (case decode_quad rest of Inl e \<Rightarrow> Inl e | Inr vs \<Rightarrow> Inr (v # vs)))"

definition decode_chunk :: "bytes \<Rightarrow> base64_error + bytes" where
  "decode_chunk chunk =
     (case decode_quad chunk of
        Inl e \<Rightarrow> Inl e
      | Inr quad \<Rightarrow>
          (let triple = push_bit 18 (quad ! 0) OR push_bit 12 (quad ! 1) OR push_bit 6 (quad ! 2) OR quad ! 3
           in Inr (ucast (drop_bit 16 triple)
                   # (if chunk ! 2 \<noteq> pad then [ucast (drop_bit 8 triple)] else [])
                   @ (if chunk ! 3 \<noteq> pad then [ucast triple] else []))))"

fun decode_chunks :: "bytes list \<Rightarrow> base64_error + bytes" where
  "decode_chunks [] = Inr []"
| "decode_chunks (c # cs) =
     (case decode_chunk c of
        Inl e \<Rightarrow> Inl e
      | Inr out \<Rightarrow> (case decode_chunks cs of Inl e \<Rightarrow> Inl e | Inr rest \<Rightarrow> Inr (out @ rest)))"

definition decode_base64 :: "bytes \<Rightarrow> base64_error + bytes" where
  "decode_base64 input =
     (let clean = filter (\<lambda>byte. \<not> is_ascii_whitespace byte) input
      in if length clean mod 4 \<noteq> 0 then Inl Invalid_length
         else decode_chunks (chunks 4 clean))"

section \<open>Path tokens\<close>

datatype token_error =
  Unsupported_version bytes | Invalid_encoding base64_error
| Absolute_path | Nul_byte | Dot_dot_component | Dot_component | Empty_component

datatype filesystem_path_token = FilesystemPathToken (token_string: bytes)

definition PATH_TOKEN_VERSION :: bytes where
  "PATH_TOKEN_VERSION = ascii ''v1''"

definition token_prefix :: bytes where
  "token_prefix = PATH_TOKEN_VERSION @ ascii '':''"

fun validate_parts :: "bytes list \<Rightarrow> token_error + unit" where
  "validate_parts [] = Inr ()"
| "validate_parts (part # parts) =
     (if part = [dot, dot] then Inl Dot_dot_component
      else if part = [dot] then Inl Dot_component
      else if part = [] then Inl Empty_component
      else validate_parts parts)"

definition validate_relative :: "bytes \<Rightarrow> token_error + unit" where
  "validate_relative relative =
     (if relative = [] then Inr ()
      else if relative ! 0 = slash then Inl Absolute_path
      else if 0 \<in> set relative then Inl Nul_byte
      else validate_parts (split_on slash relative))"

definition encode_relative :: "bytes \<Rightarrow> token_error + filesystem_path_token" where
  "encode_relative relative =
     (case validate_relative relative of
        Inl e \<Rightarrow> Inl e
      | Inr _ \<Rightarrow> Inr (FilesystemPathToken (token_prefix @ encode_base64 relative)))"

definition from_relative :: "bytes \<Rightarrow> token_error + filesystem_path_token" where
  "from_relative relative = encode_relative relative"

definition root_token :: filesystem_path_token where
  "root_token = expect (from_relative [])"

text \<open>\<^verbatim>\<open>str::strip_prefix\<close> on the bytes of the string.\<close>

definition strip_prefix_bytes :: "bytes \<Rightarrow> bytes \<Rightarrow> bytes option" where
  "strip_prefix_bytes pre s =
     (if take (length pre) s = pre then Some (drop (length pre) s) else None)"

definition decode_relative :: "filesystem_path_token \<Rightarrow> token_error + bytes" where
  "decode_relative token =
     (case strip_prefix_bytes token_prefix (token_string token) of
        None \<Rightarrow> Inl (Unsupported_version (token_string token))
      | Some rest \<Rightarrow>
          (case decode_base64 rest of
             Inl message \<Rightarrow> Inl (Invalid_encoding message)
           | Inr bytes \<Rightarrow>
               (case validate_relative bytes of Inl e \<Rightarrow> Inl e | Inr _ \<Rightarrow> Inr bytes)))"

definition token_is_root :: "filesystem_path_token \<Rightarrow> bool" where
  "token_is_root token = (case decode_relative token of Inr b \<Rightarrow> b = [] | Inl _ \<Rightarrow> False)"

section \<open>Base64: the decoder inverts the encoder\<close>

lemma chunks_Nil [simp]: "chunks n [] = []"
  by (simp add: chunks.simps)

lemma chunks_short: "xs \<noteq> [] \<Longrightarrow> length xs \<le> n \<Longrightarrow> chunks n xs = [xs]"
  by (cases n) (simp_all add: chunks.simps [of _ xs])

lemma chunks_append: "length xs = n \<Longrightarrow> xs \<noteq> [] \<Longrightarrow> chunks n (xs @ ys) = xs # chunks n ys"
  by (auto simp: chunks.simps [of n "xs @ ys"])

lemma concat_chunks: "0 < n \<Longrightarrow> concat (chunks n xs) = xs"
proof (induction n xs rule: chunks.induct)
  case (1 n xs)
  then show ?case by (cases "xs = []") (simp_all add: chunks.simps [of n xs])
qed

lemma chunks_bounds: "c \<in> set (chunks n xs) \<Longrightarrow> c \<noteq> [] \<and> length c \<le> n"
proof (induction n xs rule: chunks.induct)
  case (1 n xs)
  then show ?case
    by (cases "xs = [] \<or> n = 0") (auto simp: chunks.simps [of n xs])
qed

lemma alphabet_length: "length B64_ALPHABET = 64"
  by (simp add: B64_ALPHABET_def ascii_def)

lemma alphabet_values: "map b64_value B64_ALPHABET = map (\<lambda>i. Some (word_of_nat i)) [0..<64]"
  by (simp add: B64_ALPHABET_def ascii_def b64_value_def upt_rec word_le_nat_alt)

lemma alphabet_bytes: "pad \<notin> set B64_ALPHABET" "list_all (\<lambda>b. \<not> is_ascii_whitespace b) B64_ALPHABET"
  by (simp_all add: B64_ALPHABET_def ascii_def is_ascii_whitespace_def)

lemma alphabet_entry:
  assumes "i < 64"
  shows "b64_value (B64_ALPHABET ! i) = Some (word_of_nat i)"
    and "B64_ALPHABET ! i \<noteq> pad" and "\<not> is_ascii_whitespace (B64_ALPHABET ! i)"
proof -
  have i: "i < length B64_ALPHABET" using assms by (simp add: alphabet_length)
  show "b64_value (B64_ALPHABET ! i) = Some (word_of_nat i)"
    using arg_cong [OF alphabet_values, of "\<lambda>xs. xs ! i"] i assms by simp
  show "B64_ALPHABET ! i \<noteq> pad" "\<not> is_ascii_whitespace (B64_ALPHABET ! i)"
    using alphabet_bytes nth_mem [OF i] by (auto simp: list_all_iff)
qed

lemma and_63_less: "unat ((w::u32) AND 63) < 64"
proof -
  have "w AND 63 \<le> 63" by (rule word_and_le1)
  then show ?thesis by (simp add: word_le_nat_alt)
qed

lemma b64_char_facts [simp]:
  "b64_value (b64_char w) = Some (w AND 63)"
  "b64_char w \<noteq> pad" "\<not> is_ascii_whitespace (b64_char w)"
  using alphabet_entry [OF and_63_less [of w]] by (simp_all add: b64_char_def)

lemma not_whitespace_pad [simp]: "\<not> is_ascii_whitespace pad"
  by (simp add: is_ascii_whitespace_def)

definition join_sextets :: "u32 \<Rightarrow> u32" where
  "join_sextets t = push_bit 18 (drop_bit 18 t AND 63) OR push_bit 12 (drop_bit 12 t AND 63)
     OR push_bit 6 (drop_bit 6 t AND 63) OR (t AND 63)"

lemma sextet_mask: "(63::u32) = mask 6"
  by (simp add: mask_eq_exp_minus_1)

lemma join_sextets_bit: "bit (join_sextets t) n \<longleftrightarrow> n < 24 \<and> bit t n"
  unfolding join_sextets_def sextet_mask
  by (cases "n < 6"; cases "n < 12"; cases "n < 18"; simp add: bit_simps; auto)

definition join_octets :: "byte \<Rightarrow> byte \<Rightarrow> byte \<Rightarrow> u32" where
  "join_octets a b c = push_bit 16 (ucast a) OR push_bit 8 (ucast b) OR ucast c"

lemma join_octets_parts:
  "ucast (drop_bit 16 (join_sextets (join_octets a b c))) = a"
  "ucast (drop_bit 8 (join_sextets (join_octets a b c))) = b"
  "ucast (join_sextets (join_octets a b c)) = c"
  by (rule bit_word_eqI; auto simp: bit_simps join_sextets_bit join_octets_def dest: bit_imp_le_length)+

lemma join_octets_short:
  "join_octets a b 0 AND 63 = 0" "drop_bit 6 (join_octets a 0 0) AND 63 = 0" "join_octets a 0 0 AND 63 = 0"
  unfolding sextet_mask
  by (rule bit_word_eqI; auto simp: bit_simps join_octets_def dest: bit_imp_le_length)+

lemma encode_chunk_3:
  "encode_chunk [a, b, c] =
     (let t = join_octets a b c
      in [b64_char (drop_bit 18 t), b64_char (drop_bit 12 t), b64_char (drop_bit 6 t), b64_char t])"
  by (simp add: encode_chunk_def join_octets_def Let_def)

lemma encode_chunk_2:
  "encode_chunk [a, b] =
     (let t = join_octets a b 0
      in [b64_char (drop_bit 18 t), b64_char (drop_bit 12 t), b64_char (drop_bit 6 t), pad])"
  by (simp add: encode_chunk_def join_octets_def Let_def)

lemma encode_chunk_1:
  "encode_chunk [a] =
     (let t = join_octets a 0 0 in [b64_char (drop_bit 18 t), b64_char (drop_bit 12 t), pad, pad])"
  by (simp add: encode_chunk_def join_octets_def Let_def)

lemmas encode_chunk_cases = encode_chunk_3 encode_chunk_2 encode_chunk_1

lemma short_chunk_cases:
  assumes "c \<noteq> []" "length c \<le> 3"
  obtains a where "c = [a]" | a b where "c = [a, b]" | a b d where "c = [a, b, d]"
  using assms by (cases c; cases "tl c"; cases "tl (tl c)") auto

lemma decode_chunk_sextets:
  assumes "decode_quad [w, x, y, z] = Inr [drop_bit 18 t AND 63, drop_bit 12 t AND 63, drop_bit 6 t AND 63, t AND 63]"
  shows "decode_chunk [w, x, y, z] =
    Inr (ucast (drop_bit 16 (join_sextets t))
         # (if y \<noteq> pad then [ucast (drop_bit 8 (join_sextets t))] else [])
         @ (if z \<noteq> pad then [ucast (join_sextets t)] else []))"
  unfolding decode_chunk_def join_sextets_def assms sum.case Let_def by simp

lemma decode_quad_4:
  "decode_quad [b64_char t, b64_char u, b64_char v, b64_char w] = Inr [t AND 63, u AND 63, v AND 63, w AND 63]"
  "decode_quad [b64_char t, b64_char u, b64_char v, pad] = Inr [t AND 63, u AND 63, v AND 63, 0]"
  "decode_quad [b64_char t, b64_char u, pad, pad] = Inr [t AND 63, u AND 63, 0, 0]"
  by (simp_all add: ok_or_def)

lemma decode_encode_chunk:
  assumes "c \<noteq> []" "length c \<le> 3"
  shows "decode_chunk (encode_chunk c) = Inr c"
  using assms
proof (cases rule: short_chunk_cases)
  case (1 a)
  then show ?thesis unfolding 1 encode_chunk_cases Let_def
    by (subst decode_chunk_sextets [of _ _ _ _ "join_octets a 0 0"])
       (simp_all only: decode_quad_4 join_octets_short join_octets_parts, simp)
next
  case (2 a b)
  then show ?thesis unfolding 2 encode_chunk_cases Let_def
    by (subst decode_chunk_sextets [of _ _ _ _ "join_octets a b 0"])
       (simp_all only: decode_quad_4 join_octets_short join_octets_parts, simp)
next
  case (3 a b d)
  then show ?thesis unfolding 3 encode_chunk_cases Let_def
    by (subst decode_chunk_sextets [of _ _ _ _ "join_octets a b d"])
       (simp_all only: decode_quad_4 join_octets_parts, simp)
qed

lemma encode_chunk_bytes:
  assumes "c \<noteq> []" "length c \<le> 3"
  shows "length (encode_chunk c) = 4" "filter (\<lambda>b. \<not> is_ascii_whitespace b) (encode_chunk c) = encode_chunk c"
  using assms by (cases rule: short_chunk_cases; simp add: encode_chunk_cases Let_def)+

lemma chunks_concat_uniform:
  assumes "0 < n" "\<And>x. x \<in> set xs \<Longrightarrow> length (f x) = n"
  shows "chunks n (concat (map f xs)) = map f xs"
  using assms(2)
proof (induction xs)
  case (Cons x xs)
  then have "f x \<noteq> []" using assms(1) by (metis length_0_conv less_irrefl list.set_intros(1))
  with Cons show ?case by (simp add: chunks_append)
qed simp

lemma decode_chunks_map:
  "(\<And>c. c \<in> set cs \<Longrightarrow> decode_chunk (f c) = Inr c) \<Longrightarrow> decode_chunks (map f cs) = Inr (concat cs)"
  by (induction cs) simp_all

lemma filter_concat_map:
  "(\<And>x. x \<in> set xs \<Longrightarrow> filter P (f x) = f x) \<Longrightarrow> filter P (concat (map f xs)) = concat (map f xs)"
  by (induction xs) simp_all

lemma length_encode_base64: "length (encode_base64 data) = 4 * length (chunks 3 data)"
  using chunks_bounds [of _ 3 data] encode_chunk_bytes(1)
  by (simp add: encode_base64_def length_concat o_def sum_list_triv cong: map_cong)

lemma decode_encode_base64: "decode_base64 (encode_base64 data) = Inr data"
proof -
  have bounds: "c \<noteq> []" "length c \<le> 3" if "c \<in> set (chunks 3 data)" for c
    using chunks_bounds [OF that] by auto
  have "filter (\<lambda>b. \<not> is_ascii_whitespace b) (encode_base64 data) = encode_base64 data"
    unfolding encode_base64_def by (rule filter_concat_map) (rule encode_chunk_bytes(2) [OF bounds])
  moreover have "chunks 4 (encode_base64 data) = map encode_chunk (chunks 3 data)"
    unfolding encode_base64_def
    by (rule chunks_concat_uniform) (simp_all add: encode_chunk_bytes(1) [OF bounds])
  moreover have "decode_chunks (map encode_chunk (chunks 3 data)) = Inr data"
    by (subst decode_chunks_map) (simp_all add: decode_encode_chunk [OF bounds] concat_chunks)
  ultimately show ?thesis by (simp add: decode_base64_def Let_def length_encode_base64)
qed

section \<open>Path tokens\<close>

text \<open>What a token may name: the root, or plain non-empty components without \<^verbatim>\<open>.\<close>, \<^verbatim>\<open>..\<close> or NUL.\<close>

definition plain_component :: "bytes \<Rightarrow> bool" where
  "plain_component c \<longleftrightarrow> c \<noteq> [] \<and> c \<noteq> [dot] \<and> c \<noteq> [dot, dot] \<and> 0 \<notin> set c"

definition relative_ok :: "bytes \<Rightarrow> bool" where
  "relative_ok p \<longleftrightarrow> p = [] \<or> list_all plain_component (split_on slash p)"

lemma validate_parts_iff:
  "validate_parts parts = Inr () \<longleftrightarrow> list_all (\<lambda>p. p \<noteq> [] \<and> p \<noteq> [dot] \<and> p \<noteq> [dot, dot]) parts"
  by (induction parts) auto

lemma set_split_on: "set xs \<subseteq> insert c (\<Union> (set ` set (split_on c xs)))"
proof (induction xs)
  case Nil
  then show ?case by simp
next
  case (Cons x xs)
  obtain q qs where "split_on c xs = q # qs"
    by (meson list.exhaust split_on_not_Nil)
  with Cons show ?case by auto
qed

lemma split_on_leading_sep: "xs \<noteq> [] \<Longrightarrow> xs ! 0 = c \<Longrightarrow> [] \<in> set (split_on c xs)"
  by (cases xs) auto

lemma validate_relative_iff: "validate_relative p = Inr () \<longleftrightarrow> relative_ok p"
proof (cases "p = []")
  case False
  have nul: "0 \<notin> set p \<longleftrightarrow> list_all (\<lambda>c. 0 \<notin> set c) (split_on slash p)"
    using set_split_on [of p slash] split_on_subset [of _ slash p] by (fastforce simp: list_all_iff)
  have "p ! 0 = slash \<Longrightarrow> \<not> list_all plain_component (split_on slash p)"
    using split_on_leading_sep [OF False] by (auto simp: list_all_iff plain_component_def)
  with False nul show ?thesis
    by (auto simp: validate_relative_def relative_ok_def validate_parts_iff plain_component_def list_all_iff)
qed (simp add: validate_relative_def relative_ok_def)

lemma strip_prefix_bytes_append [simp]: "strip_prefix_bytes pre (pre @ s) = Some s"
  by (simp add: strip_prefix_bytes_def)

lemma decode_relative_ok: "decode_relative token = Inr p \<Longrightarrow> relative_ok p"
  by (auto simp: decode_relative_def simp flip: validate_relative_iff split: option.splits sum.splits)

lemma encode_relative_iff:
  "encode_relative p = Inr token \<longleftrightarrow>
     relative_ok p \<and> token = FilesystemPathToken (token_prefix @ encode_base64 p)"
  using validate_relative_iff [of p] by (auto simp: encode_relative_def split: sum.splits)

lemma decode_encode_relative: "encode_relative p = Inr token \<Longrightarrow> decode_relative token = Inr p"
  using validate_relative_iff [of p]
  by (auto simp: encode_relative_iff decode_relative_def decode_encode_base64)

lemma root_token_decodes: "decode_relative root_token = Inr []"
proof -
  have "encode_relative [] = Inr root_token"
    by (simp add: root_token_def from_relative_def encode_relative_def validate_relative_def)
  then show ?thesis by (rule decode_encode_relative)
qed

text \<open>
  Distinct strings can decode to one path: the decoder drops whitespace, ignores the unused low bits
  of a padded group and takes padding at any position, so a token is not a canonical name.
\<close>

lemma token_not_canonical:
  "decode_relative (FilesystemPathToken (ascii ''v1:YQ=='')) = Inr [97]"
  "decode_relative (FilesystemPathToken (ascii ''v1:Y R=='')) = Inr [97]"
  by code_simp+

text \<open>C18. Path tokens round-trip: encoding succeeds exactly on the empty path and on paths of plain
  components (none empty, \<^verbatim>\<open>.\<close>, \<^verbatim>\<open>..\<close> or with a NUL byte), whose token decodes to the same bytes, and
  every other path is refused. Conversely whatever any string decodes to is such a path, so no token,
  forged or not, names anything above the root.\<close>

theorem path_token_roundtrip:
  "(case encode_relative p of Inr token \<Rightarrow> relative_ok p \<and> decode_relative token = Inr p
    | Inl _ \<Rightarrow> \<not> relative_ok p)
   \<and> (case decode_relative t of Inr q \<Rightarrow> relative_ok q | Inl _ \<Rightarrow> True)"
proof (rule conjI)
  show "case encode_relative p of Inr token \<Rightarrow> relative_ok p \<and> decode_relative token = Inr p
    | Inl _ \<Rightarrow> \<not> relative_ok p"
  proof (cases "encode_relative p")
    case (Inl e)
    then show ?thesis using encode_relative_iff [of p] by auto
  next
    case (Inr token)
    then show ?thesis using decode_encode_relative [OF Inr] encode_relative_iff [of p token] by simp
  qed
  show "case decode_relative t of Inr q \<Rightarrow> relative_ok q | Inl _ \<Rightarrow> True"
    using decode_relative_ok [of t] by (simp split: sum.split)
qed

end
