(* ===== verification/Protocol.thy ===== *)
theory Protocol
  imports Utf8
begin

text \<open>
  The local IPC protocol, \<^verbatim>\<open>tuxstack-protocol/src/lib.rs\<close>: the message types and the bounded,
  length-prefixed framing.

  A Rust \<^verbatim>\<open>String\<close> or path is the list of its bytes. The values that the
  \<^verbatim>\<open>tuxstack-domain\<close> crate defines and that a message only carries (Docker requests and responses,
  statistics, log lines, pull progress and options) are of one type parameter \<open>'d\<close>. The CBOR library
  is a pair of parameters, \<open>ser\<close> for \<^verbatim>\<open>ciborium::ser::into_writer\<close> and \<open>de\<close> for
  \<^verbatim>\<open>ciborium::de::from_reader\<close> with the cursor position after it.
\<close>

unbundle bit_operations_syntax

section \<open>Message types\<close>

definition PROTOCOL_VERSION :: u32 where "PROTOCOL_VERSION = 1"
definition MAX_FRAME_SIZE :: u32 where "MAX_FRAME_SIZE = 32 * 1024 * 1024"
definition FRAME_HEADER_SIZE :: nat where "FRAME_HEADER_SIZE = 4"

type_synonym request_id = u64
type_synonym subscription_id = u64

type_synonym feature_flags = u64

definition FEATURE_NONE :: feature_flags where "FEATURE_NONE = 0"
definition FEATURE_SUBSCRIPTIONS :: feature_flags where "FEATURE_SUBSCRIPTIONS = push_bit 0 1"
definition FEATURE_REQUEST_CANCELLATION :: feature_flags where
  "FEATURE_REQUEST_CANCELLATION = push_bit 1 1"
definition FEATURE_RESOURCE_DESCRIPTORS :: feature_flags where
  "FEATURE_RESOURCE_DESCRIPTORS = push_bit 2 1"

text \<open>\<^verbatim>\<open>contains\<close> and \<^verbatim>\<open>union\<close> of the two bitmap types, feature flags and provider capabilities.\<close>

definition flags_contains :: "'a::len word \<Rightarrow> 'a word \<Rightarrow> bool" where
  "flags_contains s t \<longleftrightarrow> s AND t = t"

definition flags_union :: "'a::len word \<Rightarrow> 'a word \<Rightarrow> 'a word" where
  "flags_union s t = s OR t"

type_synonym protocol_provider_capabilities = u32

definition CAPABILITY_LOOKUP :: protocol_provider_capabilities where "CAPABILITY_LOOKUP = push_bit 0 1"
definition CAPABILITY_READDIR :: protocol_provider_capabilities where "CAPABILITY_READDIR = push_bit 1 1"
definition CAPABILITY_GETATTR :: protocol_provider_capabilities where "CAPABILITY_GETATTR = push_bit 2 1"
definition CAPABILITY_READLINK :: protocol_provider_capabilities where "CAPABILITY_READLINK = push_bit 3 1"
definition CAPABILITY_OPEN :: protocol_provider_capabilities where "CAPABILITY_OPEN = push_bit 4 1"
definition CAPABILITY_READ :: protocol_provider_capabilities where "CAPABILITY_READ = push_bit 5 1"
definition CAPABILITY_DOWNLOAD :: protocol_provider_capabilities where "CAPABILITY_DOWNLOAD = push_bit 6 1"
definition CAPABILITY_REFRESH :: protocol_provider_capabilities where "CAPABILITY_REFRESH = push_bit 7 1"

record client_hello =
  client_version :: bytes
  supported_protocol_versions :: "u32 list"
  client_feature_flags :: feature_flags
  client_max_frame_size :: u32

definition all_features :: feature_flags where
  "all_features = flags_union (flags_union FEATURE_SUBSCRIPTIONS FEATURE_REQUEST_CANCELLATION)
     FEATURE_RESOURCE_DESCRIPTORS"

definition client_hello_current :: "bytes \<Rightarrow> client_hello" where
  "client_hello_current version =
     \<lparr>client_version = version, supported_protocol_versions = [PROTOCOL_VERSION],
      client_feature_flags = all_features, client_max_frame_size = MAX_FRAME_SIZE\<rparr>"

record server_hello =
  daemon_version :: bytes
  negotiated_protocol_version :: u32
  server_feature_flags :: feature_flags
  server_max_frame_size :: u32

datatype handshake_rejection_code =
  UnsupportedProtocol | InvalidMaximumFrameSize | MissingRequiredFeature | Unauthorized | ServerUnavailable

record handshake_rejection =
  rejection_code :: handshake_rejection_code
  rejection_message :: bytes
  rejection_daemon_version :: bytes
  rejection_supported_versions :: "u32 list"

datatype mount_action = MountMount | MountUnmount | MountRemount

datatype docker_resource_ref = RefContainer bytes | RefImage bytes | RefVolume bytes

record resource_path =
  path_resource :: docker_resource_ref
  path_components :: "bytes list"

definition resource_path_root :: "docker_resource_ref \<Rightarrow> resource_path" where
  "resource_path_root r = \<lparr>path_resource = r, path_components = []\<rparr>"

datatype protocol_provider_kind =
  ContainerRootfsSnapshot | ContainerArchiveLive | NamedVolumeLive | LocalBindLive | HelperBindLive
| TmpfsLive | RuntimeMount | ImageRootfsImmutable

datatype protocol_consistency_mode =
  ConsistencyImmutable | ConsistencyLive | ConsistencySnapshot int u64 | OperationTimeRead | ConsistencyUnavailable

datatype provider_status =
  ProviderReady | IndexBuilding "byte option" | SnapshotBuilding "byte option"
| ProviderUnavailable bytes | ProviderPermissionDenied bytes

record protocol_provider_descriptor =
  descriptor_kind :: protocol_provider_kind
  descriptor_consistency :: protocol_consistency_mode
  descriptor_source :: "bytes option"
  descriptor_capabilities :: protocol_provider_capabilities
  descriptor_status :: provider_status

record resource_fuse_path =
  fuse_resource :: docker_resource_ref
  fuse_path :: bytes
  fuse_descriptor :: protocol_provider_descriptor

datatype daemon_lifecycle = LifecycleStarting | LifecycleReady | LifecycleStopping | LifecycleDegraded bytes

datatype docker_connection_status = DockerConnected "bytes option" | DockerReconnecting | DockerUnavailable bytes

datatype mount_state = Unmounted | Mounting | Mounted | Unmounting | MountFailed bytes

record mount_status =
  mount_state :: mount_state
  mount_point :: "bytes option"
  read_only :: bool

record daemon_status =
  status_version :: bytes
  status_lifecycle :: daemon_lifecycle
  status_docker :: docker_connection_status
  status_mount :: mount_status
  uptime_seconds :: u64

datatype resource_operation =
  OpRefresh resource_path | OpRebuildIndex docker_resource_ref
| OpInvalidateCache docker_resource_ref | OpOpenResource docker_resource_ref

datatype resource_operation_result = OpCompleted | OpAccepted u64 | OpAlreadyCurrent

datatype protocol_error_code =
  PeInvalidRequest | PeNotFound | PeConflict | PePermissionDenied | PeDaemonUnavailable
| PeDockerUnavailable | PeFuseUnavailable | PeProviderUnavailable | PeOperationTimedOut
| PeCancelled | PeResourceBusy | PeInternal

record protocol_error =
  error_code :: protocol_error_code
  error_message :: bytes
  retryable :: bool

datatype 'd request =
  GetDaemonStatus
| GetMountStatus
| SetMountState mount_action
| GetResourceFusePath docker_resource_ref
| GetProviderDescriptor resource_path
| PerformResourceOperation resource_operation
| DockerRequest 'd
| ContainerTerminalInput subscription_id bytes
| ContainerTerminalResize subscription_id u16 u16
| ContainerTerminalClose subscription_id

datatype 'd response =
  RespDaemonStatus daemon_status
| RespMountStatus mount_status
| RespResourceFusePath resource_fuse_path
| RespProviderDescriptor protocol_provider_descriptor
| RespResourceOperation resource_operation_result
| RespDocker 'd
| Acknowledged
| RespError protocol_error

datatype resource_kind = KindContainer | KindImage | KindNetwork | KindVolume

datatype shell_selection = ShellAuto | ExactPath bytes

datatype 'd subscription_request =
  SubDaemonStatus
| SubMountStatus
| SubResourceChanges "resource_kind list"
| SubProviderStatus docker_resource_ref
| SubContainerStats "bytes list"
| SubContainerLogs "bytes list" 'd
| SubImagePull 'd
| SubImagePullAuthenticated 'd
| SubContainerTerminal bytes u16 u16 shell_selection "bytes option" "bytes option"

datatype terminal_state = Connecting | Running bytes | Exited "int option" | TerminalFailed bytes

datatype resource_change = Created | Updated | Removed | Renamed | Invalidated

datatype subscription_end_reason =
  Completed | Unsubscribed | ServerShutdown | ResourceRemoved | EndError protocol_error

datatype 'd server_event =
  EvDaemonStatus subscription_id daemon_status
| EvMountStatus subscription_id mount_status
| EvResourceChanged subscription_id resource_kind "docker_resource_ref option" resource_change
| EvProviderStatus subscription_id resource_path protocol_provider_descriptor
| EvContainerStats subscription_id bytes 'd
| EvContainerLog subscription_id bytes 'd
| EvImagePullProgress subscription_id 'd
| EvTerminalOutput subscription_id bytes
| EvTerminalState subscription_id terminal_state
| EvSubscriptionEnded subscription_id subscription_end_reason

fun event_subscription_id :: "'d server_event \<Rightarrow> subscription_id" where
  "event_subscription_id (EvDaemonStatus i _) = i"
| "event_subscription_id (EvMountStatus i _) = i"
| "event_subscription_id (EvResourceChanged i _ _ _) = i"
| "event_subscription_id (EvProviderStatus i _ _) = i"
| "event_subscription_id (EvContainerStats i _ _) = i"
| "event_subscription_id (EvContainerLog i _ _) = i"
| "event_subscription_id (EvImagePullProgress i _) = i"
| "event_subscription_id (EvTerminalOutput i _) = i"
| "event_subscription_id (EvTerminalState i _) = i"
| "event_subscription_id (EvSubscriptionEnded i _) = i"

datatype 'd protocol_body =
  Hello client_hello
| Accepted server_hello
| Rejected handshake_rejection
| BodyRequest "'d request"
| BodyResponse "'d response"
| Subscribe "'d subscription_request"
| Subscribed subscription_id
| Unsubscribe subscription_id
| Event "'d server_event"
| CancelRequest request_id
| Ping
| Pong

record 'd protocol_envelope =
  protocol_version :: u32
  envelope_request_id :: request_id
  envelope_body :: "'d protocol_body"

definition envelope_new :: "request_id \<Rightarrow> 'd protocol_body \<Rightarrow> 'd protocol_envelope" where
  "envelope_new request_id body =
     \<lparr>protocol_version = PROTOCOL_VERSION, envelope_request_id = request_id, envelope_body = body\<rparr>"

section \<open>Framing\<close>

datatype frame_error =
  ZeroLength
| Oversized u32 u32
| TruncatedHeader nat
| TruncatedBody u32 nat
| UnknownProtocol u32 u32
| TrailingBytes nat
| EncodeError bytes
| DecodeError bytes

text \<open>\<^verbatim>\<open>u32::to_be_bytes\<close> and \<^verbatim>\<open>u32::from_be_bytes\<close>.\<close>

definition to_be_bytes :: "u32 \<Rightarrow> bytes" where
  "to_be_bytes w = [ucast (drop_bit 24 w), ucast (drop_bit 16 w), ucast (drop_bit 8 w), ucast w]"

definition from_be_bytes :: "bytes \<Rightarrow> u32" where
  "from_be_bytes b =
     push_bit 24 (ucast (b ! 0)) OR push_bit 16 (ucast (b ! 1)) OR push_bit 8 (ucast (b ! 2)) OR ucast (b ! 3)"

definition validate_frame_length :: "u32 \<Rightarrow> u32 \<Rightarrow> frame_error + unit" where
  "validate_frame_length len maximum0 =
     (if len = 0 then Inl ZeroLength
      else let maximum = min maximum0 MAX_FRAME_SIZE
           in if len > maximum then Inl (Oversized len maximum) else Inr ())"

type_synonym 'd cbor_ser = "'d protocol_envelope \<Rightarrow> bytes + bytes"
type_synonym 'd cbor_de = "bytes \<Rightarrow> bytes + 'd protocol_envelope \<times> nat"

definition encode_frame_with_limit ::
    "'d cbor_ser \<Rightarrow> 'd protocol_envelope \<Rightarrow> u32 \<Rightarrow> frame_error + bytes" where
  "encode_frame_with_limit ser envelope maximum0 =
     (let maximum = min maximum0 MAX_FRAME_SIZE
      in case ser envelope of
           Inl error \<Rightarrow> Inl (EncodeError error)
         | Inr payload \<Rightarrow>
             if 2 ^ 32 \<le> length payload then Inl (Oversized (- 1) maximum)
             else let len = word_of_nat (length payload)
                  in case validate_frame_length len maximum of
                       Inl e \<Rightarrow> Inl e
                     | Inr _ \<Rightarrow> Inr (to_be_bytes len @ payload))"

definition encode_frame :: "'d cbor_ser \<Rightarrow> 'd protocol_envelope \<Rightarrow> frame_error + bytes" where
  "encode_frame ser envelope = encode_frame_with_limit ser envelope MAX_FRAME_SIZE"

definition decode_payload :: "'d cbor_de \<Rightarrow> bytes \<Rightarrow> u32 \<Rightarrow> frame_error + 'd protocol_envelope" where
  "decode_payload de payload declared_length =
     (case validate_frame_length declared_length MAX_FRAME_SIZE of
        Inl e \<Rightarrow> Inl e
      | Inr _ \<Rightarrow>
          if length payload \<noteq> unat declared_length then Inl (TruncatedBody declared_length (length payload))
          else case de payload of
                 Inl error \<Rightarrow> Inl (DecodeError error)
               | Inr (envelope, consumed) \<Rightarrow>
                   if consumed \<noteq> length payload then Inl (TrailingBytes (length payload - consumed))
                   else if protocol_version envelope \<noteq> PROTOCOL_VERSION
                        then Inl (UnknownProtocol (protocol_version envelope) PROTOCOL_VERSION)
                   else Inr envelope)"

definition decode_frame_with_limit ::
    "'d cbor_de \<Rightarrow> bytes \<Rightarrow> u32 \<Rightarrow> frame_error + 'd protocol_envelope" where
  "decode_frame_with_limit de frame maximum0 =
     (if length frame < FRAME_HEADER_SIZE then Inl (TruncatedHeader (length frame))
      else let len = from_be_bytes (take FRAME_HEADER_SIZE frame);
               maximum = min maximum0 MAX_FRAME_SIZE
           in case validate_frame_length len maximum of
                Inl e \<Rightarrow> Inl e
              | Inr _ \<Rightarrow>
                  let expected = FRAME_HEADER_SIZE + unat len
                  in if length frame < expected
                     then Inl (TruncatedBody len (length frame - FRAME_HEADER_SIZE))
                     else if length frame > expected then Inl (TrailingBytes (length frame - expected))
                     else decode_payload de (drop FRAME_HEADER_SIZE frame) len)"

definition decode_frame :: "'d cbor_de \<Rightarrow> bytes \<Rightarrow> frame_error + 'd protocol_envelope" where
  "decode_frame de frame = decode_frame_with_limit de frame MAX_FRAME_SIZE"

section \<open>Reading a frame from a stream\<close>

text \<open>
  A blocking reader is the list of what its next \<^verbatim>\<open>read\<close> calls meet: bytes that have arrived, an
  interrupted system call, a failure. One call takes from the first piece at most as many bytes as
  the buffer holds; after the last piece the stream is at its end and \<^verbatim>\<open>read\<close> returns \<^verbatim>\<open>Ok(0)\<close>.
\<close>

datatype 'i read_event = Arrived bytes | Interrupted | ReadFailure 'i

datatype 'i read_result = ReadOk bytes | ReadInterrupted | ReadErr 'i

fun read_call :: "nat \<Rightarrow> 'i read_event list \<Rightarrow> 'i read_result \<times> 'i read_event list" where
  "read_call n [] = (ReadOk [], [])"
| "read_call n (Arrived bs # r) =
     (ReadOk (take n bs), if length bs \<le> n then r else Arrived (drop n bs) # r)"
| "read_call n (Interrupted # r) = (ReadInterrupted, r)"
| "read_call n (ReadFailure e # r) = (ReadErr e, r)"

datatype 'i read_frame_error = FrameErr frame_error | IoErr 'i

fun event_weight :: "'i read_event \<Rightarrow> nat" where
  "event_weight (Arrived bs) = Suc (length bs)"
| "event_weight _ = 1"

definition reader_weight :: "'i read_event list \<Rightarrow> nat" where
  "reader_weight r = sum_list (map event_weight r)"

lemma read_call_progress:
  "0 < n \<Longrightarrow> read_call n r = (ReadOk (b # bs), r') \<Longrightarrow> reader_weight r' < reader_weight r"
  "read_call n r = (ReadInterrupted, r') \<Longrightarrow> reader_weight r' < reader_weight r"
  by (cases "(n, r)" rule: read_call.cases; auto simp: reader_weight_def split: if_splits)+

text \<open>The loop of \<^verbatim>\<open>read_exact_counted\<close>: \<open>n\<close> is the buffer's length, \<open>got\<close> what it holds so far.\<close>

function read_exact_loop ::
    "nat \<Rightarrow> bool \<Rightarrow> bytes \<Rightarrow> 'i read_event list \<Rightarrow> ('i read_frame_error + bytes) \<times> 'i read_event list" where
  "read_exact_loop n header got r =
     (if length got < n then
        (case read_call (n - length got) r of
           (ReadOk [], r') \<Rightarrow>
             (Inl (FrameErr (if header then TruncatedHeader (length got)
                             else TruncatedBody (word_of_nat n) (length got))), r')
         | (ReadOk (b # bs), r') \<Rightarrow> read_exact_loop n header (got @ b # bs) r'
         | (ReadInterrupted, r') \<Rightarrow> read_exact_loop n header got r'
         | (ReadErr e, r') \<Rightarrow> (Inl (IoErr e), r'))
      else (Inr got, r))"
  by pat_completeness auto
termination
  by (relation "measure (\<lambda>(n, header, got, r). reader_weight r)")
     (auto intro: read_call_progress(1) [OF zero_less_diff [THEN iffD2] sym]
        read_call_progress(2) [OF sym])

declare read_exact_loop.simps [simp del]

definition read_exact_counted ::
    "nat \<Rightarrow> bool \<Rightarrow> 'i read_event list \<Rightarrow> ('i read_frame_error + bytes) \<times> 'i read_event list" where
  "read_exact_counted n header r = read_exact_loop n header [] r"

definition read_frame ::
    "'d cbor_de \<Rightarrow> 'i read_event list \<Rightarrow> ('i read_frame_error + 'd protocol_envelope) \<times> 'i read_event list" where
  "read_frame de r =
     bindE (read_exact_counted FRAME_HEADER_SIZE True) (\<lambda>header.
       let len = from_be_bytes header
       in case validate_frame_length len MAX_FRAME_SIZE of
            Inl e \<Rightarrow> (\<lambda>r. (Inl (FrameErr e), r))
          | Inr _ \<Rightarrow>
              bindE (read_exact_counted (unat len) False) (\<lambda>payload r.
                (case decode_payload de payload len of
                   Inl e \<Rightarrow> Inl (FrameErr e) | Inr envelope \<Rightarrow> Inr envelope, r))) r"

section \<open>The header and the length check\<close>

lemma length_to_be_bytes [simp]: "length (to_be_bytes w) = 4"
  by (simp add: to_be_bytes_def)

lemma from_to_be_bytes [simp]: "from_be_bytes (to_be_bytes w) = w"
proof (rule bit_word_eqI)
  fix n assume "n < LENGTH(32)"
  then show "bit (from_be_bytes (to_be_bytes w)) n = bit w n"
    unfolding from_be_bytes_def to_be_bytes_def
    by (cases "n < 8"; cases "n < 16"; cases "n < 24"; simp add: bit_simps; auto)
qed

lemma validate_frame_length_ok:
  "validate_frame_length len maximum = Inr () \<longleftrightarrow> len \<noteq> 0 \<and> len \<le> maximum \<and> len \<le> MAX_FRAME_SIZE"
  using min_less_iff_disj [of maximum MAX_FRAME_SIZE len]
  by (auto simp: validate_frame_length_def Let_def not_less)

lemma validate_frame_length_weaken:
  "validate_frame_length len maximum = Inr () \<Longrightarrow> validate_frame_length len MAX_FRAME_SIZE = Inr ()"
  by (simp add: validate_frame_length_ok)

lemma encode_frame_iff:
  "encode_frame_with_limit ser e maximum = Inr frame \<longleftrightarrow>
     (\<exists>payload. ser e = Inr payload \<and> payload \<noteq> [] \<and> length payload \<le> unat (min maximum MAX_FRAME_SIZE)
       \<and> frame = to_be_bytes (word_of_nat (length payload)) @ payload)"
proof (cases "ser e")
  case (Inr payload)
  show ?thesis
  proof (cases "2 ^ 32 \<le> length payload")
    case True
    have "unat (min maximum MAX_FRAME_SIZE) < 2 ^ 32" using unsigned_less [of "min maximum MAX_FRAME_SIZE"] by simp
    with True Inr show ?thesis by (auto simp: encode_frame_with_limit_def Let_def)
  next
    case False
    then have len: "unat (word_of_nat (length payload) :: u32) = length payload"
      by (simp add: unat_of_nat)
    have "(word_of_nat (length payload) :: u32) = 0 \<longleftrightarrow> payload = []"
      using len by (metis length_0_conv unat_0 word_unat_eq_iff)
    moreover have "validate_frame_length (word_of_nat (length payload)) (min maximum MAX_FRAME_SIZE) = Inr () \<longleftrightarrow>
        payload \<noteq> [] \<and> length payload \<le> unat (min maximum MAX_FRAME_SIZE)"
      using calculation len min.cobounded2 [of maximum MAX_FRAME_SIZE]
      by (auto simp: validate_frame_length_ok word_le_nat_alt)
    ultimately show ?thesis
      using False Inr by (auto simp: encode_frame_with_limit_def Let_def split: sum.splits)
  qed
qed (simp add: encode_frame_with_limit_def Let_def)

text \<open>
  What the framing relies on of the CBOR library: a value that was written is read back, and reading
  stops after the bytes of that value.
\<close>

definition cbor_roundtrip :: "'d cbor_ser \<Rightarrow> 'd cbor_de \<Rightarrow> bool" where
  "cbor_roundtrip ser de \<longleftrightarrow> (\<forall>e payload. ser e = Inr payload \<longrightarrow> de payload = Inr (e, length payload))"

lemma decode_payload_encoded:
  assumes "cbor_roundtrip ser de" "ser e = Inr payload" "protocol_version e = PROTOCOL_VERSION"
    and "payload \<noteq> []" "length payload \<le> unat MAX_FRAME_SIZE"
  shows "decode_payload de payload (word_of_nat (length payload)) = Inr e"
proof -
  have lt: "length payload < 2 ^ 32"
    using assms(5) by (simp add: MAX_FRAME_SIZE_def)
  then have len: "unat (word_of_nat (length payload) :: u32) = length payload"
    by (simp add: unat_of_nat)
  then have "validate_frame_length (word_of_nat (length payload)) MAX_FRAME_SIZE = Inr ()"
    using assms(4, 5) by (auto simp: validate_frame_length_ok word_le_nat_alt)
  then show ?thesis using assms len by (simp add: decode_payload_def cbor_roundtrip_def)
qed

section \<open>Chunking does not matter\<close>

text \<open>
  The bytes a reader still delivers, provided that no call fails and no empty piece signals an early
  end; \<open>reads_to\<close> is the reference: take the header and the body from the bytes as a whole.
\<close>

fun deliverable :: "'i read_event list \<Rightarrow> bool" where
  "deliverable [] = True"
| "deliverable (Arrived bs # r) \<longleftrightarrow> bs \<noteq> [] \<and> deliverable r"
| "deliverable (Interrupted # r) \<longleftrightarrow> deliverable r"
| "deliverable (ReadFailure e # r) \<longleftrightarrow> False"

fun content :: "'i read_event list \<Rightarrow> bytes" where
  "content [] = []"
| "content (Arrived bs # r) = bs @ content r"
| "content (_ # r) = content r"

lemma read_call_content:
  assumes "deliverable r" "0 < n" "read_call n r = (res, r')"
  shows "deliverable r'"
    and "res = ReadInterrupted \<and> content r' = content r \<or>
         (\<exists>bs. res = ReadOk bs \<and> content r = bs @ content r' \<and> length bs \<le> n \<and> (bs = [] \<longrightarrow> content r = []))"
  using assms by (cases "(n, r)" rule: read_call.cases; auto split: if_splits)+

definition exact_reference :: "nat \<Rightarrow> bool \<Rightarrow> bytes \<Rightarrow> 'i read_frame_error + bytes" where
  "exact_reference n header bs =
     (if n \<le> length bs then Inr (take n bs)
      else Inl (FrameErr (if header then TruncatedHeader (length bs) else TruncatedBody (word_of_nat n) (length bs))))"

lemma read_exact_loop_content:
  assumes "deliverable r" "length got \<le> n" "read_exact_loop n header got r = (res, r')"
  shows "deliverable r' \<and> res = exact_reference n header (got @ content r)
    \<and> content r' = drop (n - length got) (content r)"
  using assms
proof (induction n header got r arbitrary: res r' rule: read_exact_loop.induct)
  case (1 n header got r)
  note unfold = read_exact_loop.simps [of n header got r]
  show ?case
  proof (cases "length got < n")
    case False
    with 1(3-5) show ?thesis by (auto simp: unfold exact_reference_def)
  next
    case True
    obtain a q where call: "read_call (n - length got) r = (a, q)" by fastforce
    have step: "deliverable q" "a = ReadInterrupted \<and> content q = content r \<or>
         (\<exists>bs. a = ReadOk bs \<and> content r = bs @ content q \<and> length bs \<le> n - length got \<and> (bs = [] \<longrightarrow> content r = []))"
      using read_call_content [OF 1(3) _ call] True by auto
    from step(2) consider "a = ReadInterrupted" "content q = content r"
      | "a = ReadOk []" "content r = []" "content q = []"
      | b bs where "a = ReadOk (b # bs)" "content r = (b # bs) @ content q" "length (b # bs) \<le> n - length got"
      by (metis append_Nil append_is_Nil_conv list.exhaust)
    then show ?thesis
    proof cases
      case 1
      then show ?thesis
        using "1.IH"(2) [OF True call [symmetric]] "1.prems" call True step(1) by (simp add: unfold)
    next
      case 2
      then show ?thesis using call True step(1) "1.prems" by (auto simp: unfold exact_reference_def)
    next
      case 3
      then have "read_exact_loop n header (got @ b # bs) q = (res, r')"
        using "1.prems"(3) call True by (simp add: unfold)
      then have "deliverable r' \<and> res = exact_reference n header ((got @ b # bs) @ content q)
          \<and> content r' = drop (n - length (got @ b # bs)) (content q)"
        using "1.IH"(1) [OF True call [symmetric] 3(1) refl step(1)] 3(3) True by simp
      moreover have "n - length got = length (b # bs) + (n - length (got @ b # bs))"
        using 3(3) True by simp
      ultimately show ?thesis using 3(2) by simp
    qed
  qed
qed

definition first_frame :: "bytes \<Rightarrow> bytes" where
  "first_frame bs =
     (if length bs < FRAME_HEADER_SIZE then bs
      else take (FRAME_HEADER_SIZE + unat (from_be_bytes (take FRAME_HEADER_SIZE bs))) bs)"

lemma read_exact_content:
  assumes "deliverable r" "read_exact_counted n header r = (res, r')"
  shows "deliverable r'" "res = exact_reference n header (content r)" "content r' = drop n (content r)"
  using read_exact_loop_content [OF assms(1), of "[]" n header res r'] assms(2)
  by (auto simp: read_exact_counted_def)

lemma unat_frame_length:
  "validate_frame_length len maximum = Inr () \<Longrightarrow> word_of_nat (unat (len :: u32)) = len"
  by simp

lemma decode_frame_short:
  "length bs < FRAME_HEADER_SIZE \<Longrightarrow> decode_frame de bs = Inl (TruncatedHeader (length bs))"
  by (simp add: decode_frame_def decode_frame_with_limit_def)

lemma decode_first_frame:
  assumes "FRAME_HEADER_SIZE \<le> length bs" "len = from_be_bytes (take FRAME_HEADER_SIZE bs)"
  shows "decode_frame de (first_frame bs) =
    (case validate_frame_length len MAX_FRAME_SIZE of
       Inl e \<Rightarrow> Inl e
     | Inr _ \<Rightarrow> if length bs < FRAME_HEADER_SIZE + unat len
               then Inl (TruncatedBody len (length bs - FRAME_HEADER_SIZE))
               else decode_payload de (take (unat len) (drop FRAME_HEADER_SIZE bs)) len)"
  using assms
  by (auto simp: decode_frame_def decode_frame_with_limit_def first_frame_def Let_def min_def drop_take
        split: sum.split)

lemma read_frame_content:
  assumes "deliverable r"
  shows "deliverable (snd (read_frame de r))"
    and "fst (read_frame de r) = map_sum FrameErr id (decode_frame de (first_frame (content r)))"
    and "fst (read_frame de r) = Inr e \<Longrightarrow>
      content (snd (read_frame de r)) = drop (length (first_frame (content r))) (content r)"
proof -
  obtain h r1 where h: "read_exact_counted FRAME_HEADER_SIZE True r = (h, r1)" by fastforce
  note h' = read_exact_content [OF assms h]
  let ?bs = "content r"
  let ?len = "from_be_bytes (take FRAME_HEADER_SIZE ?bs)"
  consider (short) "length ?bs < FRAME_HEADER_SIZE"
    | (bad) x where "FRAME_HEADER_SIZE \<le> length ?bs" "validate_frame_length ?len MAX_FRAME_SIZE = Inl x"
    | (good) "FRAME_HEADER_SIZE \<le> length ?bs" "validate_frame_length ?len MAX_FRAME_SIZE = Inr ()"
    by (cases "validate_frame_length ?len MAX_FRAME_SIZE") (auto simp: not_less [symmetric])
  then have "deliverable (snd (read_frame de r)) \<and>
     fst (read_frame de r) = map_sum FrameErr id (decode_frame de (first_frame ?bs)) \<and>
     (fst (read_frame de r) = Inr e \<longrightarrow> content (snd (read_frame de r)) = drop (length (first_frame ?bs)) ?bs)"
  proof cases
    case short
    then show ?thesis
      using h h' by (simp add: read_frame_def bindE_def exact_reference_def first_frame_def decode_frame_short)
  next
    case bad
    then show ?thesis
      using h h' by (simp add: read_frame_def bindE_def exact_reference_def decode_first_frame)
  next
    case good
    obtain p r2 where p: "read_exact_counted (unat ?len) False r1 = (p, r2)" by fastforce
    note p' = read_exact_content [OF h'(1) p]
    have frame: "read_frame de r =
        (case p of Inl x \<Rightarrow> Inl x | Inr payload \<Rightarrow>
           map_sum FrameErr id (decode_payload de payload ?len), r2)"
      using good h h'(2) p
      by (auto simp: read_frame_def bindE_def Let_def exact_reference_def split: sum.split)
    note ref = decode_first_frame [OF good(1) refl, of de, unfolded good(2) sum.case]
    show ?thesis
    proof (cases "length ?bs < FRAME_HEADER_SIZE + unat ?len")
      case True
      then have "p = Inl (FrameErr (TruncatedBody ?len (length ?bs - FRAME_HEADER_SIZE)))"
        using p'(2) h'(3) good(1) by (simp add: exact_reference_def)
      then show ?thesis using frame ref True p'(1) by simp
    next
      case False
      then have "p = Inr (take (unat ?len) (drop FRAME_HEADER_SIZE ?bs))"
        using p'(2) h'(3) by (simp add: exact_reference_def)
      moreover have "length (first_frame ?bs) = FRAME_HEADER_SIZE + unat ?len"
        using good(1) False by (simp add: first_frame_def)
      ultimately show ?thesis using frame ref False p'(1,3) h'(3) by (simp add: add.commute)
    qed
  qed
  then show "deliverable (snd (read_frame de r))"
    "fst (read_frame de r) = map_sum FrameErr id (decode_frame de (first_frame (content r)))"
    "fst (read_frame de r) = Inr e \<Longrightarrow>
      content (snd (read_frame de r)) = drop (length (first_frame (content r))) (content r)"
    by blast+
qed

section \<open>Frames round-trip\<close>

lemma first_frame_encoded:
  assumes "encode_frame_with_limit ser e maximum = Inr frame"
  shows "first_frame (frame @ rest) = frame"
proof -
  from assms obtain payload where p: "length payload \<le> unat (min maximum MAX_FRAME_SIZE)"
    "frame = to_be_bytes (word_of_nat (length payload)) @ payload" by (auto simp: encode_frame_iff)
  have "length payload < 2 ^ 32" using p(1) min.cobounded2 [of maximum MAX_FRAME_SIZE] by (simp add: word_le_nat_alt MAX_FRAME_SIZE_def)
  then show ?thesis using p(2) by (simp add: first_frame_def FRAME_HEADER_SIZE_def unat_of_nat)
qed

lemma decode_encoded_frame:
  assumes "cbor_roundtrip ser de" "protocol_version e = PROTOCOL_VERSION"
    and "encode_frame_with_limit ser e maximum = Inr frame"
  shows "decode_frame de frame = Inr e"
proof -
  from assms(3) obtain payload where p: "ser e = Inr payload" "payload \<noteq> []"
    "length payload \<le> unat (min maximum MAX_FRAME_SIZE)"
    "frame = to_be_bytes (word_of_nat (length payload)) @ payload" by (auto simp: encode_frame_iff)
  have le: "length payload \<le> unat MAX_FRAME_SIZE"
    using p(3) min.cobounded2 [of maximum MAX_FRAME_SIZE] by (simp add: word_le_nat_alt)
  then have lt: "length payload < 2 ^ 32" by (simp add: MAX_FRAME_SIZE_def)
  have "validate_frame_length (word_of_nat (length payload)) MAX_FRAME_SIZE = Inr ()"
    using le lt p(2) by (auto simp: validate_frame_length_ok word_le_nat_alt unat_of_nat word_of_nat_eq_0_iff dest: nat_dvd_not_less)
  moreover have "decode_payload de payload (word_of_nat (length payload)) = Inr e"
    by (rule decode_payload_encoded [OF assms(1) p(1) assms(2) p(2) le])
  moreover have "decode_frame de (first_frame frame) = decode_frame de frame"
    using first_frame_encoded [OF assms(3), of "[]"] by simp
  ultimately show ?thesis
    using decode_first_frame [of frame, OF _ refl, of de] p(4) lt
    by (simp add: FRAME_HEADER_SIZE_def unat_of_nat)
qed

text \<open>Calling \<^verbatim>\<open>read_frame\<close> until \<open>n\<close> frames have been read or one call fails.\<close>

fun read_frames :: "nat \<Rightarrow> 'd cbor_de \<Rightarrow> 'i read_event list \<Rightarrow>
    ('i read_frame_error + 'd protocol_envelope list) \<times> 'i read_event list" where
  "read_frames 0 de r = (Inr [], r)"
| "read_frames (Suc n) de r =
     bindE (read_frame de) (\<lambda>e. bindE (read_frames n de) (\<lambda>es. returnE (e # es))) r"

lemma read_frames_encoded:
  assumes "cbor_roundtrip ser de" "list_all (\<lambda>e. protocol_version e = PROTOCOL_VERSION) es"
    and "list_all2 (\<lambda>e f. encode_frame_with_limit ser e maximum = Inr f) es fs"
    and "deliverable r" "content r = concat fs @ rest"
  shows "\<exists>r'. read_frames (length es) de r = (Inr es, r') \<and> deliverable r' \<and> content r' = rest"
  using assms(2-)
proof (induction es arbitrary: fs r)
  case (Cons e es)
  then obtain f gs where fs: "fs = f # gs" "encode_frame_with_limit ser e maximum = Inr f"
    "list_all2 (\<lambda>e f. encode_frame_with_limit ser e maximum = Inr f) es gs"
    by (auto simp: list_all2_Cons1)
  have ff: "first_frame (content r) = f"
    using first_frame_encoded [OF fs(2), of "concat gs @ rest"] Cons.prems(4) fs(1) by simp
  note rf = read_frame_content [OF Cons.prems(3)]
  have ok: "fst (read_frame de r) = Inr e"
    using rf(2) [of de] ff decode_encoded_frame [OF assms(1) _ fs(2)] Cons.prems(1) by simp
  then have "content (snd (read_frame de r)) = concat gs @ rest"
    using rf(3) [OF ok] ff Cons.prems(4) fs(1) by simp
  then obtain r' where "read_frames (length es) de (snd (read_frame de r)) = (Inr es, r')"
      "deliverable r'" "content r' = rest"
    using Cons.IH [OF _ fs(3) rf(1)] Cons.prems(1) by auto
  then show ?case using ok by (cases "read_frame de r") (simp add: bindE_def returnE_def)
qed simp

text \<open>A codec for one envelope, to exercise the framing: a ping with request 7 is the byte 9.\<close>

definition demo_ping :: "unit protocol_envelope" where
  "demo_ping = envelope_new 7 Ping"

definition demo_ser :: "unit cbor_ser" where
  "demo_ser e = (if e = demo_ping then Inr [9] else Inl [])"

definition demo_de :: "unit cbor_de" where
  "demo_de bs = (case bs of b # _ \<Rightarrow> if b = 9 then Inr (demo_ping, 1) else Inl [] | [] \<Rightarrow> Inl [])"

lemma demo_version: "protocol_version demo_ping = PROTOCOL_VERSION"
  by (simp add: demo_ping_def envelope_new_def)

lemma demo_roundtrip: "cbor_roundtrip demo_ser demo_de"
  by (simp add: cbor_roundtrip_def demo_ser_def demo_de_def)

lemma demo_frame: "encode_frame_with_limit demo_ser demo_ping 16 = Inr [0, 0, 0, 1, 9]"
  by (simp add: encode_frame_with_limit_def demo_ser_def validate_frame_length_def Let_def
        MAX_FRAME_SIZE_def to_be_bytes_def)

text \<open>C19. Frames survive the stream: envelopes of the current protocol version, each encoded under a
  negotiated limit and written one after the other, are read back by \<^verbatim>\<open>read_frame\<close> in order and without
  an error whatever the sizes in which the bytes arrive and however often a read is interrupted, and
  what follows the last frame is left unread. The one assumption on the CBOR library is that it reads
  back a value it wrote.\<close>

theorem frame_stream_roundtrip:
  assumes "cbor_roundtrip ser de" "list_all (\<lambda>e. protocol_version e = PROTOCOL_VERSION) es"
    and "list_all2 (\<lambda>e f. encode_frame_with_limit ser e maximum = Inr f) es fs"
    and "deliverable r" "content r = concat fs @ rest"
  shows "\<exists>r'. read_frames (length es) de r = (Inr es, r') \<and> deliverable r' \<and> content r' = rest"
  by (rule read_frames_encoded [OF assms])

theorem frame_stream_roundtrip_witness:
  "\<exists>r'. read_frames 2 demo_de
          [Arrived [0, 0], Interrupted, Arrived [0, 1, 9, 0, 0], Arrived [0 :: byte, 1, 9, 42] :: unit read_event]
        = (Inr [demo_ping, demo_ping], r') \<and> deliverable r' \<and> content r' = [42]"
  using frame_stream_roundtrip [OF demo_roundtrip, of "[demo_ping, demo_ping]" 16
      "[[0, 0, 0, 1, 9], [0, 0, 0, 1, 9]]"
      "[Arrived [0, 0], Interrupted, Arrived [0, 1, 9, 0, 0], Arrived [0, 1, 9, 42] :: unit read_event]" "[42]"]
  by (simp add: demo_frame demo_version numeral_2_eq_2)

text \<open>Reading is decoding: on a stream that delivers its bytes, however they are split, \<^verbatim>\<open>read_frame\<close>
  returns exactly what \<^verbatim>\<open>decode_frame\<close> returns for the first frame of these bytes, errors included
  (short header, zero or excessive length, short body, CBOR errors, trailing bytes inside the frame,
  unknown version), and after a success the rest of the stream starts right behind that frame. A
  decoded envelope always has the current protocol version and a frame within the size limit.\<close>

theorem read_frame_is_decode:
  assumes "deliverable r"
  shows "fst (read_frame de r) = map_sum FrameErr id (decode_frame de (first_frame (content r)))
    \<and> (fst (read_frame de r) = Inr e \<longrightarrow>
      content (snd (read_frame de r)) = drop (length (first_frame (content r))) (content r)
      \<and> protocol_version e = PROTOCOL_VERSION
      \<and> length (first_frame (content r)) \<le> FRAME_HEADER_SIZE + unat MAX_FRAME_SIZE)"
proof (intro conjI impI)
  show eq: "fst (read_frame de r) = map_sum FrameErr id (decode_frame de (first_frame (content r)))"
    by (rule read_frame_content(2) [OF assms])
  assume ok: "fst (read_frame de r) = Inr e"
  then have "decode_frame de (first_frame (content r)) = Inr e"
    using eq by (cases "decode_frame de (first_frame (content r))") auto
  then show "protocol_version e = PROTOCOL_VERSION"
      "length (first_frame (content r)) \<le> FRAME_HEADER_SIZE + unat MAX_FRAME_SIZE"
    by (auto simp: decode_frame_def decode_frame_with_limit_def decode_payload_def Let_def
          validate_frame_length_ok word_le_nat_alt split: if_splits sum.splits prod.splits)
  show "content (snd (read_frame de r)) = drop (length (first_frame (content r))) (content r)"
    by (rule read_frame_content(3) [OF assms ok])
qed

theorem read_frame_is_decode_witness:
  "fst (read_frame demo_de [Arrived [0, 0], Arrived [0 :: byte, 0, 9] :: unit read_event]) = Inl (FrameErr ZeroLength)"
  using read_frame_is_decode [of "[Arrived [0, 0], Arrived [0, 0, 9] :: unit read_event]" demo_de]
  by (simp add: first_frame_def FRAME_HEADER_SIZE_def from_be_bytes_def decode_frame_def
        decode_frame_with_limit_def validate_frame_length_def Let_def)

end
