(* ===== verification/Docker_Error.thy ===== *)
theory Docker_Error
  imports Protocol
begin

text \<open>
  Error classification, \<^verbatim>\<open>docker-core/src/error.rs\<close>, and its translation to protocol errors at the
  end of \<^verbatim>\<open>tuxstack-daemon/src/ipc.rs\<close>.

  The error type of the Docker client library is reduced to what the code inspects: a server response
  with its status and message, a missing socket, a request timeout, and any other error with its own
  text and those of its sources. The Unicode lower-casing of such texts and the \<^verbatim>\<open>Display\<close> texts are
  parameters.
\<close>

section \<open>Error types\<close>

datatype container_error =
  CNotFound bytes
| CAlreadyRunning bytes
| CNotRunning bytes
| CPaused bytes
| CRemovalInProgress bytes
| CPortAlreadyAllocated bytes
| CNameAlreadyInUse bytes
| CImageNotFound bytes
| CVolumeNotFound bytes
| CNetworkNotFound bytes
| CInvalidConfiguration bytes
| CStartFailed bytes
| CStopFailed bytes
| CRestartFailed bytes
| CKillFailed bytes
| CPauseFailed bytes
| CUnpauseFailed bytes
| CRemoveFailed bytes
| CRenameFailed bytes
| CPermissionDenied
| CDockerUnavailable
| COperationTimeout
| COperationCancelled
| CApi bytes

datatype docker_error =
  SocketNotFound bytes
| DockerPermissionDenied
| EngineUnavailable
| ConnectionTimeout
| OperationTimeout
| ContainerNotFound bytes
| InvalidContainerConfig bytes
| DockerContainer container_error
| ImageNotFound bytes
| InvalidImageReference bytes
| RegistryAuthenticationFailed
| RegistryUnavailable bytes
| PullFailed bytes
| ExportFailed bytes
| OperationCancelled
| DestinationPermissionDenied bytes
| DiskFull bytes
| NetworkNotFound bytes
| NetworkProtected bytes
| NetworkInUse bytes
| InvalidNetworkConfig bytes
| VolumeNotFound bytes
| VolumeInUse bytes
| VolumeAlreadyExists bytes
| VolumeDriverUnavailable bytes
| VolumePluginError bytes
| InvalidVolumeName bytes
| CloneFailed bytes
| CleanupFailed bytes
| UnsupportedVolumeCompression bytes
| DockerConflict bytes
| InvalidResponse bytes
| DockerApi bytes
| UnsupportedConnection bytes
| DockerInternal bytes

datatype bollard_error =
  ServerError u16 bytes
| SocketNotFoundError bytes
| RequestTimeoutError
| OtherError bytes "bytes list"

text \<open>\<^verbatim>\<open>str::contains\<close> and \<^verbatim>\<open>to_ascii_lowercase\<close> on bytes.\<close>

fun str_contains :: "bytes \<Rightarrow> bytes \<Rightarrow> bool" where
  "str_contains [] pat \<longleftrightarrow> pat = []"
| "str_contains (b # bs) pat \<longleftrightarrow> take (length pat) (b # bs) = pat \<or> str_contains bs pat"

definition to_ascii_lowercase :: "bytes \<Rightarrow> bytes" where
  "to_ascii_lowercase = map (\<lambda>b. if 65 \<le> b \<and> b \<le> 90 then b + 32 else b)"

abbreviation mentions :: "bytes \<Rightarrow> string \<Rightarrow> bool" where
  "mentions text pat \<equiv> str_contains text (ascii pat)"

section \<open>Classification of Docker client errors\<close>

definition not_found :: "bytes \<Rightarrow> bytes \<Rightarrow> docker_error" where
  "not_found resource message =
     (if resource = ascii ''container'' then ContainerNotFound message
      else if resource = ascii ''image'' then ImageNotFound message
      else if resource = ascii ''network'' then NetworkNotFound message
      else if resource = ascii ''volume'' then VolumeNotFound message
      else DockerApi (ascii ''Not found: '' @ message))"

text \<open>
  The printing parameters: the decimal digits of a status, the library's \<^verbatim>\<open>Display\<close> and
  \<^verbatim>\<open>str::to_lowercase\<close>.
\<close>

record printing =
  decimal :: "u16 \<Rightarrow> bytes"
  display :: "bollard_error \<Rightarrow> bytes"
  to_lowercase :: "bytes \<Rightarrow> bytes"

definition error_text :: "printing \<Rightarrow> bollard_error \<Rightarrow> bytes" where
  "error_text p err = (case err of OtherError text sources \<Rightarrow> text | _ \<Rightarrow> display p err)"

fun join_parts :: "bytes \<Rightarrow> bytes list \<Rightarrow> bytes" where
  "join_parts sep [] = []"
| "join_parts sep [x] = x"
| "join_parts sep (x # y # xs) = x @ sep @ join_parts sep (y # xs)"

fun error_sources :: "bollard_error \<Rightarrow> bytes list" where
  "error_sources (OtherError text sources) = sources"
| "error_sources _ = []"

definition chain_text :: "printing \<Rightarrow> bollard_error \<Rightarrow> bytes" where
  "chain_text p err = to_lowercase p (join_parts (ascii '' | '') (error_text p err # error_sources err))"

definition api_error_message :: "printing \<Rightarrow> u16 \<Rightarrow> bytes \<Rightarrow> bytes" where
  "api_error_message p status message =
     ascii ''Docker API error ('' @ decimal p status @ ascii ''): '' @ message"

definition connect_error_from_text :: "printing \<Rightarrow> bollard_error \<Rightarrow> bytes option \<Rightarrow> docker_error" where
  "connect_error_from_text p err socket =
     (let text = chain_text p err in
      if mentions text ''permission denied'' \<or> mentions text ''os error 13'' then DockerPermissionDenied
      else if mentions text ''no such file'' \<or> mentions text ''os error 2''
        then SocketNotFound (case socket of Some s \<Rightarrow> s | None \<Rightarrow> ascii ''/var/run/docker.sock'')
      else if mentions text ''connection refused'' \<or> mentions text ''no route to host''
           \<or> mentions text ''os error 111'' then EngineUnavailable
      else if mentions text ''timed out'' \<or> mentions text ''timeout'' then ConnectionTimeout
      else if mentions text ''dns error'' \<or> mentions text ''invalid uri''
        then UnsupportedConnection (error_text p err)
      else DockerApi (error_text p err))"

fun classify_connect_error :: "printing \<Rightarrow> bollard_error \<Rightarrow> bytes option \<Rightarrow> docker_error" where
  "classify_connect_error p (ServerError status message) socket =
     (if status = 401 \<or> status = 403 then DockerPermissionDenied
      else connect_error_from_text p (ServerError status message) socket)"
| "classify_connect_error p (SocketNotFoundError path) socket = SocketNotFound path"
| "classify_connect_error p RequestTimeoutError socket = ConnectionTimeout"
| "classify_connect_error p (OtherError text sources) socket =
     connect_error_from_text p (OtherError text sources) socket"

fun classify_api_error :: "printing \<Rightarrow> bollard_error \<Rightarrow> bytes \<Rightarrow> docker_error" where
  "classify_api_error p (ServerError status message) resource =
     (if status = 404 then not_found resource message
      else if status = 409 then DockerConflict message
      else if status = 401 \<or> status = 403 then DockerPermissionDenied
      else if status = 408 then OperationTimeout
      else DockerApi (api_error_message p status message))"
| "classify_api_error p RequestTimeoutError resource = OperationTimeout"
| "classify_api_error p err resource =
     (let text = chain_text p err in
      if mentions text ''timed out'' \<or> mentions text ''timeout'' then OperationTimeout
      else if mentions text ''permission denied'' \<or> mentions text ''os error 13'' then DockerPermissionDenied
      else if mentions text ''connection refused'' \<or> mentions text ''os error 111'' then EngineUnavailable
      else DockerApi (error_text p err))"

definition operation_failed :: "printing \<Rightarrow> bytes \<Rightarrow> u16 \<Rightarrow> bytes \<Rightarrow> container_error" where
  "operation_failed p operation status message =
     (if operation = ascii ''start'' then CStartFailed message
      else if operation = ascii ''stop'' then CStopFailed message
      else if operation = ascii ''restart'' then CRestartFailed message
      else if operation = ascii ''kill'' then CKillFailed message
      else if operation = ascii ''pause'' then CPauseFailed message
      else if operation = ascii ''unpause'' then CUnpauseFailed message
      else if operation = ascii ''remove'' then CRemoveFailed message
      else if operation = ascii ''rename'' then CRenameFailed message
      else CApi (api_error_message p status message))"

definition container_404 :: "bytes \<Rightarrow> bytes \<Rightarrow> container_error" where
  "container_404 lower message =
     (if mentions lower ''no such image'' \<or> mentions lower ''image'' \<and> mentions lower ''not found''
        then CImageNotFound message
      else if mentions lower ''network'' then CNetworkNotFound message
      else if mentions lower ''volume'' then CVolumeNotFound message
      else CNotFound message)"

fun classify_container_api_error ::
    "printing \<Rightarrow> (docker_error \<Rightarrow> bytes) \<Rightarrow> bollard_error \<Rightarrow> bytes \<Rightarrow> container_error" where
  "classify_container_api_error p show_error (ServerError status message) operation =
     (let lower = to_ascii_lowercase message in
      if status = 404 then container_404 lower message
      else if status = 401 \<or> status = 403 then CPermissionDenied
      else if status = 408 then COperationTimeout
      else if mentions lower ''port is already allocated'' \<or> mentions lower ''address already in use''
           \<or> mentions lower ''port already in use'' then CPortAlreadyAllocated message
      else if mentions lower ''container name'' \<and> mentions lower ''already in use''
        then CNameAlreadyInUse message
      else if mentions lower ''already running'' then CAlreadyRunning message
      else if mentions lower ''is not running'' \<or> mentions lower ''not running'' then CNotRunning message
      else if mentions lower ''is paused'' \<or> mentions lower ''container paused'' then CPaused message
      else if mentions lower ''removal of container'' \<and> mentions lower ''in progress''
        then CRemovalInProgress message
      else if operation = ascii ''create'' \<and> status = 400 then CInvalidConfiguration message
      else operation_failed p operation status message)"
| "classify_container_api_error p show_error err operation =
     (case classify_api_error p err (ascii ''container'') of
        ContainerNotFound message \<Rightarrow> CNotFound message
      | DockerPermissionDenied \<Rightarrow> CPermissionDenied
      | EngineUnavailable \<Rightarrow> CDockerUnavailable
      | OperationTimeout \<Rightarrow> COperationTimeout
      | ConnectionTimeout \<Rightarrow> COperationTimeout
      | error \<Rightarrow> CApi (show_error error))"

text \<open>\<^verbatim>\<open>impl From<ContainerError> for DockerError\<close>.\<close>

fun docker_error_of_container :: "container_error \<Rightarrow> docker_error" where
  "docker_error_of_container (CNotFound message) = ContainerNotFound message"
| "docker_error_of_container (CImageNotFound message) = ImageNotFound message"
| "docker_error_of_container (CVolumeNotFound message) = VolumeNotFound message"
| "docker_error_of_container (CNetworkNotFound message) = NetworkNotFound message"
| "docker_error_of_container (CInvalidConfiguration message) = InvalidContainerConfig message"
| "docker_error_of_container CPermissionDenied = DockerPermissionDenied"
| "docker_error_of_container CDockerUnavailable = EngineUnavailable"
| "docker_error_of_container COperationTimeout = OperationTimeout"
| "docker_error_of_container COperationCancelled = OperationCancelled"
| "docker_error_of_container other = DockerContainer other"

fun classify_volume_api_error :: "printing \<Rightarrow> bollard_error \<Rightarrow> bytes \<Rightarrow> docker_error" where
  "classify_volume_api_error p (ServerError status message) operation =
     (let lower = to_ascii_lowercase message;
          remove = (operation = ascii ''remove'');
          create = (operation = ascii ''create'') in
      if status = 401 \<or> status = 403 then DockerPermissionDenied
      else if status = 404 then
        (if create \<and> (mentions lower ''driver'' \<or> mentions lower ''plugin'')
         then VolumeDriverUnavailable message else VolumeNotFound message)
      else if remove \<and> (status = 409 \<or> mentions lower ''volume is in use'' \<or> mentions lower ''volume is used'')
        then VolumeInUse message
      else if create \<and> (status = 409 \<or> mentions lower ''already exists'') then VolumeAlreadyExists message
      else if create \<and> (status = 400 \<or> mentions lower ''invalid volume'') then InvalidVolumeName message
      else if mentions lower ''plugin'' \<or> mentions lower ''driver'' then VolumePluginError message
      else classify_api_error p (ServerError status message) (ascii ''volume''))"
| "classify_volume_api_error p err operation = classify_api_error p err (ascii ''volume'')"

fun classify_network_api_error :: "printing \<Rightarrow> bollard_error \<Rightarrow> bytes \<Rightarrow> docker_error" where
  "classify_network_api_error p (ServerError status message) operation =
     (let lower = to_ascii_lowercase message;
          protected = operation = ascii ''remove''
            \<and> (mentions lower ''pre-defined network'' \<or> mentions lower ''predefined network''
               \<or> mentions lower ''built-in network'' \<or> mentions lower ''builtin network'');
          in_use = mentions lower ''active endpoint'' \<or> mentions lower ''network is in use''
            \<or> mentions lower ''network in use'';
          config_message = mentions lower ''invalid'' \<or> mentions lower ''pool overlaps''
            \<or> mentions lower ''non-overlapping'' \<or> mentions lower ''address pool''
            \<or> mentions lower ''subnet'' \<or> mentions lower ''gateway'' \<or> mentions lower ''driver''
            \<or> mentions lower ''plugin'' \<or> mentions lower ''already exists'' in
      if protected then NetworkProtected message
      else if in_use then NetworkInUse message
      else if status = 401 \<or> status = 403 then DockerPermissionDenied
      else if status = 400 \<or> operation = ascii ''create'' \<and> (status = 409 \<or> config_message)
        then InvalidNetworkConfig message
      else classify_api_error p (ServerError status message) (ascii ''network''))"
| "classify_network_api_error p err operation = classify_api_error p err (ascii ''network'')"

section \<open>Translation to protocol errors\<close>

definition protocol_error_new :: "protocol_error_code \<Rightarrow> bytes \<Rightarrow> bool \<Rightarrow> protocol_error" where
  "protocol_error_new code message retry = \<lparr>error_code = code, error_message = message, retryable = retry\<rparr>"

fun container_error_code :: "container_error \<Rightarrow> protocol_error_code \<times> bool" where
  "container_error_code (CNotFound _) = (PeNotFound, False)"
| "container_error_code (CImageNotFound _) = (PeNotFound, False)"
| "container_error_code (CVolumeNotFound _) = (PeNotFound, False)"
| "container_error_code (CNetworkNotFound _) = (PeNotFound, False)"
| "container_error_code (CAlreadyRunning _) = (PeConflict, False)"
| "container_error_code (CNotRunning _) = (PeConflict, False)"
| "container_error_code (CPaused _) = (PeConflict, False)"
| "container_error_code (CRemovalInProgress _) = (PeConflict, False)"
| "container_error_code (CPortAlreadyAllocated _) = (PeConflict, False)"
| "container_error_code (CNameAlreadyInUse _) = (PeConflict, False)"
| "container_error_code (CInvalidConfiguration _) = (PeInvalidRequest, False)"
| "container_error_code CPermissionDenied = (PePermissionDenied, False)"
| "container_error_code CDockerUnavailable = (PeDockerUnavailable, True)"
| "container_error_code COperationTimeout = (PeOperationTimedOut, True)"
| "container_error_code COperationCancelled = (PeCancelled, True)"
| "container_error_code _ = (PeInternal, False)"

fun docker_error_code :: "docker_error \<Rightarrow> protocol_error_code \<times> bool" where
  "docker_error_code (SocketNotFound _) = (PeDockerUnavailable, True)"
| "docker_error_code EngineUnavailable = (PeDockerUnavailable, True)"
| "docker_error_code ConnectionTimeout = (PeDockerUnavailable, True)"
| "docker_error_code OperationTimeout = (PeOperationTimedOut, True)"
| "docker_error_code OperationCancelled = (PeCancelled, True)"
| "docker_error_code DockerPermissionDenied = (PePermissionDenied, False)"
| "docker_error_code (DestinationPermissionDenied _) = (PePermissionDenied, False)"
| "docker_error_code RegistryAuthenticationFailed = (PePermissionDenied, False)"
| "docker_error_code (ContainerNotFound _) = (PeNotFound, False)"
| "docker_error_code (ImageNotFound _) = (PeNotFound, False)"
| "docker_error_code (NetworkNotFound _) = (PeNotFound, False)"
| "docker_error_code (VolumeNotFound _) = (PeNotFound, False)"
| "docker_error_code (DockerContainer e) = container_error_code e"
| "docker_error_code (DockerConflict _) = (PeConflict, False)"
| "docker_error_code (NetworkProtected _) = (PeConflict, False)"
| "docker_error_code (NetworkInUse _) = (PeConflict, False)"
| "docker_error_code (VolumeInUse _) = (PeConflict, False)"
| "docker_error_code (VolumeAlreadyExists _) = (PeConflict, False)"
| "docker_error_code (InvalidContainerConfig _) = (PeInvalidRequest, False)"
| "docker_error_code (InvalidImageReference _) = (PeInvalidRequest, False)"
| "docker_error_code (InvalidNetworkConfig _) = (PeInvalidRequest, False)"
| "docker_error_code (InvalidVolumeName _) = (PeInvalidRequest, False)"
| "docker_error_code (UnsupportedConnection _) = (PeInvalidRequest, False)"
| "docker_error_code (UnsupportedVolumeCompression _) = (PeInvalidRequest, False)"
| "docker_error_code (DiskFull _) = (PeResourceBusy, False)"
| "docker_error_code (RegistryUnavailable _) = (PeDockerUnavailable, True)"
| "docker_error_code (VolumeDriverUnavailable _) = (PeDockerUnavailable, True)"
| "docker_error_code (VolumePluginError _) = (PeDockerUnavailable, True)"
| "docker_error_code _ = (PeInternal, False)"

definition docker_protocol_error :: "(docker_error \<Rightarrow> bytes) \<Rightarrow> docker_error \<Rightarrow> protocol_error" where
  "docker_protocol_error show_error error =
     (let (code, retry) = docker_error_code error in protocol_error_new code (show_error error) retry)"

datatype container_terminal_error =
  TNotRunning | TPaused | TShellNotFound | TCreateFailed | TStartFailed | TDisconnected | TResizeFailed
| TTimeout | TCancelled | TInvalidOptions | TPermission | TDockerUnavailable

text \<open>The \<^verbatim>\<open>#[error(...)]\<close> texts of \<^verbatim>\<open>ContainerTerminalError\<close>.\<close>

fun terminal_error_text :: "container_terminal_error \<Rightarrow> bytes" where
  "terminal_error_text TNotRunning = ascii ''the container is not running''"
| "terminal_error_text TPaused = ascii ''the container is paused''"
| "terminal_error_text TShellNotFound = ascii ''no supported shell was found in the container''"
| "terminal_error_text TCreateFailed = ascii ''Docker could not create the exec instance''"
| "terminal_error_text TStartFailed = ascii ''Docker could not start the exec instance''"
| "terminal_error_text TDisconnected = ascii ''the terminal connection was lost''"
| "terminal_error_text TResizeFailed = ascii ''Docker could not resize the terminal''"
| "terminal_error_text TTimeout = ascii ''the terminal operation timed out''"
| "terminal_error_text TCancelled = ascii ''the terminal operation was cancelled''"
| "terminal_error_text TInvalidOptions = ascii ''terminal options are invalid''"
| "terminal_error_text TPermission = ascii ''permission to use the Docker terminal was denied''"
| "terminal_error_text TDockerUnavailable = ascii ''Docker Engine is unavailable''"

fun terminal_error_code :: "container_terminal_error \<Rightarrow> protocol_error_code \<times> bool" where
  "terminal_error_code TInvalidOptions = (PeInvalidRequest, False)"
| "terminal_error_code TNotRunning = (PeConflict, False)"
| "terminal_error_code TPaused = (PeConflict, False)"
| "terminal_error_code TShellNotFound = (PeConflict, False)"
| "terminal_error_code TPermission = (PePermissionDenied, False)"
| "terminal_error_code TDockerUnavailable = (PeDockerUnavailable, True)"
| "terminal_error_code TTimeout = (PeOperationTimedOut, True)"
| "terminal_error_code TCancelled = (PeCancelled, True)"
| "terminal_error_code TCreateFailed = (PeDockerUnavailable, True)"
| "terminal_error_code TStartFailed = (PeDockerUnavailable, True)"
| "terminal_error_code TDisconnected = (PeDockerUnavailable, True)"
| "terminal_error_code TResizeFailed = (PeDockerUnavailable, True)"

definition terminal_protocol_error :: "container_terminal_error \<Rightarrow> protocol_error" where
  "terminal_protocol_error error =
     (let (code, retry) = terminal_error_code error
      in protocol_error_new code (terminal_error_text error) retry)"

definition map_resource_error :: "bytes \<Rightarrow> protocol_error" where
  "map_resource_error message =
     (let code =
        (if mentions message ''not attached to the VFS namespace'' then PeNotFound
         else if mentions message ''permission'' then PePermissionDenied
         else if mentions message ''timed out'' then PeOperationTimedOut
         else PeProviderUnavailable)
      in protocol_error_new code message (code = PeOperationTimedOut \<or> code = PeProviderUnavailable))"

section \<open>What a client can rely on\<close>

definition transient_codes :: "protocol_error_code list" where
  "transient_codes = [PeDockerUnavailable, PeOperationTimedOut, PeCancelled]"

lemma container_error_retry: "snd (container_error_code e) \<longleftrightarrow> fst (container_error_code e) \<in> set transient_codes"
  by (cases e) (simp_all add: transient_codes_def)

lemma docker_error_retry: "snd (docker_error_code e) \<longleftrightarrow> fst (docker_error_code e) \<in> set transient_codes"
  using container_error_retry by (cases e) (simp_all add: transient_codes_def)

lemma terminal_error_retry: "snd (terminal_error_code e) \<longleftrightarrow> fst (terminal_error_code e) \<in> set transient_codes"
  by (cases e) (simp_all add: transient_codes_def)

lemma container_conversion_code: "docker_error_code (docker_error_of_container e) = container_error_code e"
  by (cases e) simp_all

lemma container_404_code: "container_error_code (container_404 lower message) = (PeNotFound, False)"
  by (simp add: container_404_def)

lemma volume_resource_404: "not_found (ascii ''volume'') m = VolumeNotFound m"
  by (simp add: not_found_def ascii_def)

lemma network_resource_404: "not_found (ascii ''network'') m = NetworkNotFound m"
  by (simp add: not_found_def ascii_def)

text \<open>The code and the retry hint a client sees when a container operation fails in the Docker client.\<close>

definition container_failure :: "printing \<Rightarrow> (docker_error \<Rightarrow> bytes) \<Rightarrow> bollard_error \<Rightarrow> bytes \<Rightarrow> protocol_error" where
  "container_failure p show_error err operation =
     docker_protocol_error show_error
       (docker_error_of_container (classify_container_api_error p show_error err operation))"


end
