(* ===== verification/Ipc_Model.thy ===== *)
theory Ipc_Model
  imports Docker_Error
begin

text \<open>
  One client connection of the daemon, \<^verbatim>\<open>tuxstack-daemon/src/ipc.rs\<close>: the handshake, the handlers of
  the connection loop, the request and subscription tasks it spawns, and the clean-up.

  The connection's tasks share one state: the two tables of the loop, the outbound queue, the
  terminal registry, the completion queues, and the set of cancelled tokens (a
  \<^verbatim>\<open>CancellationToken\<close> is a number). A send to the outbound queue finds room, or times out when the
  queue stays full, or fails when the writer has gone. What the daemon state and the Docker services
  answer is a record of parameters.
\<close>

section \<open>Limits\<close>

definition OUTBOUND_QUEUE :: nat where "OUTBOUND_QUEUE = 256"
definition MAX_CLIENT_REQUESTS :: nat where "MAX_CLIENT_REQUESTS = 64"
definition MAX_CLIENT_SUBSCRIPTIONS :: nat where "MAX_CLIENT_SUBSCRIPTIONS = 32"
definition MAX_CLIENT_STREAM_TASKS :: nat where "MAX_CLIENT_STREAM_TASKS = 32"
definition MAX_SUBSCRIPTION_MEMBERS :: nat where "MAX_SUBSCRIPTION_MEMBERS = 16"
definition MAX_TERMINAL_INPUT_BYTES :: nat where "MAX_TERMINAL_INPUT_BYTES = 64 * 1024"
definition MAX_TERMINAL_DIMENSION :: u16 where "MAX_TERMINAL_DIMENSION = 4096"
definition MAX_TERMINAL_SESSIONS_TOTAL :: nat where "MAX_TERMINAL_SESSIONS_TOTAL = 32"
definition MAX_TERMINAL_SESSIONS_PER_CONTAINER :: nat where "MAX_TERMINAL_SESSIONS_PER_CONTAINER = 8"

lemmas ipc_limits = OUTBOUND_QUEUE_def MAX_CLIENT_REQUESTS_def MAX_CLIENT_SUBSCRIPTIONS_def
  MAX_CLIENT_STREAM_TASKS_def MAX_SUBSCRIPTION_MEMBERS_def MAX_TERMINAL_INPUT_BYTES_def
  MAX_TERMINAL_DIMENSION_def MAX_TERMINAL_SESSIONS_TOTAL_def MAX_TERMINAL_SESSIONS_PER_CONTAINER_def

datatype ipc_error = IpcIo bytes | IpcFrame frame_error | IpcClosed | IpcBackpressure

section \<open>Handshake\<close>

definition rejection :: "bytes \<Rightarrow> bytes \<Rightarrow> 'd protocol_envelope" where
  "rejection version message =
     envelope_new 0 (Rejected
       \<lparr>rejection_code = UnsupportedProtocol, rejection_message = message,
        rejection_daemon_version = version, rejection_supported_versions = [PROTOCOL_VERSION]\<rparr>)"

text \<open>The reply to the first frame: a rejection, or the acceptance and the negotiated frame limit.\<close>

definition handshake :: "bytes \<Rightarrow> 'd protocol_envelope \<Rightarrow> 'd protocol_envelope + 'd protocol_envelope \<times> u32" where
  "handshake version hello =
     (case envelope_body hello of
        Hello client \<Rightarrow>
          if envelope_request_id hello = 0 then
            (if PROTOCOL_VERSION \<notin> set (supported_protocol_versions client)
                \<or> client_max_frame_size client = 0
             then Inl (rejection version (ascii ''no compatible protocol version''))
             else let maximum = min (client_max_frame_size client) MAX_FRAME_SIZE
                  in Inr (envelope_new 0 (Accepted
                       \<lparr>daemon_version = version, negotiated_protocol_version = PROTOCOL_VERSION,
                        server_feature_flags = all_features, server_max_frame_size = maximum\<rparr>), maximum))
          else Inl (rejection version (ascii ''first frame must be Hello with request ID zero''))
      | _ \<Rightarrow> Inl (rejection version (ascii ''first frame must be Hello with request ID zero'')))"

definition verify_peer :: "u32 \<Rightarrow> u32 \<Rightarrow> bool" where
  "verify_peer peer_uid current_uid \<longleftrightarrow> peer_uid = current_uid"

section \<open>Validation of subscriptions\<close>

definition validate_terminal_size :: "u16 \<Rightarrow> u16 \<Rightarrow> protocol_error + unit" where
  "validate_terminal_size rows cols =
     (if rows = 0 \<or> cols = 0 \<or> rows > MAX_TERMINAL_DIMENSION \<or> cols > MAX_TERMINAL_DIMENSION
      then Inl (protocol_error_new PeInvalidRequest
             (ascii ''terminal rows and columns must be between 1 and 4096'') False)
      else Inr ())"

definition validate_terminal_option :: "bytes option \<Rightarrow> bytes option \<Rightarrow> protocol_error + unit" where
  "validate_terminal_option user workdir =
     (if (case user of Some v \<Rightarrow> v = [] \<or> 0 \<in> set v | None \<Rightarrow> False)
         \<or> (case workdir of Some v \<Rightarrow> v = [] \<or> 0 \<in> set v \<or> v ! 0 \<noteq> slash | None \<Rightarrow> False)
      then Inl (protocol_error_new PeInvalidRequest
             (ascii ''terminal user and workdir options are invalid'') False)
      else Inr ())"

definition member_cost :: "bytes list \<Rightarrow> protocol_error + nat" where
  "member_cost container_ids =
     (if container_ids = [] then
        Inl (protocol_error_new PeInvalidRequest (ascii ''at least one container ID is required'') False)
      else if length container_ids > MAX_SUBSCRIPTION_MEMBERS then
        Inl (protocol_error_new PeInvalidRequest (ascii ''too many container IDs in one subscription'') False)
      else if list_ex trim_is_empty container_ids then
        Inl (protocol_error_new PeInvalidRequest (ascii ''container IDs must not be empty'') False)
      else Inr (length container_ids))"

definition subscription_task_cost :: "'d subscription_request \<Rightarrow> protocol_error + nat" where
  "subscription_task_cost subscription =
     (case subscription of
        SubContainerStats container_ids \<Rightarrow> member_cost container_ids
      | SubContainerLogs container_ids _ \<Rightarrow> member_cost container_ids
      | SubContainerTerminal container_id rows cols shell user workdir \<Rightarrow>
          if trim_is_empty container_id then
            Inl (protocol_error_new PeInvalidRequest (ascii ''container ID must not be empty'') False)
          else (case validate_terminal_size rows cols of
                  Inl e \<Rightarrow> Inl e
                | Inr _ \<Rightarrow> (case validate_terminal_option user workdir of Inl e \<Rightarrow> Inl e | Inr _ \<Rightarrow> Inr 1))
      | _ \<Rightarrow> Inr 1)"

section \<open>State of a connection\<close>

record subscription_control =
  control_token :: nat
  task_cost :: nat

record terminal_session =
  session_key :: nat
  session_container :: bytes
  session_shell :: bytes

type_synonym terminal_registry = "(subscription_id \<times> terminal_session) list"

datatype run_phase = RunStart | RunMembers "bytes list" | RunStreaming | RunConnecting | RunTerminal terminal_session

record 'd subscription_run =
  run_id :: subscription_id
  run_token :: nat
  run_request :: "'d subscription_request"
  run_phase :: run_phase

record 'd request_task =
  task_id :: request_id
  task_token :: nat
  task_request :: "'d request"

record 'd session =
  outbound :: "'d protocol_envelope list"
  writer_open :: bool
  requests :: "(request_id \<times> nat) list"
  subscriptions :: "(subscription_id \<times> subscription_control) list"
  subscription_tasks :: nat
  next_subscription_id :: subscription_id
  terminals :: terminal_registry
  closed_terminals :: "nat list"
  request_tasks :: "'d request_task list"
  subscription_runs :: "'d subscription_run list"
  request_done :: "request_id list"
  subscription_done :: "subscription_id list"
  cancelled :: "nat list"
  next_token :: nat
  shutdown :: bool

definition session_new :: "'d session" where
  "session_new =
     \<lparr>outbound = [], writer_open = True, requests = [], subscriptions = [], subscription_tasks = 0,
      next_subscription_id = 1, terminals = [], closed_terminals = [], request_tasks = [],
      subscription_runs = [], request_done = [], subscription_done = [], cancelled = [],
      next_token = 0, shutdown = False\<rparr>"

section \<open>Sending\<close>

definition send_envelope :: "'d protocol_envelope \<Rightarrow> 'd session \<Rightarrow> (ipc_error + unit) \<times> 'd session" where
  "send_envelope envelope s =
     (if \<not> writer_open s then (Inl IpcClosed, s)
      else if length (outbound s) \<ge> OUTBOUND_QUEUE then (Inl IpcBackpressure, s)
      else (Inr (), s\<lparr>outbound := outbound s @ [envelope]\<rparr>))"

definition send_response :: "request_id \<Rightarrow> 'd response \<Rightarrow> 'd session \<Rightarrow> (ipc_error + unit) \<times> 'd session" where
  "send_response request_id response s = send_envelope (envelope_new request_id (BodyResponse response)) s"

text \<open>\<^verbatim>\<open>send_event\<close>: with a cancelled token nothing is sent (the \<^verbatim>\<open>select!\<close> is biased); a failed send is \<open>False\<close>.\<close>

definition send_event :: "'d server_event \<Rightarrow> nat option \<Rightarrow> 'd session \<Rightarrow> bool \<times> 'd session" where
  "send_event event cancellation s =
     (let envelope = envelope_new 0 (Event event)
      in if (case cancellation of Some token \<Rightarrow> token \<in> set (cancelled s) | None \<Rightarrow> False) then (False, s)
         else (case send_envelope envelope s of (r, s') \<Rightarrow> (is_ok r, s')))"

definition cancel_token :: "nat \<Rightarrow> 'd session \<Rightarrow> 'd session" where
  "cancel_token token s = s\<lparr>cancelled := token # cancelled s\<rparr>"

section \<open>Terminal registry\<close>

definition terminal_capacity_available :: "terminal_registry \<Rightarrow> bytes \<Rightarrow> bool" where
  "terminal_capacity_available sessions container_id \<longleftrightarrow>
     length sessions < MAX_TERMINAL_SESSIONS_TOTAL
     \<and> length (filter (\<lambda>(_, t). session_container t = container_id) sessions)
       < MAX_TERMINAL_SESSIONS_PER_CONTAINER"

definition inactive_terminal :: protocol_error where
  "inactive_terminal = protocol_error_new PeNotFound (ascii ''terminal subscription is not active'') False"

definition find_terminal :: "terminal_registry \<Rightarrow> subscription_id \<Rightarrow> protocol_error + terminal_session" where
  "find_terminal sessions subscription_id = ok_or inactive_terminal (map_of sessions subscription_id)"

definition close_terminal :: "subscription_id \<Rightarrow> 'd session \<Rightarrow> 'd session" where
  "close_terminal subscription_id s =
     (case map_of (terminals s) subscription_id of
        None \<Rightarrow> s
      | Some t \<Rightarrow> s\<lparr>terminals := hm_remove subscription_id (terminals s),
                   closed_terminals := session_key t # closed_terminals s\<rparr>)"

definition close_all_terminals :: "'d session \<Rightarrow> 'd session" where
  "close_all_terminals s =
     s\<lparr>terminals := [], closed_terminals := map (session_key \<circ> snd) (terminals s) @ closed_terminals s\<rparr>"

datatype container_terminal_output = StdOut bytes | StdErr bytes | StdIn bytes | Console bytes

fun terminal_output_bytes :: "container_terminal_output \<Rightarrow> bytes" where
  "terminal_output_bytes (StdOut b) = b"
| "terminal_output_bytes (StdErr b) = b"
| "terminal_output_bytes (StdIn b) = b"
| "terminal_output_bytes (Console b) = b"

section \<open>Requests\<close>

text \<open>What the rest of the daemon answers.\<close>

record 'd daemon =
  status_now :: daemon_status
  mount_status_now :: mount_status
  set_mount :: "mount_action \<Rightarrow> bytes + mount_status"
  lookup_resource :: "docker_resource_ref \<Rightarrow> bytes + resource_fuse_path"
  lookup_descriptor :: "resource_path \<Rightarrow> bytes + protocol_provider_descriptor"
  run_docker :: "'d \<Rightarrow> protocol_error + 'd"
  terminal_write :: "terminal_session \<Rightarrow> bytes \<Rightarrow> container_terminal_error + unit"
  terminal_resize :: "terminal_session \<Rightarrow> u16 \<Rightarrow> u16 \<Rightarrow> container_terminal_error + unit"
  show_docker_error :: "docker_error \<Rightarrow> bytes"

definition dispatch_terminal :: "(terminal_session \<Rightarrow> container_terminal_error + unit) \<Rightarrow>
    subscription_id \<Rightarrow> terminal_registry \<Rightarrow> protocol_error + 'd response" where
  "dispatch_terminal operation subscription_id sessions =
     (case find_terminal sessions subscription_id of
        Inl e \<Rightarrow> Inl e
      | Inr t \<Rightarrow> (case operation t of Inl e \<Rightarrow> Inl (terminal_protocol_error e) | Inr _ \<Rightarrow> Inr Acknowledged))"

fun dispatch_result :: "'d daemon \<Rightarrow> 'd request \<Rightarrow> 'd session \<Rightarrow> (protocol_error + 'd response) \<times> 'd session" where
  "dispatch_result d GetDaemonStatus s = (Inr (RespDaemonStatus (status_now d)), s)"
| "dispatch_result d GetMountStatus s = (Inr (RespMountStatus (mount_status_now d)), s)"
| "dispatch_result d (SetMountState action) s =
     (case set_mount d action of
        Inl message \<Rightarrow> Inl (protocol_error_new PeInternal message False)
      | Inr status \<Rightarrow> Inr (RespMountStatus status), s)"
| "dispatch_result d (GetResourceFusePath resource) s =
     (case lookup_resource d resource of
        Inl message \<Rightarrow> Inl (map_resource_error message) | Inr path \<Rightarrow> Inr (RespResourceFusePath path), s)"
| "dispatch_result d (GetProviderDescriptor path) s =
     (case lookup_descriptor d path of
        Inl message \<Rightarrow> Inl (map_resource_error message) | Inr x \<Rightarrow> Inr (RespProviderDescriptor x), s)"
| "dispatch_result d (PerformResourceOperation operation) s = (Inr Acknowledged, s)"
| "dispatch_result d (DockerRequest request) s =
     (case run_docker d request of Inl e \<Rightarrow> Inl e | Inr x \<Rightarrow> Inr (RespDocker x), s)"
| "dispatch_result d (ContainerTerminalInput subscription_id bytes) s =
     (if length bytes > MAX_TERMINAL_INPUT_BYTES
      then Inl (protocol_error_new PeInvalidRequest
             (ascii ''terminal input exceeds the 64 KiB request limit'') False)
      else dispatch_terminal (\<lambda>t. terminal_write d t bytes) subscription_id (terminals s), s)"
| "dispatch_result d (ContainerTerminalResize subscription_id rows cols) s =
     (case validate_terminal_size rows cols of
        Inl e \<Rightarrow> Inl e
      | Inr _ \<Rightarrow> dispatch_terminal (\<lambda>t. terminal_resize d t rows cols) subscription_id (terminals s), s)"
| "dispatch_result d (ContainerTerminalClose subscription_id) s =
     (case map_of (terminals s) subscription_id of
        None \<Rightarrow> (Inl inactive_terminal, s)
      | Some t \<Rightarrow> (Inr Acknowledged, close_terminal subscription_id s))"

definition dispatch_request :: "'d daemon \<Rightarrow> 'd request \<Rightarrow> 'd session \<Rightarrow> 'd response \<times> 'd session" where
  "dispatch_request d request s =
     (case dispatch_result d request s of
        (Inl e, s') \<Rightarrow> (RespError e, s')
      | (Inr response, s') \<Rightarrow> (response, s'))"

text \<open>The answer of a request task whose token was cancelled first.\<close>

definition cancelled_response :: "'d response" where
  "cancelled_response = RespError (protocol_error_new PeCancelled (ascii ''request cancelled'') True)"

definition finish_request :: "request_id \<Rightarrow> 'd response \<Rightarrow> 'd session \<Rightarrow> 'd session" where
  "finish_request request_id response s =
     (let s1 = snd (send_response request_id response s)
      in s1\<lparr>request_done := request_done s1 @ [request_id]\<rparr>)"

section \<open>Handlers of the connection loop\<close>

datatype session_exit = ExitIpc ipc_error | ExitUnexpected

abbreviation exit_on_error :: "('d session \<Rightarrow> (ipc_error + unit) \<times> 'd session) \<Rightarrow>
    'd session \<Rightarrow> (session_exit + unit) \<times> 'd session" where
  "exit_on_error send s \<equiv> (case send s of (r, s') \<Rightarrow> (map_sum ExitIpc id r, s'))"

definition handle_request :: "request_id \<Rightarrow> 'd request \<Rightarrow> 'd session \<Rightarrow> (session_exit + unit) \<times> 'd session" where
  "handle_request request_id request s =
     (if request_id = 0 \<or> hm_contains request_id (requests s) \<or> length (requests s) \<ge> MAX_CLIENT_REQUESTS then
        (let error =
           (if length (requests s) \<ge> MAX_CLIENT_REQUESTS
            then protocol_error_new PeResourceBusy (ascii ''per-client request limit reached'') True
            else protocol_error_new PeInvalidRequest
                   (ascii ''request ID must be nonzero and unique while active'') False)
         in exit_on_error (send_response request_id (RespError error)) s)
      else
        let token = next_token s
        in (Inr (), s\<lparr>next_token := Suc token,
              requests := hm_insert request_id token (requests s),
              request_tasks := request_tasks s @
                [\<lparr>task_id = request_id, task_token = token, task_request = request\<rparr>]\<rparr>))"

definition handle_cancel :: "request_id \<Rightarrow> 'd session \<Rightarrow> 'd session" where
  "handle_cancel request_id s =
     (case map_of (requests s) request_id of Some token \<Rightarrow> cancel_token token s | None \<Rightarrow> s)"

definition succ_subscription_id :: "subscription_id \<Rightarrow> subscription_id" where
  "succ_subscription_id n = max (n + 1) 1"

text \<open>
  \<^verbatim>\<open>while subscriptions.contains_key(&next) { ... }\<close> with fuel; one more round than there are keys is
  always enough.
\<close>

fun free_subscription_id :: "nat \<Rightarrow> (subscription_id \<times> 'c) list \<Rightarrow> subscription_id \<Rightarrow> subscription_id option" where
  "free_subscription_id 0 m n = None"
| "free_subscription_id (Suc fuel) m n =
     (if hm_contains n m then free_subscription_id fuel m (succ_subscription_id n) else Some n)"

definition handle_subscribe ::
    "request_id \<Rightarrow> 'd subscription_request \<Rightarrow> 'd session \<Rightarrow> (session_exit + unit) \<times> 'd session" where
  "handle_subscribe request_id subscription s =
     (case subscription_task_cost subscription of
        Inl error \<Rightarrow> exit_on_error (send_response request_id (RespError error)) s
      | Inr cost \<Rightarrow>
          if length (subscriptions s) \<ge> MAX_CLIENT_SUBSCRIPTIONS
             \<or> subscription_tasks s + cost > MAX_CLIENT_STREAM_TASKS
          then exit_on_error (send_response request_id (RespError
                 (protocol_error_new PeResourceBusy (ascii ''per-client subscription limit reached'') True))) s
          else case free_subscription_id (Suc (length (subscriptions s))) (subscriptions s)
                      (next_subscription_id s) of
                 None \<Rightarrow> (Inr (), s)
               | Some sid \<Rightarrow>
                   let token = next_token s;
                       s1 = s\<lparr>next_subscription_id := succ_subscription_id sid,
                              next_token := Suc token,
                              subscriptions := hm_insert sid \<lparr>control_token = token, task_cost = cost\<rparr>
                                (subscriptions s),
                              subscription_tasks := subscription_tasks s + cost\<rparr>
                   in case send_envelope (envelope_new request_id (Subscribed sid)) s1 of
                        (Inl e, s2) \<Rightarrow> (Inl (ExitIpc e), s2)
                      | (Inr _, s2) \<Rightarrow>
                          (Inr (), s2\<lparr>subscription_runs := subscription_runs s2 @
                             [\<lparr>run_id = sid, run_token = token, run_request = subscription, run_phase = RunStart\<rparr>]\<rparr>))"

definition forget_subscription :: "subscription_id \<Rightarrow> 'd session \<Rightarrow> 'd session" where
  "forget_subscription sid s =
     (case map_of (subscriptions s) sid of
        None \<Rightarrow> s
      | Some control \<Rightarrow>
          s\<lparr>subscriptions := hm_remove sid (subscriptions s),
            subscription_tasks := subscription_tasks s - task_cost control\<rparr>)"

definition handle_unsubscribe ::
    "request_id \<Rightarrow> subscription_id \<Rightarrow> 'd session \<Rightarrow> (session_exit + unit) \<times> 'd session" where
  "handle_unsubscribe request_id sid s =
     (let s1 = (case map_of (subscriptions s) sid of
                  None \<Rightarrow> s
                | Some control \<Rightarrow> cancel_token (control_token control) (forget_subscription sid s))
      in exit_on_error (send_response request_id Acknowledged) (close_terminal sid s1))"

definition handle_envelope :: "'d protocol_envelope \<Rightarrow> 'd session \<Rightarrow> (session_exit + unit) \<times> 'd session" where
  "handle_envelope envelope s =
     (case envelope_body envelope of
        BodyRequest request \<Rightarrow> handle_request (envelope_request_id envelope) request s
      | CancelRequest request_id \<Rightarrow> (Inr (), handle_cancel request_id s)
      | Subscribe subscription \<Rightarrow> handle_subscribe (envelope_request_id envelope) subscription s
      | Unsubscribe sid \<Rightarrow> handle_unsubscribe (envelope_request_id envelope) sid s
      | Ping \<Rightarrow> exit_on_error (send_envelope (envelope_new (envelope_request_id envelope) Pong)) s
      | _ \<Rightarrow> (Inl ExitUnexpected, s))"

text \<open>What follows the loop: every token is cancelled, every terminal closed, the queue's sender dropped.\<close>

definition session_cleanup :: "'d session \<Rightarrow> 'd session" where
  "session_cleanup s =
     close_all_terminals
       (s\<lparr>cancelled := map snd (requests s) @ map (control_token \<circ> snd) (subscriptions s) @ cancelled s\<rparr>)"

section \<open>Subscription tasks\<close>

text \<open>
  A subscription task is a loop around a \<^verbatim>\<open>select!\<close> over its cancellation token and one or more
  streams. Its next input is a \<open>stream_item\<close>; a step gives the phase it continues in or the reason it
  ends with, and \<open>None\<close> where the input cannot occur in that phase.
\<close>

datatype daemon_event =
  DeResource resource_kind "docker_resource_ref option" resource_change
| DeMount mount_status
| DeStatus daemon_status

fun daemon_event_for :: "subscription_id \<Rightarrow> 'd subscription_request \<Rightarrow> daemon_event \<Rightarrow> 'd server_event option" where
  "daemon_event_for sid SubDaemonStatus (DeStatus status) = Some (EvDaemonStatus sid status)"
| "daemon_event_for sid SubMountStatus (DeMount status) = Some (EvMountStatus sid status)"
| "daemon_event_for sid (SubResourceChanges kinds) (DeResource kind resource change) =
     (if kind \<in> set kinds then Some (EvResourceChanged sid kind resource change) else None)"
| "daemon_event_for sid _ _ = None"

datatype 'd stream_item =
  ItemStart
| ItemCancelled
| ItemDaemon daemon_event | ItemLagged | ItemClosed
| ItemMember bytes 'd | ItemMemberEnd bytes | ItemMemberError bytes docker_error | ItemMembersDone
| ItemPull 'd | ItemPullError docker_error | ItemPullEnd
| ItemConnected terminal_session "container_terminal_error option" "container_terminal_error option"
| ItemConnectFailed container_terminal_error
| ItemOutput container_terminal_output | ItemOutputError container_terminal_error | ItemOutputEnd "int option"

datatype run_result = RunContinue run_phase | RunEnd subscription_end_reason

text \<open>Send an event under the task's token; a task that cannot send ends as unsubscribed.\<close>

definition send_or_end :: "nat \<Rightarrow> 'd server_event \<Rightarrow> run_phase \<Rightarrow> 'd session \<Rightarrow> run_result \<times> 'd session" where
  "send_or_end token event phase s =
     (case send_event event (Some token) s of
        (True, s') \<Rightarrow> (RunContinue phase, s') | (False, s') \<Rightarrow> (RunEnd Unsubscribed, s'))"

fun run_daemon_subscription :: "subscription_id \<Rightarrow> nat \<Rightarrow> 'd subscription_request \<Rightarrow> 'd stream_item \<Rightarrow>
    'd session \<Rightarrow> (run_result \<times> 'd session) option" where
  "run_daemon_subscription sid token subscription ItemLagged s = Some (RunContinue RunStreaming, s)"
| "run_daemon_subscription sid token subscription ItemClosed s = Some (RunEnd ServerShutdown, s)"
| "run_daemon_subscription sid token subscription (ItemDaemon event) s =
     Some (case daemon_event_for sid subscription event of
             None \<Rightarrow> (RunContinue RunStreaming, s)
           | Some e \<Rightarrow> send_or_end token e RunStreaming s)"
| "run_daemon_subscription sid token subscription _ s = None"

text \<open>
  \<^verbatim>\<open>run_stats_subscription\<close> and \<^verbatim>\<open>run_logs_subscription\<close>: one stream per container under
  \<^verbatim>\<open>wait_for_members\<close>; they differ in the event they wrap an item in.
\<close>

fun wait_for_members :: "'d daemon \<Rightarrow> nat \<Rightarrow> (bytes \<Rightarrow> 'd \<Rightarrow> 'd server_event) \<Rightarrow> bytes list \<Rightarrow>
    'd stream_item \<Rightarrow> 'd session \<Rightarrow> (run_result \<times> 'd session) option" where
  "wait_for_members d token event members (ItemMember container_id item) s =
     (if container_id \<notin> set members then None
      else Some (case send_event (event container_id item) (Some token) s of
                   (True, s') \<Rightarrow> (RunContinue (RunMembers members), s')
                 | (False, s') \<Rightarrow> (RunContinue (RunMembers (remove1 container_id members)), cancel_token token s')))"
| "wait_for_members d token event members (ItemMemberEnd container_id) s =
     (if container_id \<notin> set members then None
      else Some (RunContinue (RunMembers (remove1 container_id members)), s))"
| "wait_for_members d token event members (ItemMemberError container_id error) s =
     (if container_id \<notin> set members then None
      else Some (RunEnd (EndError (docker_protocol_error (show_docker_error d) error)), cancel_token token s))"
| "wait_for_members d token event members ItemMembersDone s =
     (if members = [] then Some (RunEnd Completed, s) else None)"
| "wait_for_members d token event members _ s = None"

fun run_image_pull_subscription :: "'d daemon \<Rightarrow> subscription_id \<Rightarrow> nat \<Rightarrow> 'd stream_item \<Rightarrow>
    'd session \<Rightarrow> (run_result \<times> 'd session) option" where
  "run_image_pull_subscription d sid token (ItemPull progress) s =
     Some (send_or_end token (EvImagePullProgress sid progress) RunStreaming s)"
| "run_image_pull_subscription d sid token (ItemPullError error) s =
     Some (RunEnd (EndError (docker_protocol_error (show_docker_error d) error)), s)"
| "run_image_pull_subscription d sid token ItemPullEnd s = Some (RunEnd Completed, s)"
| "run_image_pull_subscription d sid token _ s = None"

definition terminal_failed :: "subscription_id \<Rightarrow> nat \<Rightarrow> bytes \<Rightarrow> 'd session \<Rightarrow> 'd session" where
  "terminal_failed sid token reason s =
     snd (send_event (EvTerminalState sid (TerminalFailed reason)) (Some token) s)"

definition too_many_terminals :: bytes where
  "too_many_terminals = ascii ''Too many terminal sessions are already open.''"

definition close_session :: "terminal_session \<Rightarrow> 'd session \<Rightarrow> 'd session" where
  "close_session t s = s\<lparr>closed_terminals := session_key t # closed_terminals s\<rparr>"

fun run_terminal_subscription :: "subscription_id \<Rightarrow> nat \<Rightarrow> bytes \<Rightarrow> run_phase \<Rightarrow> 'd stream_item \<Rightarrow>
    'd session \<Rightarrow> (run_result \<times> 'd session) option" where
  "run_terminal_subscription sid token container_id RunStart ItemStart s =
     Some (case send_event (EvTerminalState sid Connecting) (Some token) s of
             (False, s') \<Rightarrow> (RunEnd Unsubscribed, s')
           | (True, s') \<Rightarrow>
               if terminal_capacity_available (terminals s') container_id then (RunContinue RunConnecting, s')
               else (RunEnd (EndError (protocol_error_new PeConflict too_many_terminals False)),
                     terminal_failed sid token too_many_terminals s'))"
| "run_terminal_subscription sid token container_id RunConnecting (ItemConnectFailed error) s =
     Some (RunEnd (EndError (terminal_protocol_error error)),
           terminal_failed sid token (terminal_error_text error) s)"
| "run_terminal_subscription sid token container_id RunConnecting (ItemConnected t resize output) s =
     (if session_container t \<noteq> container_id then None
      else Some (case (resize, output) of
        (Some error, _) \<Rightarrow>
          (RunEnd (EndError (terminal_protocol_error error)),
           terminal_failed sid token (terminal_error_text error) (close_session t s))
      | (None, Some error) \<Rightarrow> (RunEnd (EndError (terminal_protocol_error error)), close_session t s)
      | (None, None) \<Rightarrow>
          send_or_end token (EvTerminalState sid (Running (session_shell t))) (RunTerminal t)
            (s\<lparr>terminals := hm_insert sid t (terminals s)\<rparr>)))"
| "run_terminal_subscription sid token container_id (RunTerminal t) (ItemOutput output) s =
     Some (send_or_end token (EvTerminalOutput sid (terminal_output_bytes output)) (RunTerminal t) s)"
| "run_terminal_subscription sid token container_id (RunTerminal t) (ItemOutputError error) s =
     Some (RunEnd (EndError (terminal_protocol_error error)),
           terminal_failed sid token (terminal_error_text error) s)"
| "run_terminal_subscription sid token container_id (RunTerminal t) (ItemOutputEnd exit_code) s =
     Some (RunEnd Completed,
           snd (send_event (EvTerminalState sid (Exited exit_code)) (Some token) s))"
| "run_terminal_subscription sid token container_id _ _ s = None"

text \<open>
  The \<^verbatim>\<open>select!\<close> branch for the token: taken in every loop once the token is cancelled. While a
  terminal is being connected the cancellation reaches \<^verbatim>\<open>connect\<close> instead, which then fails.
\<close>

definition run_cancelled :: "nat \<Rightarrow> run_phase \<Rightarrow> 'd session \<Rightarrow> (run_result \<times> 'd session) option" where
  "run_cancelled token phase s =
     (if token \<in> set (cancelled s) \<and> phase \<noteq> RunStart \<and> phase \<noteq> RunConnecting
      then Some (RunEnd Unsubscribed, s) else None)"

definition run_subscription :: "'d daemon \<Rightarrow> 'd subscription_run \<Rightarrow> 'd stream_item \<Rightarrow>
    'd session \<Rightarrow> (run_result \<times> 'd session) option" where
  "run_subscription d r item s =
     (let sid = run_id r; token = run_token r; phase = run_phase r
      in case run_request r of
           SubContainerStats container_ids \<Rightarrow>
             (case phase of
                RunStart \<Rightarrow> if item = ItemStart then Some (RunContinue (RunMembers container_ids), s) else None
              | RunMembers members \<Rightarrow>
                  if item = ItemCancelled then run_cancelled token phase s
                  else wait_for_members d token (EvContainerStats sid) members item s
              | _ \<Rightarrow> None)
         | SubContainerLogs container_ids options \<Rightarrow>
             (case phase of
                RunStart \<Rightarrow> if item = ItemStart then Some (RunContinue (RunMembers container_ids), s) else None
              | RunMembers members \<Rightarrow>
                  if item = ItemCancelled then run_cancelled token phase s
                  else wait_for_members d token (EvContainerLog sid) members item s
              | _ \<Rightarrow> None)
         | SubImagePull options \<Rightarrow>
             (case phase of
                RunStart \<Rightarrow> if item = ItemStart then Some (RunContinue RunStreaming, s) else None
              | RunStreaming \<Rightarrow>
                  if item = ItemCancelled then run_cancelled token phase s
                  else run_image_pull_subscription d sid token item s
              | _ \<Rightarrow> None)
         | SubImagePullAuthenticated request \<Rightarrow>
             (case phase of
                RunStart \<Rightarrow> if item = ItemStart then Some (RunContinue RunStreaming, s) else None
              | RunStreaming \<Rightarrow>
                  if item = ItemCancelled then run_cancelled token phase s
                  else run_image_pull_subscription d sid token item s
              | _ \<Rightarrow> None)
         | SubContainerTerminal container_id rows cols shell user workdir \<Rightarrow>
             if item = ItemCancelled then run_cancelled token phase s
             else run_terminal_subscription sid token container_id phase item s
         | _ \<Rightarrow>
             (case phase of
                RunStart \<Rightarrow> if item = ItemStart then Some (RunContinue RunStreaming, s) else None
              | RunStreaming \<Rightarrow>
                  if item = ItemCancelled then run_cancelled token phase s
                  else run_daemon_subscription sid token (run_request r) item s
              | _ \<Rightarrow> None))"

text \<open>The end of \<^verbatim>\<open>spawn_subscription\<close>: the terminal is closed, the client told, the loop notified.\<close>

definition finish_subscription :: "subscription_id \<Rightarrow> subscription_end_reason \<Rightarrow> 'd session \<Rightarrow> 'd session" where
  "finish_subscription sid reason0 s =
     (let reason = (if shutdown s then ServerShutdown else reason0);
          s1 = snd (send_event (EvSubscriptionEnded sid reason) None (close_terminal sid s))
      in s1\<lparr>subscription_done := subscription_done s1 @ [sid]\<rparr>)"

section \<open>Frames on the socket\<close>

text \<open>
  \<^verbatim>\<open>read_envelope\<close> is a future: polled with too few bytes it stays pending and keeps what it has taken
  from the socket; \<open>wire\<close> holds both. In the loop's \<^verbatim>\<open>select!\<close> the future is dropped, with the bytes
  it has taken, whenever another branch completes first; the next iteration starts a new one.
\<close>

record wire =
  read_taken :: bytes
  read_socket :: bytes

datatype 'd read_poll = PollPending | PollReady "ipc_error + 'd protocol_envelope"

definition poll_read_envelope :: "'d cbor_de \<Rightarrow> u32 \<Rightarrow> wire \<Rightarrow> 'd read_poll \<times> wire" where
  "poll_read_envelope de maximum w =
     (let all = read_taken w @ read_socket w
      in if length all < FRAME_HEADER_SIZE then (PollPending, \<lparr>read_taken = all, read_socket = []\<rparr>)
         else let len = from_be_bytes (take FRAME_HEADER_SIZE all)
              in case validate_frame_length len maximum of
                   Inl e \<Rightarrow> (PollReady (Inl (IpcFrame e)),
                             \<lparr>read_taken = [], read_socket = drop FRAME_HEADER_SIZE all\<rparr>)
                 | Inr _ \<Rightarrow>
                     if length all < FRAME_HEADER_SIZE + unat len
                     then (PollPending, \<lparr>read_taken = all, read_socket = []\<rparr>)
                     else (PollReady (map_sum IpcFrame id
                             (decode_payload de (take (unat len) (drop FRAME_HEADER_SIZE all)) len)),
                           \<lparr>read_taken = [], read_socket = drop (FRAME_HEADER_SIZE + unat len) all\<rparr>))"

definition write_envelope :: "'d cbor_ser \<Rightarrow> u32 \<Rightarrow> 'd protocol_envelope \<Rightarrow> bytes \<Rightarrow> (ipc_error + unit) \<times> bytes" where
  "write_envelope ser maximum envelope out =
     (case encode_frame_with_limit ser envelope maximum of
        Inl e \<Rightarrow> (Inl (IpcFrame e), out)
      | Inr frame \<Rightarrow> (Inr (), out @ frame))"

text \<open>The bytes of the socket arrive, or another branch of the \<^verbatim>\<open>select!\<close> completes.\<close>

datatype wire_event = Arrive bytes | OtherBranch

definition wire_bytes :: "wire \<Rightarrow> nat" where
  "wire_bytes w = length (read_taken w) + length (read_socket w)"

lemma poll_progress:
  "poll_read_envelope de maximum w = (PollReady (Inr e), w') \<Longrightarrow> wire_bytes w' < wire_bytes w"
  by (auto simp: poll_read_envelope_def wire_bytes_def Let_def FRAME_HEADER_SIZE_def
        split: if_splits sum.splits)

text \<open>Poll until the future is pending or fails: the envelopes read and the error, if any.\<close>

function read_ready :: "'d cbor_de \<Rightarrow> u32 \<Rightarrow> wire \<Rightarrow> 'd protocol_envelope list \<times> ipc_error option \<times> wire" where
  "read_ready de maximum w =
     (case poll_read_envelope de maximum w of
        (PollPending, w') \<Rightarrow> ([], None, w')
      | (PollReady (Inl e), w') \<Rightarrow> ([], Some e, w')
      | (PollReady (Inr envelope), w') \<Rightarrow>
          (case read_ready de maximum w' of (es, r, w'') \<Rightarrow> (envelope # es, r, w'')))"
  by pat_completeness auto
termination
  by (relation "measure (\<lambda>(de, maximum, w). wire_bytes w)") (auto intro: poll_progress [OF sym])

declare read_ready.simps [simp del]

fun read_events :: "'d cbor_de \<Rightarrow> u32 \<Rightarrow> wire_event list \<Rightarrow> wire \<Rightarrow> 'd protocol_envelope list \<times> ipc_error option" where
  "read_events de maximum [] w = ([], None)"
| "read_events de maximum (OtherBranch # evs) w = read_events de maximum evs (w\<lparr>read_taken := []\<rparr>)"
| "read_events de maximum (Arrive bs # evs) w =
     (case read_ready de maximum (w\<lparr>read_socket := read_socket w @ bs\<rparr>) of
        (es, Some e, w') \<Rightarrow> (es, Some e)
      | (es, None, w') \<Rightarrow> (case read_events de maximum evs w' of (fs, r) \<Rightarrow> (es @ fs, r)))"

end
