(* ===== verification/Ipc_Session.thy ===== *)
theory Ipc_Session
  imports Ipc_Model "HOL-Library.Multiset"
begin

text \<open>
  The connection of \<open>Ipc_Model\<close> as a labelled transition system: the loop handles a frame or a
  completion notice, a request task answers, a subscription task takes its next input, the writer
  drains the queue, in any order. The invariant bounds what a client can make the daemon hold; the
  labels account for every accepted request.
\<close>

section \<open>Free subscription identifiers\<close>

lemma unat_u64_less: "unat (n :: u64) < 2 ^ 64"
proof -
  have "unat n < 2 ^ LENGTH(64)" by (rule unsigned_less)
  then show ?thesis by simp
qed

lemma unat_succ_subscription_id:
  assumes "n \<noteq> 0"
  shows "unat (succ_subscription_id n) = (if unat n = 2 ^ 64 - 1 then 1 else unat n + 1)"
proof (cases "unat n = 2 ^ 64 - 1")
  case True
  then have "n = - 1" by (simp add: word_unat_eq_iff unsigned_minus_1_eq_mask mask_eq_exp_minus_1)
  then show ?thesis using True by (simp add: succ_subscription_id_def)
next
  case False
  moreover have "unat n < 2 ^ 64" by (rule unat_u64_less)
  ultimately have "unat (n + 1) = unat n + 1" by (simp add: unat_word_ariths)
  moreover have "max (n + 1) 1 = n + 1"
    using calculation assms by (auto simp: max_def word_le_nat_alt word_unat_eq_iff [of n 0])
  ultimately show ?thesis using False by (simp add: succ_subscription_id_def)
qed

lemma succ_subscription_id_nonzero [simp]: "succ_subscription_id n \<noteq> 0"
proof -
  have "1 \<le> succ_subscription_id n" by (simp add: succ_subscription_id_def)
  then show ?thesis by (auto simp: word_le_nat_alt)
qed

lemma unat_iterate_id:
  assumes "n \<noteq> 0"
  shows "((succ_subscription_id ^^ k) n \<noteq> 0) \<and>
    unat ((succ_subscription_id ^^ k) n) = 1 + (unat n - 1 + k) mod (2 ^ 64 - 1)"
proof (induction k)
  case 0
  have "0 < unat n" "unat n < 2 ^ 64" using assms unat_u64_less [of n] by (simp_all add: unat_gt_0)
  then show ?case using assms by simp
next
  case (Suc k)
  then show ?case
    using unat_succ_subscription_id [of "(succ_subscription_id ^^ k) n"]
    by (auto simp: mod_Suc)
qed

lemma add_mod_cancel:
  fixes a i j m :: nat
  assumes "(a + i) mod m = (a + j) mod m" "i < m" "j < m"
  shows "i = j"
proof -
  have le: "i = j" if "i \<le> j" "(a + i) mod m = (a + j) mod m" "j < m" for i j
  proof -
    have "m dvd (a + j) - (a + i)" using mod_eq_dvd_iff_nat [of "a + i" "a + j" m] that by simp
    then show ?thesis using that by (auto dest: dvd_imp_le)
  qed
  show ?thesis using le [of i j] le [of j i] assms by (cases "i \<le> j") simp_all
qed

lemma iterate_id_inj:
  assumes "n \<noteq> 0" "i < 2 ^ 64 - 1" "j < 2 ^ 64 - 1"
    and "(succ_subscription_id ^^ i) n = (succ_subscription_id ^^ j) n"
  shows "i = j"
proof -
  have "(unat n - 1 + i) mod (2 ^ 64 - 1) = (unat n - 1 + j) mod (2 ^ 64 - 1)"
    using unat_iterate_id [OF assms(1), of i] unat_iterate_id [OF assms(1), of j] assms(4) by simp
  then show ?thesis by (rule add_mod_cancel [OF _ assms(2, 3)])
qed

lemma free_subscription_id_None:
  "free_subscription_id fuel m n = None \<Longrightarrow> i < fuel \<Longrightarrow> hm_contains ((succ_subscription_id ^^ i) n) m"
proof (induction fuel arbitrary: n i)
  case (Suc fuel)
  then show ?case by (cases i) (auto split: if_splits simp: funpow_swap1)
qed simp

lemma free_subscription_id_Some:
  "free_subscription_id fuel m n = Some k \<Longrightarrow> n \<noteq> 0 \<Longrightarrow> \<not> hm_contains k m \<and> k \<noteq> 0"
  by (induction fuel arbitrary: n) (auto split: if_splits)

lemma free_subscription_id_enough:
  assumes "n \<noteq> 0" "length m < 2 ^ 64 - 2"
  shows "\<exists>k. free_subscription_id (Suc (length m)) m n = Some k"
proof (rule ccontr)
  assume "\<nexists>k. free_subscription_id (Suc (length m)) m n = Some k"
  then have none: "free_subscription_id (Suc (length m)) m n = None" by auto
  let ?f = "\<lambda>i. (succ_subscription_id ^^ i) n"
  have "inj_on ?f {..length m}"
    using iterate_id_inj [OF assms(1)] assms(2) by (auto intro!: inj_onI)
  moreover have "?f ` {..length m} \<subseteq> fst ` set m"
    using free_subscription_id_None [OF none] by (auto simp: hm_contains_def less_Suc_eq_le)
  ultimately have "Suc (length m) \<le> card (fst ` set m)"
    using card_inj_on_le [of ?f "{..length m}" "fst ` set m"] by simp
  also have "\<dots> \<le> length m"
    using card_image_le [of "set m" fst] card_length [of m] by simp
  finally show False by simp
qed

section \<open>The transition system\<close>

datatype 'd session_label = LAccept request_id | LAnswer request_id "'d response" | LQuiet

definition accepts :: "'d protocol_envelope \<Rightarrow> 'd session \<Rightarrow> bool" where
  "accepts envelope s =
     (case envelope_body envelope of
        BodyRequest _ \<Rightarrow> envelope_request_id envelope \<noteq> 0
          \<and> \<not> hm_contains (envelope_request_id envelope) (requests s)
          \<and> length (requests s) < MAX_CLIENT_REQUESTS
      | _ \<Rightarrow> False)"

definition request_finished :: "'d session \<Rightarrow> 'd session" where
  "request_finished s =
     (case request_done s of
        [] \<Rightarrow> s
      | request_id # rest \<Rightarrow> s\<lparr>request_done := rest, requests := hm_remove request_id (requests s)\<rparr>)"

definition subscription_finished :: "'d session \<Rightarrow> 'd session" where
  "subscription_finished s =
     (case subscription_done s of
        [] \<Rightarrow> s
      | sid # rest \<Rightarrow> (forget_subscription sid s)\<lparr>subscription_done := rest\<rparr>)"

definition answer_task :: "'d daemon \<Rightarrow> nat \<Rightarrow> bool \<Rightarrow> 'd session \<Rightarrow> 'd response \<times> 'd session" where
  "answer_task d i by_cancellation s =
     (let t = request_tasks s ! i;
          (response, s1) = (if by_cancellation then (cancelled_response, s) else dispatch_request d (task_request t) s)
      in (response, finish_request (task_id t) response
            (s1\<lparr>request_tasks := take i (request_tasks s) @ drop (Suc i) (request_tasks s)\<rparr>)))"

inductive session_step :: "'d daemon \<Rightarrow> 'd session \<Rightarrow> 'd session_label \<Rightarrow> 'd session \<Rightarrow> bool" for d where
  receive: "handle_envelope e s = (Inr (), s') \<Longrightarrow>
    session_step d s (if accepts e s then LAccept (envelope_request_id e) else LQuiet) s'"
| request_finished: "request_done s \<noteq> [] \<Longrightarrow> session_step d s LQuiet (request_finished s)"
| subscription_finished: "subscription_done s \<noteq> [] \<Longrightarrow> session_step d s LQuiet (subscription_finished s)"
| answer: "i < length (request_tasks s) \<Longrightarrow>
    (by_cancellation \<Longrightarrow> task_token (request_tasks s ! i) \<in> set (cancelled s)) \<Longrightarrow>
    answer_task d i by_cancellation s = (response, s') \<Longrightarrow>
    session_step d s (LAnswer (task_id (request_tasks s ! i)) response) s'"
| subscription_input: "i < length (subscription_runs s) \<Longrightarrow>
    run_subscription d (subscription_runs s ! i) item s = Some (RunContinue phase, s1) \<Longrightarrow>
    session_step d s LQuiet
      (s1\<lparr>subscription_runs := (subscription_runs s)[i := (subscription_runs s ! i)\<lparr>run_phase := phase\<rparr>]\<rparr>)"
| subscription_ends: "i < length (subscription_runs s) \<Longrightarrow>
    run_subscription d (subscription_runs s ! i) item s = Some (RunEnd reason, s1) \<Longrightarrow>
    session_step d s LQuiet
      (finish_subscription (run_id (subscription_runs s ! i)) reason
        (s1\<lparr>subscription_runs := take i (subscription_runs s) @ drop (Suc i) (subscription_runs s)\<rparr>))"
| written: "outbound s = e # rest \<Longrightarrow> session_step d s LQuiet (s\<lparr>outbound := rest\<rparr>)"
| writer_gone: "session_step d s LQuiet (s\<lparr>writer_open := False\<rparr>)"
| shutting_down: "session_step d s LQuiet (s\<lparr>shutdown := True\<rparr>)"

inductive session_trace :: "'d daemon \<Rightarrow> 'd session \<Rightarrow> 'd session_label list \<Rightarrow> 'd session \<Rightarrow> bool" for d where
  trace_start: "session_trace d s [] s"
| trace_step: "session_trace d s ls s' \<Longrightarrow> session_step d s' l s'' \<Longrightarrow> session_trace d s (ls @ [l]) s''"

section \<open>The invariant\<close>

definition requests_ok :: "'d session \<Rightarrow> bool" where
  "requests_ok s \<longleftrightarrow> distinct (map fst (requests s)) \<and> 0 \<notin> fst ` set (requests s)
     \<and> length (requests s) \<le> MAX_CLIENT_REQUESTS
     \<and> mset (map fst (requests s)) = mset (map task_id (request_tasks s)) + mset (request_done s)
     \<and> (\<forall>t \<in> set (request_tasks s). map_of (requests s) (task_id t) = Some (task_token t))"

definition subscriptions_ok :: "'d session \<Rightarrow> bool" where
  "subscriptions_ok s \<longleftrightarrow> distinct (map fst (subscriptions s)) \<and> 0 \<notin> fst ` set (subscriptions s)
     \<and> next_subscription_id s \<noteq> 0
     \<and> length (subscriptions s) \<le> MAX_CLIENT_SUBSCRIPTIONS
     \<and> subscription_tasks s = sum_list (map (task_cost \<circ> snd) (subscriptions s))
     \<and> subscription_tasks s \<le> MAX_CLIENT_STREAM_TASKS
     \<and> fst ` set (subscriptions s) \<subseteq> run_id ` set (subscription_runs s) \<union> set (subscription_done s)"

definition terminals_ok :: "'d session \<Rightarrow> bool" where
  "terminals_ok s \<longleftrightarrow> distinct (map fst (terminals s))
     \<and> fst ` set (terminals s) \<subseteq> run_id ` set (subscription_runs s)"

definition session_ok :: "'d session \<Rightarrow> bool" where
  "session_ok s \<longleftrightarrow> requests_ok s \<and> subscriptions_ok s \<and> terminals_ok s \<and> length (outbound s) \<le> OUTBOUND_QUEUE"

lemma session_new_ok: "session_ok session_new"
  by (simp add: session_ok_def requests_ok_def subscriptions_ok_def terminals_ok_def session_new_def)

section \<open>What the tasks may change\<close>

text \<open>
  \<open>quiet\<close> is the footprint of sending and cancelling: only the queue, the cancelled tokens and the
  record of closed terminals change, and the queue stays within its bound.
\<close>

definition quiet :: "'d session \<Rightarrow> 'd session \<Rightarrow> bool" where
  "quiet s t \<longleftrightarrow> requests t = requests s \<and> subscriptions t = subscriptions s
     \<and> subscription_tasks t = subscription_tasks s \<and> next_subscription_id t = next_subscription_id s
     \<and> terminals t = terminals s \<and> request_tasks t = request_tasks s
     \<and> subscription_runs t = subscription_runs s \<and> request_done t = request_done s
     \<and> subscription_done t = subscription_done s \<and> writer_open t = writer_open s
     \<and> next_token t = next_token s \<and> shutdown t = shutdown s
     \<and> (length (outbound s) \<le> OUTBOUND_QUEUE \<longrightarrow> length (outbound t) \<le> OUTBOUND_QUEUE)"

lemma quiet_refl [simp]: "quiet s s"
  by (simp add: quiet_def)

lemma quiet_trans: "quiet s t \<Longrightarrow> quiet t u \<Longrightarrow> quiet s u"
  by (simp add: quiet_def)

lemma quiet_send_envelope: "send_envelope e s = (r, t) \<Longrightarrow> quiet s t"
  by (auto simp: send_envelope_def quiet_def split: if_splits)

lemma quiet_send_response: "send_response i r s = (x, t) \<Longrightarrow> quiet s t"
  by (auto simp: send_response_def intro: quiet_send_envelope)

lemma quiet_send_event: "send_event e c s = (b, t) \<Longrightarrow> quiet s t"
  by (auto simp: send_event_def Let_def split: if_splits prod.splits intro: quiet_send_envelope)

lemma quiet_snd_event [simp]: "quiet s (snd (send_event e c s))"
  by (metis prod.collapse quiet_send_event)

lemma quiet_cancel [simp]: "quiet s (cancel_token k s)"
  by (simp add: quiet_def cancel_token_def)

lemma quiet_close_session [simp]: "quiet s (close_session t s)"
  by (simp add: quiet_def close_session_def)

lemma quiet_terminal_failed [simp]: "quiet s (terminal_failed sid token reason s)"
  by (simp add: terminal_failed_def)

lemma quiet_send_or_end: "send_or_end token e phase s = (r, t) \<Longrightarrow> quiet s t"
  by (auto simp: send_or_end_def split: prod.splits bool.splits intro: quiet_send_event)

lemma quiet_daemon_run: "run_daemon_subscription sid token sub item s = Some (r, t) \<Longrightarrow> quiet s t"
  by (cases item) (auto split: option.splits intro: quiet_send_or_end)

lemma quiet_members: "wait_for_members d token ev ms item s = Some (r, t) \<Longrightarrow> quiet s t"
  by (cases item)
     (auto split: if_splits prod.splits bool.splits intro: quiet_send_event
        intro: quiet_trans [OF quiet_send_event quiet_cancel])

lemma quiet_image_pull: "run_image_pull_subscription d sid token item s = Some (r, t) \<Longrightarrow> quiet s t"
  by (cases item) (auto intro: quiet_send_or_end)

lemma quiet_run_cancelled: "run_cancelled token phase s = Some (r, t) \<Longrightarrow> quiet s t"
  by (auto simp: run_cancelled_def split: if_splits)

text \<open>A subscription task is quiet, except that a terminal task registers its session once.\<close>

definition run_effect :: "subscription_id \<Rightarrow> 'd session \<Rightarrow> 'd session \<Rightarrow> bool" where
  "run_effect sid s t \<longleftrightarrow> quiet s t \<or> (\<exists>x. quiet (s\<lparr>terminals := hm_insert sid x (terminals s)\<rparr>) t)"

lemma effect_terminal:
  assumes "run_terminal_subscription sid token c phase item s = Some (r, t)"
  shows "run_effect sid s t"
  using assms
proof (cases "(sid, token, c, phase, item, s)" rule: run_terminal_subscription.cases)
  case 1
  then show ?thesis using assms
    by (auto simp: run_effect_def split: prod.splits bool.splits if_splits
          intro: quiet_send_event quiet_trans [OF quiet_send_event quiet_terminal_failed])
next
  case 2
  then show ?thesis using assms by (auto simp: run_effect_def)
next
  case 3
  then show ?thesis using assms
    by (auto simp: run_effect_def split: if_splits option.splits
          intro: quiet_send_or_end quiet_trans [OF quiet_close_session quiet_terminal_failed])
next
  case 4
  then show ?thesis using assms by (auto simp: run_effect_def intro: quiet_send_or_end)
qed (use assms in \<open>auto simp: run_effect_def\<close>)

lemma run_subscription_effect:
  assumes "run_subscription d r item s = Some (res, t)"
  shows "run_effect (run_id r) s t"
proof (cases "run_request r")
  case SubContainerTerminal
  then show ?thesis
    using assms
    by (auto simp: run_subscription_def Let_def split: if_splits
          dest: effect_terminal quiet_run_cancelled intro: run_effect_def [THEN iffD2])
qed (use assms in \<open>auto simp: run_subscription_def Let_def run_effect_def split: if_splits run_phase.splits
       dest: quiet_run_cancelled quiet_members quiet_image_pull quiet_daemon_run\<close>)

section \<open>Every step keeps the invariant\<close>

lemma session_ok_quiet: "session_ok s \<Longrightarrow> quiet s t \<Longrightarrow> session_ok t"
  by (simp add: session_ok_def requests_ok_def subscriptions_ok_def terminals_ok_def quiet_def)

lemma exit_on_error_ok:
  assumes "session_ok s" "\<And>r t. send s = (r, t) \<Longrightarrow> quiet s t" "exit_on_error send s = (x, s')"
  shows "session_ok s'"
proof (cases "send s")
  case (Pair r t)
  then show ?thesis using session_ok_quiet [OF assms(1) assms(2) [OF Pair]] assms(3) by simp
qed

lemma insert_request_ok:
  assumes "session_ok s" "i \<noteq> 0" "\<not> hm_contains i (requests s)" "length (requests s) < MAX_CLIENT_REQUESTS"
  shows "session_ok (s\<lparr>next_token := n, requests := hm_insert i k (requests s),
    request_tasks := request_tasks s @ [\<lparr>task_id = i, task_token = k, task_request = q\<rparr>]\<rparr>)"
proof -
  have fresh: "i \<notin> fst ` set (requests s)" using assms(3) by (simp add: hm_contains_def)
  have ok: "requests_ok s" "subscriptions_ok s" "terminals_ok s" "length (outbound s) \<le> OUTBOUND_QUEUE"
    using assms(1) by (simp_all add: session_ok_def)
  have keys: "mset (map fst (requests s)) = mset (map task_id (request_tasks s)) + mset (request_done s)"
    using ok(1) by (simp add: requests_ok_def)
  have "i \<notin> task_id ` set (request_tasks s)"
    using fresh arg_cong [OF keys, of set_mset] by auto
  then have "requests_ok (s\<lparr>next_token := n, requests := hm_insert i k (requests s),
    request_tasks := request_tasks s @ [\<lparr>task_id = i, task_token = k, task_request = q\<rparr>]\<rparr>)"
    using assms(2-) ok(1) fresh by (auto simp: requests_ok_def hm_insert_def hm_remove_fresh)
  then show ?thesis using ok by (simp add: session_ok_def subscriptions_ok_def terminals_ok_def)
qed

lemma handle_request_ok:
  assumes "session_ok s" "handle_request i q s = (Inr (), s')"
  shows "session_ok s'"
proof (cases "i = 0 \<or> hm_contains i (requests s) \<or> length (requests s) \<ge> MAX_CLIENT_REQUESTS")
  case True
  then show ?thesis using assms
    by (auto simp: handle_request_def Let_def split: prod.splits
          dest!: quiet_send_response intro: session_ok_quiet)
next
  case False
  then show ?thesis
    using assms(2) insert_request_ok [OF assms(1)] by (auto simp: handle_request_def Let_def)
qed

lemma close_terminal_ok: "session_ok s \<Longrightarrow> session_ok (close_terminal sid s)"
  by (auto simp: close_terminal_def session_ok_def requests_ok_def subscriptions_ok_def terminals_ok_def
        distinct_hm_remove split: option.splits)

lemma forget_subscription_ok: "session_ok s \<Longrightarrow> session_ok (forget_subscription sid s)"
proof (cases "map_of (subscriptions s) sid")
  case (Some c)
  assume ok: "session_ok s"
  then have sum: "sum_list (map (task_cost \<circ> snd) (subscriptions s)) =
      task_cost c + sum_list (map (task_cost \<circ> snd) (hm_remove sid (subscriptions s)))"
    using sum_list_hm_remove [OF _ Some, of task_cost] by (simp add: session_ok_def subscriptions_ok_def)
  show ?thesis
    using ok Some sum length_hm_remove_le [of sid "subscriptions s"]
    by (auto simp: forget_subscription_def session_ok_def requests_ok_def subscriptions_ok_def terminals_ok_def
          distinct_hm_remove)
qed (simp add: forget_subscription_def)

lemma handle_unsubscribe_ok:
  assumes "session_ok s" "handle_unsubscribe i sid s = (Inr (), s')"
  shows "session_ok s'"
proof -
  let ?s1 = "case map_of (subscriptions s) sid of None \<Rightarrow> s
    | Some control \<Rightarrow> cancel_token (control_token control) (forget_subscription sid s)"
  have "session_ok ?s1"
    using assms(1) by (auto split: option.split intro: session_ok_quiet [OF forget_subscription_ok quiet_cancel])
  then have "session_ok (close_terminal sid ?s1)" by (rule close_terminal_ok)
  then show ?thesis
    using assms(2) by (auto simp: handle_unsubscribe_def Let_def split: prod.splits
        dest!: quiet_send_response intro: session_ok_quiet)
qed

lemma insert_subscription_ok:
  assumes "session_ok s" "sid \<noteq> 0" "\<not> hm_contains sid (subscriptions s)"
    and "length (subscriptions s) < MAX_CLIENT_SUBSCRIPTIONS" "subscription_tasks s + cost \<le> MAX_CLIENT_STREAM_TASKS"
    and "length q \<le> OUTBOUND_QUEUE"
  shows "session_ok (s\<lparr>next_subscription_id := succ_subscription_id sid, next_token := n,
    subscriptions := hm_insert sid \<lparr>control_token = k, task_cost = cost\<rparr> (subscriptions s),
    subscription_tasks := subscription_tasks s + cost, outbound := q,
    subscription_runs := subscription_runs s @
      [\<lparr>run_id = sid, run_token = k, run_request = sub, run_phase = ph\<rparr>]\<rparr>)"
proof -
  have fresh: "sid \<notin> fst ` set (subscriptions s)" using assms(3) by (simp add: hm_contains_def)
  then have "hm_remove sid (subscriptions s) = subscriptions s" by (rule hm_remove_fresh)
  then show ?thesis using assms fresh
    by (auto simp: session_ok_def requests_ok_def subscriptions_ok_def terminals_ok_def hm_insert_def)
qed

lemma handle_subscribe_ok:
  assumes "session_ok s" "handle_subscribe i sub s = (Inr (), s')"
  shows "session_ok s'"
proof (cases "subscription_task_cost sub")
  case (Inl e)
  then show ?thesis using assms
    by (auto simp: handle_subscribe_def split: prod.splits dest!: quiet_send_response intro: session_ok_quiet)
next
  case (Inr cost)
  show ?thesis
  proof (cases "length (subscriptions s) \<ge> MAX_CLIENT_SUBSCRIPTIONS \<or> subscription_tasks s + cost > MAX_CLIENT_STREAM_TASKS")
    case True
    then show ?thesis using assms Inr
      by (auto simp: handle_subscribe_def split: prod.splits dest!: quiet_send_response intro: session_ok_quiet)
  next
    case False
    have next_id: "next_subscription_id s \<noteq> 0" using assms(1) by (simp add: session_ok_def subscriptions_ok_def)
    show ?thesis
    proof (cases "free_subscription_id (Suc (length (subscriptions s))) (subscriptions s) (next_subscription_id s)")
      case None
      then show ?thesis using assms Inr False by (auto simp: handle_subscribe_def)
    next
      case (Some sid)
      note sid = free_subscription_id_Some [OF Some next_id]
      then show ?thesis
        using assms Inr False Some insert_subscription_ok [OF assms(1), of sid cost]
        by (auto simp: handle_subscribe_def Let_def send_envelope_def Suc_le_eq not_le split: if_splits)
    qed
  qed
qed

lemma handle_envelope_ok:
  assumes "session_ok s" "handle_envelope e s = (Inr (), s')"
  shows "session_ok s'"
proof (cases "envelope_body e")
  case (BodyRequest q)
  then show ?thesis using assms handle_request_ok [of s] by (simp add: handle_envelope_def)
next
  case (Subscribe sub)
  then show ?thesis using assms handle_subscribe_ok [of s] by (simp add: handle_envelope_def)
next
  case (Unsubscribe sid)
  then show ?thesis using assms handle_unsubscribe_ok [of s] by (simp add: handle_envelope_def)
next
  case (CancelRequest r)
  then show ?thesis
    using assms by (auto simp: handle_envelope_def handle_cancel_def split: option.splits intro: session_ok_quiet)
next
  case Ping
  then show ?thesis using assms
    by (auto simp: handle_envelope_def split: prod.splits dest!: quiet_send_envelope intro: session_ok_quiet)
qed (use assms in \<open>simp_all add: handle_envelope_def\<close>)

lemma map_fst_hm_remove: "map fst (hm_remove k m) = removeAll k (map fst m)"
  by (induction m) (auto simp: hm_remove_def)

lemma request_finished_ok:
  assumes "session_ok s" "request_done s \<noteq> []"
  shows "session_ok (request_finished s)"
proof -
  obtain i rest where queue: "request_done s = i # rest" using assms(2) by (cases "request_done s") auto
  have keys: "mset (map fst (requests s)) = mset (map task_id (request_tasks s)) + mset (i # rest)"
    and dist: "distinct (map fst (requests s))"
    using assms(1) queue by (simp_all add: session_ok_def requests_ok_def)
  have "mset (map fst (hm_remove i (requests s))) = mset (map fst (requests s)) - {#i#}"
    using distinct_remove1_removeAll [OF dist, of i, symmetric] by (simp add: map_fst_hm_remove)
  then have left: "mset (map fst (hm_remove i (requests s))) = mset (map task_id (request_tasks s)) + mset rest"
    using keys by simp
  have "i \<notin> fst ` set (hm_remove i (requests s))" by auto
  then have "i \<notin> task_id ` set (request_tasks s)"
    using arg_cong [OF left, of set_mset] by auto
  then show ?thesis
    using assms(1) queue left distinct_hm_remove [OF dist] length_hm_remove_le [of i "requests s"]
    by (auto simp: session_ok_def requests_ok_def subscriptions_ok_def terminals_ok_def request_finished_def)
qed

lemma subscription_finished_ok:
  assumes "session_ok s" "subscription_done s \<noteq> []"
  shows "session_ok (subscription_finished s)"
proof -
  obtain sid rest where queue: "subscription_done s = sid # rest" using assms(2) by (cases "subscription_done s") auto
  have ok: "session_ok (forget_subscription sid s)" by (rule forget_subscription_ok [OF assms(1)])
  have keys: "sid \<notin> fst ` set (subscriptions (forget_subscription sid s))"
    by (auto simp: forget_subscription_def map_of_eq_None_iff split: option.splits)
  have "subscription_done (forget_subscription sid s) = sid # rest"
    using queue by (simp add: forget_subscription_def split: option.split)
  then show ?thesis using ok keys queue
    by (auto simp: subscription_finished_def session_ok_def requests_ok_def subscriptions_ok_def terminals_ok_def)
qed

text \<open>Removing the \<open>i\<close>-th task or run.\<close>

abbreviation without :: "nat \<Rightarrow> 'a list \<Rightarrow> 'a list" where
  "without i xs \<equiv> take i xs @ drop (Suc i) xs"

lemma mset_without: "i < length xs \<Longrightarrow> mset xs = add_mset (xs ! i) (mset (without i xs))"
  by (metis id_take_nth_drop mset_append mset.simps(2) union_mset_add_mset_right)

lemma set_without: "set (without i xs) \<subseteq> set xs"
  by (auto dest: in_set_takeD in_set_dropD)

lemma set_without_nth: "i < length xs \<Longrightarrow> set xs = insert (xs ! i) (set (without i xs))"
  using arg_cong [OF mset_without, of i xs set_mset] by simp

lemma dispatch_effect:
  assumes "dispatch_request d q s = (r, s')"
  shows "s' = s \<or> (\<exists>sid. s' = close_terminal sid s)"
proof (cases q)
  case (ContainerTerminalClose sid)
  then show ?thesis using assms by (auto simp: dispatch_request_def split: option.splits sum.splits prod.splits)
qed (use assms in \<open>auto simp: dispatch_request_def split: sum.splits if_splits\<close>)

lemma close_terminal_fields [simp]:
  "requests (close_terminal sid s) = requests s" "request_tasks (close_terminal sid s) = request_tasks s"
  "request_done (close_terminal sid s) = request_done s"
  "subscription_runs (close_terminal sid s) = subscription_runs s"
  "subscription_done (close_terminal sid s) = subscription_done s"
  by (simp_all add: close_terminal_def split: option.split)

text \<open>An answered task leaves its identifier in the completion queue.\<close>

lemma finish_request_ok:
  assumes ok: "session_ok s" and i: "i < length (request_tasks s)"
  shows "session_ok (finish_request (task_id (request_tasks s ! i)) resp
    (s\<lparr>request_tasks := without i (request_tasks s)\<rparr>))" (is "session_ok ?s'")
proof -
  let ?s1 = "s\<lparr>request_tasks := without i (request_tasks s)\<rparr>"
  let ?id = "task_id (request_tasks s ! i)"
  have q: "quiet ?s1 (snd (send_response ?id resp ?s1))"
    by (metis prod.collapse quiet_send_response)
  have tasks: "mset (map task_id (request_tasks s)) = add_mset ?id (mset (map task_id (without i (request_tasks s))))"
    using arg_cong [OF mset_without [OF i], of "image_mset task_id"] by simp
  have sub: "set (without i (request_tasks s)) \<subseteq> set (request_tasks s)" by (rule set_without)
  show ?thesis
    using ok q tasks sub
    by (auto simp: finish_request_def Let_def session_ok_def requests_ok_def subscriptions_ok_def terminals_ok_def quiet_def)
qed

lemma answer_task_ok:
  assumes "session_ok s" "i < length (request_tasks s)" "answer_task d i c s = (r, s')"
  shows "session_ok s'"
proof -
  obtain s1 where s1: "s1 = s \<or> (\<exists>sid. s1 = close_terminal sid s)"
    and s': "s' = finish_request (task_id (request_tasks s ! i)) r (s1\<lparr>request_tasks := without i (request_tasks s)\<rparr>)"
    using assms(3) dispatch_effect [of d "task_request (request_tasks s ! i)" s]
    by (auto simp: answer_task_def Let_def split: prod.splits if_splits)
  have "session_ok s1" "request_tasks s1 = request_tasks s"
    using s1 assms(1) close_terminal_ok by auto
  then show ?thesis using finish_request_ok [of s1 i r] assms(2) s' by simp
qed

lemma run_effect_ok:
  assumes "session_ok s" "run_effect sid s t" "sid \<in> run_id ` set (subscription_runs s)"
  shows "session_ok t"
proof -
  have "session_ok (s\<lparr>terminals := hm_insert sid x (terminals s)\<rparr>)" for x
    using assms(1, 3) by (auto simp: session_ok_def requests_ok_def subscriptions_ok_def terminals_ok_def distinct_hm_insert)
  then show ?thesis using assms(1, 2) session_ok_quiet by (auto simp: run_effect_def)
qed

lemma run_effect_runs: "run_effect sid s t \<Longrightarrow> subscription_runs t = subscription_runs s"
  by (auto simp: run_effect_def quiet_def)

lemma update_run_ok:
  assumes "session_ok s" "i < length (subscription_runs s)"
  shows "session_ok (s\<lparr>subscription_runs := (subscription_runs s)[i := (subscription_runs s ! i)\<lparr>run_phase := ph\<rparr>]\<rparr>)"
proof -
  have "map run_id ((subscription_runs s)[i := (subscription_runs s ! i)\<lparr>run_phase := ph\<rparr>]) = map run_id (subscription_runs s)"
    using assms(2) by (simp add: map_update list_update_same_conv)
  then have "run_id ` set ((subscription_runs s)[i := (subscription_runs s ! i)\<lparr>run_phase := ph\<rparr>]) = run_id ` set (subscription_runs s)"
    by (metis list.set_map)
  then show ?thesis using assms(1)
    by (simp add: session_ok_def requests_ok_def subscriptions_ok_def terminals_ok_def)
qed

lemma finish_subscription_ok:
  assumes ok: "session_ok s" and i: "i < length (subscription_runs s)"
  shows "session_ok (finish_subscription (run_id (subscription_runs s ! i)) reason
    (s\<lparr>subscription_runs := without i (subscription_runs s)\<rparr>))"
proof -
  let ?sid = "run_id (subscription_runs s ! i)"
  let ?s1 = "close_terminal ?sid (s\<lparr>subscription_runs := without i (subscription_runs s)\<rparr>)"
  let ?ev = "EvSubscriptionEnded ?sid (if shutdown s then ServerShutdown else reason)"
  have runs: "run_id ` set (subscription_runs s) = insert ?sid (run_id ` set (without i (subscription_runs s)))"
    using arg_cong [OF set_without_nth [OF i], of "image run_id"] by simp
  have q: "quiet ?s1 (snd (send_event ?ev None ?s1))" by simp
  have t: "requests ?s1 = requests s" "subscriptions ?s1 = subscriptions s" "outbound ?s1 = outbound s"
    "subscription_tasks ?s1 = subscription_tasks s" "next_subscription_id ?s1 = next_subscription_id s"
    "terminals ?s1 = hm_remove ?sid (terminals s)"
    by (auto simp: close_terminal_def split: option.split)
       (auto intro!: hm_remove_fresh [symmetric] simp: map_of_eq_None_iff)
  show ?thesis
    using ok q runs t
    by (auto simp: finish_subscription_def Let_def session_ok_def requests_ok_def subscriptions_ok_def terminals_ok_def
          quiet_def distinct_hm_remove)
qed

lemma session_step_ok:
  assumes "session_step d s l s'" "session_ok s"
  shows "session_ok s'"
  using assms
proof cases
  case (receive e)
  then show ?thesis using handle_envelope_ok assms(2) by blast
next
  case request_finished
  then show ?thesis using request_finished_ok assms(2) by blast
next
  case subscription_finished
  then show ?thesis using subscription_finished_ok assms(2) by blast
next
  case (answer i c r)
  then show ?thesis using answer_task_ok [OF assms(2)] by blast
next
  case (subscription_input i item phase s1)
  note eff = run_subscription_effect [OF subscription_input(4)]
  have "session_ok s1" using run_effect_ok [OF assms(2) eff] subscription_input(3) by simp
  then show ?thesis using update_run_ok [of s1 i] run_effect_runs [OF eff] subscription_input by simp
next
  case (subscription_ends i item reason s1)
  note eff = run_subscription_effect [OF subscription_ends(4)]
  have "session_ok s1" using run_effect_ok [OF assms(2) eff] subscription_ends(3) by simp
  then show ?thesis using finish_subscription_ok [of s1 i] run_effect_runs [OF eff] subscription_ends by simp
qed (use assms(2) in \<open>auto simp: session_ok_def requests_ok_def subscriptions_ok_def terminals_ok_def\<close>)

lemma session_trace_ok: "session_trace d s ls s' \<Longrightarrow> session_ok s \<Longrightarrow> session_ok s'"
  by (induction rule: session_trace.induct) (auto intro: session_step_ok)

section \<open>Accounting of requests\<close>

fun accepted_ids :: "'d session_label list \<Rightarrow> request_id list" where
  "accepted_ids [] = []"
| "accepted_ids (LAccept i # ls) = i # accepted_ids ls"
| "accepted_ids (_ # ls) = accepted_ids ls"

fun answered_ids :: "'d session_label list \<Rightarrow> request_id list" where
  "answered_ids [] = []"
| "answered_ids (LAnswer i _ # ls) = i # answered_ids ls"
| "answered_ids (_ # ls) = answered_ids ls"

lemma accepted_append: "accepted_ids (ls @ ms) = accepted_ids ls @ accepted_ids ms"
  by (induction ls rule: accepted_ids.induct) simp_all

lemma answered_append: "answered_ids (ls @ ms) = answered_ids ls @ answered_ids ms"
  by (induction ls rule: answered_ids.induct) simp_all

lemma handle_envelope_tasks:
  assumes "handle_envelope e s = (Inr (), s')"
  shows "map task_id (request_tasks s') =
    map task_id (request_tasks s) @ (if accepts e s then [envelope_request_id e] else [])"
proof (cases "envelope_body e")
  case (BodyRequest q)
  then show ?thesis using assms
    by (auto simp: handle_envelope_def handle_request_def accepts_def Let_def split: if_splits prod.splits
          dest!: quiet_send_response simp: quiet_def)
next
  case (Subscribe sub)
  then show ?thesis using assms
    by (auto simp: handle_envelope_def handle_subscribe_def accepts_def Let_def
          split: if_splits prod.splits sum.splits option.splits
          dest!: quiet_send_response quiet_send_envelope simp: quiet_def)
next
  case (Unsubscribe sid)
  then show ?thesis using assms
    by (auto simp: handle_envelope_def handle_unsubscribe_def accepts_def Let_def forget_subscription_def cancel_token_def
          split: prod.splits option.splits dest!: quiet_send_response simp: quiet_def)
next
  case (CancelRequest r)
  then show ?thesis using assms
    by (auto simp: handle_envelope_def handle_cancel_def accepts_def cancel_token_def split: option.splits)
next
  case Ping
  then show ?thesis using assms
    by (auto simp: handle_envelope_def accepts_def split: prod.splits dest!: quiet_send_envelope simp: quiet_def)
qed (use assms in \<open>simp_all add: handle_envelope_def\<close>)

lemma answer_task_tasks:
  assumes "answer_task d i c s = (r, s')"
  shows "request_tasks s' = without i (request_tasks s)"
proof -
  have q: "request_tasks (snd (send_response j x t)) = request_tasks t" for j x and t :: "'a session"
    using quiet_send_response [of j x t] by (cases "send_response j x t") (auto simp: quiet_def)
  show ?thesis using assms by (auto simp: answer_task_def finish_request_def Let_def q split: prod.splits)
qed

lemma session_step_tasks:
  assumes "session_step d s l s'"
  shows "mset (map task_id (request_tasks s)) + mset (accepted_ids [l]) =
    mset (map task_id (request_tasks s')) + mset (answered_ids [l])"
  using assms
proof cases
  case (receive e)
  then show ?thesis using handle_envelope_tasks [OF receive(2)] by simp
next
  case request_finished
  then show ?thesis by (auto simp: request_finished_def split: list.splits)
next
  case subscription_finished
  then show ?thesis by (auto simp: subscription_finished_def forget_subscription_def split: list.splits option.splits)
next
  case (answer i c r)
  then show ?thesis
    using answer_task_tasks [OF answer(4)] arg_cong [OF mset_without [OF answer(2)], of "image_mset task_id"] by simp
next
  case (subscription_input i item phase s1)
  then show ?thesis
    using run_subscription_effect [OF subscription_input(4)] by (auto simp: run_effect_def quiet_def)
next
  case (subscription_ends i item reason s1)
  have "request_tasks (snd (send_event x c t)) = request_tasks t" for x c and t :: "'a session"
    using quiet_snd_event [of t x c] by (simp add: quiet_def)
  then show ?thesis
    using subscription_ends run_subscription_effect [OF subscription_ends(4)]
    by (auto simp: finish_subscription_def Let_def run_effect_def quiet_def)
qed auto

lemma session_trace_tasks:
  assumes "session_trace d s ls s'" "request_tasks s = []"
  shows "mset (accepted_ids ls) = mset (answered_ids ls) + mset (map task_id (request_tasks s'))"
  using assms
proof (induction rule: session_trace.induct)
  case (trace_step s ls s' l s'')
  then show ?case using session_step_tasks [OF trace_step(2)]
    by (auto simp: accepted_append answered_append add.commute add.left_commute)
qed simp

section \<open>Properties of a connection\<close>

text \<open>A daemon that answers nothing, to exercise the machine.\<close>

definition demo_mount_status :: mount_status where
  "demo_mount_status = \<lparr>mount_state = Unmounted, mount_point = None, read_only = True\<rparr>"

definition demo_daemon :: "unit daemon" where
  "demo_daemon =
     \<lparr>status_now = \<lparr>status_version = [], status_lifecycle = LifecycleReady, status_docker = DockerReconnecting,
        status_mount = demo_mount_status, uptime_seconds = 0\<rparr>,
      mount_status_now = demo_mount_status, set_mount = (\<lambda>_. Inl []), lookup_resource = (\<lambda>_. Inl []),
      lookup_descriptor = (\<lambda>_. Inl []), run_docker = (\<lambda>x. Inr x), terminal_write = (\<lambda>_ _. Inr ()),
      terminal_resize = (\<lambda>_ _ _. Inr ()), show_docker_error = (\<lambda>_. [])\<rparr>"

definition demo_query :: "unit protocol_envelope" where
  "demo_query = envelope_new 7 (BodyRequest GetMountStatus)"

lemma demo_trace:
  "session_trace demo_daemon session_new [LAccept 7] (snd (handle_envelope demo_query session_new))"
proof -
  have "handle_envelope demo_query session_new = (Inr (), snd (handle_envelope demo_query session_new))"
    by (simp add: demo_query_def envelope_new_def handle_envelope_def handle_request_def session_new_def
          hm_contains_def MAX_CLIENT_REQUESTS_def Let_def)
  from receive [OF this, of demo_daemon]
  have "session_step demo_daemon session_new (LAccept 7) (snd (handle_envelope demo_query session_new))"
    by (simp add: demo_query_def envelope_new_def accepts_def session_new_def hm_contains_def MAX_CLIENT_REQUESTS_def)
  from trace_step [OF trace_start this] show ?thesis by simp
qed





text \<open>The clean-up cancels the token of every live request task and every live subscription, and leaves no terminal.\<close>

lemma map_of_value: "map_of m k = Some v \<Longrightarrow> v \<in> snd ` set m"
  by (metis map_of_SomeD image_eqI snd_conv)

lemma session_cleanup_complete:
  assumes "session_ok s"
  shows "terminals (session_cleanup s) = []"
    and "t \<in> set (request_tasks s) \<Longrightarrow> task_token t \<in> set (cancelled (session_cleanup s))"
    and "map_of (subscriptions s) sid = Some c \<Longrightarrow> control_token c \<in> set (cancelled (session_cleanup s))"
    and "map_of (terminals s) sid = Some x \<Longrightarrow> session_key x \<in> set (closed_terminals (session_cleanup s))"
proof -
  show "terminals (session_cleanup s) = []" by (simp add: session_cleanup_def close_all_terminals_def)
  show "task_token t \<in> set (cancelled (session_cleanup s))" if "t \<in> set (request_tasks s)"
  proof -
    have "map_of (requests s) (task_id t) = Some (task_token t)"
      using assms that unfolding session_ok_def requests_ok_def by blast
    from map_of_value [OF this] show ?thesis by (simp add: session_cleanup_def close_all_terminals_def)
  qed
  show "control_token c \<in> set (cancelled (session_cleanup s))" if "map_of (subscriptions s) sid = Some c"
    using imageI [OF map_of_value [OF that], of control_token]
    by (simp add: session_cleanup_def close_all_terminals_def image_comp)
  show "session_key x \<in> set (closed_terminals (session_cleanup s))" if "map_of (terminals s) sid = Some x"
    using imageI [OF map_of_value [OF that], of session_key]
    by (simp add: session_cleanup_def close_all_terminals_def image_comp)
qed

section \<open>The terminal limit is checked too early\<close>

text \<open>
  A terminal task looks at the registry before it connects and registers its session afterwards, so
  tasks that connect at the same time all pass the check.
\<close>

datatype 'd action = ActReceive "'d protocol_envelope" | ActInput nat "'d stream_item"

fun exec_action :: "'d daemon \<Rightarrow> 'd action \<Rightarrow> 'd session \<Rightarrow> 'd session option" where
  "exec_action d (ActReceive e) s = (case handle_envelope e s of (Inr _, s') \<Rightarrow> Some s' | (Inl _, _) \<Rightarrow> None)"
| "exec_action d (ActInput i item) s =
     (if i < length (subscription_runs s) then
        (case run_subscription d (subscription_runs s ! i) item s of
           Some (RunContinue phase, s1) \<Rightarrow>
             Some (s1\<lparr>subscription_runs := (subscription_runs s)[i := (subscription_runs s ! i)\<lparr>run_phase := phase\<rparr>]\<rparr>)
         | _ \<Rightarrow> None)
      else None)"

lemma exec_action_step: "exec_action d a s = Some s' \<Longrightarrow> \<exists>l. session_step d s l s'"
proof (cases a)
  case (ActReceive e)
  assume "exec_action d a s = Some s'"
  then have "handle_envelope e s = (Inr (), s')" using ActReceive by (auto split: prod.splits sum.splits)
  then show ?thesis using receive by blast
next
  case (ActInput i item)
  assume "exec_action d a s = Some s'"
  then show ?thesis using ActInput
    by (auto split: if_splits option.splits run_result.splits prod.splits intro: subscription_input)
qed

definition demo_terminal :: "unit protocol_envelope" where
  "demo_terminal = envelope_new 1 (Subscribe (SubContainerTerminal [99] 24 80 ShellAuto None None))"

definition demo_session :: "nat \<Rightarrow> terminal_session" where
  "demo_session i = \<lparr>session_key = i, session_container = [99], session_shell = []\<rparr>"

text \<open>After \<open>k\<close> subscriptions, of which the first \<open>j\<close> have passed the check and the first \<open>m\<close> are connected.\<close>

definition demo_run :: "nat \<Rightarrow> nat \<Rightarrow> nat \<Rightarrow> unit subscription_run" where
  "demo_run j m i =
     \<lparr>run_id = word_of_nat (Suc i), run_token = i,
      run_request = SubContainerTerminal [99] 24 80 ShellAuto None None,
      run_phase = (if i < m then RunTerminal (demo_session i) else if i < j then RunConnecting else RunStart)\<rparr>"

definition racing :: "nat \<Rightarrow> nat \<Rightarrow> nat \<Rightarrow> unit session \<Rightarrow> bool" where
  "racing k j m s \<longleftrightarrow> writer_open s \<and> cancelled s = [] \<and> length (outbound s) = k + j + m
     \<and> subscription_runs s = map (demo_run j m) [0..<k]
     \<and> fst ` set (subscriptions s) = (\<lambda>i. word_of_nat (Suc i)) ` {..<k}
     \<and> length (subscriptions s) = k \<and> subscription_tasks s = k
     \<and> next_subscription_id s = word_of_nat (Suc k) \<and> next_token s = k
     \<and> terminals s = rev (map (\<lambda>i. (word_of_nat (Suc i), demo_session i)) [0..<m])"

lemma small_id_eq: "a < 100 \<Longrightarrow> b < 100 \<Longrightarrow> (word_of_nat a :: u64) = word_of_nat b \<longleftrightarrow> a = b"
  by (auto simp: word_of_nat_eq_iff take_bit_nat_eq_self)

lemma small_ids_fresh: "k < 90 \<Longrightarrow> (word_of_nat (Suc k) :: u64) \<notin> (\<lambda>i. word_of_nat (Suc i)) ` {..<k}"
  using small_id_eq by (auto simp del: of_nat_Suc)

lemma small_id_succ: "k < 90 \<Longrightarrow> succ_subscription_id (word_of_nat (Suc k)) = word_of_nat (Suc (Suc k))"
  using unat_succ_subscription_id [of "word_of_nat (Suc k)"]
  by (simp add: word_unat_eq_iff [where 'a = 64] unat_of_nat del: of_nat_Suc)

lemma racing_subscribe:
  assumes "racing k 0 0 s" "k < 9"
  shows "\<exists>s'. exec_action demo_daemon (ActReceive demo_terminal) s = Some s' \<and> racing (Suc k) 0 0 s'"
proof -
  have fresh: "\<not> hm_contains (word_of_nat (Suc k)) (subscriptions s)"
    using assms small_ids_fresh [of k] by (simp add: racing_def hm_contains_def del: of_nat_Suc)
  have cost: "subscription_task_cost (SubContainerTerminal [99] 24 80 ShellAuto None None :: unit subscription_request) = Inr 1"
    by (simp add: subscription_task_cost_def trim_is_empty.simps utf8_first.simps is_white_space_def validate_terminal_size_def
          validate_terminal_option_def MAX_TERMINAL_DIMENSION_def)
  show ?thesis
    using assms fresh cost small_id_succ [of k]
    by (auto simp: racing_def demo_terminal_def envelope_new_def handle_envelope_def handle_subscribe_def Let_def
          send_envelope_def ipc_limits demo_run_def hm_insert_def hm_remove_fresh hm_contains_def lessThan_Suc
          simp del: of_nat_Suc)
qed

lemma racing_start:
  assumes "racing k j 0 s" "j < k" "k \<le> 9"
  shows "\<exists>s'. exec_action demo_daemon (ActInput j ItemStart) s = Some s' \<and> racing k (Suc j) 0 s'"
proof -
  have "(map (demo_run j 0) [0..<k])[j := (demo_run j 0 j)\<lparr>run_phase := RunConnecting\<rparr>] = map (demo_run (Suc j) 0) [0..<k]"
    by (rule nth_equalityI) (auto simp: nth_list_update demo_run_def less_Suc_eq)
  then show ?thesis
    using assms
    by (simp add: racing_def run_subscription_def Let_def send_event_def send_envelope_def ipc_limits
          terminal_capacity_available_def demo_run_def)
qed

lemma racing_connect:
  assumes "racing k k m s" "m < k" "k \<le> 9"
  shows "\<exists>s'. exec_action demo_daemon (ActInput m (ItemConnected (demo_session m) None None)) s = Some s'
    \<and> racing k k (Suc m) s'"
proof -
  have runs: "(map (demo_run k m) [0..<k])[m := (demo_run k m m)\<lparr>run_phase := RunTerminal (demo_session m)\<rparr>]
      = map (demo_run k (Suc m)) [0..<k]"
    by (rule nth_equalityI) (use assms(2) in \<open>auto simp: nth_list_update demo_run_def\<close>)
  have "word_of_nat (Suc m) \<notin> fst ` set (terminals s)"
    using assms small_ids_fresh [of m] by (auto simp: racing_def image_image atLeast0LessThan simp del: of_nat_Suc)
  then have "hm_insert (word_of_nat (Suc m)) (demo_session m) (terminals s) =
      (word_of_nat (Suc m), demo_session m) # terminals s"
    by (simp add: hm_insert_def hm_remove_fresh del: of_nat_Suc)
  then show ?thesis
    using assms runs
    by (simp add: racing_def run_subscription_def Let_def send_or_end_def send_event_def send_envelope_def
          ipc_limits demo_run_def demo_session_def del: of_nat_Suc)
qed

lemma racing_trace:
  assumes "\<exists>ls. session_trace demo_daemon session_new ls s" "exec_action demo_daemon a s = Some s'"
  shows "\<exists>ls. session_trace demo_daemon session_new ls s'"
  using assms exec_action_step [OF assms(2)] trace_step by blast

lemma racing_reachable:
  "k \<le> 9 \<Longrightarrow> \<exists>s. (\<exists>ls. session_trace demo_daemon session_new ls s) \<and> racing k 0 0 s"
  "k \<le> 9 \<Longrightarrow> j \<le> k \<Longrightarrow> \<exists>s. (\<exists>ls. session_trace demo_daemon session_new ls s) \<and> racing k j 0 s"
  "k \<le> 9 \<Longrightarrow> m \<le> k \<Longrightarrow> \<exists>s. (\<exists>ls. session_trace demo_daemon session_new ls s) \<and> racing k k m s"
proof -
  show one: "\<exists>s. (\<exists>ls. session_trace demo_daemon session_new ls s) \<and> racing k 0 0 s" if "k \<le> 9" for k
    using that
  proof (induction k)
    case 0
    have "racing 0 0 0 session_new" by (simp add: racing_def session_new_def)
    then show ?case using trace_start by blast
  next
    case (Suc k)
    then show ?case using racing_subscribe racing_trace by (meson Suc_leD Suc_le_lessD)
  qed
  show two: "\<exists>s. (\<exists>ls. session_trace demo_daemon session_new ls s) \<and> racing k j 0 s" if "k \<le> 9" "j \<le> k" for k j
    using that
  proof (induction j)
    case (Suc j)
    then show ?case using racing_start racing_trace by (meson Suc_leD Suc_le_lessD)
  qed (use one in blast)
  show "\<exists>s. (\<exists>ls. session_trace demo_daemon session_new ls s) \<and> racing k k m s" if "k \<le> 9" "m \<le> k" for k m
    using that
  proof (induction m)
    case (Suc m)
    then show ?case using racing_connect racing_trace by (meson Suc_leD Suc_le_lessD)
  qed (use two in blast)
qed

text \<open>The terminal limit can be exceeded: there is a run of a connection in which nine terminals of one
  container are registered although the limit is eight.\<close>

theorem terminal_limit_race:
  "\<exists>ls s. session_trace demo_daemon session_new ls s
     \<and> length (filter (\<lambda>(_, t). session_container t = [99]) (terminals s)) > MAX_TERMINAL_SESSIONS_PER_CONTAINER"
proof -
  obtain ls s where s: "session_trace demo_daemon session_new ls s" "racing 9 9 9 s"
    using racing_reachable(3) [of 9 9] by auto
  then have "filter (\<lambda>(_, t). session_container t = [99]) (terminals s) = terminals s" "length (terminals s) = 9"
    by (auto simp: racing_def demo_session_def intro!: filter_True simp del: of_nat_Suc)
  then show ?thesis using s(1) by (intro exI [of _ ls] exI [of _ s]) (simp add: MAX_TERMINAL_SESSIONS_PER_CONTAINER_def)
qed

section \<open>A completion in the middle of a frame loses it\<close>

definition idle_wire :: wire where
  "idle_wire = \<lparr>read_taken = [], read_socket = []\<rparr>"

lemmas wire_eval = read_ready.simps poll_read_envelope_def idle_wire_def FRAME_HEADER_SIZE_def
  from_be_bytes_def validate_frame_length_def MAX_FRAME_SIZE_def decode_payload_def demo_de_def

text \<open>Reading is not cancellation safe.
  Two pings, the same bytes in both runs: when a completion notice is handled between the frames'
  bytes having arrived, both pings are read; when it is handled while the first frame is half read,
  the four bytes already taken are dropped, the next byte is taken for a header and the connection
  fails with a frame of impossible length.
\<close>

theorem read_envelope_not_cancellation_safe:
  "read_events demo_de 16 [Arrive [0, 0, 0, 1], Arrive [9, 0, 0, 0, 1, 9], OtherBranch] idle_wire
     = ([demo_ping, demo_ping], None)
   \<and> read_events demo_de 16 [Arrive [0, 0, 0, 1], OtherBranch, Arrive [9, 0, 0, 0, 1, 9]] idle_wire
     = ([], Some (IpcFrame (Oversized 0x09000000 16)))"
  by (simp add: wire_eval Let_def demo_version)

end
