(* ===== verification/Helper_Path.thy ===== *)
theory Helper_Path
  imports Path_Token
begin

text \<open>
  Paths of the filesystem helper, \<^verbatim>\<open>tuxstack-fs-helper/src/path.rs\<close> and \<^verbatim>\<open>error.rs\<close>: tokens to paths and
  back, lexical normalisation, symlink resolution, confinement to the browse root, and the command-line
  flags. A path is its bytes; \<open>path_components\<close> and \<open>path_push\<close> are the standard library's. The file system
  is a record of what its calls return. Error texts are for people and left out: an error is its code.
\<close>

section \<open>The standard library's paths\<close>

datatype component = RootDir | CurDir | ParentDir | Normal bytes

definition is_absolute :: "bytes \<Rightarrow> bool" where
  "is_absolute p \<longleftrightarrow> p \<noteq> [] \<and> p ! 0 = slash"

definition part_component :: "bytes \<Rightarrow> component" where
  "part_component part = (if part = [dot, dot] then ParentDir else Normal part)"

definition part_kept :: "bytes \<Rightarrow> bool" where
  "part_kept part \<longleftrightarrow> part \<noteq> [] \<and> part \<noteq> [dot]"

definition part_components :: "bytes list \<Rightarrow> component list" where
  "part_components parts = map part_component (filter part_kept parts)"

text \<open>\<^verbatim>\<open>Path::components\<close>: empty parts and \<^verbatim>\<open>.\<close> vanish, except a leading \<^verbatim>\<open>.\<close> of a relative path.\<close>

definition path_components :: "bytes \<Rightarrow> component list" where
  "path_components p =
     (let parts = split_on slash p
      in if is_absolute p then RootDir # part_components parts
         else if hd parts = [dot] then CurDir # part_components (tl parts)
         else part_components parts)"

fun component_bytes :: "component \<Rightarrow> bytes" where
  "component_bytes RootDir = [slash]"
| "component_bytes CurDir = [dot]"
| "component_bytes ParentDir = [dot, dot]"
| "component_bytes (Normal name) = name"

text \<open>\<^verbatim>\<open>PathBuf::push\<close>, which is also \<^verbatim>\<open>Path::join\<close>.\<close>

definition path_push :: "bytes \<Rightarrow> bytes \<Rightarrow> bytes" where
  "path_push p q =
     (if is_absolute q then q
      else if p \<noteq> [] \<and> last p \<noteq> slash then p @ slash # q else p @ q)"

section \<open>Errors\<close>

datatype io_kind = IoNotFound | IoPermissionDenied | IoIsADirectory | IoNotADirectory | IoOther

fun from_io :: "io_kind \<Rightarrow> helper_error_code" where
  "from_io IoNotFound = helper_error_code.NotFound"
| "from_io IoPermissionDenied = PermissionDenied"
| "from_io IoIsADirectory = helper_error_code.IsDirectory"
| "from_io IoNotADirectory = helper_error_code.NotDirectory"
| "from_io IoOther = Io"

section \<open>Tokens\<close>

definition resolve_token :: "bytes \<Rightarrow> bytes \<Rightarrow> helper_error_code + bytes" where
  "resolve_token root token =
     (case decode_relative (FilesystemPathToken token) of
        Inl _ \<Rightarrow> Inl InvalidToken
      | Inr relative \<Rightarrow>
          Inr (if relative \<noteq> [] then
                 (if root = [] \<or> last root \<noteq> slash then root @ [slash] else root) @ relative
               else root))"

definition child_token :: "bytes \<Rightarrow> bytes \<Rightarrow> helper_error_code + filesystem_path_token" where
  "child_token parent_relative name =
     (let relative = parent_relative @ (if parent_relative \<noteq> [] then [slash] else []) @ name
      in case encode_relative relative of Inl _ \<Rightarrow> Inl InvalidToken | Inr token \<Rightarrow> Inr token)"

definition token_under_root :: "bytes \<Rightarrow> bytes \<Rightarrow> helper_error_code + filesystem_path_token" where
  "token_under_root root absolute =
     (case (if absolute = root then Some []
            else case strip_prefix_bytes root absolute of
                   Some rest \<Rightarrow> Some (case strip_prefix_bytes [slash] rest of Some r \<Rightarrow> r | None \<Rightarrow> rest)
                 | None \<Rightarrow> None) of
        None \<Rightarrow> Inl PathEscapeRejected
      | Some relative \<Rightarrow>
          (case encode_relative relative of Inl _ \<Rightarrow> Inl InvalidToken | Inr token \<Rightarrow> Inr token))"

definition decode_token :: "bytes \<Rightarrow> helper_error_code + bytes" where
  "decode_token token =
     (case decode_relative (FilesystemPathToken token) of Inl _ \<Rightarrow> Inl InvalidToken | Inr b \<Rightarrow> Inr b)"

section \<open>Normalisation\<close>

text \<open>
  The path under construction in \<^verbatim>\<open>normalize\<close> is always clean: it starts at the root or not, and has
  plain names, which is how it is kept; \<open>render\<close> gives its bytes.
\<close>

datatype clean_path = CleanPath (at_root: bool) (clean_names: "bytes list")

fun join_names :: "bytes list \<Rightarrow> bytes" where
  "join_names [] = []"
| "join_names [n] = n"
| "join_names (n # m # ns) = n @ slash # join_names (m # ns)"

definition render :: "clean_path \<Rightarrow> bytes" where
  "render p = (if at_root p then [slash] else []) @ join_names (clean_names p)"

fun normalize_step :: "clean_path \<Rightarrow> component \<Rightarrow> clean_path" where
  "normalize_step out CurDir = out"
| "normalize_step out ParentDir =
     (if clean_names out \<noteq> [] then CleanPath (at_root out) (butlast (clean_names out))
      else if at_root out then CleanPath True [] else out)"
| "normalize_step out RootDir = CleanPath True []"
| "normalize_step out (Normal name) = CleanPath (at_root out) (clean_names out @ [name])"

definition normalize :: "bytes \<Rightarrow> bytes" where
  "normalize path =
     (let out = fold (\<lambda>c out. normalize_step out c) (path_components path) (CleanPath False [])
      in if out = CleanPath False [] then [slash]
         else if is_absolute path \<and> \<not> at_root out then slash # render out
         else render out)"

section \<open>Canonical paths\<close>

record meta =
  meta_mode :: u32
  meta_len :: u64
  meta_mtime :: int
  meta_uid :: u32
  meta_gid :: u32

text \<open>\<^verbatim>\<open>symlink_metadata\<close>, \<^verbatim>\<open>metadata\<close>, \<^verbatim>\<open>read_link\<close> and \<^verbatim>\<open>read_dir\<close>.\<close>

record file_system =
  fs_lstat :: "bytes \<Rightarrow> io_kind + meta"
  fs_stat :: "bytes \<Rightarrow> io_kind + meta"
  fs_read_link :: "bytes \<Rightarrow> io_kind + bytes"
  fs_read_dir :: "bytes \<Rightarrow> io_kind + (io_kind + bytes) list"

definition meta_type :: "meta \<Rightarrow> helper_file_type" where
  "meta_type m = from_mode (meta_mode m)"

definition MAX_SYMLINK_HOPS :: nat where "MAX_SYMLINK_HOPS = 40"

datatype walk_result =
  WalkError helper_error_code
| WalkDone bytes
| WalkLink bytes bytes "component list"

text \<open>The inner loop: follow components until one is a symlink.\<close>

fun walk :: "file_system \<Rightarrow> bytes \<Rightarrow> component list \<Rightarrow> walk_result" where
  "walk fs result [] = WalkDone result"
| "walk fs result (c # cs) =
     (let next = path_push result (component_bytes c)
      in case fs_lstat fs next of
           Inl e \<Rightarrow> WalkError (from_io e)
         | Inr m \<Rightarrow>
             if meta_type m = HSymlink then WalkLink result next cs
             else walk fs next cs)"

definition collect_path :: "component list \<Rightarrow> bytes" where
  "collect_path cs = fold (\<lambda>c p. path_push p (component_bytes c)) cs []"

definition splice_target :: "bytes \<Rightarrow> bytes \<Rightarrow> component list \<Rightarrow> bytes" where
  "splice_target result target rest =
     (if is_absolute target then normalize (path_push target (collect_path rest))
      else normalize (path_push (path_push result target) (collect_path rest)))"

function canonical_loop :: "file_system \<Rightarrow> nat \<Rightarrow> bytes \<Rightarrow> helper_error_code + bytes" where
  "canonical_loop fs hops current =
     (case walk fs [slash] (path_components current) of
        WalkError e \<Rightarrow> Inl e
      | WalkDone result \<Rightarrow> Inr result
      | WalkLink result next rest \<Rightarrow>
          if Suc hops > MAX_SYMLINK_HOPS then Inl SymlinkLoop
          else (case fs_read_link fs next of
                  Inl e \<Rightarrow> Inl (from_io e)
                | Inr target \<Rightarrow> canonical_loop fs (Suc hops) (splice_target result target rest)))"
  by pat_completeness auto
termination by (relation "measure (\<lambda>(fs, hops, current). MAX_SYMLINK_HOPS - hops)") auto

declare canonical_loop.simps [simp del]

definition canonicalize :: "file_system \<Rightarrow> bytes \<Rightarrow> helper_error_code + bytes" where
  "canonicalize fs path = canonical_loop fs 0 (normalize path)"

text \<open>\<^verbatim>\<open>Path::starts_with\<close> compares components; equality of paths does too.\<close>

definition os_path_starts_with :: "bytes \<Rightarrow> bytes \<Rightarrow> bool" where
  "os_path_starts_with p base \<longleftrightarrow>
     take (length (path_components base)) (path_components p) = path_components base"

definition confine_to_root :: "file_system \<Rightarrow> bytes \<Rightarrow> bytes \<Rightarrow> helper_error_code + bytes" where
  "confine_to_root fs root path =
     (case canonicalize fs path of
        Inl e \<Rightarrow> Inl e
      | Inr canonical \<Rightarrow>
          (case canonicalize fs root of
             Inl e \<Rightarrow> Inl e
           | Inr root_canonical \<Rightarrow>
               if \<not> (path_components canonical = path_components root_canonical
                      \<or> os_path_starts_with canonical root_canonical)
               then Inl PathEscapeRejected else Inr canonical))"

section \<open>Command-line flags\<close>

record flags =
  flag_root :: bytes
  flag_token :: bytes
  show_hidden :: bool
  flag_limit :: "u64 option"
  flag_cursor :: "bytes option"
  flag_offset :: u64
  read_limit :: u64
  algorithm :: bytes

definition flags_default :: flags where
  "flags_default =
     \<lparr>flag_root = [slash], flag_token = [], show_hidden = False, flag_limit = None, flag_cursor = None,
      flag_offset = 0, read_limit = 64 * 1024, algorithm = ascii ''sha256''\<rparr>"

fun parse_loop :: "bytes list \<Rightarrow> flags \<Rightarrow> bool \<Rightarrow> helper_error_code + flags" where
  "parse_loop [] f seen_token = (if \<not> seen_token then Inl InvalidArgs else Inr f)"
| "parse_loop (arg # rest) f seen_token =
     (if arg = ascii ''--show-hidden'' then parse_loop rest (f\<lparr>show_hidden := True\<rparr>) seen_token
      else if arg \<notin> {ascii ''--root'', ascii ''--path-token'', ascii ''--limit'', ascii ''--cursor'',
                       ascii ''--offset'', ascii ''--limit-bytes'', ascii ''--algorithm''}
        then Inl InvalidArgs
      else case rest of
             [] \<Rightarrow> Inl InvalidArgs
           | v # rest' \<Rightarrow>
               if arg = ascii ''--root'' then parse_loop rest' (f\<lparr>flag_root := v\<rparr>) seen_token
               else if arg = ascii ''--path-token'' then parse_loop rest' (f\<lparr>flag_token := v\<rparr>) True
               else if arg = ascii ''--limit'' then
                 (case parse_u64 v of None \<Rightarrow> Inl InvalidArgs
                  | Some n \<Rightarrow> parse_loop rest' (f\<lparr>flag_limit := Some n\<rparr>) seen_token)
               else if arg = ascii ''--cursor'' then parse_loop rest' (f\<lparr>flag_cursor := Some v\<rparr>) seen_token
               else if arg = ascii ''--offset'' then
                 (case parse_u64 v of None \<Rightarrow> Inl InvalidArgs
                  | Some n \<Rightarrow> parse_loop rest' (f\<lparr>flag_offset := n\<rparr>) seen_token)
               else if arg = ascii ''--limit-bytes'' then
                 (case parse_u64 v of None \<Rightarrow> Inl InvalidArgs
                  | Some n \<Rightarrow> parse_loop rest' (f\<lparr>read_limit := n\<rparr>) seen_token)
               else parse_loop rest' (f\<lparr>algorithm := v\<rparr>) seen_token)"

definition parse_flags :: "bytes list \<Rightarrow> helper_error_code + flags" where
  "parse_flags args = parse_loop args flags_default False"

section \<open>Components of clean paths\<close>

definition plain_name :: "bytes \<Rightarrow> bool" where
  "plain_name n \<longleftrightarrow> n \<noteq> [] \<and> n \<noteq> [dot] \<and> n \<noteq> [dot, dot] \<and> slash \<notin> set n"

abbreviation root_path :: "bytes list \<Rightarrow> bytes" where
  "root_path ns \<equiv> render (CleanPath True ns)"

lemma split_join_names:
  "list_all plain_name ns \<Longrightarrow> ns \<noteq> [] \<Longrightarrow> split_on slash (join_names ns) = ns"
proof (induction ns rule: join_names.induct)
  case (2 n)
  then show ?case by (simp add: plain_name_def split_on_no_sep)
next
  case (3 n m ns)
  then show ?case by (simp add: plain_name_def split_on_cons_sep)
qed simp

lemma part_components_plain: "list_all plain_name ns \<Longrightarrow> part_components ns = map Normal ns"
  by (induction ns) (auto simp: part_components_def part_kept_def part_component_def plain_name_def)

lemma plain_name_ends: "plain_name n \<Longrightarrow> n \<noteq> [] \<and> n ! 0 \<noteq> slash \<and> last n \<noteq> slash"
  unfolding plain_name_def by (metis last_in_set nth_mem length_greater_0_conv)

lemma join_names_ends:
  "list_all plain_name ns \<Longrightarrow> ns \<noteq> [] \<Longrightarrow>
     join_names ns \<noteq> [] \<and> join_names ns ! 0 \<noteq> slash \<and> last (join_names ns) \<noteq> slash"
  by (induction ns rule: join_names.induct) (auto simp: nth_append dest!: plain_name_ends)

lemma components_clean:
  assumes "list_all plain_name ns" "b \<or> ns \<noteq> []"
  shows "path_components (render (CleanPath b ns)) = (if b then [RootDir] else []) @ map Normal ns"
proof (cases "ns = []")
  case True
  then show ?thesis using assms(2)
    by (simp add: render_def path_components_def is_absolute_def part_components_def part_kept_def Let_def)
next
  case False
  note split = split_join_names [OF assms(1) False] and first = join_names_ends [OF assms(1) False]
  have "hd ns \<noteq> [dot]" using assms(1) False by (cases ns) (auto simp: plain_name_def)
  moreover have "part_components ([] # ns) = part_components ns" by (simp add: part_components_def part_kept_def)
  ultimately show ?thesis using split first part_components_plain [OF assms(1)]
    by (auto simp: render_def path_components_def is_absolute_def Let_def)
qed

lemma part_components_names:
  "Normal n \<in> set (part_components (split_on slash p)) \<Longrightarrow> plain_name n"
  using split_on_parts [of _ slash p]
  by (auto simp: part_components_def part_kept_def part_component_def plain_name_def split: if_splits)

lemma components_names: "Normal n \<in> set (path_components p) \<Longrightarrow> plain_name n"
proof -
  assume "Normal n \<in> set (path_components p)"
  then have "Normal n \<in> set (part_components (split_on slash p)) \<or> Normal n \<in> set (part_components (tl (split_on slash p)))"
    by (auto simp: path_components_def Let_def split: if_splits)
  moreover have "set (part_components (tl xs)) \<subseteq> set (part_components xs)" for xs
    by (cases xs) (auto simp: part_components_def)
  ultimately show ?thesis using part_components_names by blast
qed

section \<open>Normalised paths\<close>

definition normalized :: "bytes \<Rightarrow> bool" where
  "normalized p \<longleftrightarrow> (\<exists>b ns. p = render (CleanPath b ns) \<and> list_all plain_name ns \<and> (b \<or> ns \<noteq> []))"

lemma fold_normalize_plain:
  "(\<And>n. Normal n \<in> set cs \<Longrightarrow> plain_name n) \<Longrightarrow> list_all plain_name (clean_names out) \<Longrightarrow>
     list_all plain_name (clean_names (fold (\<lambda>c out. normalize_step out c) cs out))"
proof (induction cs arbitrary: out)
  case (Cons c cs)
  have "list_all plain_name (clean_names (normalize_step out c))"
    using Cons.prems by (cases c) (auto simp: list_all_iff dest: in_set_butlastD)
  then show ?case using Cons by simp
qed simp

lemma fold_normalize_root:
  "at_root out \<Longrightarrow> at_root (fold (\<lambda>c out. normalize_step out c) cs out)"
proof (induction cs arbitrary: out)
  case (Cons c cs)
  then show ?case by (cases c) simp_all
qed simp

lemma normalize_clean:
  assumes "out = fold (\<lambda>c out. normalize_step out c) (path_components p) (CleanPath False [])"
  shows "normalize p = (if out = CleanPath False [] then [slash] else render out)" "list_all plain_name (clean_names out)"
proof -
  show "list_all plain_name (clean_names out)"
    unfolding assms by (rule fold_normalize_plain) (auto intro: components_names)
  have "at_root out" if "is_absolute p"
    using that fold_normalize_root [of "CleanPath True []"] by (simp add: assms path_components_def Let_def)
  then show "normalize p = (if out = CleanPath False [] then [slash] else render out)"
    by (auto simp: normalize_def Let_def assms)
qed

lemma normalize_normalized: "normalized (normalize p)"
proof -
  define out where "out = fold (\<lambda>c out. normalize_step out c) (path_components p) (CleanPath False [])"
  note n = normalize_clean [OF out_def]
  show ?thesis
  proof (cases "out = CleanPath False []")
    case True
    then have "normalize p = root_path []" using n(1) by (simp add: render_def)
    then show ?thesis unfolding normalized_def by (intro exI [of _ True] exI [of _ "[]"]) simp
  next
    case False
    then show ?thesis using n unfolding normalized_def by (cases out) auto
  qed
qed

section \<open>Canonical paths have no links\<close>

definition real_node :: "file_system \<Rightarrow> bytes \<Rightarrow> bool" where
  "real_node fs p = (case fs_lstat fs p of Inr m \<Rightarrow> meta_type m \<noteq> HSymlink | Inl _ \<Rightarrow> False)"

definition real_path :: "file_system \<Rightarrow> bytes list \<Rightarrow> bool" where
  "real_path fs ns \<longleftrightarrow> list_all (\<lambda>k. real_node fs (root_path (take (Suc k) ns))) [0..<length ns]"

lemma push_root_path:
  assumes "plain_name n" "list_all plain_name ns"
  shows "path_push (root_path ns) n = root_path (ns @ [n])"
proof -
  have "\<not> is_absolute n" using plain_name_ends [OF assms(1)] by (simp add: is_absolute_def)
  moreover have "join_names (ns @ [n]) = (if ns = [] then n else join_names ns @ slash # n)"
    by (induction ns rule: join_names.induct) auto
  ultimately show ?thesis using join_names_ends [OF assms(2)] by (auto simp: path_push_def render_def)
qed

lemma walk_names:
  assumes "walk fs (root_path pre) (map Normal ns) = WalkDone r"
    and "list_all plain_name (pre @ ns)" "real_path fs pre"
  shows "r = root_path (pre @ ns) \<and> real_path fs (pre @ ns)"
  using assms
proof (induction ns arbitrary: pre)
  case (Cons n ns)
  have push: "path_push (root_path pre) n = root_path (pre @ [n])"
    using push_root_path [of n pre] Cons.prems(2) by simp
  have step: "real_node fs (root_path (pre @ [n]))" "walk fs (root_path (pre @ [n])) (map Normal ns) = WalkDone r"
    using Cons.prems(1) push by (auto simp: Let_def real_node_def split: sum.splits if_splits)
  have "real_path fs (pre @ [n])" using step(1) Cons.prems(3) by (auto simp: real_path_def list_all_iff)
  then show ?case using Cons.IH [OF step(2)] Cons.prems(2) by simp
qed simp

lemma walk_normalized:
  assumes "normalized current" "walk fs [slash] (path_components current) = WalkDone r"
  shows "\<exists>ns. r = root_path ns \<and> list_all plain_name ns \<and> real_path fs ns"
proof -
  obtain b ns where ns: "current = render (CleanPath b ns)" "list_all plain_name ns" "b \<or> ns \<noteq> []"
    using assms(1) by (auto simp: normalized_def)
  have root: "root_path [] = [slash]" "path_push [slash] [slash] = [slash]"
    by (simp_all add: render_def path_push_def is_absolute_def)
  have "walk fs (root_path []) (map Normal ns) = WalkDone r"
    using assms(2) components_clean [OF ns(2, 3)] ns(1) root
    by (cases b) (auto simp: Let_def split: sum.splits if_splits)
  then show ?thesis using walk_names [of fs "[]" ns r] ns(2) by (auto simp: real_path_def)
qed

lemma canonical_loop_real:
  "canonical_loop fs hops current = Inr r \<Longrightarrow> normalized current \<Longrightarrow>
     \<exists>ns. r = root_path ns \<and> list_all plain_name ns \<and> real_path fs ns"
proof (induction fs hops current rule: canonical_loop.induct)
  case (1 fs hops current)
  show ?case
  proof (cases "walk fs [slash] (path_components current)")
    case (WalkDone q)
    then show ?thesis using 1(2, 3) walk_normalized [OF 1(3) WalkDone] by (simp add: canonical_loop.simps [of fs hops])
  next
    case (WalkLink result nxt rest)
    then obtain target where "\<not> Suc hops > MAX_SYMLINK_HOPS" "fs_read_link fs nxt = Inr target"
      "canonical_loop fs (Suc hops) (splice_target result target rest) = Inr r"
      using 1(2) by (auto simp: canonical_loop.simps [of fs hops] split: if_splits sum.splits)
    then show ?thesis
      using 1(1) [OF WalkLink] normalize_normalized by (auto simp: splice_target_def)
  qed (use 1(2) in \<open>simp add: canonical_loop.simps [of fs hops]\<close>)
qed

lemma canonicalize_real:
  "canonicalize fs p = Inr r \<Longrightarrow> \<exists>ns. r = root_path ns \<and> list_all plain_name ns \<and> real_path fs ns"
  unfolding canonicalize_def by (rule canonical_loop_real [OF _ normalize_normalized])

section \<open>Confinement\<close>

lemma components_root_path: "list_all plain_name ns \<Longrightarrow> path_components (root_path ns) = RootDir # map Normal ns"
  using components_clean [of ns True] by simp

lemma starts_with_root_path:
  assumes "list_all plain_name ns" "list_all plain_name rs"
  shows "os_path_starts_with (root_path ns) (root_path rs) \<longleftrightarrow> prefix rs ns"
proof -
  have "take (length rs) (map Normal ns) = map Normal rs \<longleftrightarrow> take (length rs) ns = rs"
    by (simp add: take_map inj_map_eq_map inj_def)
  also have "\<dots> \<longleftrightarrow> prefix rs ns" by (metis append_take_drop_id prefixI append_eq_conv_conj prefixE)
  finally show ?thesis
    using assms by (simp add: os_path_starts_with_def components_root_path)
qed

lemma confine_to_root_iff:
  assumes "canonicalize fs path = Inr (root_path ns)" "canonicalize fs root = Inr (root_path rs)"
    and "list_all plain_name ns" "list_all plain_name rs"
  shows "confine_to_root fs root path = (if prefix rs ns then Inr (root_path ns) else Inl PathEscapeRejected)"
proof -
  have "map Normal ns = map Normal rs \<Longrightarrow> ns = rs" by (simp add: inj_map_eq_map inj_def)
  then show ?thesis
    using assms starts_with_root_path [OF assms(3, 4)]
    by (auto simp: confine_to_root_def components_root_path)
qed

text \<open>A file system with one directory \<^verbatim>\<open>/v\<close> of interest, in which \<^verbatim>\<open>/v/l\<close> is a link to \<^verbatim>\<open>/e\<close>.\<close>

definition demo_meta :: "u32 \<Rightarrow> meta" where
  "demo_meta mode = \<lparr>meta_mode = mode, meta_len = 0, meta_mtime = 0, meta_uid = 0, meta_gid = 0\<rparr>"

definition demo_fs :: file_system where
  "demo_fs =
     \<lparr>fs_lstat = (\<lambda>p. Inr (demo_meta (if p = ascii ''/v/l'' then 0xA1FF else 0x41ED))),
      fs_stat = (\<lambda>p. Inr (demo_meta 0x41ED)),
      fs_read_link = (\<lambda>p. if p = ascii ''/v/l'' then Inr (ascii ''/e'') else Inl IoOther),
      fs_read_dir = (\<lambda>p. Inr [])\<rparr>"

lemma demo_confined: "confine_to_root demo_fs (ascii ''/v'') (ascii ''/v/x/../f'') = Inr (ascii ''/v/f'')"
  by code_simp

lemma demo_escape: "confine_to_root demo_fs (ascii ''/v'') (ascii ''/v/l'') = Inl PathEscapeRejected"
  by code_simp

text \<open>C23. Reads stay below the browse root: when \<^verbatim>\<open>confine_to_root\<close> accepts a path, the path it returns is
  the canonical root followed by plain names (none empty, \<^verbatim>\<open>.\<close>, \<^verbatim>\<open>..\<close> or with a slash), and every
  directory on it and its end exist and are not symbolic links, so opening it cannot leave the root.\<close>

theorem confined_path_below_root:
  assumes "confine_to_root fs root path = Inr q"
  shows "\<exists>rs ns. canonicalize fs root = Inr (root_path rs) \<and> q = root_path (rs @ ns)
    \<and> list_all plain_name (rs @ ns) \<and> real_path fs (rs @ ns)"
proof -
  obtain c r where c: "canonicalize fs path = Inr c" "canonicalize fs root = Inr r"
    using assms by (auto simp: confine_to_root_def split: sum.splits)
  obtain cs where cs: "c = root_path cs" "list_all plain_name cs" "real_path fs cs"
    using canonicalize_real [OF c(1)] by blast
  obtain rs where rs: "r = root_path rs" "list_all plain_name rs"
    using canonicalize_real [OF c(2)] by blast
  have pre: "prefix rs cs" "q = root_path cs"
    using assms confine_to_root_iff [of fs path cs root rs] c cs rs by (auto split: if_splits)
  then obtain ns where "cs = rs @ ns" by (auto simp: prefix_def)
  then show ?thesis using pre(2) cs(2, 3) rs(1) c(2) by (intro exI [of _ rs] exI [of _ ns]) simp
qed

theorem confined_path_below_root_witness:
  "\<exists>rs ns. canonicalize demo_fs (ascii ''/v'') = Inr (root_path rs) \<and> ascii ''/v/f'' = root_path (rs @ ns)
    \<and> list_all plain_name (rs @ ns) \<and> real_path demo_fs (rs @ ns)"
  by (rule confined_path_below_root [OF demo_confined])

text \<open>
  A token joined to a root never leaves it lexically: the components of the result are those of the root
  followed by plain names.
\<close>

lemma part_components_append: "part_components (xs @ ys) = part_components xs @ part_components ys"
  by (simp add: part_components_def)

lemma path_components_extend:
  assumes "root \<noteq> []" "split_on slash p = split_on slash root @ parts" "is_absolute p = is_absolute root"
  shows "path_components p = path_components root @ part_components parts"
proof -
  obtain x xs where "split_on slash root = x # xs" by (meson list.exhaust split_on_not_Nil)
  then show ?thesis using assms(2, 3)
    by (simp add: path_components_def Let_def) (simp add: part_components_def)
qed

lemma plain_component_name: "plain_component c \<Longrightarrow> slash \<notin> set c \<Longrightarrow> plain_name c"
  by (simp add: plain_component_def plain_name_def)

lemma resolve_token_components:
  assumes "root \<noteq> []" "resolve_token root token = Inr p"
  shows "\<exists>ns. list_all plain_name ns \<and> path_components p = path_components root @ map Normal ns"
proof -
  obtain rel where rel: "decode_relative (FilesystemPathToken token) = Inr rel"
    "p = (if rel \<noteq> [] then (if root = [] \<or> last root \<noteq> slash then root @ [slash] else root) @ rel else root)"
    using assms(2) by (auto simp: resolve_token_def split: sum.splits)
  show ?thesis
  proof (cases "rel = []")
    case True
    then show ?thesis using rel(2) by (intro exI [of _ "[]"]) simp
  next
    case False
    let ?ns = "split_on slash rel"
    have plain: "list_all plain_name ?ns"
      using decode_relative_ok [OF rel(1)] False split_on_parts [of _ slash rel]
      by (auto simp: relative_ok_def list_all_iff intro: plain_component_name)
    have abs: "is_absolute (root @ x) = is_absolute root" for x
      using assms(1) by (cases root) (simp_all add: is_absolute_def)
    have "path_components p = path_components root @ part_components ?ns"
    proof (cases "last root = slash")
      case slash: True
      then obtain r where r: "root = r @ [slash]" using assms(1) by (metis append_butlast_last_id)
      have p: "p = r @ slash # rel" using rel(2) False slash r by simp
      have "split_on slash p = split_on slash r @ ?ns" "split_on slash root = split_on slash r @ [[]]"
        using split_on_append_sep [of slash r rel] split_on_append_sep [of slash r "[]"] p r by simp_all
      moreover obtain x xs where "split_on slash r = x # xs" by (meson list.exhaust split_on_not_Nil)
      moreover have "is_absolute p = is_absolute root" using abs [of rel] p r by simp
      ultimately show ?thesis
        by (simp add: path_components_def Let_def) (simp add: part_components_def part_kept_def)
    next
      case noslash: False
      then have p: "p = root @ slash # rel" using rel(2) False assms(1) by simp
      then show ?thesis
        using path_components_extend [OF assms(1), of p ?ns] split_on_append_sep [of slash root rel] abs by simp
    qed
    then show ?thesis using plain part_components_plain [OF plain] by auto
  qed
qed

text \<open>
  \<^verbatim>\<open>token_under_root\<close> compares bytes, not components: a path beside the root whose name merely starts
  with the root's bytes is not rejected as an escape but turned into a token of another file.
\<close>

lemma token_under_root_crosses_components:
  "\<exists>token. token_under_root (ascii ''/vol'') (ascii ''/volume/x'') = Inr token
     \<and> decode_relative token = Inr (ascii ''ume/x'')"
proof -
  have "relative_ok (ascii ''ume/x'')" by (simp add: relative_ok_def plain_component_def ascii_def)
  then obtain token where t: "encode_relative (ascii ''ume/x'') = Inr token" by (auto simp: encode_relative_iff)
  have "token_under_root (ascii ''/vol'') (ascii ''/volume/x'') = Inr token"
    using t by (simp add: token_under_root_def strip_prefix_bytes_def ascii_def)
  then show ?thesis using decode_encode_relative [OF t] by blast
qed

end
