(* ===== verification/Sha256.thy ===== *)
theory Sha256
  imports Prelude
begin

text \<open>
  The hand-written streaming SHA-256 of the filesystem helper, \<^verbatim>\<open>tuxstack-fs-helper/src/hash.rs\<close>. The
  64-byte block buffer is kept as the array it is, stale bytes included; the length counter wraps at
  64 bits. The reference is the padded message cut into blocks.
\<close>

unbundle bit_operations_syntax

section \<open>The hasher\<close>

record sha256 =
  sha_state :: "u32 list"
  sha_buffer :: bytes
  buffer_len :: nat
  sha_total :: u64

text \<open>The round constants, a row of the table per line.\<close>

definition SHA_K :: "u32 list" where
  "SHA_K = concat [
    [0x428a2f98, 0x71374491, 0xb5c0fbcf, 0xe9b5dba5, 0x3956c25b, 0x59f111f1, 0x923f82a4, 0xab1c5ed5],
    [0xd807aa98, 0x12835b01, 0x243185be, 0x550c7dc3, 0x72be5d74, 0x80deb1fe, 0x9bdc06a7, 0xc19bf174],
    [0xe49b69c1, 0xefbe4786, 0x0fc19dc6, 0x240ca1cc, 0x2de92c6f, 0x4a7484aa, 0x5cb0a9dc, 0x76f988da],
    [0x983e5152, 0xa831c66d, 0xb00327c8, 0xbf597fc7, 0xc6e00bf3, 0xd5a79147, 0x06ca6351, 0x14292967],
    [0x27b70a85, 0x2e1b2138, 0x4d2c6dfc, 0x53380d13, 0x650a7354, 0x766a0abb, 0x81c2c92e, 0x92722c85],
    [0xa2bfe8a1, 0xa81a664b, 0xc24b8b70, 0xc76c51a3, 0xd192e819, 0xd6990624, 0xf40e3585, 0x106aa070],
    [0x19a4c116, 0x1e376c08, 0x2748774c, 0x34b0bcb5, 0x391c0cb3, 0x4ed8aa4a, 0x5b9cca4f, 0x682e6ff3],
    [0x748f82ee, 0x78a5636f, 0x84c87814, 0x8cc70208, 0x90befffa, 0xa4506ceb, 0xbef9a3f7, 0xc67178f2]]"

definition sha_initial :: "u32 list" where
  "sha_initial = [0x6a09e667, 0xbb67ae85, 0x3c6ef372, 0xa54ff53a,
    0x510e527f, 0x9b05688c, 0x1f83d9ab, 0x5be0cd19]"

definition sha_new :: sha256 where
  "sha_new = \<lparr>sha_state = sha_initial, sha_buffer = replicate 64 0, buffer_len = 0, sha_total = 0\<rparr>"

definition be_word :: "bytes \<Rightarrow> u32" where
  "be_word c = push_bit 24 (ucast (c ! 0)) OR push_bit 16 (ucast (c ! 1)) OR push_bit 8 (ucast (c ! 2)) OR ucast (c ! 3)"

text \<open>The message schedule: sixteen words of the block, then the recurrence, appended one at a time.\<close>

definition schedule_word :: "u32 list \<Rightarrow> u32" where
  "schedule_word w =
     (let i = length w;
          s0 = word_rotr 7 (w ! (i - 15)) XOR word_rotr 18 (w ! (i - 15)) XOR drop_bit 3 (w ! (i - 15));
          s1 = word_rotr 17 (w ! (i - 2)) XOR word_rotr 19 (w ! (i - 2)) XOR drop_bit 10 (w ! (i - 2))
      in w ! (i - 16) + s0 + w ! (i - 7) + s1)"

definition schedule :: "bytes \<Rightarrow> u32 list" where
  "schedule block =
     ((\<lambda>w. w @ [schedule_word w]) ^^ 48) (map (\<lambda>i. be_word (take 4 (drop (4 * i) block))) [0..<16])"

definition sha_round :: "u32 \<times> u32 \<Rightarrow> u32 list \<Rightarrow> u32 list" where
  "sha_round kw v =
     (case v of
        [a, b, c, d, e, f, g, h] \<Rightarrow>
          (let s1 = word_rotr 6 e XOR word_rotr 11 e XOR word_rotr 25 e;
               ch = (e AND f) XOR (NOT e AND g);
               t1 = h + s1 + ch + fst kw + snd kw;
               s0 = word_rotr 2 a XOR word_rotr 13 a XOR word_rotr 22 a;
               maj = (a AND b) XOR (a AND c) XOR (b AND c);
               t2 = s0 + maj
           in [t1 + t2, a, b, c, d + t1, e, f, g])
      | _ \<Rightarrow> v)"

definition compress :: "u32 list \<Rightarrow> bytes \<Rightarrow> u32 list" where
  "compress state block = map2 (+) state (fold sha_round (zip SHA_K (schedule block)) state)"

text \<open>The block loop of \<^verbatim>\<open>update\<close>: compress whole blocks, keep the rest.\<close>

function absorb :: "u32 list \<Rightarrow> bytes \<Rightarrow> u32 list \<times> bytes" where
  "absorb state data =
     (if 64 \<le> length data then absorb (compress state (take 64 data)) (drop 64 data) else (state, data))"
  by pat_completeness auto
termination by (relation "measure (\<lambda>(s, d). length d)") auto

declare absorb.simps [simp del]

definition sha_update :: "bytes \<Rightarrow> sha256 \<Rightarrow> sha256" where
  "sha_update data0 h0 =
     (let h1 = h0\<lparr>sha_total := sha_total h0 + word_of_nat (length data0)\<rparr>;
          (h2, data1) =
            (if 0 < buffer_len h1 then
               (let space = 64 - buffer_len h1;
                    n = min space (length data0);
                    buffer = take (buffer_len h1) (sha_buffer h1) @ take n data0
                      @ drop (buffer_len h1 + n) (sha_buffer h1);
                    len = buffer_len h1 + n
                in (if len = 64 then h1\<lparr>sha_state := compress (sha_state h1) buffer, sha_buffer := buffer, buffer_len := 0\<rparr>
                    else h1\<lparr>sha_buffer := buffer, buffer_len := len\<rparr>, drop n data0))
             else (h1, data0));
          (state, data2) = absorb (sha_state h2) data1;
          h3 = h2\<lparr>sha_state := state\<rparr>
      in if data2 \<noteq> [] then
           h3\<lparr>sha_buffer := data2 @ drop (length data2) (sha_buffer h3), buffer_len := length data2\<rparr>
         else h3)"

text \<open>\<^verbatim>\<open>while self.buffer_len != 56 { self.update(&[0]) }\<close>; 64 rounds are always enough.\<close>

fun pad_loop :: "nat \<Rightarrow> sha256 \<Rightarrow> sha256 option" where
  "pad_loop 0 h = None"
| "pad_loop (Suc fuel) h = (if buffer_len h = 56 then Some h else pad_loop fuel (sha_update [0] h))"

definition be_bytes64 :: "u64 \<Rightarrow> bytes" where
  "be_bytes64 w = map (\<lambda>i. ucast (drop_bit (56 - 8 * i) w)) [0..<8]"

definition be_bytes32 :: "u32 \<Rightarrow> bytes" where
  "be_bytes32 w = map (\<lambda>i. ucast (drop_bit (24 - 8 * i) w)) [0..<4]"

definition sha_finish :: "sha256 \<Rightarrow> bytes option" where
  "sha_finish h =
     (let bit_len = sha_total h * 8
      in case pad_loop 64 (sha_update [0x80] h) of
           None \<Rightarrow> None
         | Some h1 \<Rightarrow> Some (concat (map be_bytes32 (sha_state (sha_update (be_bytes64 bit_len) h1)))))"

text \<open>\<^verbatim>\<open>hex\<close>: two lower-case digits per byte.\<close>

definition hex_digit :: "nat \<Rightarrow> byte" where
  "hex_digit n = (if n < 10 then word_of_nat (48 + n) else word_of_nat (87 + n))"

definition sha_hex :: "bytes \<Rightarrow> bytes" where
  "sha_hex bs = concat (map (\<lambda>b. [hex_digit (unat b div 16), hex_digit (unat b mod 16)]) bs)"

section \<open>Absorbing\<close>

lemma absorb_short: "length data < 64 \<Longrightarrow> absorb st data = (st, data)"
  by (simp add: absorb.simps)

lemma absorb_block: "length b = 64 \<Longrightarrow> absorb st (b @ data) = absorb (compress st b) data"
  by (simp add: absorb.simps [of st "b @ data"])

lemma absorb_rest: "absorb st data = (st', rest) \<Longrightarrow> length rest = length data mod 64"
proof (induction st data rule: absorb.induct)
  case (1 st data)
  then show ?case
    by (cases "64 \<le> length data") (auto simp: absorb.simps [of st data] le_mod_geq)
qed

lemma absorb_append: "absorb st (xs @ ys) = (case absorb st xs of (st', rest) \<Rightarrow> absorb st' (rest @ ys))"
proof (induction st xs rule: absorb.induct)
  case (1 st xs)
  show ?case
  proof (cases "64 \<le> length xs")
    case True
    have "absorb st (xs @ ys) = absorb (compress st (take 64 xs)) (drop 64 xs @ ys)"
      using True absorb_block [of "take 64 xs" st "drop 64 xs @ ys"]
      by (simp flip: append_assoc)
    also have "\<dots> = (case absorb (compress st (take 64 xs)) (drop 64 xs) of (st', rest) \<Rightarrow> absorb st' (rest @ ys))"
      by (rule "1.IH" [OF True])
    also have "absorb (compress st (take 64 xs)) (drop 64 xs) = absorb st xs"
      using True by (simp add: absorb.simps [of st xs])
    finally show ?thesis .
  next
    case False
    then show ?thesis by (simp add: absorb_short)
  qed
qed

text \<open>What a hasher stands for after a message: the state of its whole blocks, and the rest buffered.\<close>

definition represents :: "sha256 \<Rightarrow> bytes \<Rightarrow> bool" where
  "represents h msg \<longleftrightarrow> length (sha_buffer h) = 64 \<and> buffer_len h < 64
     \<and> absorb sha_initial msg = (sha_state h, take (buffer_len h) (sha_buffer h))
     \<and> sha_total h = word_of_nat (length msg)"

lemma represents_new: "represents sha_new []"
  by (simp add: represents_def sha_new_def absorb_short)

lemma represents_len: "represents h msg \<Longrightarrow> buffer_len h = length msg mod 64"
  using absorb_rest [of sha_initial msg] by (auto simp: represents_def)

lemma absorb_rest_less: "absorb st data = (st', rest) \<Longrightarrow> length rest < 64"
  using absorb_rest [of st data st' rest] by simp

text \<open>The two halves of \<^verbatim>\<open>update\<close>: filling a started block, then whole blocks and the rest.\<close>

definition fill_block :: "bytes \<Rightarrow> sha256 \<Rightarrow> sha256 \<times> bytes" where
  "fill_block data0 h1 =
     (if 0 < buffer_len h1 then
        (let space = 64 - buffer_len h1;
             n = min space (length data0);
             buffer = take (buffer_len h1) (sha_buffer h1) @ take n data0
               @ drop (buffer_len h1 + n) (sha_buffer h1);
             len = buffer_len h1 + n
         in (if len = 64 then h1\<lparr>sha_state := compress (sha_state h1) buffer, sha_buffer := buffer, buffer_len := 0\<rparr>
             else h1\<lparr>sha_buffer := buffer, buffer_len := len\<rparr>, drop n data0))
      else (h1, data0))"

definition take_blocks :: "bytes \<Rightarrow> sha256 \<Rightarrow> sha256" where
  "take_blocks data1 h2 =
     (let (state, data2) = absorb (sha_state h2) data1;
          h3 = h2\<lparr>sha_state := state\<rparr>
      in if data2 \<noteq> [] then
           h3\<lparr>sha_buffer := data2 @ drop (length data2) (sha_buffer h3), buffer_len := length data2\<rparr>
         else h3)"

lemma sha_update_eq:
  "sha_update data h =
     (case fill_block data (h\<lparr>sha_total := sha_total h + word_of_nat (length data)\<rparr>) of (h2, rest) \<Rightarrow> take_blocks rest h2)"
  by (simp add: sha_update_def fill_block_def take_blocks_def Let_def)

lemma take_blocks_repr:
  assumes "length (sha_buffer h) = 64" "buffer_len h = 0 \<or> data = [] \<and> buffer_len h < 64"
  defines "h' \<equiv> take_blocks data h"
  shows "length (sha_buffer h') = 64" "buffer_len h' < 64" "sha_total h' = sha_total h"
    and "(sha_state h', take (buffer_len h') (sha_buffer h'))
       = absorb (sha_state h) (take (buffer_len h) (sha_buffer h) @ data)"
proof -
  obtain st rest where ab: "absorb (sha_state h) data = (st, rest)" by fastforce
  have "length rest < 64" by (rule absorb_rest_less [OF ab])
  moreover have "absorb (sha_state h) [] = (sha_state h, [])" by (simp add: absorb_short)
  ultimately show "length (sha_buffer h') = 64" "buffer_len h' < 64" "sha_total h' = sha_total h"
      "(sha_state h', take (buffer_len h') (sha_buffer h'))
         = absorb (sha_state h) (take (buffer_len h) (sha_buffer h) @ data)"
    using assms(1, 2) ab by (auto simp: h'_def take_blocks_def Let_def absorb_short)
qed

lemma fill_block_repr:
  assumes "length (sha_buffer h) = 64" "buffer_len h < 64" "fill_block data h = (h', rest)"
  shows "length (sha_buffer h') = 64" "buffer_len h' = 0 \<or> rest = [] \<and> buffer_len h' < 64"
    and "sha_total h' = sha_total h"
    and "absorb (sha_state h') (take (buffer_len h') (sha_buffer h') @ rest)
       = absorb (sha_state h) (take (buffer_len h) (sha_buffer h) @ data)"
proof -
  let ?b = "buffer_len h" and ?n = "min (64 - buffer_len h) (length data)"
  let ?buf = "take ?b (sha_buffer h) @ take ?n data @ drop (?b + ?n) (sha_buffer h)"
  have *: "length (sha_buffer h') = 64 \<and> (buffer_len h' = 0 \<or> rest = [] \<and> buffer_len h' < 64)
     \<and> sha_total h' = sha_total h
     \<and> absorb (sha_state h') (take (buffer_len h') (sha_buffer h') @ rest)
       = absorb (sha_state h) (take ?b (sha_buffer h) @ data)"
  proof (cases "0 < ?b")
    case False
    then show ?thesis using assms by (auto simp: fill_block_def)
  next
    case True
    show ?thesis
    proof (cases "?b + ?n = 64")
      case full: True
      then have buf: "length ?buf = 64" "?buf = take ?b (sha_buffer h) @ take ?n data" using assms(1, 2) by auto
      have "absorb (sha_state h) (take ?b (sha_buffer h) @ data) = absorb (sha_state h) (?buf @ drop ?n data)"
        using buf(2) by simp
      also have "\<dots> = absorb (compress (sha_state h) ?buf) (drop ?n data)"
        by (rule absorb_block [OF buf(1)])
      finally show ?thesis using assms True full buf(1) by (auto simp: fill_block_def Let_def)
    next
      case False
      then have n: "?n = length data" "?b + length data < 64" using assms(2) by auto
      then show ?thesis using assms True False by (auto simp: fill_block_def Let_def)
    qed
  qed
  then show "length (sha_buffer h') = 64" "buffer_len h' = 0 \<or> rest = [] \<and> buffer_len h' < 64"
    "sha_total h' = sha_total h"
    "absorb (sha_state h') (take (buffer_len h') (sha_buffer h') @ rest)
       = absorb (sha_state h) (take (buffer_len h) (sha_buffer h) @ data)" by blast+
qed

lemma represents_update:
  assumes "represents h msg"
  shows "represents (sha_update data h) (msg @ data)"
proof -
  let ?h1 = "h\<lparr>sha_total := sha_total h + word_of_nat (length data)\<rparr>"
  obtain h2 rest where f: "fill_block data ?h1 = (h2, rest)" by fastforce
  have h1: "length (sha_buffer ?h1) = 64" "buffer_len ?h1 < 64" using assms by (simp_all add: represents_def)
  note fr = fill_block_repr [OF h1 f]
  note tr = take_blocks_repr [OF fr(1, 2)]
  have "absorb sha_initial (msg @ data) = absorb (sha_state h) (take (buffer_len h) (sha_buffer h) @ data)"
    using assms absorb_append [of sha_initial msg data] by (simp add: represents_def)
  then have "absorb sha_initial (msg @ data) =
      (sha_state (take_blocks rest h2), take (buffer_len (take_blocks rest h2)) (sha_buffer (take_blocks rest h2)))"
    using tr(4) fr(4) by simp
  moreover have "sha_total (take_blocks rest h2) = word_of_nat (length (msg @ data))"
    using tr(3) fr(3) assms by (simp add: represents_def)
  moreover have "sha_update data h = take_blocks rest h2" by (simp add: sha_update_eq f)
  ultimately show ?thesis using tr(1, 2) by (simp only: represents_def)
qed

lemma represents_fold:
  "represents h msg \<Longrightarrow> represents (fold sha_update chunks h) (msg @ concat chunks)"
proof (induction chunks arbitrary: h msg)
  case (Cons c cs)
  from Cons.IH [OF represents_update [OF Cons.prems, of c]] show ?case by simp
qed simp

section \<open>Padding\<close>

lemma pad_loop_represents:
  assumes "represents h msg" "(56 + 64 - length msg mod 64) mod 64 < fuel"
  shows "\<exists>h'. pad_loop fuel h = Some h'
    \<and> represents h' (msg @ replicate ((56 + 64 - length msg mod 64) mod 64) 0)"
  using assms
proof (induction fuel arbitrary: h msg)
  case (Suc fuel)
  have len: "buffer_len h = length msg mod 64" by (rule represents_len [OF Suc.prems(1)])
  show ?case
  proof (cases "length msg mod 64 = 56")
    case True
    then show ?thesis using Suc.prems(1) len by simp
  next
    case False
    let ?k = "\<lambda>n :: nat. (56 + 64 - n mod 64) mod 64"
    have k: "?k (length msg) = Suc (?k (length (msg @ [0 :: byte])))"
    proof -
      have "n < 64 \<Longrightarrow> n \<noteq> 56 \<Longrightarrow> (56 + 64 - n) mod 64 = Suc ((56 + 64 - Suc n mod 64) mod 64)" for n :: nat
        by (cases "n = 63"; cases "n < 56") (auto simp: mod_if)
      from this [of "length msg mod 64"] False show ?thesis by (simp add: mod_Suc_eq)
    qed
    then have "?k (length (msg @ [0 :: byte])) < fuel" using Suc.prems(2) by simp
    from Suc.IH [OF represents_update [OF Suc.prems(1), of "[0]"] this]
    show ?thesis using False len k by (simp add: replicate_app_Cons_same)
  qed
qed simp

text \<open>The reference: pad the whole message, cut it into blocks, compress them in order.\<close>

definition sha_padded :: "bytes \<Rightarrow> bytes" where
  "sha_padded msg =
     msg @ [0x80] @ replicate ((56 + 64 - Suc (length msg) mod 64) mod 64) 0
     @ be_bytes64 (word_of_nat (length msg) * 8)"

definition sha256_reference :: "bytes \<Rightarrow> bytes" where
  "sha256_reference msg = concat (map be_bytes32 (fst (absorb sha_initial (sha_padded msg))))"

lemma sha_padded_blocks: "length (sha_padded msg) mod 64 = 0"
proof -
  have "(n + (120 - n mod 64) mod 64 + 8) mod 64 = (0 :: nat)" for n
  proof -
    have "n mod 64 < 64" "n = 64 * (n div 64) + n mod 64" by simp_all
    then have "n + (120 - n mod 64) = 64 * (n div 64) + 120" by linarith
    then have *: "(n + (120 - n mod 64)) mod 64 = 56" by simp
    have "(n + (120 - n mod 64) mod 64 + 8) mod 64 = ((n + (120 - n mod 64)) mod 64 + 8) mod 64"
      by (metis mod_add_left_eq mod_add_right_eq)
    then show ?thesis unfolding * by simp
  qed
  from this [of "Suc (length msg)"] have "(Suc (length msg) + (120 - Suc (length msg) mod 64) mod 64 + 8) mod 64 = 0" .
  then show ?thesis by (simp add: sha_padded_def be_bytes64_def add.commute add.left_commute)
qed

text \<open>The streaming hash is the hash of the whole: in whatever pieces a file is read, hashing the pieces
  returns, and what it returns is the digest of their concatenation: the message padded to whole
  blocks (a one bit, zeros, the bit length modulo two to the 64) and compressed block by block.\<close>

lemma sha256_streaming_correct:
  "sha_finish (fold sha_update chunks sha_new) = Some (sha256_reference (concat chunks))"
proof -
  let ?msg = "concat chunks" and ?h = "fold sha_update chunks sha_new"
  let ?k = "(56 + 64 - Suc (length ?msg) mod 64) mod 64"
  have h: "represents ?h ?msg" using represents_fold [OF represents_new] by simp
  obtain h1 where h1: "pad_loop 64 (sha_update [0x80] ?h) = Some h1"
    "represents h1 ((?msg @ [0x80]) @ replicate ?k 0)"
    using pad_loop_represents [OF represents_update [OF h, of "[0x80]"], of 64] by auto
  let ?h2 = "sha_update (be_bytes64 (sha_total ?h * 8)) h1"
  have total: "sha_total ?h = word_of_nat (length ?msg)" using h by (simp add: represents_def)
  have "represents ?h2 (sha_padded ?msg)"
    using represents_update [OF h1(2), of "be_bytes64 (sha_total ?h * 8)"] total
    by (simp add: sha_padded_def)
  then have "fst (absorb sha_initial (sha_padded ?msg)) = sha_state ?h2" by (simp add: represents_def)
  then show ?thesis using h1(1) by (simp add: sha_finish_def sha256_reference_def)
qed

end
