(* ===== verification/Helper_Commands.thy ===== *)
theory Helper_Commands
  imports Helper_Path Sha256 Protocol
begin

text \<open>
  The commands of the filesystem helper, \<^verbatim>\<open>tuxstack-fs-helper/src\<close>: \<^verbatim>\<open>list.rs\<close>, \<^verbatim>\<open>stat.rs\<close>,
  \<^verbatim>\<open>metadata.rs\<close>, \<^verbatim>\<open>preview.rs\<close>, \<^verbatim>\<open>hash.rs\<close> and the dispatch of \<^verbatim>\<open>main.rs\<close>. A command gives the
  messages it has emitted and how it ended; ending in a panic is a value of its own. An opened file is
  the sequence of what its reads meet, as for the frame reader.
\<close>

section \<open>Messages\<close>

record entry_fields =
  field_type :: helper_file_type
  field_size :: "u64 option"
  field_mtime :: "int option"
  field_mode :: "u32 option"
  field_uid :: "u32 option"
  field_gid :: "u32 option"
  symlink_target_b64 :: "bytes option"
  readable :: bool

datatype helper_message =
  MsgHello u32 bytes
| MsgEntry bytes bytes entry_fields
| MsgStat bytes entry_fields
| MsgPreviewChunk bytes u64 bool bool
| MsgHash bytes bytes
| MsgResolved bytes
| MsgEnd bool "bytes option"
| MsgError helper_error_code

datatype command_end = Finished | Failed helper_error_code | Panicked

type_synonym command_result = "helper_message list \<times> command_end"

definition fail :: "helper_error_code \<Rightarrow> command_result" where
  "fail e = ([], Failed e)"

text \<open>The \<^verbatim>\<open>?\<close> operator before anything has been emitted.\<close>

definition attempt :: "helper_error_code + 'a \<Rightarrow> ('a \<Rightarrow> command_result) \<Rightarrow> command_result" where
  "attempt r f = (case r of Inl e \<Rightarrow> fail e | Inr v \<Rightarrow> f v)"

definition attempt_io :: "io_kind + 'a \<Rightarrow> ('a \<Rightarrow> command_result) \<Rightarrow> command_result" where
  "attempt_io r f = attempt (map_sum from_io id r) f"

section \<open>Metadata\<close>

unbundle bit_operations_syntax

definition is_readable :: "meta \<Rightarrow> bool" where
  "is_readable m \<longleftrightarrow> meta_mode m AND 0x124 \<noteq> 0"

definition message_fields :: "file_system \<Rightarrow> bytes \<Rightarrow> meta \<Rightarrow> helper_error_code + entry_fields" where
  "message_fields fs path m =
     (let file_type = meta_type m;
          with_target = (\<lambda>target. \<lparr>field_type = file_type,
            field_size = (if helper_is_directory file_type then None else Some (meta_len m)),
            field_mtime = Some (meta_mtime m), field_mode = Some (meta_mode m AND 0xFFF),
            field_uid = Some (meta_uid m), field_gid = Some (meta_gid m),
            symlink_target_b64 = target, readable = is_readable m\<rparr>)
      in if file_type = HSymlink then
           (case fs_read_link fs path of
              Inl e \<Rightarrow> Inl (from_io e)
            | Inr target \<Rightarrow> Inr (with_target (Some (encode_base64 target))))
         else Inr (with_target None))"

definition entry_message ::
    "file_system \<Rightarrow> bytes \<Rightarrow> bytes \<Rightarrow> bytes \<Rightarrow> meta \<Rightarrow> helper_error_code + helper_message" where
  "entry_message fs path name_raw parent_relative m =
     (case message_fields fs path m of
        Inl e \<Rightarrow> Inl e
      | Inr flds \<Rightarrow>
          (case child_token parent_relative name_raw of
             Inl e \<Rightarrow> Inl e
           | Inr token \<Rightarrow> Inr (MsgEntry (encode_base64 name_raw) (token_string token) flds)))"

definition stat_message :: "file_system \<Rightarrow> bytes \<Rightarrow> bytes \<Rightarrow> meta \<Rightarrow> helper_error_code + helper_message" where
  "stat_message fs path token m =
     (case message_fields fs path m of Inl e \<Rightarrow> Inl e | Inr flds \<Rightarrow> Inr (MsgStat token flds))"

definition run_stat :: "file_system \<Rightarrow> bytes list \<Rightarrow> command_result" where
  "run_stat fs args =
     attempt (parse_flags args) (\<lambda>f.
     attempt (resolve_token (flag_root f) (flag_token f)) (\<lambda>path.
     attempt_io (fs_lstat fs path) (\<lambda>m.
     attempt (stat_message fs path (flag_token f) m) (\<lambda>msg. ([msg], Finished)))))"

section \<open>Listing\<close>

definition RUNTIME_ROOT_DIRS :: "bytes list" where
  "RUNTIME_ROOT_DIRS = [ascii ''proc'', ascii ''sys'', ascii ''dev'', ascii ''run'']"

definition HELPER_ROOT_NAME :: bytes where
  "HELPER_ROOT_NAME = ascii ''.tuxstack''"

text \<open>Which names of a directory a listing keeps, the cursor apart.\<close>

definition visible_name :: "bool \<Rightarrow> bool \<Rightarrow> bytes \<Rightarrow> bool" where
  "visible_name is_browse_root hidden raw \<longleftrightarrow>
     \<not> (raw = [dot] \<or> raw = [dot, dot])
     \<and> \<not> (is_browse_root \<and> (raw \<in> set RUNTIME_ROOT_DIRS \<or> raw = HELPER_ROOT_NAME))
     \<and> \<not> (\<not> hidden \<and> raw \<noteq> [] \<and> raw ! 0 = dot)"

definition after_cursor :: "bytes option \<Rightarrow> bytes \<Rightarrow> bool" where
  "after_cursor cursor raw = (case cursor of Some c \<Rightarrow> \<not> raw \<le> c | None \<Rightarrow> True)"

fun collect_names :: "bool \<Rightarrow> bool \<Rightarrow> bytes option \<Rightarrow> (io_kind + bytes) list \<Rightarrow> helper_error_code + bytes list" where
  "collect_names root hidden cursor [] = Inr []"
| "collect_names root hidden cursor (Inl e # items) = Inl (from_io e)"
| "collect_names root hidden cursor (Inr raw # items) =
     (case collect_names root hidden cursor items of
        Inl e \<Rightarrow> Inl e
      | Inr names \<Rightarrow> Inr (if visible_name root hidden raw \<and> after_cursor cursor raw then raw # names else names))"

text \<open>
  One page of the sorted names. With names left and a limit of zero the index \<^verbatim>\<open>page_limit - 1\<close> underflows,
  which panics (\<open>None\<close>).
\<close>

definition list_page :: "u64 option \<Rightarrow> bytes list \<Rightarrow> (bytes list \<times> bool \<times> bytes option) option" where
  "list_page lim names =
     (let page_limit = min (case lim of Some n \<Rightarrow> unat n | None \<Rightarrow> 2 ^ 64 - 1) (length names);
          truncated = length names > page_limit
      in if truncated \<and> page_limit = 0 then None
         else Some (take page_limit names, truncated,
                    if truncated then Some (encode_base64 (names ! (page_limit - 1))) else None))"

fun emit_entries :: "file_system \<Rightarrow> bytes \<Rightarrow> bytes \<Rightarrow> bytes list \<Rightarrow> helper_message list \<times> helper_error_code option" where
  "emit_entries fs dir relative [] = ([], None)"
| "emit_entries fs dir relative (name # names) =
     (let full = path_push dir name
      in case fs_lstat fs full of
           Inl e \<Rightarrow> ([], Some (from_io e))
         | Inr m \<Rightarrow>
             (case entry_message fs full name relative m of
                Inl e \<Rightarrow> ([], Some e)
              | Inr msg \<Rightarrow> (case emit_entries fs dir relative names of (ms, r) \<Rightarrow> (msg # ms, r))))"

definition decode_cursor :: "bytes option \<Rightarrow> helper_error_code + bytes option" where
  "decode_cursor cursor =
     (case cursor of
        None \<Rightarrow> Inr None
      | Some c \<Rightarrow> (case decode_base64 c of Inl _ \<Rightarrow> Inl InvalidToken | Inr raw \<Rightarrow> Inr (Some raw)))"

definition run_list :: "file_system \<Rightarrow> bytes list \<Rightarrow> command_result" where
  "run_list fs args =
     attempt (parse_flags args) (\<lambda>f.
     attempt (resolve_token (flag_root f) (flag_token f)) (\<lambda>dir.
     attempt (decode_token (flag_token f)) (\<lambda>relative.
     attempt_io (fs_stat fs dir) (\<lambda>m.
     if meta_type m \<noteq> HDirectory then fail NotDirectory
     else attempt_io (fs_read_dir fs dir) (\<lambda>items.
     attempt (decode_cursor (flag_cursor f)) (\<lambda>cursor.
     attempt (collect_names (relative = []) (show_hidden f) cursor items) (\<lambda>names.
     case list_page (flag_limit f) (sort names) of
       None \<Rightarrow> ([], Panicked)
     | Some (page, truncated, next_cursor) \<Rightarrow>
         (case emit_entries fs dir relative page of
            (ms, Some e) \<Rightarrow> (ms, Failed e)
          | (ms, None) \<Rightarrow> (ms @ [MsgEnd truncated next_cursor], Finished)))))))))"

section \<open>Preview and hash\<close>

definition CHUNK_SIZE :: u64 where "CHUNK_SIZE = 32 * 1024"
definition READ_CHUNK :: nat where "READ_CHUNK = 64 * 1024"

lemma preview_want_pos: "0 < remaining \<Longrightarrow> 0 < unat (min remaining CHUNK_SIZE)"
  by (auto simp: min_def CHUNK_SIZE_def word_less_nat_alt)

lemma read_chunk_pos: "0 < READ_CHUNK"
  by (simp add: READ_CHUNK_def)

text \<open>
  The read loop of \<^verbatim>\<open>preview\<close>: at most a chunk at a time until nothing remains or the file ends early.
  \<^verbatim>\<open>File::read\<close> surfaces an interrupted call as an error.
\<close>

function preview_loop :: "u64 \<Rightarrow> u64 \<Rightarrow> bool \<Rightarrow> io_kind read_event list \<Rightarrow> command_result" where
  "preview_loop remaining position truncated r =
     (if remaining > 0 then
        (let want = unat (min remaining CHUNK_SIZE)
         in case read_call want r of
              (ReadOk [], r') \<Rightarrow> ([], Finished)
            | (ReadOk (b # bs), r') \<Rightarrow>
                (let n = word_of_nat (length (b # bs));
                     position' = position + n;
                     remaining' = remaining - n;
                     msg = MsgPreviewChunk (encode_base64 (b # bs)) (position' - n) (remaining' = 0) truncated
                 in case preview_loop remaining' position' truncated r' of (ms, e) \<Rightarrow> (msg # ms, e))
            | (ReadInterrupted, r') \<Rightarrow> fail (from_io IoOther)
            | (ReadErr e, r') \<Rightarrow> fail (from_io e))
      else ([], Finished))"
  by pat_completeness auto
termination
  by (relation "measure (\<lambda>(remaining, position, truncated, r). reader_weight r)")
     (auto intro: read_call_progress(1) [OF preview_want_pos sym])

declare preview_loop.simps [simp del]

text \<open>\<open>open_at p offset\<close> is the file opened at \<open>p\<close> and positioned at \<open>offset\<close>.\<close>

type_synonym opener = "bytes \<Rightarrow> u64 \<Rightarrow> io_kind + io_kind read_event list"

definition run_preview :: "file_system \<Rightarrow> opener \<Rightarrow> bytes list \<Rightarrow> command_result" where
  "run_preview fs open_at args =
     attempt (parse_flags args) (\<lambda>f.
     attempt (resolve_token (flag_root f) (flag_token f)) (\<lambda>raw_path.
     attempt (confine_to_root fs (flag_root f) raw_path) (\<lambda>safe.
     attempt_io (fs_stat fs safe) (\<lambda>m.
     if meta_type m = HDirectory then fail helper_error_code.IsDirectory
     else if meta_type m \<noteq> HFile \<and> meta_type m \<noteq> HSymlink then fail UnsupportedFileType
     else
       let size = meta_len m; offset = flag_offset f; lim = read_limit f;
           end_at = min (saturating_add offset lim) size;
           truncated = end_at < size
       in if lim = 0 \<or> offset \<ge> size then
            ([MsgPreviewChunk (encode_base64 []) offset True truncated], Finished)
          else attempt_io (open_at safe offset) (\<lambda>file. preview_loop (end_at - offset) offset truncated file)))))"

function hash_loop :: "sha256 \<Rightarrow> io_kind read_event list \<Rightarrow> helper_error_code + sha256" where
  "hash_loop hasher r =
     (case read_call READ_CHUNK r of
        (ReadOk [], r') \<Rightarrow> Inr hasher
      | (ReadOk (b # bs), r') \<Rightarrow> hash_loop (sha_update (b # bs) hasher) r'
      | (ReadInterrupted, r') \<Rightarrow> Inl (from_io IoOther)
      | (ReadErr e, r') \<Rightarrow> Inl (from_io e))"
  by pat_completeness auto
termination
  by (relation "measure (\<lambda>(hasher, r). reader_weight r)")
     (auto intro: read_call_progress(1) [OF read_chunk_pos sym])

declare hash_loop.simps [simp del]

definition run_hash :: "file_system \<Rightarrow> opener \<Rightarrow> bytes list \<Rightarrow> command_result" where
  "run_hash fs open_at args =
     attempt (parse_flags args) (\<lambda>f.
     if algorithm f \<noteq> ascii ''sha256'' then fail InvalidArgs
     else
     attempt (resolve_token (flag_root f) (flag_token f)) (\<lambda>raw_path.
     attempt (confine_to_root fs (flag_root f) raw_path) (\<lambda>safe.
     attempt_io (fs_stat fs safe) (\<lambda>m.
     if meta_type m = HDirectory then fail helper_error_code.IsDirectory
     else if meta_type m \<noteq> HFile then fail UnsupportedFileType
     else attempt_io (open_at safe 0) (\<lambda>file.
          attempt (hash_loop sha_new file) (\<lambda>hasher.
          case sha_finish hasher of
            None \<Rightarrow> ([], Panicked)
          | Some digest \<Rightarrow> ([MsgHash (ascii ''sha256'') (sha_hex digest)], Finished)))))))"

section \<open>Dispatch\<close>

definition run_readlink :: "file_system \<Rightarrow> bytes list \<Rightarrow> command_result" where
  "run_readlink fs args =
     attempt (parse_flags args) (\<lambda>f.
     attempt (resolve_token (flag_root f) (flag_token f)) (\<lambda>path.
     attempt (canonicalize fs path) (\<lambda>canonical.
     attempt (token_under_root (flag_root f) canonical) (\<lambda>token.
     ([MsgResolved (token_string token)], Finished)))))"

definition FS_HELPER_PROTOCOL_VERSION :: u32 where "FS_HELPER_PROTOCOL_VERSION = 1"

text \<open>
  \<^verbatim>\<open>main\<close>, the endless \<^verbatim>\<open>hold\<close> apart: the last message of a failed command is its error, and the exit
  status is then 1 (a panic exits with 101).
\<close>

definition dispatch_command :: "bytes \<Rightarrow> file_system \<Rightarrow> opener \<Rightarrow> bytes list \<Rightarrow> command_result" where
  "dispatch_command version fs open_at args =
     (case args of
        [] \<Rightarrow> fail InvalidArgs
      | command # rest \<Rightarrow>
          if command = ascii ''hello'' then ([MsgHello FS_HELPER_PROTOCOL_VERSION version], Finished)
          else if command = ascii ''list'' then run_list fs rest
          else if command = ascii ''stat'' then run_stat fs rest
          else if command = ascii ''preview'' then run_preview fs open_at rest
          else if command = ascii ''hash'' then run_hash fs open_at rest
          else if command = ascii ''readlink'' then run_readlink fs rest
          else fail InvalidArgs)"

definition helper_main :: "bytes \<Rightarrow> file_system \<Rightarrow> opener \<Rightarrow> bytes list \<Rightarrow> helper_message list \<times> nat" where
  "helper_main version fs open_at args =
     (case dispatch_command version fs open_at args of
        (ms, Finished) \<Rightarrow> (ms, 0)
      | (ms, Failed e) \<Rightarrow> (ms @ [MsgError e], 1)
      | (ms, Panicked) \<Rightarrow> (ms, 101))"

section \<open>The hash of a file\<close>

text \<open>A file that delivers its bytes: every read meets data, until the end.\<close>

fun plain_reader :: "'i read_event list \<Rightarrow> bool" where
  "plain_reader [] = True"
| "plain_reader (Arrived bs # r) \<longleftrightarrow> bs \<noteq> [] \<and> plain_reader r"
| "plain_reader (_ # r) = False"

lemma read_call_plain:
  assumes "plain_reader r" "0 < n"
  obtains "r = []" "read_call n r = (ReadOk [], [])"
  | b bs r' where "read_call n r = (ReadOk (b # bs), r')" "plain_reader r'" "content r = (b # bs) @ content r'"
      "length (b # bs) \<le> n"
proof (cases "(n, r)" rule: read_call.cases)
  case (2 m bs q)
  define r' where "r' = (if length bs \<le> n then q else Arrived (drop n bs) # q)"
  obtain b bs' where split: "take n bs = b # bs'" using 2 assms by (cases n; cases bs) auto
  show ?thesis
  proof (rule that(2))
    show "read_call n r = (ReadOk (b # bs'), r')" using 2 split by (simp add: r'_def)
    show "plain_reader r'" using 2 assms by (simp add: r'_def)
    have "take n bs @ content r' = content r" using 2 by (simp add: r'_def)
    then show "content r = (b # bs') @ content r'" using split by simp
    have "length (take n bs) \<le> n" by simp
    then show "length (b # bs') \<le> n" using split by simp
  qed
qed (use assms that in auto)

lemma hash_loop_plain:
  "plain_reader r \<Longrightarrow> \<exists>pieces. hash_loop h r = Inr (fold sha_update pieces h) \<and> concat pieces = content r"
proof (induction h r rule: hash_loop.induct)
  case (1 h r)
  from 1(2) read_chunk_pos show ?case
  proof (cases rule: read_call_plain)
    case 1
    then show ?thesis by (intro exI [of _ "[]"]) (simp add: hash_loop.simps [of h "[]"])
  next
    case (2 b bs r')
    then obtain pieces where "hash_loop (sha_update (b # bs) h) r' = Inr (fold sha_update pieces (sha_update (b # bs) h))"
      "concat pieces = content r'" using "1.IH" [OF 2(1) [symmetric]] by auto
    then show ?thesis using 2
      by (intro exI [of _ "(b # bs) # pieces"]) (simp add: hash_loop.simps [of h r])
  qed
qed



section \<open>Paging through a directory\<close>

lemma collect_names_readable:
  "collect_names root hidden cursor (map Inr raws) =
     Inr (filter (\<lambda>raw. visible_name root hidden raw \<and> after_cursor cursor raw) raws)"
  by (induction raws) auto

lemma list_page_some:
  "page_limit = min (case lim of Some n \<Rightarrow> unat n | None \<Rightarrow> 2 ^ 64 - 1) (length names) \<Longrightarrow> lim \<noteq> Some 0 \<Longrightarrow>
   list_page lim names =
     Some (take page_limit names, length names > page_limit,
           if length names > page_limit then Some (encode_base64 (names ! (page_limit - 1))) else None)"
  by (auto simp: list_page_def Let_def unat_gt_0 min_def split: option.splits if_splits)

text \<open>Continuing after the last name of a prefix of the sorted names gives the rest of them.\<close>

lemma after_cursor_drop:
  assumes "sorted_wrt (<) S" "0 < k" "k \<le> length S"
  shows "filter (after_cursor (Some (S ! (k - 1)))) S = drop k S"
proof -
  let ?P = "after_cursor (Some (S ! (k - 1)))"
  have "\<not> ?P x" if "x \<in> set (take k S)" for x
  proof -
    from that assms obtain i where "i < k" "x = S ! i" by (auto simp: in_set_conv_nth)
    then show ?thesis using assms sorted_wrt_nth_less [OF assms(1), of i "k - 1"]
      by (cases "i = k - 1") (auto simp: after_cursor_def less_imp_le)
  qed
  moreover have "?P x" if "x \<in> set (drop k S)" for x
  proof -
    from that obtain i where "i < length (drop k S)" "drop k S ! i = x" unfolding in_set_conv_nth by blast
    then have "k + i < length S" "x = S ! (k + i)" using assms(3) by auto
    then show ?thesis using assms(2) sorted_wrt_nth_less [OF assms(1), of "k - 1" "k + i"]
      by (simp add: after_cursor_def not_le)
  qed
  ultimately have "filter ?P (take k S) = []" "filter ?P (drop k S) = drop k S"
    by (auto simp: filter_empty_conv filter_id_conv)
  then show ?thesis using filter_append [of ?P "take k S" "drop k S"] by simp
qed

text \<open>
  A reader that follows the cursors: it asks for a page, and as long as the reply carries a cursor
  for the next page with it. \<open>None\<close> is a refused or failed page, or a reader that has used up its requests.
\<close>

primrec follow_pages :: "nat \<Rightarrow> bool \<Rightarrow> bool \<Rightarrow> u64 option \<Rightarrow> bytes option \<Rightarrow> (io_kind + bytes) list \<Rightarrow> bytes list list option" where
  "follow_pages 0 root hidden lim cursor items = None"
| "follow_pages (Suc n) root hidden lim cursor items =
     (case decode_cursor cursor of
        Inl e \<Rightarrow> None
      | Inr c \<Rightarrow>
          (case collect_names root hidden c items of
             Inl e \<Rightarrow> None
           | Inr names \<Rightarrow>
               (case list_page lim (sort names) of
                  None \<Rightarrow> None
                | Some (page, truncated, None) \<Rightarrow> Some [page]
                | Some (page, truncated, Some next) \<Rightarrow>
                    map_option ((#) page) (follow_pages n root hidden lim (Some next) items))))"

declare follow_pages.simps(2) [simp del]

lemma follow_pages_from:
  assumes S: "S = sort (filter (visible_name root hidden) raws)" and "distinct raws" "lim \<noteq> Some 0"
    and "k \<le> length S" "length S - k < n"
    and "cursor = (if k = 0 then None else Some (encode_base64 (S ! (k - 1))))"
  shows "\<exists>ps. follow_pages n root hidden lim cursor (map Inr raws) = Some ps \<and> concat ps = drop k S
    \<and> (\<forall>p \<in> set ps. length p \<le> (case lim of Some m \<Rightarrow> unat m | None \<Rightarrow> 2 ^ 64 - 1))"
  using assms(4-)
proof (induction n arbitrary: k cursor)
  case (Suc n)
  define m where "m = (case lim of Some m \<Rightarrow> unat m | None \<Rightarrow> 2 ^ 64 - 1)"
  define c where "c = (if k = 0 then None else Some (S ! (k - 1)))"
  define q where "q = min m (length (drop k S))"
  have m: "0 < m" using assms(3) by (auto simp: m_def unat_gt_0 split: option.split)
  have strict: "sorted_wrt (<) S" using assms(2) by (simp add: S strict_sorted_iff)
  have dec: "decode_cursor cursor = Inr c"
    using Suc.prems(3) by (auto simp: decode_cursor_def c_def decode_encode_base64)
  have "filter (after_cursor c) S = drop k S"
    using after_cursor_drop [OF strict, of k] Suc.prems(1)
    by (cases "k = 0") (auto simp: c_def after_cursor_def)
  moreover have "sort (filter (\<lambda>raw. visible_name root hidden raw \<and> after_cursor c raw) raws)
      = filter (after_cursor c) S"
    by (simp add: S filter_sort conj_commute)
  ultimately have names: "sort (filter (\<lambda>raw. visible_name root hidden raw \<and> after_cursor c raw) raws) = drop k S"
    by simp
  note page = list_page_some [OF refl assms(3), of "drop k S", folded m_def, folded q_def]
  show ?case
  proof (cases "q < length (drop k S)")
    case False
    then show ?thesis using dec names page
      by (auto simp: follow_pages.simps(2) collect_names_readable m_def [symmetric] q_def)
  next
    case True
    then have q: "q = m" "0 < q" "k + q < length S" using m by (auto simp: q_def)
    obtain ps where ps: "follow_pages n root hidden lim (Some (encode_base64 (S ! (k + q - 1)))) (map Inr raws) = Some ps"
      "concat ps = drop (k + q) S" "\<forall>p \<in> set ps. length p \<le> m"
      using Suc.IH [of "k + q" "Some (encode_base64 (S ! (k + q - 1)))"] Suc.prems(2) q
      unfolding m_def [symmetric] by fastforce
    moreover have "take q (drop k S) @ drop (k + q) S = drop k S"
      by (metis add.commute append_take_drop_id drop_drop)
    ultimately show ?thesis using dec names page True q
      by (auto simp: follow_pages.simps(2) collect_names_readable m_def [symmetric])
  qed
qed simp

text \<open>C25. Paging through a directory loses and repeats nothing: a reader that asks for pages of at
  most a positive limit and follows the cursor of each reply ends, after at most one request per visible name and
  one more, with exactly the visible names in byte order, cut into pages of at most the limit.\<close>

theorem list_pages_complete:
  assumes "distinct raws" "lim \<noteq> Some 0"
  shows "\<exists>ps. follow_pages (length (filter (visible_name root hidden) raws) + 1) root hidden lim None (map Inr raws) = Some ps
    \<and> concat ps = sort (filter (visible_name root hidden) raws)
    \<and> (\<forall>p \<in> set ps. length p \<le> (case lim of Some m \<Rightarrow> unat m | None \<Rightarrow> 2 ^ 64 - 1))"
  using follow_pages_from [OF refl assms, of 0 root hidden _ None] by simp

theorem list_pages_complete_witness:
  "\<exists>ps. follow_pages 3 False False (Some 1) None (map Inr [[98 :: byte], [46, 97], [97]]) = Some ps
    \<and> concat ps = [[97], [98]] \<and> (\<forall>p \<in> set ps. length p \<le> 1)"
  using list_pages_complete [of "[[98 :: byte], [46, 97], [97]]" "Some 1" False False]
  by (simp add: visible_name_def numeral_3_eq_3)

text \<open>A listing asked for at most zero entries of a directory that has some panics.\<close>

lemma list_page_zero_panics: "names \<noteq> [] \<Longrightarrow> list_page (Some 0) names = None"
  by (simp add: list_page_def)

section \<open>The chunks of a preview\<close>

lemma remaining_after_read:
  fixes remaining :: u64
  assumes "n \<le> unat (min remaining CHUNK_SIZE)"
  shows "n \<le> unat remaining" "n \<le> 32 * 1024" "unat (remaining - word_of_nat n) = unat remaining - n"
proof -
  have n: "n \<le> unat remaining" "n \<le> unat CHUNK_SIZE"
    using assms by (auto simp: min_def word_le_nat_alt split: if_splits)
  then show "n \<le> unat remaining" "n \<le> 32 * 1024" by (auto simp: CHUNK_SIZE_def)
  show "unat (remaining - word_of_nat n) = unat remaining - n" using n(1) by (rule unat_sub_nat)
qed

text \<open>The messages for consecutive pieces of a file read from \<open>position\<close> with \<open>remaining\<close> bytes to go.\<close>

primrec chunk_messages :: "u64 \<Rightarrow> u64 \<Rightarrow> bool \<Rightarrow> bytes list \<Rightarrow> helper_message list" where
  "chunk_messages remaining position truncated [] = []"
| "chunk_messages remaining position truncated (p # ps) =
     (let n = word_of_nat (length p)
      in MsgPreviewChunk (encode_base64 p) position (remaining = n) truncated
         # chunk_messages (remaining - n) (position + n) truncated ps)"

lemma chunk_messages_nth:
  "i < length ps \<Longrightarrow>
   chunk_messages remaining position truncated ps ! i =
     MsgPreviewChunk (encode_base64 (ps ! i)) (position + word_of_nat (length (concat (take i ps))))
       (remaining = word_of_nat (length (concat (take (Suc i) ps)))) truncated"
proof (induction ps arbitrary: i remaining position)
  case (Cons p ps)
  then show ?case by (cases i) (auto simp: Let_def algebra_simps diff_eq_eq)
qed simp

lemma length_chunk_messages [simp]: "length (chunk_messages remaining position truncated ps) = length ps"
  by (induction ps arbitrary: remaining position) (auto simp: Let_def)

lemma preview_loop_plain:
  "plain_reader r \<Longrightarrow>
   \<exists>ps. preview_loop remaining position truncated r = (chunk_messages remaining position truncated ps, Finished)
     \<and> concat ps = take (unat remaining) (content r) \<and> (\<forall>p \<in> set ps. 0 < length p \<and> length p \<le> 32 * 1024)"
proof (induction remaining position truncated r rule: preview_loop.induct)
  case (1 remaining position truncated r)
  show ?case
  proof (cases "remaining > 0")
    case False
    then show ?thesis
      by (intro exI [of _ "[]"]) (simp add: preview_loop.simps [of 0] word_gt_0)
  next
    case True
    from 1(2) preview_want_pos [OF True] show ?thesis
    proof (cases rule: read_call_plain)
      case 1
      then show ?thesis using True
        by (intro exI [of _ "[]"]) (simp add: preview_loop.simps [of remaining])
    next
      case (2 b bs r')
      let ?n = "word_of_nat (length (b # bs)) :: u64"
      note left = remaining_after_read [OF 2(4)]
      have "\<exists>ps. preview_loop (remaining - ?n) (position + ?n) truncated r'
            = (chunk_messages (remaining - ?n) (position + ?n) truncated ps, Finished)
          \<and> concat ps = take (unat (remaining - ?n)) (content r') \<and> (\<forall>p \<in> set ps. 0 < length p \<and> length p \<le> 32 * 1024)"
        by (rule "1.IH" [OF True refl 2(1) [symmetric] refl refl refl refl refl refl 2(2)])
      then obtain ps where ps: "preview_loop (remaining - ?n) (position + ?n) truncated r'
            = (chunk_messages (remaining - ?n) (position + ?n) truncated ps, Finished)"
          "concat ps = take (unat (remaining - ?n)) (content r')" "\<forall>p \<in> set ps. 0 < length p \<and> length p \<le> 32 * 1024"
        by blast
      have "preview_loop remaining position truncated r
          = (chunk_messages remaining position truncated ((b # bs) # ps), Finished)"
        using True 2(1) ps(1) by (simp add: preview_loop.simps [of remaining] Let_def del: of_nat_Suc list.size(4))
      moreover have "concat ((b # bs) # ps) = take (unat remaining) (content r)"
        using ps(2) left(1) 2(3) by (simp only: concat.simps left(3) take_append take_all)
      ultimately show ?thesis using ps(3) left(2) by (intro exI [of _ "(b # bs) # ps"]) simp
    qed
  qed
qed

text \<open>A preview delivers exactly the requested range: for a file that can be read to its end, the loop
  ends without an error, the data of its chunks put together are the first \<open>remaining\<close> bytes from the start position
  (fewer only if the file ends before), no chunk is empty or larger than 32 KiB, each carries the offset its data has
  in the file, and end-of-file is set on a chunk exactly when it completes the range.\<close>

theorem preview_chunks_exact:
  assumes "plain_reader r"
  shows "\<exists>ms ps. preview_loop remaining position truncated r = (ms, Finished) \<and> length ms = length ps
    \<and> concat ps = take (unat remaining) (content r) \<and> (\<forall>p \<in> set ps. 0 < length p \<and> length p \<le> 32 * 1024)
    \<and> (\<forall>i < length ps. ms ! i =
         MsgPreviewChunk (encode_base64 (ps ! i)) (position + word_of_nat (length (concat (take i ps))))
           (remaining = word_of_nat (length (concat (take (Suc i) ps)))) truncated)"
  using preview_loop_plain [OF assms, of remaining position truncated] chunk_messages_nth length_chunk_messages
  by metis

theorem preview_chunks_exact_witness:
  "\<exists>ms ps. preview_loop 3 7 False [Arrived [1 :: byte, 2], Arrived [3, 4]] = (ms, Finished) \<and> length ms = length ps
    \<and> concat ps = [1, 2, 3] \<and> (\<forall>p \<in> set ps. 0 < length p \<and> length p \<le> 32 * 1024)
    \<and> (\<forall>i < length ps. ms ! i =
         MsgPreviewChunk (encode_base64 (ps ! i)) (7 + word_of_nat (length (concat (take i ps))))
           (3 = (word_of_nat (length (concat (take (Suc i) ps))) :: u64)) False)"
proof -
  have "plain_reader [Arrived [1 :: byte, 2], Arrived [3, 4] :: io_kind read_event]" by simp
  moreover have "take (unat (3 :: u64)) (content [Arrived [1 :: byte, 2], Arrived [3, 4] :: io_kind read_event]) = [1, 2, 3]"
    by simp
  ultimately show ?thesis
    using preview_chunks_exact [of "[Arrived [1 :: byte, 2], Arrived [3, 4]]" 3 7 False] by metis
qed

end
