(* ===== verification/Tar_Format.thy ===== *)
theory Tar_Format
  imports Vfs_Model
begin

text \<open>
  The tar format of Docker exports, the first half of \<^verbatim>\<open>docker-core/src/vfs_providers/tar_index.rs\<close>: the
  resource limits, archive paths, entries, and the parsers of header blocks, PAX records and GNU
  long names. A block is a list of bytes; \<^verbatim>\<open>usize\<close> limits are 64 bits wide.
\<close>

unbundle bit_operations_syntax

section \<open>Limits\<close>

definition TAR_BLOCK :: nat where "TAR_BLOCK = 512"

record tar_limits =
  max_archive_bytes :: u64
  max_entries :: u64
  max_path_bytes :: u64
  max_extension_bytes :: u64
  max_entry_bytes :: u64

definition limits_default :: tar_limits where
  "limits_default =
     \<lparr>max_archive_bytes = 8 * 1024 * 1024 * 1024, max_entries = 100000, max_path_bytes = 16 * 1024,
      max_extension_bytes = 1024 * 1024, max_entry_bytes = 2 * 1024 * 1024 * 1024\<rparr>"

definition limits_validate :: "tar_limits \<Rightarrow> unit vfs_result" where
  "limits_validate l =
     (if max_archive_bytes l < word_of_nat (TAR_BLOCK * 2) \<or> max_entries l = 0 \<or> max_path_bytes l = 0
        \<or> max_extension_bytes l = 0 \<or> max_entry_bytes l = 0 \<or> max_entry_bytes l > max_archive_bytes l
      then Inl (InvalidInput ''invalid tar resource limits'') else Inr ())"

section \<open>Paths inside an archive\<close>

datatype tar_path = TarPath (tar_components: "bytes list")

text \<open>\<^verbatim>\<open>#[derive(Ord)]\<close>: the lexicographic order of the components.\<close>

instantiation tar_path :: linorder
begin

definition less_eq_tar_path :: "tar_path \<Rightarrow> tar_path \<Rightarrow> bool" where
  "less_eq_tar_path a b \<longleftrightarrow> tar_components a \<le> tar_components b"

definition less_tar_path :: "tar_path \<Rightarrow> tar_path \<Rightarrow> bool" where
  "less_tar_path a b \<longleftrightarrow> tar_components a < tar_components b"

instance
  by standard (auto simp: less_eq_tar_path_def less_tar_path_def tar_path.expand)

end

definition tar_root :: tar_path where
  "tar_root = TarPath []"

definition tar_is_root :: "tar_path \<Rightarrow> bool" where
  "tar_is_root p \<longleftrightarrow> tar_components p = []"

definition tar_encoded_len :: "tar_path \<Rightarrow> nat" where
  "tar_encoded_len p = (if tar_is_root p then 1 else sum_list (map (\<lambda>item. length item + 1) (tar_components p)))"

fun tar_parts :: "bytes list \<Rightarrow> bytes list vfs_result" where
  "tar_parts [] = Inr []"
| "tar_parts (c # cs) =
     (if c = [] \<or> c = [dot] then tar_parts cs
      else if c = [dot, dot] then Inl SymlinkEscape
      else case virtual_file_name_new c of
             Inl e \<Rightarrow> Inl e
           | Inr n \<Rightarrow> (case tar_parts cs of Inl e \<Rightarrow> Inl e | Inr ns \<Rightarrow> Inr (name_bytes n # ns)))"

definition from_tar_bytes :: "bytes \<Rightarrow> tar_limits \<Rightarrow> tar_path vfs_result" where
  "from_tar_bytes raw l =
     (if length raw > unat (max_path_bytes l) then Inl PathTooLong
      else if raw \<noteq> [] \<and> hd raw = slash then Inl (InvalidInput ''absolute tar entry path'')
      else if 0 \<in> set raw then Inl (InvalidInput ''NUL in tar entry path'')
      else case tar_parts (split_on slash raw) of
             Inl e \<Rightarrow> Inl e
           | Inr cs \<Rightarrow>
               if tar_encoded_len (TarPath cs) > unat (max_path_bytes l) then Inl PathTooLong else Inr (TarPath cs))"

definition from_virtual :: "virtual_path \<Rightarrow> tar_path" where
  "from_virtual p = TarPath (map name_bytes (components p))"

fun collect_file_names :: "bytes list \<Rightarrow> virtual_file_name list vfs_result" where
  "collect_file_names [] = Inr []"
| "collect_file_names (c # cs) =
     (case virtual_file_name_new c of
        Inl e \<Rightarrow> Inl e
      | Inr n \<Rightarrow> (case collect_file_names cs of Inl e \<Rightarrow> Inl e | Inr ns \<Rightarrow> Inr (n # ns)))"

definition to_virtual :: "tar_path \<Rightarrow> virtual_path vfs_result" where
  "to_virtual p =
     (case collect_file_names (tar_components p) of Inl e \<Rightarrow> Inl e | Inr ns \<Rightarrow> from_components ns)"

definition tar_depth :: "tar_path \<Rightarrow> nat" where
  "tar_depth p = length (tar_components p)"

definition tar_parent :: "tar_path \<Rightarrow> tar_path option" where
  "tar_parent p =
     (if \<not> tar_is_root p then Some (TarPath (take (length (tar_components p) - 1) (tar_components p))) else None)"

definition tar_name :: "tar_path \<Rightarrow> bytes option" where
  "tar_name p = (if tar_components p = [] then None else Some (last (tar_components p)))"

definition tar_starts_with :: "tar_path \<Rightarrow> tar_path \<Rightarrow> bool" where
  "tar_starts_with p q \<longleftrightarrow> prefix (tar_components q) (tar_components p)"

definition is_descendant_of :: "tar_path \<Rightarrow> tar_path \<Rightarrow> bool" where
  "is_descendant_of p parent \<longleftrightarrow> tar_depth p > tar_depth parent \<and> tar_starts_with p parent"

section \<open>Entries\<close>

datatype tar_entry_kind =
  TarRegularFile | TarDirectory | TarSymlink | TarHardlink | TarCharacterDevice | TarBlockDevice | TarNamedPipe | TarOther

record tar_entry =
  raw_path :: bytes
  te_path :: tar_path
  te_kind :: tar_entry_kind
  te_size :: u64
  te_mode :: u32
  te_uid :: u32
  te_gid :: u32
  te_mtime :: int
  link_target :: "bytes option"
  device_major :: "u32 option"
  device_minor :: "u32 option"
  synthetic :: bool

definition tar_entry_root :: tar_entry where
  "tar_entry_root =
     \<lparr>raw_path = [dot], te_path = tar_root, te_kind = TarDirectory, te_size = 0, te_mode = octal3 7 5 5,
      te_uid = 0, te_gid = 0, te_mtime = 0, link_target = None, device_major = None, device_minor = None,
      synthetic = True\<rparr>"

text \<open>The fold of \<^verbatim>\<open>synthetic_directory\<close>: the components with a slash before each but the first.\<close>

fun join_components :: "bytes \<Rightarrow> (nat \<times> bytes) list \<Rightarrow> bytes" where
  "join_components acc [] = acc"
| "join_components acc ((index, component) # rest) =
     join_components ((if index \<noteq> 0 then acc @ [slash] else acc) @ component) rest"

definition synthetic_directory :: "tar_path \<Rightarrow> tar_entry" where
  "synthetic_directory p =
     \<lparr>raw_path = join_components [] (List.enumerate 0 (tar_components p)), te_path = p, te_kind = TarDirectory,
      te_size = 0, te_mode = octal3 7 5 5, te_uid = 0, te_gid = 0, te_mtime = 0, link_target = None,
      device_major = None, device_minor = None, synthetic = True\<rparr>"

text \<open>Times are whole seconds relative to the epoch; an \<^verbatim>\<open>i64\<close> before the epoch is always representable.\<close>

definition system_time :: "int \<Rightarrow> int" where
  "system_time seconds = (if seconds \<ge> 0 then 0 + seconds else 0 - \<bar>seconds\<bar>)"

fun file_type_of_kind :: "tar_entry_kind \<Rightarrow> virtual_file_type" where
  "file_type_of_kind TarRegularFile = RegularFile"
| "file_type_of_kind TarHardlink = RegularFile"
| "file_type_of_kind TarDirectory = Directory"
| "file_type_of_kind TarSymlink = Symlink"
| "file_type_of_kind TarCharacterDevice = CharacterDevice"
| "file_type_of_kind TarBlockDevice = BlockDevice"
| "file_type_of_kind TarNamedPipe = NamedPipe"
| "file_type_of_kind TarOther = Socket"

definition entry_metadata :: "tar_entry \<Rightarrow> bytes \<Rightarrow> u64 \<Rightarrow> virtual_metadata" where
  "entry_metadata e identity_prefix generation =
     \<lparr>node_id = identity_prefix @ 0 # raw_path e, file_type = file_type_of_kind (te_kind e), md_size = te_size e,
      nlink = (if te_kind e = TarHardlink then 2 else 1), mtime = system_time (te_mtime e),
      original = \<lparr>om_mode = te_mode e, om_uid = te_uid e, om_gid = te_gid e\<rparr>,
      device_id = (case (device_major e, device_minor e) of
                     (Some major, Some minor) \<Rightarrow> Some (push_bit 32 (ucast major) OR ucast minor)
                   | _ \<Rightarrow> None),
      md_generation = generation\<rparr>"

section \<open>Header blocks\<close>

record raw_header =
  rh_path :: bytes
  rh_link_target :: "bytes option"
  type_flag :: byte
  rh_kind :: tar_entry_kind
  rh_size :: u64
  rh_mode :: u64
  rh_uid :: u64
  rh_gid :: u64
  rh_mtime :: int
  rh_device_major :: "u64 option"
  rh_device_minor :: "u64 option"

text \<open>\<^verbatim>\<open>&block[a..b]\<close>, for ranges inside the block.\<close>

definition field :: "nat \<Rightarrow> nat \<Rightarrow> bytes \<Rightarrow> bytes" where
  "field a b block = take (b - a) (drop a block)"

definition text_field :: "bytes \<Rightarrow> bytes" where
  "text_field f = takeWhile (\<lambda>b. b \<noteq> 0) f"

definition blank :: "byte \<Rightarrow> bool" where
  "blank b \<longleftrightarrow> b = 0 \<or> b = 32"

fun base256 :: "string \<Rightarrow> u64 \<Rightarrow> bytes \<Rightarrow> u64 vfs_result" where
  "base256 label value [] = Inr value"
| "base256 label value (b # bs) =
     (case Option.bind (checked_mul value 256) (\<lambda>v. checked_add v (ucast b)) of
        None \<Rightarrow> Inl (Io (''tar '' @ label @ '' overflow''))
      | Some v \<Rightarrow> base256 label v bs)"

definition octal_value :: "bytes \<Rightarrow> nat" where
  "octal_value ds = foldl (\<lambda>n b. n * 8 + unat (b - 48)) 0 ds"

definition tar_number :: "bytes \<Rightarrow> string \<Rightarrow> u64 vfs_result" where
  "tar_number f label =
     (if f = [] then Inl (Io (''empty tar '' @ label))
      else if hd f AND 0x80 \<noteq> 0 then
        (if hd f AND 0x40 \<noteq> 0 then Inl (Io (''negative tar '' @ label))
         else base256 label (ucast (hd f AND 0x3f)) (tl f))
      else
        let value = takeWhile (\<lambda>b. \<not> blank b) (dropWhile blank f)
        in if value = [] then Inr 0
           else if \<not> list_all (\<lambda>b. 48 \<le> b \<and> b \<le> 55) value then Inl (Io (''invalid octal tar '' @ label))
           else if octal_value value < 2 ^ 64 then Inr (word_of_nat (octal_value value))
           else Inl (Io (''tar '' @ label @ '' overflow'')))"

definition optional_tar_number :: "bytes \<Rightarrow> string \<Rightarrow> u64 option vfs_result" where
  "optional_tar_number f label =
     (if list_all blank f then Inr None else map_sum id Some (tar_number f label))"

text \<open>The sum of the 512 bytes of a block, the checksum field read as spaces, fits a \<^verbatim>\<open>u64\<close>.\<close>

definition header_sum :: "bytes \<Rightarrow> nat" where
  "header_sum block =
     sum_list (map (\<lambda>(index, b). if 148 \<le> index \<and> index < 156 then 32 else unat b) (List.enumerate 0 block))"

definition verify_checksum :: "bytes \<Rightarrow> unit vfs_result" where
  "verify_checksum block =
     (case tar_number (field 148 156 block) ''checksum'' of
        Inl e \<Rightarrow> Inl e
      | Inr expected \<Rightarrow> if header_sum block \<noteq> unat expected then Inl (Io ''tar checksum mismatch'') else Inr ())"

definition header_path :: "bytes \<Rightarrow> bytes" where
  "header_path block =
     (let name = text_field (field 0 100 block); pre = text_field (field 345 500 block)
      in if pre = [] then name else if name = [] then pre else pre @ [slash] @ name)"

definition kind_of_flag :: "byte \<Rightarrow> tar_entry_kind" where
  "kind_of_flag flag =
     (if flag = 0 \<or> flag = 48 \<or> flag = 55 then TarRegularFile
      else if flag = 53 then TarDirectory
      else if flag = 50 then TarSymlink
      else if flag = 49 then TarHardlink
      else if flag = 51 then TarCharacterDevice
      else if flag = 52 then TarBlockDevice
      else if flag = 54 then TarNamedPipe
      else TarOther)"

definition header_mtime :: "bytes \<Rightarrow> int vfs_result" where
  "header_mtime f =
     (case tar_number f ''mtime'' of
        Inl e \<Rightarrow> Inl e
      | Inr t \<Rightarrow> if unat t < 2 ^ 63 then Inr (int (unat t)) else Inl (Io ''tar mtime overflow''))"

definition bindR :: "'e + 'a \<Rightarrow> ('a \<Rightarrow> 'e + 'b) \<Rightarrow> 'e + 'b" where
  [result_simps]: "bindR r f = (case r of Inl e \<Rightarrow> Inl e | Inr v \<Rightarrow> f v)"

definition parse_header :: "bytes \<Rightarrow> raw_header vfs_result" where
  "parse_header block =
     (if length block \<noteq> TAR_BLOCK then Inl (Io ''truncated tar header'')
      else
        bindR (verify_checksum block) (\<lambda>_.
        let path = header_path block
        in if path = [] then Inl (Io ''empty tar entry path'')
           else
             let flag = block ! 156; link = text_field (field 157 257 block) in
             bindR (tar_number (field 124 136 block) ''size'') (\<lambda>size.
             bindR (tar_number (field 100 108 block) ''mode'') (\<lambda>mode.
             bindR (tar_number (field 108 116 block) ''uid'') (\<lambda>uid.
             bindR (tar_number (field 116 124 block) ''gid'') (\<lambda>gid.
             bindR (header_mtime (field 136 148 block)) (\<lambda>mtime.
             bindR (optional_tar_number (field 329 337 block) ''device major'') (\<lambda>major.
             bindR (optional_tar_number (field 337 345 block) ''device minor'') (\<lambda>minor.
             Inr \<lparr>rh_path = path, rh_link_target = (if link \<noteq> [] then Some link else None), type_flag = flag,
               rh_kind = kind_of_flag flag, rh_size = size, rh_mode = mode, rh_uid = uid, rh_gid = gid,
               rh_mtime = mtime, rh_device_major = major, rh_device_minor = minor\<rparr>)))))))))"

section \<open>Extended headers\<close>

record pax_values =
  pax_path :: "bytes option"
  pax_link_path :: "bytes option"
  pax_size :: "u64 option"
  pax_uid :: "u64 option"
  pax_gid :: "u64 option"
  pax_mtime :: "int option"

definition pax_default :: pax_values where
  "pax_default = \<lparr>pax_path = None, pax_link_path = None, pax_size = None, pax_uid = None, pax_gid = None,
     pax_mtime = None\<rparr>"

definition or_else :: "'a option \<Rightarrow> 'a option \<Rightarrow> 'a option" where
  "or_else x y = (case x of Some _ \<Rightarrow> x | None \<Rightarrow> y)"

definition overlay :: "pax_values \<Rightarrow> pax_values \<Rightarrow> pax_values" where
  "overlay self other =
     \<lparr>pax_path = or_else (pax_path other) (pax_path self),
      pax_link_path = or_else (pax_link_path other) (pax_link_path self),
      pax_size = or_else (pax_size other) (pax_size self), pax_uid = or_else (pax_uid other) (pax_uid self),
      pax_gid = or_else (pax_gid other) (pax_gid self), pax_mtime = or_else (pax_mtime other) (pax_mtime self)\<rparr>"

definition decimal_u64 :: "bytes \<Rightarrow> string \<Rightarrow> u64 vfs_result" where
  "decimal_u64 value label =
     (if value = [] \<or> \<not> list_all is_digit value then Inl (Io (''invalid '' @ label))
      else ok_or (Io (label @ '' overflow'')) (parse_u64 value))"

definition parse_pax_mtime :: "bytes \<Rightarrow> int vfs_result" where
  "parse_pax_mtime value = ok_or (Io ''invalid PAX mtime'') (parse_i64 (hd (split_on dot value)))"

definition apply_pax_record :: "bytes \<Rightarrow> bytes \<Rightarrow> pax_values \<Rightarrow> pax_values vfs_result" where
  "apply_pax_record key value p =
     (if key = ascii ''path'' then Inr (p\<lparr>pax_path := Some value\<rparr>)
      else if key = ascii ''linkpath'' then Inr (p\<lparr>pax_link_path := Some value\<rparr>)
      else if key = ascii ''size'' then
        map_sum id (\<lambda>n. p\<lparr>pax_size := Some n\<rparr>) (decimal_u64 value ''PAX size'')
      else if key = ascii ''uid'' then
        map_sum id (\<lambda>n. p\<lparr>pax_uid := Some n\<rparr>) (decimal_u64 value ''PAX uid'')
      else if key = ascii ''gid'' then
        map_sum id (\<lambda>n. p\<lparr>pax_gid := Some n\<rparr>) (decimal_u64 value ''PAX gid'')
      else if key = ascii ''mtime'' then
        map_sum id (\<lambda>t. p\<lparr>pax_mtime := Some t\<rparr>) (parse_pax_mtime value)
      else Inr p)"

text \<open>
  One record of \<^verbatim>\<open>parse_pax\<close>, on the bytes from the current offset on: its key, its value and its length.
  An offset plus a length that overflows a \<^verbatim>\<open>usize\<close> lies beyond the end of the data.
\<close>

definition pax_record :: "nat \<Rightarrow> bytes \<Rightarrow> (bytes \<times> bytes \<times> nat) vfs_result" where
  "pax_record offset data =
     (if 32 \<notin> set data then Inl (Io ''PAX record has no length'')
      else
        let digits = takeWhile (\<lambda>b. b \<noteq> 32) data; space = length digits
        in case parse_u64 digits of
             None \<Rightarrow> Inl (Io ''invalid PAX record length'')
           | Some n \<Rightarrow>
               if offset + unat n \<ge> 2 ^ 64 then Inl (Io ''PAX record overflow'')
               else if unat n > length data \<or> unat n \<le> space + 2 \<or> data ! (unat n - 1) \<noteq> 10
                 then Inl (Io ''invalid PAX record boundary'')
               else
                 let rec = take (unat n - 1 - (space + 1)) (drop (space + 1) data)
                 in if 61 \<notin> set rec then Inl (Io ''invalid PAX key/value'')
                    else
                      let key = takeWhile (\<lambda>b. b \<noteq> 61) rec; value = drop (length key + 1) rec
                      in if 0 \<in> set value then Inl (Io ''NUL in PAX value'') else Inr (key, value, unat n))"

lemma pax_record_length: "pax_record offset data = Inr (key, value, n) \<Longrightarrow> 0 < n \<and> n \<le> length data"
  by (auto simp: pax_record_def Let_def split: if_splits option.splits)

function parse_pax_loop :: "nat \<Rightarrow> bytes \<Rightarrow> pax_values \<Rightarrow> pax_values vfs_result" where
  "parse_pax_loop offset data result =
     (if data = [] then Inr result
      else case pax_record offset data of
             Inl e \<Rightarrow> Inl e
           | Inr (key, value, n) \<Rightarrow>
               (case apply_pax_record key value result of
                  Inl e \<Rightarrow> Inl e
                | Inr result' \<Rightarrow> parse_pax_loop (offset + n) (drop n data) result'))"
  by pat_completeness auto
termination
  by (relation "measure (\<lambda>(offset, data, result). length data)") (auto dest: pax_record_length)

declare parse_pax_loop.simps [simp del]

definition parse_pax :: "bytes \<Rightarrow> pax_values vfs_result" where
  "parse_pax data = parse_pax_loop 0 data pax_default"

text \<open>GNU long names: the bytes before the first NUL, without newlines at the end.\<close>

definition parse_long_value :: "bytes \<Rightarrow> bytes vfs_result" where
  "parse_long_value data =
     (let value = takeWhile (\<lambda>b. b \<noteq> 0) data
      in if list_ex (\<lambda>b. b \<noteq> 0 \<and> b \<noteq> 10) (drop (length value) data) then Inl (Io ''invalid GNU long-name tail'')
         else Inr (rev (dropWhile (\<lambda>b. b = 10) (rev value))))"

definition validate_link_target :: "bytes option \<Rightarrow> tar_limits \<Rightarrow> unit vfs_result" where
  "validate_link_target target l =
     (case target of
        None \<Rightarrow> Inr ()
      | Some t \<Rightarrow>
          if length t > unat (max_path_bytes l) then Inl PathTooLong
          else if 0 \<in> set t then Inl (InvalidInput ''NUL in tar link target'')
          else map_sum id (\<lambda>_. ()) (virtual_path_bytes_new t))"

definition checked_u32 :: "u64 \<Rightarrow> string \<Rightarrow> u32 vfs_result" where
  "checked_u32 value label = (if unat value < 2 ^ 32 then Inr (ucast value) else Inl (Io (label @ '' overflow'')))"

text \<open>\<^verbatim>\<open>padding\<close>, whose first argument the code ignores: the bytes from the end of a body to the next block.\<close>

definition padding :: "u64 \<Rightarrow> u64 \<Rightarrow> u64" where
  "padding remaining original_size = (512 - original_size mod 512) mod 512"

end
