(* ===== verification/Tar_Stream.thy ===== *)
theory Tar_Stream
  imports Tar_Format
begin

text \<open>
  The streaming reader of tar archives, \<^verbatim>\<open>TarStreamReader\<close> of
  \<^verbatim>\<open>docker-core/src/vfs_providers/tar_index.rs\<close>. The byte stream is the list of the items it will still
  deliver, each a chunk or an error; an \<^verbatim>\<open>await\<close> takes the next one. Every method is a state transformer
  that returns its result and the reader it leaves.
\<close>

section \<open>State\<close>

type_synonym archive_byte_stream = "bytes vfs_result list"

record tar_reader =
  rd_stream :: archive_byte_stream
  rd_buffer :: bytes
  rd_limits :: tar_limits
  received :: u64
  ended :: bool
  archive_finished :: bool
  current_size :: "u64 option"
  global_pax :: pax_values
  pending_pax :: pax_values
  pending_long_name :: "bytes option"
  pending_long_link :: "bytes option"

definition reader_new :: "archive_byte_stream \<Rightarrow> tar_limits \<Rightarrow> tar_reader" where
  "reader_new s l =
     \<lparr>rd_stream = s, rd_buffer = [], rd_limits = l, received = 0, ended = False, archive_finished = False,
      current_size = None, global_pax = pax_default, pending_pax = pax_default, pending_long_name = None,
      pending_long_link = None\<rparr>"

text \<open>The bytes a reader can still deliver, an upper bound on the work left.\<close>

definition stream_weight :: "archive_byte_stream \<Rightarrow> nat" where
  "stream_weight s = sum_list (map (\<lambda>x. case x of Inl _ \<Rightarrow> 0 | Inr c \<Rightarrow> length c) s)"

definition weight :: "tar_reader \<Rightarrow> nat" where
  "weight r = length (rd_buffer r) + stream_weight (rd_stream r)"

lemma stream_weight_simps [simp]:
  "stream_weight [] = 0"
  "stream_weight (Inl e # s) = stream_weight s"
  "stream_weight (Inr c # s) = length c + stream_weight s"
  by (simp_all add: stream_weight_def)

section \<open>Filling the buffer\<close>

abbreviation byte_limit_exceeded :: vfs_error where
  "byte_limit_exceeded \<equiv> Unavailable ''tar byte limit exceeded''"

abbreviation truncated_archive :: vfs_error where
  "truncated_archive \<equiv> Io ''truncated tar archive''"

fun fill_loop :: "archive_byte_stream \<Rightarrow> tar_reader \<Rightarrow> unit vfs_result \<times> tar_reader" where
  "fill_loop [] r = (Inr (), r\<lparr>rd_stream := [], ended := True\<rparr>)"
| "fill_loop (Inl e # s) r = (Inl e, r\<lparr>rd_stream := s\<rparr>)"
| "fill_loop (Inr chunk # s) r =
     (if chunk = [] then fill_loop s r
      else case checked_add (received r) (word_of_nat (length chunk)) of
             None \<Rightarrow> (Inl byte_limit_exceeded, r\<lparr>rd_stream := s\<rparr>)
           | Some n \<Rightarrow>
               let r' = r\<lparr>rd_stream := s, received := n\<rparr>
               in if n > max_archive_bytes (rd_limits r) then (Inl byte_limit_exceeded, r')
                  else (Inr (), r'\<lparr>rd_buffer := chunk\<rparr>))"

definition fill :: "tar_reader \<Rightarrow> unit vfs_result \<times> tar_reader" where
  "fill r = (if rd_buffer r = [] \<and> \<not> ended r then fill_loop (rd_stream r) r else (Inr (), r))"

lemma fill_loop_weight:
  "fill_loop s r = (res, r') \<Longrightarrow> rd_buffer r = [] \<Longrightarrow> weight r' \<le> stream_weight s"
  by (induction s r rule: fill_loop.induct)
     (auto simp: weight_def Let_def split: if_splits option.splits)

lemma fill_weight: "fill r = (res, r') \<Longrightarrow> weight r' \<le> weight r"
  using fill_loop_weight [of "rd_stream r" r res r'] by (auto simp: fill_def weight_def split: if_splits)

function read_exact_from :: "nat \<Rightarrow> bytes \<Rightarrow> tar_reader \<Rightarrow> bytes vfs_result \<times> tar_reader" where
  "read_exact_from n result r =
     (if length result < n then
        (case fill r of
           (Inl e, r') \<Rightarrow> (Inl e, r')
         | (Inr _, r') \<Rightarrow>
             if rd_buffer r' = [] then (Inl truncated_archive, r')
             else
               let k = min (n - length result) (length (rd_buffer r'))
               in read_exact_from n (result @ take k (rd_buffer r')) (r'\<lparr>rd_buffer := drop k (rd_buffer r')\<rparr>))
      else (Inr result, r))"
  by pat_completeness auto
termination
  by (relation "measure (\<lambda>(n, result, r). n - length result)") (auto simp: min_def neq_Nil_conv)

declare read_exact_from.simps [simp del]

definition tar_read_exact :: "nat \<Rightarrow> tar_reader \<Rightarrow> bytes vfs_result \<times> tar_reader" where
  "tar_read_exact n r = read_exact_from n [] r"

function skip_exact :: "u64 \<Rightarrow> tar_reader \<Rightarrow> unit vfs_result \<times> tar_reader" where
  "skip_exact n r =
     (if n \<noteq> 0 then
        (case fill r of
           (Inl e, r') \<Rightarrow> (Inl e, r')
         | (Inr _, r') \<Rightarrow>
             if rd_buffer r' = [] then (Inl truncated_archive, r')
             else
               let k = min (unat n) (length (rd_buffer r'))
               in skip_exact (n - word_of_nat k) (r'\<lparr>rd_buffer := drop k (rd_buffer r')\<rparr>))
      else (Inr (), r))"
  by pat_completeness auto
termination
proof (relation "measure (\<lambda>(n, r). unat n)", goal_cases)
  case (2 n r x r' y z)
  let ?k = "min (unat n) (length (rd_buffer r'))"
  have "unat (n - word_of_nat ?k) = unat n - ?k" by (rule unat_sub_nat) simp
  moreover have "0 < ?k" using 2 by (simp add: unat_gt_0)
  moreover have "0 < unat n" using 2 by (simp add: unat_gt_0)
  ultimately show ?case using 2 by simp
qed simp

declare skip_exact.simps [simp del]

lemma read_exact_from_weight:
  "read_exact_from n result r = (res, r') \<Longrightarrow>
   weight r' \<le> weight r \<and> (\<forall>bs. res = Inr bs \<longrightarrow> weight r' + length bs \<le> weight r + length result)"
proof (induction n result r arbitrary: r' rule: read_exact_from.induct)
  case (1 n result r)
  obtain a q where fill: "fill r = (a, q)" by fastforce
  then have w: "weight q \<le> weight r" by (rule fill_weight)
  show ?case
  proof (cases "length result < n \<and> (\<exists>u. a = Inr u) \<and> rd_buffer q \<noteq> []")
    case False
    then show ?thesis using 1(2) fill w
      by (auto simp: read_exact_from.simps [of n] split: sum.splits if_splits)
  next
    case True
    then obtain u where a: "length result < n" "a = Inr u" "rd_buffer q \<noteq> []" by blast
    define k where "k = min (n - length result) (length (rd_buffer q))"
    define q' where "q' = q\<lparr>rd_buffer := drop k (rd_buffer q)\<rparr>"
    have step: "read_exact_from n (result @ take k (rd_buffer q)) q' = (res, r')"
      using 1(2) a fill by (simp add: read_exact_from.simps [of n result] k_def q'_def Let_def)
    have k: "k \<le> length (rd_buffer q)" by (simp add: k_def)
    then have "weight q' + k = weight q" by (simp add: q'_def weight_def)
    moreover have "weight r' \<le> weight q' \<and>
        (\<forall>bs. res = Inr bs \<longrightarrow> weight r' + length bs \<le> weight q' + length (result @ take k (rd_buffer q)))"
      using "1.IH" [OF a(1) fill [symmetric] a(2) a(3) refl, folded k_def, folded q'_def, OF step] .
    ultimately show ?thesis using w k by auto
  qed
qed

lemma read_exact_from_length:
  "read_exact_from n result r = (Inr bs, r') \<Longrightarrow> length result \<le> n \<Longrightarrow> length bs = n"
proof (induction n result r arbitrary: r' rule: read_exact_from.induct)
  case (1 n result r)
  obtain a q where fill: "fill r = (a, q)" by fastforce
  show ?case
  proof (cases "length result < n")
    case False
    then show ?thesis using 1(2,3) by (simp add: read_exact_from.simps [of n])
  next
    case True
    then obtain u where a: "a = Inr u" "rd_buffer q \<noteq> []"
      using 1(2) fill by (auto simp: read_exact_from.simps [of n] split: sum.splits if_splits)
    show ?thesis using 1(2) True
      by (intro "1.IH" [OF True fill [symmetric] a refl])
         (simp_all add: read_exact_from.simps [of n result] fill a Let_def)
  qed
qed

lemma tar_read_exact_weight:
  assumes "tar_read_exact n r = (res, r')"
  shows "weight r' \<le> weight r" and "res = Inr bs \<Longrightarrow> weight r' + n \<le> weight r" and "res = Inr bs \<Longrightarrow> length bs = n"
  using read_exact_from_weight [of n "[]" r res r'] read_exact_from_length [of n "[]" r bs r'] assms
  by (auto simp: tar_read_exact_def)

lemma skip_exact_weight: "skip_exact n r = (res, r') \<Longrightarrow> weight r' \<le> weight r"
proof (induction n r arbitrary: r' rule: skip_exact.induct)
  case (1 n r)
  obtain a q where fill: "fill r = (a, q)" by fastforce
  then have w: "weight q \<le> weight r" by (rule fill_weight)
  show ?case
  proof (cases "n \<noteq> 0 \<and> (\<exists>u. a = Inr u) \<and> rd_buffer q \<noteq> []")
    case False
    then show ?thesis using 1(2) fill w by (auto simp: skip_exact.simps [of n] split: sum.splits if_splits)
  next
    case True
    then obtain u where a: "n \<noteq> 0" "a = Inr u" "rd_buffer q \<noteq> []" by blast
    define k where "k = min (unat n) (length (rd_buffer q))"
    define q' where "q' = q\<lparr>rd_buffer := drop k (rd_buffer q)\<rparr>"
    have "skip_exact (n - word_of_nat k) q' = (res, r')"
      using 1(2) a fill by (simp add: skip_exact.simps [of n] k_def q'_def Let_def)
    then have "weight r' \<le> weight q'"
      by (rule "1.IH" [OF a(1) fill [symmetric] a(2) a(3) refl, folded k_def, folded q'_def])
    then show ?thesis using w by (simp add: q'_def weight_def)
  qed
qed

text \<open>Everything after the end marker must be zero, to the end of the stream.\<close>

function ensure_zero_tail :: "tar_reader \<Rightarrow> unit vfs_result \<times> tar_reader" where
  "ensure_zero_tail r =
     (case fill r of
        (Inl e, r') \<Rightarrow> (Inl e, r')
      | (Inr _, r') \<Rightarrow>
          if rd_buffer r' = [] then (Inr (), r')
          else if list_ex (\<lambda>b. b \<noteq> 0) (rd_buffer r') then (Inl (Io ''non-zero bytes after tar end marker''), r')
          else ensure_zero_tail (r'\<lparr>rd_buffer := []\<rparr>))"
  by pat_completeness auto
termination
  by (relation "measure weight") (auto dest!: fill_weight [OF sym] simp: weight_def neq_Nil_conv)

declare ensure_zero_tail.simps [simp del]

lemma ensure_zero_tail_weight: "ensure_zero_tail r = (res, r') \<Longrightarrow> weight r' \<le> weight r"
proof (induction r arbitrary: r' rule: ensure_zero_tail.induct)
  case (1 r)
  obtain a q where fill: "fill r = (a, q)" by fastforce
  then have w: "weight q \<le> weight r" by (rule fill_weight)
  show ?case
  proof (cases "(\<exists>u. a = Inr u) \<and> rd_buffer q \<noteq> [] \<and> \<not> list_ex (\<lambda>b. b \<noteq> 0) (rd_buffer q)")
    case False
    then show ?thesis using 1(2) fill w
      by (auto simp: ensure_zero_tail.simps [of r] split: sum.splits if_splits)
  next
    case True
    then obtain u where a: "a = Inr u" "rd_buffer q \<noteq> []" "\<not> list_ex (\<lambda>b. b \<noteq> 0) (rd_buffer q)" by blast
    have "ensure_zero_tail (q\<lparr>rd_buffer := []\<rparr>) = (res, r')"
      using 1(2) a fill by (simp add: ensure_zero_tail.simps [of r])
    then have "weight r' \<le> weight (q\<lparr>rd_buffer := []\<rparr>)"
      by (rule "1.IH" [OF fill [symmetric] a])
    then show ?thesis using w by (simp add: weight_def)
  qed
qed

section \<open>Entries\<close>

definition read_extension :: "u64 \<Rightarrow> tar_reader \<Rightarrow> bytes vfs_result \<times> tar_reader" where
  "read_extension sz r =
     (if sz > max_extension_bytes (rd_limits r) then (Inl (Unavailable ''tar extension limit exceeded''), r)
      else case tar_read_exact (unat sz) r of
             (Inl e, r') \<Rightarrow> (Inl e, r')
           | (Inr data, r') \<Rightarrow>
               (case skip_exact (padding sz sz) r' of
                  (Inl e, r'') \<Rightarrow> (Inl e, r'')
                | (Inr _, r'') \<Rightarrow> (Inr data, r'')))"

text \<open>The extension records: PAX values (\<^verbatim>\<open>x\<close>, \<^verbatim>\<open>g\<close>) and GNU long names and links (\<^verbatim>\<open>L\<close>, \<^verbatim>\<open>K\<close>).\<close>

definition take_pax :: "raw_header \<Rightarrow> tar_reader \<Rightarrow> unit vfs_result \<times> tar_reader" where
  "take_pax header r =
     (case read_extension (rh_size header) r of
        (Inl e, r') \<Rightarrow> (Inl e, r')
      | (Inr payload, r') \<Rightarrow>
          (case parse_pax payload of
             Inl e \<Rightarrow> (Inl e, r')
           | Inr pax \<Rightarrow>
               (Inr (), if type_flag header = 103 then r'\<lparr>global_pax := overlay (global_pax r') pax\<rparr>
                        else r'\<lparr>pending_pax := overlay (pending_pax r') pax\<rparr>)))"

definition take_long :: "raw_header \<Rightarrow> tar_reader \<Rightarrow> unit vfs_result \<times> tar_reader" where
  "take_long header r =
     (case read_extension (rh_size header) r of
        (Inl e, r') \<Rightarrow> (Inl e, r')
      | (Inr payload, r') \<Rightarrow>
          (case parse_long_value payload of
             Inl e \<Rightarrow> (Inl e, r')
           | Inr value \<Rightarrow>
               (Inr (), if type_flag header = 76 then r'\<lparr>pending_long_name := Some value\<rparr>
                        else r'\<lparr>pending_long_link := Some value\<rparr>)))"

text \<open>
  The path and the link target of an entry: the PAX value if there is one, then the GNU long value, which is
  taken, then the header's.
\<close>

definition resolve_names :: "raw_header \<Rightarrow> tar_reader \<Rightarrow> (pax_values \<times> bytes \<times> bytes option) \<times> tar_reader" where
  "resolve_names header r =
     (let pax = overlay (global_pax r) (pending_pax r);
          raw = (case pax_path pax of Some p \<Rightarrow> p
                 | None \<Rightarrow> (case pending_long_name r of Some p \<Rightarrow> p | None \<Rightarrow> rh_path header));
          long_name = (case pax_path pax of Some _ \<Rightarrow> pending_long_name r | None \<Rightarrow> None);
          link = (case pax_link_path pax of Some p \<Rightarrow> Some p
                  | None \<Rightarrow> or_else (pending_long_link r) (rh_link_target header));
          long_link = (case pax_link_path pax of Some _ \<Rightarrow> pending_long_link r | None \<Rightarrow> None)
      in ((pax, raw, link),
          r\<lparr>pending_pax := pax_default, pending_long_name := long_name, pending_long_link := long_link\<rparr>))"

definition check_hardlink :: "raw_header \<Rightarrow> bytes option \<Rightarrow> tar_limits \<Rightarrow> unit vfs_result" where
  "check_hardlink header link l =
     (if rh_kind header = TarHardlink then
        bindR (ok_or (Io ''hardlink has no target'') link) (\<lambda>t.
        bindR (from_tar_bytes t l) (\<lambda>_. Inr ()))
      else Inr ())"

definition checked_u32_option :: "u64 option \<Rightarrow> string \<Rightarrow> u32 option vfs_result" where
  "checked_u32_option value label =
     (case value of None \<Rightarrow> Inr None | Some v \<Rightarrow> map_sum id Some (checked_u32 v label))"

definition build_entry :: "raw_header \<Rightarrow> pax_values \<Rightarrow> bytes \<Rightarrow> bytes option \<Rightarrow> tar_limits \<Rightarrow> tar_entry vfs_result" where
  "build_entry header pax raw link l =
     bindR (validate_link_target link l) (\<lambda>_.
     bindR (check_hardlink header link l) (\<lambda>_.
     let size = (case pax_size pax of Some n \<Rightarrow> n | None \<Rightarrow> rh_size header)
     in if size > max_entry_bytes l then Inl (Unavailable ''tar entry size limit exceeded'')
        else
          bindR (from_tar_bytes raw l) (\<lambda>path.
          bindR (checked_u32 (rh_mode header) ''tar mode'') (\<lambda>mode.
          bindR (checked_u32 (case pax_uid pax of Some n \<Rightarrow> n | None \<Rightarrow> rh_uid header) ''tar uid'') (\<lambda>uid.
          bindR (checked_u32 (case pax_gid pax of Some n \<Rightarrow> n | None \<Rightarrow> rh_gid header) ''tar gid'') (\<lambda>gid.
          bindR (checked_u32_option (rh_device_major header) ''device major'') (\<lambda>major.
          bindR (checked_u32_option (rh_device_minor header) ''device minor'') (\<lambda>minor.
          Inr \<lparr>raw_path = raw, te_path = path, te_kind = rh_kind header, te_size = size, te_mode = mode,
            te_uid = uid, te_gid = gid,
            te_mtime = (case pax_mtime pax of Some t \<Rightarrow> t | None \<Rightarrow> rh_mtime header),
            link_target = link, device_major = major, device_minor = minor, synthetic = False\<rparr>))))))))"

definition make_entry :: "raw_header \<Rightarrow> tar_reader \<Rightarrow> tar_entry option vfs_result \<times> tar_reader" where
  "make_entry header r =
     (case resolve_names header r of
        ((pax, raw, link), r') \<Rightarrow>
          (case build_entry header pax raw link (rd_limits r) of
             Inl e \<Rightarrow> (Inl e, r')
           | Inr entry \<Rightarrow> (Inr (Some entry), r'\<lparr>current_size := Some (te_size entry)\<rparr>)))"

text \<open>The end marker: a second zero block, and nothing but zeros after it.\<close>

definition finish_archive :: "tar_reader \<Rightarrow> tar_entry option vfs_result \<times> tar_reader" where
  "finish_archive r =
     (case tar_read_exact TAR_BLOCK r of
        (Inl e, r') \<Rightarrow> (Inl e, r')
      | (Inr second, r') \<Rightarrow>
          if list_ex (\<lambda>b. b \<noteq> 0) second then (Inl (Io ''non-zero tar header after end marker''), r')
          else case ensure_zero_tail r' of
                 (Inl e, r'') \<Rightarrow> (Inl e, r'')
               | (Inr _, r'') \<Rightarrow> (Inr None, r''\<lparr>archive_finished := True\<rparr>))"

lemma weight_updates [simp]:
  "weight (r\<lparr>global_pax := p\<rparr>) = weight r" "weight (r\<lparr>pending_pax := p\<rparr>) = weight r"
  "weight (r\<lparr>pending_long_name := n\<rparr>) = weight r" "weight (r\<lparr>pending_long_link := n\<rparr>) = weight r"
  "weight (r\<lparr>current_size := c\<rparr>) = weight r" "weight (r\<lparr>archive_finished := b\<rparr>) = weight r"
  by (simp_all add: weight_def)

lemma read_extension_weight: "read_extension sz r = (res, r') \<Longrightarrow> weight r' \<le> weight r"
  by (auto simp: read_extension_def split: if_splits prod.splits sum.splits
      dest!: tar_read_exact_weight(1) skip_exact_weight)

lemma take_pax_weight: "take_pax header r = (res, r') \<Longrightarrow> weight r' \<le> weight r"
  by (auto simp: take_pax_def split: prod.splits sum.splits dest!: read_extension_weight)

lemma take_long_weight: "take_long header r = (res, r') \<Longrightarrow> weight r' \<le> weight r"
  by (auto simp: take_long_def split: prod.splits sum.splits dest!: read_extension_weight)

lemma tar_block_pos: "0 < TAR_BLOCK"
  by (simp add: TAR_BLOCK_def)

function next_entry_loop :: "tar_reader \<Rightarrow> tar_entry option vfs_result \<times> tar_reader" where
  "next_entry_loop r =
     (case tar_read_exact TAR_BLOCK r of
        (Inl e, r1) \<Rightarrow> (Inl e, r1)
      | (Inr block, r1) \<Rightarrow>
          if list_all (\<lambda>b. b = 0) block then finish_archive r1
          else case parse_header block of
                 Inl e \<Rightarrow> (Inl e, r1)
               | Inr header \<Rightarrow>
                   if type_flag header = 120 \<or> type_flag header = 103 then
                     (case take_pax header r1 of (Inl e, r2) \<Rightarrow> (Inl e, r2) | (Inr _, r2) \<Rightarrow> next_entry_loop r2)
                   else if type_flag header = 76 \<or> type_flag header = 75 then
                     (case take_long header r1 of (Inl e, r2) \<Rightarrow> (Inl e, r2) | (Inr _, r2) \<Rightarrow> next_entry_loop r2)
                   else make_entry header r1)"
  by pat_completeness auto
termination
  by (relation "measure weight", simp)
     (auto dest!: take_pax_weight [OF sym] take_long_weight [OF sym] tar_read_exact_weight(2) [OF sym _ , OF _ refl]
       simp: TAR_BLOCK_def)

declare next_entry_loop.simps [simp del]

definition next_entry :: "tar_reader \<Rightarrow> tar_entry option vfs_result \<times> tar_reader" where
  "next_entry r =
     (if current_size r \<noteq> None then (Inl (InvalidInput ''previous tar body was not consumed''), r)
      else if archive_finished r then (Inr None, r)
      else next_entry_loop r)"

section \<open>Bodies\<close>

abbreviation no_body :: vfs_error where
  "no_body \<equiv> InvalidInput ''no current tar body''"

definition read_body_chunk :: "nat \<Rightarrow> tar_reader \<Rightarrow> bytes option vfs_result \<times> tar_reader" where
  "read_body_chunk maximum r =
     (case current_size r of
        None \<Rightarrow> (Inl no_body, r)
      | Some remaining \<Rightarrow>
          if remaining = 0 then (Inr None, r)
          else case fill r of
                 (Inl e, r') \<Rightarrow> (Inl e, r')
               | (Inr _, r') \<Rightarrow>
                   if rd_buffer r' = [] then (Inl truncated_archive, r')
                   else
                     let k = min (min (max maximum 1) (length (rd_buffer r'))) (unat remaining)
                     in (Inr (Some (take k (rd_buffer r'))),
                         r'\<lparr>rd_buffer := drop k (rd_buffer r'), current_size := Some (remaining - word_of_nat k)\<rparr>))"

definition skip_entry_body :: "tar_reader \<Rightarrow> unit vfs_result \<times> tar_reader" where
  "skip_entry_body r =
     (case current_size r of
        None \<Rightarrow> (Inl no_body, r)
      | Some sz \<Rightarrow>
          (case skip_exact sz (r\<lparr>current_size := None\<rparr>) of
             (Inl e, r') \<Rightarrow> (Inl e, r')
           | (Inr _, r') \<Rightarrow> skip_exact (padding sz sz) r'))"

definition complete_consumed_body :: "u64 \<Rightarrow> tar_reader \<Rightarrow> unit vfs_result \<times> tar_reader" where
  "complete_consumed_body original_size r =
     (case current_size r of
        None \<Rightarrow> (Inl no_body, r)
      | Some remaining \<Rightarrow>
          let r' = r\<lparr>current_size := None\<rparr>
          in if remaining \<noteq> 0 then (Inl (InvalidInput ''tar body is incomplete''), r')
             else skip_exact (padding original_size original_size) r')"

section \<open>Invariants of a reader\<close>

text \<open>A reader at its end: nothing buffered, the stream exhausted.\<close>

lemma fill_loop_end: "fill_loop s r = (Inr u, r') \<Longrightarrow> rd_buffer r' = [] \<Longrightarrow> ended r'"
  by (induction s r rule: fill_loop.induct) (auto simp: Let_def split: if_splits option.splits)

lemma fill_end: "fill r = (Inr u, r') \<Longrightarrow> rd_buffer r' = [] \<Longrightarrow> ended r'"
  by (auto simp: fill_def split: if_splits dest: fill_loop_end)

lemma ensure_zero_tail_end: "ensure_zero_tail r = (Inr u, r') \<Longrightarrow> ended r'"
proof (induction r arbitrary: r' rule: ensure_zero_tail.induct)
  case (1 r)
  obtain a q where f: "fill r = (a, q)" by fastforce
  show ?case using 1(2) "1.IH" [OF f [symmetric]] f fill_end
    by (cases a) (auto simp: ensure_zero_tail.simps [of r] split: if_splits)
qed

lemma finish_archive_end: "finish_archive r = (Inr x, r') \<Longrightarrow> x = None \<and> ended r'"
  by (auto simp: finish_archive_def split: if_splits prod.splits sum.splits dest: ensure_zero_tail_end)

text \<open>
  A fact about readers that a successful fill and the updates of the other fields keep is kept by every successful
  operation.
\<close>

locale reader_keeps =
  fixes P :: "tar_reader \<Rightarrow> bool"
  assumes fill: "P r \<Longrightarrow> fill r = (Inr u, r') \<Longrightarrow> P r'"
    and buffer: "P r \<Longrightarrow> P (r\<lparr>rd_buffer := b\<rparr>)"
    and finished: "P r \<Longrightarrow> ended r \<Longrightarrow> P (r\<lparr>archive_finished := True\<rparr>)"
    and current: "P r \<Longrightarrow> P (r\<lparr>current_size := c\<rparr>)"
    and pax: "P r \<Longrightarrow> P (r\<lparr>global_pax := p\<rparr>)" "P r \<Longrightarrow> P (r\<lparr>pending_pax := p\<rparr>)"
    and long: "P r \<Longrightarrow> P (r\<lparr>pending_long_name := n\<rparr>)" "P r \<Longrightarrow> P (r\<lparr>pending_long_link := n\<rparr>)"
begin

lemma read_exact_from: "P r \<Longrightarrow> read_exact_from n result r = (Inr bs, r') \<Longrightarrow> P r'"
proof (induction n result r arbitrary: r' rule: read_exact_from.induct)
  case (1 n result r)
  obtain a q where f: "fill r = (a, q)" by fastforce
  show ?case using 1(3) "1.IH" [OF _ f [symmetric]] fill [OF 1(2)] f buffer 1(2)
    by (cases a) (auto simp: read_exact_from.simps [of n result r] Let_def split: if_splits)
qed

lemma read_exact: "P r \<Longrightarrow> tar_read_exact n r = (Inr bs, r') \<Longrightarrow> P r'"
  by (auto simp: tar_read_exact_def intro: read_exact_from)

lemma skip_exact: "P r \<Longrightarrow> skip_exact n r = (Inr u, r') \<Longrightarrow> P r'"
proof (induction n r arbitrary: r' rule: skip_exact.induct)
  case (1 n r)
  obtain a q where f: "fill r = (a, q)" by fastforce
  show ?case using 1(3) "1.IH" [OF _ f [symmetric]] fill [OF 1(2)] f buffer 1(2)
    by (cases a) (auto simp: skip_exact.simps [of n r] Let_def split: if_splits)
qed

lemma ensure_zero_tail: "P r \<Longrightarrow> ensure_zero_tail r = (Inr u, r') \<Longrightarrow> P r'"
proof (induction r arbitrary: r' rule: ensure_zero_tail.induct)
  case (1 r)
  obtain a q where f: "fill r = (a, q)" by fastforce
  show ?case using 1(3) "1.IH" [OF f [symmetric]] fill [OF 1(2)] f buffer 1(2)
    by (cases a) (auto simp: ensure_zero_tail.simps [of r] split: if_splits)
qed

lemma read_extension: "P r \<Longrightarrow> read_extension n r = (Inr bs, r') \<Longrightarrow> P r'"
  by (auto simp: read_extension_def split: if_splits prod.splits sum.splits intro: skip_exact read_exact)

lemma take_pax: "P r \<Longrightarrow> take_pax header r = (Inr u, r') \<Longrightarrow> P r'"
  by (auto simp: take_pax_def split: prod.splits sum.splits if_splits intro: pax read_extension)

lemma take_long: "P r \<Longrightarrow> take_long header r = (Inr u, r') \<Longrightarrow> P r'"
  by (auto simp: take_long_def split: prod.splits sum.splits if_splits intro: long read_extension)

lemma make_entry: "P r \<Longrightarrow> make_entry header r = (Inr x, r') \<Longrightarrow> P r'"
  by (auto simp: make_entry_def resolve_names_def Let_def split: sum.splits intro!: current long pax)

lemma finish_archive: "P r \<Longrightarrow> finish_archive r = (Inr x, r') \<Longrightarrow> P r'"
  by (auto simp: finish_archive_def split: if_splits prod.splits sum.splits intro!: finished intro: ensure_zero_tail read_exact ensure_zero_tail_end)

lemma next_entry_loop: "P r \<Longrightarrow> next_entry_loop r = (Inr x, r') \<Longrightarrow> P r'"
proof (induction r arbitrary: r' rule: next_entry_loop.induct)
  case (1 r)
  obtain a r1 where read: "tar_read_exact TAR_BLOCK r = (a, r1)" by fastforce
  then obtain block where a: "a = Inr block" using 1(4) by (cases a) (auto simp: next_entry_loop.simps [of r])
  have r1: "P r1" using read_exact [OF 1(3)] read a by simp
  show ?case
  proof (cases "list_all (\<lambda>b. b = 0) block")
    case True
    then show ?thesis using 1(4) read a finish_archive [OF r1] by (simp add: next_entry_loop.simps [of r])
  next
    case False
    then obtain header where h: "parse_header block = Inr header"
      using 1(4) read a by (cases "parse_header block") (auto simp: next_entry_loop.simps [of r])
    obtain b r2 c r3 where t: "take_pax header r1 = (b, r2)" "take_long header r1 = (c, r3)" by fastforce
    show ?thesis
      using 1(4) read a False h t make_entry [OF r1] take_pax [OF r1, of header] take_long [OF r1, of header]
        "1.IH"(1) [OF read [symmetric] a False h _ t(1) [symmetric]]
        "1.IH"(2) [OF read [symmetric] a False h _ _ t(2) [symmetric]]
      by (cases b; cases c) (auto simp: next_entry_loop.simps [of r] split: if_splits)
  qed
qed

lemma next_entry: "P r \<Longrightarrow> next_entry r = (Inr x, r') \<Longrightarrow> P r'"
  by (auto simp: next_entry_def split: if_splits intro: next_entry_loop)

lemma skip_entry_body: "P r \<Longrightarrow> skip_entry_body r = (Inr u, r') \<Longrightarrow> P r'"
  by (auto simp: skip_entry_body_def split: option.splits prod.splits sum.splits
      dest: skip_exact [OF current] intro: skip_exact)

lemma read_body_chunk: "P r \<Longrightarrow> read_body_chunk n r = (Inr x, r') \<Longrightarrow> P r'"
  by (auto simp: read_body_chunk_def Let_def split: option.splits prod.splits sum.splits if_splits
      intro!: current buffer intro: fill)

lemma complete_consumed_body: "P r \<Longrightarrow> complete_consumed_body n r = (Inr u, r') \<Longrightarrow> P r'"
  by (auto simp: complete_consumed_body_def Let_def split: option.splits if_splits intro: skip_exact current)

end

section \<open>Long names that outlive their entry\<close>

text \<open>
  A GNU long name announced for an entry whose path a PAX record gives as well is not taken by that entry: the next
  entry without a PAX path gets it, whatever its header says.
\<close>

lemma long_name_outlives_pax_entry:
  assumes "pax_path (overlay (global_pax r) (pending_pax r)) = Some p" "pax_path (global_pax r) = None"
    and "pending_long_name r = Some n"
    and "resolve_names h r = ((pax, raw, link), r')" "resolve_names h' r' = ((pax', raw', link'), r'')"
  shows "raw = p \<and> raw' = n"
proof -
  have first: "raw = p" "pending_long_name r' = Some n" "pending_pax r' = pax_default" "global_pax r' = global_pax r"
    using assms(1,3,4) by (auto simp: resolve_names_def Let_def)
  have "pax_path (overlay (global_pax r') (pending_pax r')) = None"
    using first(3,4) assms(2) by (simp add: overlay_def pax_default_def or_else_def)
  then have "raw' = n" using first(2) assms(5) by (auto simp: resolve_names_def Let_def)
  then show ?thesis using first(1) by simp
qed

end
