(* ===== verification/Tar_Index.thy ===== *)
theory Tar_Index
  imports Tar_Stream
begin

text \<open>
  The metadata index of a tar archive, \<^verbatim>\<open>TarIndex\<close> of \<^verbatim>\<open>docker-core/src/vfs_providers/tar_index.rs\<close>: the
  entries of an archive by their paths, every ancestor of an entry present. The \<^verbatim>\<open>BTreeMap\<close> is the list of
  its entries in the order of the paths.
\<close>

type_synonym tar_index = "(tar_path \<times> tar_entry) list"

section \<open>Operations\<close>

definition index_empty :: tar_index where
  "index_empty = [(tar_root, tar_entry_root)]"

definition index_len :: "tar_index \<Rightarrow> nat" where
  "index_len idx = length idx"

definition index_is_empty :: "tar_index \<Rightarrow> bool" where
  "index_is_empty idx \<longleftrightarrow> length idx = 1 \<and> map_of idx tar_root \<noteq> None"

definition index_get :: "tar_index \<Rightarrow> tar_path \<Rightarrow> tar_entry option" where
  "index_get idx p = map_of idx p"

definition get_virtual :: "tar_index \<Rightarrow> virtual_path \<Rightarrow> tar_entry option" where
  "get_virtual idx p = index_get idx (from_virtual p)"

text \<open>The loop of \<^verbatim>\<open>resolve_hardlink\<close>, at most forty steps; the default limits apply whatever the archive was read with.\<close>

primrec hardlink_loop :: "nat \<Rightarrow> tar_index \<Rightarrow> tar_path set \<Rightarrow> tar_path \<Rightarrow> tar_entry vfs_result" where
  "hardlink_loop 0 idx visited current = Inl SymlinkLoop"
| "hardlink_loop (Suc n) idx visited current =
     (if current \<in> visited then Inl SymlinkLoop
      else
        bindR (ok_or NotFound (index_get idx current)) (\<lambda>entry.
        if te_kind entry \<noteq> TarHardlink then Inr entry
        else
          bindR (ok_or (Io ''hardlink has no target'') (link_target entry)) (\<lambda>target.
          bindR (from_tar_bytes target limits_default) (\<lambda>next.
          hardlink_loop n idx (insert current visited) next))))"

definition resolve_hardlink :: "tar_index \<Rightarrow> tar_path \<Rightarrow> tar_entry vfs_result" where
  "resolve_hardlink idx path = hardlink_loop 40 idx {} path"

definition index_metadata :: "tar_index \<Rightarrow> tar_path \<Rightarrow> bytes \<Rightarrow> u64 \<Rightarrow> virtual_metadata vfs_result" where
  "index_metadata idx path identity_prefix generation =
     bindR (ok_or NotFound (index_get idx path)) (\<lambda>entry.
     if te_kind entry \<noteq> TarHardlink then Inr (entry_metadata entry identity_prefix generation)
     else
       bindR (resolve_hardlink idx path) (\<lambda>target.
       let metadata = entry_metadata target identity_prefix generation
       in Inr (metadata\<lparr>nlink := max (nlink metadata) 2\<rparr>)))"

definition content_path :: "tar_index \<Rightarrow> virtual_path \<Rightarrow> virtual_path vfs_result" where
  "content_path idx vpath =
     (let path = from_virtual vpath in
      bindR (ok_or NotFound (index_get idx path)) (\<lambda>entry.
      bindR (if te_kind entry = TarHardlink then resolve_hardlink idx path else Inr entry) (\<lambda>content.
      case te_kind content of
        TarRegularFile \<Rightarrow> to_virtual (te_path content)
      | TarDirectory \<Rightarrow> Inl IsDirectory
      | TarCharacterDevice \<Rightarrow> Inl SpecialFile
      | TarBlockDevice \<Rightarrow> Inl SpecialFile
      | TarNamedPipe \<Rightarrow> Inl SpecialFile
      | TarOther \<Rightarrow> Inl SpecialFile
      | _ \<Rightarrow> Inl (InvalidInput ''node is not a regular file''))))"

definition index_children :: "tar_index \<Rightarrow> tar_path \<Rightarrow> tar_entry list" where
  "index_children idx parent =
     filter (\<lambda>entry. tar_depth (te_path entry) = tar_depth parent + 1 \<and> tar_parent (te_path entry) = Some parent)
       (map snd idx)"

fun collect_results :: "('e + 'a) list \<Rightarrow> 'e + 'a list" where
  "collect_results [] = Inr []"
| "collect_results (r # rs) = bindR r (\<lambda>v. bindR (collect_results rs) (\<lambda>vs. Inr (v # vs)))"

definition child_directory_entry ::
    "tar_index \<Rightarrow> bytes \<Rightarrow> u64 \<Rightarrow> tar_entry \<Rightarrow> virtual_directory_entry vfs_result" where
  "child_directory_entry idx identity_prefix generation entry =
     bindR (ok_or NotFound (tar_name (te_path entry))) (\<lambda>raw.
     bindR (virtual_file_name_new raw) (\<lambda>name.
     bindR (index_metadata idx (te_path entry) identity_prefix generation) (\<lambda>metadata.
     Inr \<lparr>de_name = name, de_metadata = metadata\<rparr>)))"

definition directory_entries ::
    "tar_index \<Rightarrow> virtual_path \<Rightarrow> bytes \<Rightarrow> u64 \<Rightarrow> virtual_directory_entry list vfs_result" where
  "directory_entries idx parent identity_prefix generation =
     (let path = from_virtual parent in
      bindR (ok_or NotFound (index_get idx path)) (\<lambda>entry.
      if te_kind entry \<noteq> TarDirectory then Inl NotDirectory
      else collect_results (map (child_directory_entry idx identity_prefix generation) (index_children idx path))))"

definition ensure_capacity :: "tar_index \<Rightarrow> u64 \<Rightarrow> unit vfs_result" where
  "ensure_capacity idx m =
     (if length idx - 1 \<ge> unat m then Inl (Unavailable ''tar entry limit exceeded'') else Inr ())"

text \<open>The ancestors that are missing, from the nearest up to the first that is present.\<close>

function missing_parents :: "tar_index \<Rightarrow> tar_path option \<Rightarrow> tar_path list" where
  "missing_parents idx parent =
     (case parent of
        None \<Rightarrow> []
      | Some path \<Rightarrow> if map_of idx path \<noteq> None then [] else path # missing_parents idx (tar_parent path))"
  by pat_completeness auto
termination
  by (relation "measure (\<lambda>(idx, parent). case parent of None \<Rightarrow> 0 | Some p \<Rightarrow> Suc (tar_depth p))")
     (auto simp: tar_parent_def tar_depth_def tar_is_root_def split: option.splits if_splits)

declare missing_parents.simps [simp del]

fun insert_missing :: "tar_path list \<Rightarrow> u64 \<Rightarrow> tar_index \<Rightarrow> unit vfs_result \<times> tar_index" where
  "insert_missing [] m idx = (Inr (), idx)"
| "insert_missing (path # paths) m idx =
     (case ensure_capacity idx m of
        Inl e \<Rightarrow> (Inl e, idx)
      | Inr _ \<Rightarrow> insert_missing paths m (btree_insert path (synthetic_directory path) idx))"

definition insert_with_parents :: "tar_entry \<Rightarrow> u64 \<Rightarrow> tar_index \<Rightarrow> unit vfs_result \<times> tar_index" where
  "insert_with_parents entry m idx =
     (case insert_missing (rev (missing_parents idx (tar_parent (te_path entry)))) m idx of
        (Inl e, idx') \<Rightarrow> (Inl e, idx')
      | (Inr _, idx') \<Rightarrow>
          (case map_of idx' (te_path entry) of
             Some existing \<Rightarrow>
               if synthetic existing \<and> \<not> synthetic entry then (Inr (), btree_insert (te_path entry) entry idx')
               else (Inl (InvalidInput ''duplicate tar entry path''), idx')
           | None \<Rightarrow>
               (case ensure_capacity idx' m of
                  Inl e \<Rightarrow> (Inl e, idx')
                | Inr _ \<Rightarrow> (Inr (), btree_insert (te_path entry) entry idx'))))"

definition insert_synthetic_directory :: "tar_path \<Rightarrow> u64 \<Rightarrow> tar_index \<Rightarrow> unit vfs_result \<times> tar_index" where
  "insert_synthetic_directory path m idx =
     (if tar_is_root path then (Inr (), idx) else insert_with_parents (synthetic_directory path) m idx)"

definition remove_descendants :: "tar_path \<Rightarrow> tar_index \<Rightarrow> tar_index" where
  "remove_descendants root idx = filter (\<lambda>(path, _). \<not> is_descendant_of path root) idx"

definition index_replace :: "tar_entry \<Rightarrow> tar_index \<Rightarrow> tar_index" where
  "index_replace entry idx = btree_insert (te_path entry) entry idx"

definition persisted_entry_ok :: "tar_index \<Rightarrow> tar_limits \<Rightarrow> tar_path \<times> tar_entry \<Rightarrow> unit vfs_result" where
  "persisted_entry_ok idx l pe =
     (let path = fst pe; entry = snd pe in
      if path \<noteq> te_path entry \<or> tar_encoded_len path > unat (max_path_bytes l)
        then Inl (InvalidInput ''corrupt tar index path'')
      else if \<not> tar_is_root path \<and> map_of idx (the (tar_parent path)) = None
        then Inl (InvalidInput ''corrupt tar index parent'')
      else if te_kind entry = TarHardlink then
        bindR (ok_or (InvalidInput ''corrupt hardlink target'') (link_target entry)) (\<lambda>t.
        bindR (from_tar_bytes t l) (\<lambda>_. Inr ()))
      else Inr ())"

definition validate_persisted :: "tar_index \<Rightarrow> tar_limits \<Rightarrow> unit vfs_result" where
  "validate_persisted idx l =
     bindR (limits_validate l) (\<lambda>_.
     if length idx > unat (max_entries l + 1) \<or> map_option te_kind (map_of idx tar_root) \<noteq> Some TarDirectory
       then Inl (InvalidInput ''corrupt tar index'')
     else map_sum id (\<lambda>_. ()) (collect_results (map (persisted_entry_ok idx l) idx)))"

text \<open>Reading an archive: every entry but the root goes into the index.\<close>

lemma next_entry_loop_yields [consumes 1, case_names extension entry]:
  assumes "next_entry_loop r = (Inr (Some e), r')"
    and ext: "\<And>r block r1 header r2. tar_read_exact TAR_BLOCK r = (Inr block, r1) \<Longrightarrow> parse_header block = Inr header \<Longrightarrow>
      take_pax header r1 = (Inr (), r2) \<or> take_long header r1 = (Inr (), r2) \<Longrightarrow>
      next_entry_loop r2 = (Inr (Some e), r') \<Longrightarrow> P r2 \<Longrightarrow> P r"
    and ent: "\<And>r block r1 header. tar_read_exact TAR_BLOCK r = (Inr block, r1) \<Longrightarrow> parse_header block = Inr header \<Longrightarrow>
      make_entry header r1 = (Inr (Some e), r') \<Longrightarrow> P r"
  shows "P r"
  using assms(1)
proof (induction r rule: next_entry_loop.induct)
  case (1 r)
  obtain a r1 where read: "tar_read_exact TAR_BLOCK r = (a, r1)" by fastforce
  obtain block where a: "a = Inr block" using 1(3) read
    by (cases a) (auto simp: next_entry_loop.simps [of r])
  obtain header where h: "parse_header block = Inr header" "\<not> list_all (\<lambda>b. b = 0) block"
    using 1(3) read a
    by (cases "parse_header block")
       (auto simp: next_entry_loop.simps [of r] finish_archive_def split: if_splits prod.splits sum.splits)
  obtain b r2 c r3 where t: "take_pax header r1 = (b, r2)" "take_long header r1 = (c, r3)" by fastforce
  note found = read [unfolded a] h(1)
  consider "type_flag header = 120 \<or> type_flag header = 103"
    | "\<not> (type_flag header = 120 \<or> type_flag header = 103)" "type_flag header = 76 \<or> type_flag header = 75"
    | "\<not> (type_flag header = 120 \<or> type_flag header = 103)" "\<not> (type_flag header = 76 \<or> type_flag header = 75)"
    by blast
  then show ?case
  proof cases
    case x: 1
    then have b: "b = Inr ()" "next_entry_loop r2 = (Inr (Some e), r')"
      using 1(3) read a h t by (cases b; auto simp: next_entry_loop.simps [of r])+
    then show ?thesis
      using ext [OF found, of r2] t "1.IH"(1) [OF read [symmetric] a h(2) h(1) x t(1) [symmetric] b] by simp
  next
    case x: 2
    then have c: "c = Inr ()" "next_entry_loop r3 = (Inr (Some e), r')"
      using 1(3) read a h t by (cases c; auto simp: next_entry_loop.simps [of r])+
    then show ?thesis
      using ext [OF found, of r3] t "1.IH"(2) [OF read [symmetric] a h(2) h(1) x t(2) [symmetric] c] by simp
  next
    case x: 3
    then have "make_entry header r1 = (Inr (Some e), r')"
      using 1(3) read a h by (simp add: next_entry_loop.simps [of r])
    then show ?thesis by (rule ent [OF found])
  qed
qed

lemma make_entry_Some:
  "make_entry header r = (Inr (Some e), r') \<longleftrightarrow>
     (\<exists>pax raw link q. resolve_names header r = ((pax, raw, link), q) \<and>
        build_entry header pax raw link (rd_limits r) = Inr e \<and> r' = q\<lparr>current_size := Some (te_size e)\<rparr>)"
  by (auto simp: make_entry_def split: prod.splits sum.splits)

lemma resolve_names_fields:
  "resolve_names header r = (x, q) \<Longrightarrow> weight q = weight r \<and> rd_limits q = rd_limits r"
  by (auto simp: resolve_names_def Let_def)

lemma next_entry_loop_weight: "next_entry_loop r = (Inr (Some entry), r') \<Longrightarrow> weight r' < weight r"
proof (induction rule: next_entry_loop_yields)
  case (extension r block r1 header r2)
  then show ?case
    using tar_read_exact_weight(2) [OF extension(1) refl] take_pax_weight take_long_weight by fastforce
next
  case (entry r block r1 header)
  then show ?case
    using tar_read_exact_weight(2) [OF entry(1) refl] tar_block_pos resolve_names_fields
    by (fastforce simp: make_entry_Some)
qed

lemma next_entry_weight: "next_entry r = (Inr (Some entry), r') \<Longrightarrow> weight r' < weight r"
  by (auto simp: next_entry_def split: if_splits intro: next_entry_loop_weight)

lemma skip_entry_body_weight: "skip_entry_body r = (res, r') \<Longrightarrow> weight r' \<le> weight r"
  by (auto simp: skip_entry_body_def split: option.splits prod.splits sum.splits
      dest!: skip_exact_weight)

function index_loop :: "tar_reader \<Rightarrow> u64 \<Rightarrow> tar_index \<Rightarrow> tar_index vfs_result" where
  "index_loop r m idx =
     (case next_entry r of
        (Inl e, r1) \<Rightarrow> Inl e
      | (Inr None, r1) \<Rightarrow> Inr idx
      | (Inr (Some entry), r1) \<Rightarrow>
          (case skip_entry_body r1 of
             (Inl e, r2) \<Rightarrow> Inl e
           | (Inr _, r2) \<Rightarrow>
               if tar_is_root (te_path entry) then index_loop r2 m idx
               else case insert_with_parents entry m idx of
                      (Inl e, idx') \<Rightarrow> Inl e
                    | (Inr _, idx') \<Rightarrow> index_loop r2 m idx'))"
  by pat_completeness auto
termination
  by (relation "measure (\<lambda>(r, m, idx). weight r)")
     (auto dest!: next_entry_weight [OF sym] skip_entry_body_weight [OF sym])

declare index_loop.simps [simp del]

definition from_stream :: "archive_byte_stream \<Rightarrow> tar_limits \<Rightarrow> tar_index vfs_result" where
  "from_stream s l =
     bindR (limits_validate l) (\<lambda>_. index_loop (reader_new s l) (max_entries l) index_empty)"

section \<open>Paths\<close>

text \<open>What \<^verbatim>\<open>from_tar_bytes\<close> accepts: a path of plain file names within the length limit.\<close>

definition tar_path_ok :: "tar_limits \<Rightarrow> tar_path \<Rightarrow> bool" where
  "tar_path_ok l p \<longleftrightarrow>
     (\<forall>c \<in> set (tar_components p). valid_name (VirtualFileName c)) \<and> tar_encoded_len p \<le> unat (max_path_bytes l)"

lemma bindR_Inr [simp]: "bindR r f = Inr v \<longleftrightarrow> (\<exists>u. r = Inr u \<and> f u = Inr v)"
  by (cases r) (auto simp: bindR_def)

lemma tar_parts_names:
  "tar_parts cs = Inr ns \<Longrightarrow> c \<in> set ns \<Longrightarrow> valid_name (VirtualFileName c)"
proof (induction cs arbitrary: ns)
  case (Cons x cs)
  show ?case
  proof (cases "x = [] \<or> x = [dot] \<or> x = [dot, dot]")
    case True
    then show ?thesis using Cons by (auto split: if_splits)
  next
    case False
    then obtain n ms where "virtual_file_name_new x = Inr n" "tar_parts cs = Inr ms" "ns = name_bytes n # ms"
      using Cons.prems(1) by (auto split: sum.splits)
    then show ?thesis using Cons.IH Cons.prems(2)
      by (auto simp: virtual_file_name_new_Inr)
  qed
qed simp

lemma from_tar_bytes_ok: "from_tar_bytes raw l = Inr p \<Longrightarrow> tar_path_ok l p"
  using tar_parts_names by (auto simp: from_tar_bytes_def tar_path_ok_def split: if_splits sum.splits)

lemma tar_parent_cases:
  obtains "tar_is_root p" "tar_parent p = None"
  | c where "\<not> tar_is_root p" "tar_parent p = Some (TarPath (butlast (tar_components p)))"
      "tar_components p = butlast (tar_components p) @ [c]"
proof (cases "tar_components p" rule: rev_cases)
  case Nil
  then show ?thesis using that(1) by (simp add: tar_parent_def tar_is_root_def)
next
  case (snoc cs c)
  then show ?thesis using that(2) [of c] by (simp add: tar_parent_def tar_is_root_def)
qed

lemma tar_path_ok_parent: "tar_path_ok l p \<Longrightarrow> tar_parent p = Some q \<Longrightarrow> tar_path_ok l q"
proof (cases p rule: tar_parent_cases)
  case (2 c)
  assume p: "tar_path_ok l p" "tar_parent p = Some q"
  then have q: "tar_components q = butlast (tar_components p)" using 2 by auto
  have "set (tar_components q) \<subseteq> set (tar_components p)" using q by (metis in_set_butlastD subsetI)
  moreover have "tar_encoded_len q \<le> tar_encoded_len p"
    using 2 q by (cases "tar_components q = []")
      (auto simp: tar_encoded_len_def tar_is_root_def sum_list_append
        dest: arg_cong [where f = "\<lambda>xs. sum_list (map (\<lambda>item. length item + 1) xs)"])
  ultimately show ?thesis using p(1) by (auto simp: tar_path_ok_def)
qed simp

lemma tar_parent_smaller: "tar_parent p = Some q \<Longrightarrow> tar_depth q < tar_depth p"
  by (auto simp: tar_parent_def tar_depth_def tar_is_root_def split: if_splits)

section \<open>Well-formed indexes\<close>

text \<open>An entry that reading an archive under the limits may put at a path.\<close>

definition entry_ok :: "tar_limits \<Rightarrow> tar_path \<Rightarrow> tar_entry \<Rightarrow> bool" where
  "entry_ok l p e \<longleftrightarrow>
     te_path e = p \<and> tar_path_ok l p \<and> te_size e \<le> max_entry_bytes l \<and>
     (te_kind e = TarHardlink \<longrightarrow> (\<exists>t. link_target e = Some t \<and> is_ok (from_tar_bytes t l)))"

definition index_wf :: "tar_limits \<Rightarrow> tar_index \<Rightarrow> bool" where
  "index_wf l idx \<longleftrightarrow>
     sorted_wrt (<) (map fst idx) \<and> map_of idx tar_root = Some tar_entry_root \<and> length idx \<le> unat (max_entries l) + 1 \<and>
     (\<forall>p e. map_of idx p = Some e \<longrightarrow>
        entry_ok l p e \<and> (\<forall>q. tar_parent p = Some q \<longrightarrow> map_of idx q \<noteq> None))"

lemma synthetic_directory_ok: "tar_path_ok l p \<Longrightarrow> entry_ok l p (synthetic_directory p)"
  by (simp add: entry_ok_def synthetic_directory_def)

lemma index_wf_empty:
  assumes "limits_validate l = Inr ()"
  shows "index_wf l index_empty"
proof -
  have "1 \<le> unat (max_path_bytes l)"
    using assms by (auto simp: limits_validate_def unat_gt_0 Suc_le_eq split: if_splits)
  then show ?thesis
    by (auto simp: index_wf_def index_empty_def entry_ok_def tar_path_ok_def tar_entry_root_def tar_root_def
        tar_encoded_len_def tar_is_root_def tar_parent_def split: if_splits)
qed

lemma ensure_capacity_ok: "ensure_capacity idx m = Inr u \<longleftrightarrow> length idx - 1 < unat m"
  by (simp add: ensure_capacity_def)

lemma index_wf_not_Nil: "index_wf l idx \<Longrightarrow> idx \<noteq> []"
  by (auto simp: index_wf_def)

lemma index_wf_insert:
  assumes "index_wf l idx" "entry_ok l p e" "p \<noteq> tar_root" "\<And>q. tar_parent p = Some q \<Longrightarrow> map_of idx q \<noteq> None"
    and "map_of idx p \<noteq> None \<or> length idx - 1 < unat (max_entries l)"
  shows "index_wf l (btree_insert p e idx)"
proof -
  have "length (btree_insert p e idx) \<le> unat (max_entries l) + 1"
    using length_btree_insert [of idx p e] assms(1,5) index_wf_not_Nil [OF assms(1)]
    by (cases "map_of idx p = None"; cases idx) (auto simp: index_wf_def)
  then show ?thesis using assms sorted_btree_insert
    by (auto simp: index_wf_def)
qed

lemma descendant_parent:
  assumes "tar_parent p = Some q"
  shows "is_descendant_of p x \<longleftrightarrow> x = q \<or> is_descendant_of q x"
proof (cases p rule: tar_parent_cases)
  case (2 c)
  then have "tar_components p = tar_components q @ [c]" using assms by simp
  then have "prefix (tar_components x) (tar_components p) \<longleftrightarrow>
      tar_components x = tar_components p \<or> prefix (tar_components x) (tar_components q)"
    by simp
  moreover have "length (tar_components p) = Suc (length (tar_components q))"
    using \<open>tar_components p = tar_components q @ [c]\<close> by simp
  ultimately show ?thesis
    by (auto simp: is_descendant_of_def tar_depth_def tar_starts_with_def tar_path.expand less_Suc_eq
        intro: prefix_length_le dest: prefix_same_length [of "tar_components x" "tar_components q" "tar_components q"])
qed (use assms in simp)

lemma no_descendant_root: "tar_parent p = None \<Longrightarrow> \<not> is_descendant_of p x"
  by (auto simp: tar_parent_def is_descendant_of_def tar_depth_def tar_is_root_def split: if_splits)

lemma index_wf_ancestors:
  assumes "index_wf l idx" "map_of idx p \<noteq> None" "is_descendant_of p x"
  shows "map_of idx x \<noteq> None"
  using assms(2,3)
proof (induction "tar_depth p" arbitrary: p rule: less_induct)
  case less
  obtain q where q: "tar_parent p = Some q" using less(3) no_descendant_root by (cases "tar_parent p") auto
  then have "map_of idx q \<noteq> None" using assms(1) less(2) by (auto simp: index_wf_def)
  then show ?case
    using less q tar_parent_smaller [OF q] descendant_parent [OF q] by auto
qed

lemma insert_missing_append:
  "insert_missing (ps @ qs) m idx =
     (case insert_missing ps m idx of (Inl e, idx') \<Rightarrow> (Inl e, idx') | (Inr _, idx') \<Rightarrow> insert_missing qs m idx')"
  by (induction ps m idx rule: insert_missing.induct) (auto split: sum.split)

text \<open>Filling in a missing path: its absent ancestors and itself become synthetic directories.\<close>

definition with_ancestors :: "tar_index \<Rightarrow> tar_path \<Rightarrow> tar_path \<Rightarrow> tar_entry option" where
  "with_ancestors idx q x =
     (if map_of idx x = None \<and> (x = q \<or> is_descendant_of q x) then Some (synthetic_directory x) else map_of idx x)"

lemma root_parent: "tar_parent p = None \<longleftrightarrow> p = tar_root"
  by (cases p) (auto simp: tar_parent_def tar_is_root_def tar_root_def)

lemma insert_missing_spec:
  assumes "index_wf l idx" "tar_path_ok l q"
    and "insert_missing (rev (missing_parents idx (Some q))) (max_entries l) idx = (res, idx')"
  shows "index_wf l idx' \<and> (res = Inr () \<longrightarrow> map_of idx' = with_ancestors idx q)"
  using assms(2,3)
proof (induction "tar_depth q" arbitrary: q res idx' rule: less_induct)
  case less
  show ?case
  proof (cases "map_of idx q")
    case (Some e)
    then have "map_of idx x \<noteq> None" if "x = q \<or> is_descendant_of q x" for x
      using index_wf_ancestors [OF assms(1)] that by auto
    then show ?thesis using less(3) Some assms(1)
      by (auto simp: missing_parents.simps [of idx "Some q"] with_ancestors_def fun_eq_iff)
  next
    case None
    then have "q \<noteq> tar_root" using assms(1) by (auto simp: index_wf_def)
    then obtain p where p: "tar_parent q = Some p" using root_parent by (cases "tar_parent q") auto
    obtain res1 idx1 where first: "insert_missing (rev (missing_parents idx (Some p))) (max_entries l) idx = (res1, idx1)"
      by fastforce
    have IH: "index_wf l idx1 \<and> (res1 = Inr () \<longrightarrow> map_of idx1 = with_ancestors idx p)"
      by (rule less(1) [OF tar_parent_smaller [OF p] tar_path_ok_parent [OF less(2) p] first])
    have rest: "(case (res1, idx1) of (Inl e, idx') \<Rightarrow> (Inl e, idx') | (Inr _, idx') \<Rightarrow> insert_missing [q] (max_entries l) idx')
        = (res, idx')"
      using less(3) None p first by (simp add: missing_parents.simps [of idx "Some q"] insert_missing_append)
    show ?thesis
    proof (cases "res1 = Inr () \<and> ensure_capacity idx1 (max_entries l) = Inr ()")
      case False
      then show ?thesis using rest IH by (auto split: sum.splits)
    next
      case True
      then have eq: "res = Inr ()" "idx' = btree_insert q (synthetic_directory q) idx1" using rest by auto
      have lookup: "map_of idx1 = with_ancestors idx p" using IH True by simp
      have "map_of idx1 q = None"
        using lookup None p descendant_parent [OF p] tar_parent_smaller [OF p]
        by (auto simp: with_ancestors_def is_descendant_of_def)
      moreover have "map_of idx1 p \<noteq> None" using lookup by (auto simp: with_ancestors_def)
      ultimately have "index_wf l idx'"
        unfolding eq using IH True less(2) p \<open>q \<noteq> tar_root\<close>
        by (intro index_wf_insert) (auto simp: synthetic_directory_ok ensure_capacity_ok)
      moreover have "map_of idx' = with_ancestors idx q"
        using eq(2) lookup None descendant_parent [OF p] by (auto simp: with_ancestors_def fun_eq_iff)
      ultimately show ?thesis by simp
    qed
  qed
qed

text \<open>
  What a successful insertion does to the index: the entry at its path, synthetic directories at the ancestors
  that were missing, everything else as before; and it succeeds only over nothing or over a synthetic directory.
\<close>

lemma insert_with_parents_spec:
  assumes "index_wf l idx" "entry_ok l p e" "p \<noteq> tar_root" "insert_with_parents e (max_entries l) idx = (res, idx')"
  shows "index_wf l idx'"
    and "res = Inr () \<Longrightarrow> map_of idx' = (with_ancestors idx p)(p \<mapsto> e)"
    and "res = Inr () \<Longrightarrow> map_of idx p = Some old \<Longrightarrow> synthetic old \<and> \<not> synthetic e"
proof -
  have path: "te_path e = p" "tar_path_ok l p" using assms(2) by (auto simp: entry_ok_def)
  obtain q where q: "tar_parent p = Some q" using assms(3) root_parent by (cases "tar_parent p") auto
  obtain res1 idx1 where first: "insert_missing (rev (missing_parents idx (Some q))) (max_entries l) idx = (res1, idx1)"
    by fastforce
  note spec = insert_missing_spec [OF assms(1) tar_path_ok_parent [OF path(2) q] first]
  have self: "\<not> is_descendant_of p p" "\<not> (p = q \<or> is_descendant_of q p)"
    using descendant_parent [OF q, of p] by (auto simp: is_descendant_of_def)
  have look: "map_of idx1 p = map_of idx p" if "res1 = Inr ()"
    using spec that self by (simp add: with_ancestors_def)
  have "index_wf l idx' \<and> (res = Inr () \<longrightarrow> map_of idx' = (with_ancestors idx p)(p \<mapsto> e)
      \<and> (\<forall>old. map_of idx p = Some old \<longrightarrow> synthetic old \<and> \<not> synthetic e))"
  proof (cases "res1 = Inr () \<and> (map_of idx p = None \<longrightarrow> ensure_capacity idx1 (max_entries l) = Inr ())
      \<and> (\<forall>old. map_of idx p = Some old \<longrightarrow> synthetic old \<and> \<not> synthetic e)")
    case False
    then show ?thesis using assms(4) first spec path q look
      by (cases "map_of idx p"; cases "res1 = Inr ()")
         (auto simp: insert_with_parents_def split: sum.splits option.splits if_splits)
  next
    case True
    then have eq: "res = Inr ()" "idx' = btree_insert p e idx1"
      using assms(4) first path q look
      by (cases "map_of idx p"; auto simp: insert_with_parents_def split: option.splits)+
    have lookup: "map_of idx1 = with_ancestors idx q" using spec True by simp
    then have "map_of idx1 q \<noteq> None" by (auto simp: with_ancestors_def)
    then have "index_wf l idx'" unfolding eq using spec True assms(2,3) q look
      by (intro index_wf_insert) (auto simp: ensure_capacity_ok)
    moreover have "map_of idx' = (with_ancestors idx p)(p \<mapsto> e)"
      using eq(2) lookup descendant_parent [OF q] by (auto simp: with_ancestors_def fun_eq_iff)
    ultimately show ?thesis using True by simp
  qed
  then show "index_wf l idx'" "res = Inr () \<Longrightarrow> map_of idx' = (with_ancestors idx p)(p \<mapsto> e)"
    "res = Inr () \<Longrightarrow> map_of idx p = Some old \<Longrightarrow> synthetic old \<and> \<not> synthetic e"
    by auto
qed

section \<open>The entries of an archive\<close>

text \<open>What the reader delivers, body after body skipped.\<close>

function archive_entries :: "tar_reader \<Rightarrow> tar_entry list vfs_result" where
  "archive_entries r =
     (case next_entry r of
        (Inl e, r1) \<Rightarrow> Inl e
      | (Inr None, r1) \<Rightarrow> Inr []
      | (Inr (Some entry), r1) \<Rightarrow>
          (case skip_entry_body r1 of
             (Inl e, r2) \<Rightarrow> Inl e
           | (Inr _, r2) \<Rightarrow> (case archive_entries r2 of Inl e \<Rightarrow> Inl e | Inr es \<Rightarrow> Inr (entry # es))))"
  by pat_completeness auto
termination
  by (relation "measure weight") (auto dest!: next_entry_weight [OF sym] skip_entry_body_weight [OF sym])

declare archive_entries.simps [simp del]

text \<open>The index an archive with these entries, none of them the root, should have.\<close>

definition index_spec :: "tar_entry list \<Rightarrow> tar_path \<Rightarrow> tar_entry option" where
  "index_spec es q =
     (if q = tar_root then Some tar_entry_root
      else case map_of (map (\<lambda>e. (te_path e, e)) es) q of
             Some e \<Rightarrow> Some e
           | None \<Rightarrow> if \<exists>e \<in> set es. is_descendant_of (te_path e) q then Some (synthetic_directory q) else None)"

lemma build_entry_ok:
  assumes "build_entry header pax raw link l = Inr e"
  shows "entry_ok l (te_path e) e" "\<not> synthetic e"
proof -
  have "\<exists>t. link = Some t \<and> is_ok (from_tar_bytes t l)" if "rh_kind header = TarHardlink"
    using assms that by (auto simp: build_entry_def check_hardlink_def Let_def split: if_splits)
  then show "entry_ok l (te_path e) e" "\<not> synthetic e"
    using assms from_tar_bytes_ok
    by (auto simp: build_entry_def Let_def entry_ok_def not_less split: if_splits)
qed

lemma fill_loop_limits: "fill_loop s r = (res, r') \<Longrightarrow> rd_limits r' = rd_limits r"
  by (induction s r rule: fill_loop.induct) (auto simp: Let_def split: if_splits option.splits)

interpretation lim: reader_keeps "\<lambda>r. rd_limits r = l" for l
  by unfold_locales (auto simp: fill_def split: if_splits dest: fill_loop_limits)

lemma next_entry_loop_ok:
  "next_entry_loop r = (Inr (Some e), r') \<Longrightarrow>
   entry_ok (rd_limits r) (te_path e) e \<and> \<not> synthetic e \<and> current_size r' = Some (te_size e)"
proof (induction rule: next_entry_loop_yields)
  case (extension r block r1 header r2)
  have "rd_limits r1 = rd_limits r" by (rule lim.read_exact [OF refl extension(1)])
  then have "rd_limits r2 = rd_limits r"
    using extension(3) lim.take_pax [of r1 _ header "()" r2] lim.take_long [of r1 _ header "()" r2] by auto
  then show ?case using extension(5) by simp
next
  case (entry r block r1 header)
  have "rd_limits r1 = rd_limits r" by (rule lim.read_exact [OF refl entry(1)])
  then show ?case using entry(3) build_entry_ok by (fastforce simp: make_entry_Some)
qed

lemma next_entry_ok:
  assumes "next_entry r = (Inr (Some e), r')"
  shows "entry_ok (rd_limits r) (te_path e) e" "\<not> synthetic e" "rd_limits r' = rd_limits r"
    "current_size r' = Some (te_size e)"
  using assms lim.next_entry [OF refl assms] by (auto simp: next_entry_def split: if_splits dest: next_entry_loop_ok)

definition proper_entry :: "tar_limits \<Rightarrow> tar_entry \<Rightarrow> bool" where
  "proper_entry l e \<longleftrightarrow> entry_ok l (te_path e) e \<and> \<not> synthetic e \<and> te_path e \<noteq> tar_root"

lemma index_spec_synthetic:
  assumes "\<forall>e \<in> set es. \<not> synthetic e" "index_spec es q = Some e" "q \<noteq> tar_root"
  shows "synthetic e \<longleftrightarrow> q \<notin> te_path ` set es"
proof (cases "map_of (map (\<lambda>e. (te_path e, e)) es) q")
  case None
  then have "q \<notin> te_path ` set es" by (auto simp: map_of_eq_None_iff image_image)
  then show ?thesis using assms None by (auto simp: index_spec_def synthetic_directory_def split: if_splits)
next
  case (Some x)
  then have "x \<in> set es" "te_path x = q" by (auto dest!: map_of_SomeD)
  then show ?thesis using assms Some by (auto simp: index_spec_def)
qed

lemma index_spec_snoc:
  assumes "p = te_path e" "p \<noteq> tar_root" "p \<notin> te_path ` set es" "map_of idx = index_spec es"
  shows "(with_ancestors idx p)(p \<mapsto> e) = index_spec (es @ [e])"
proof
  fix q
  have "map_of (map (\<lambda>e. (te_path e, e)) es) p = None"
    using assms(3) by (auto simp: map_of_eq_None_iff image_image)
  then show "((with_ancestors idx p)(p \<mapsto> e)) q = index_spec (es @ [e]) q"
    using assms by (auto simp: with_ancestors_def index_spec_def map_add_def is_descendant_of_def
        split: option.splits if_splits)
qed

text \<open>The index holds exactly the entries of the list, with the directories they need.\<close>

definition indexes :: "tar_limits \<Rightarrow> tar_index \<Rightarrow> tar_entry list \<Rightarrow> bool" where
  "indexes l idx es \<longleftrightarrow>
     index_wf l idx \<and> map_of idx = index_spec es \<and> distinct (map te_path es) \<and> (\<forall>e \<in> set es. proper_entry l e)"

abbreviation non_root :: "tar_entry list \<Rightarrow> tar_entry list" where
  "non_root es \<equiv> filter (\<lambda>e. te_path e \<noteq> tar_root) es"

lemma indexes_insert:
  assumes "indexes l idx es" "entry_ok l (te_path e) e" "\<not> synthetic e" "te_path e \<noteq> tar_root"
    "insert_with_parents e (max_entries l) idx = (Inr (), idx')"
  shows "indexes l idx' (es @ [e])"
proof -
  have es: "index_wf l idx" "map_of idx = index_spec es" "distinct (map te_path es)" "\<forall>e \<in> set es. proper_entry l e"
    using assms(1) by (auto simp: indexes_def)
  note spec = insert_with_parents_spec [OF es(1) assms(2,4,5)]
  have fresh: "te_path e \<notin> te_path ` set es"
    using spec(3) [OF refl] index_spec_synthetic [of es "te_path e"] assms(4) es(2,4)
    by (force simp: proper_entry_def index_spec_def map_of_eq_None_iff image_image split: option.splits)
  show ?thesis
    using spec(1,2) index_spec_snoc [OF refl assms(4) fresh es(2)] es(3,4) fresh assms(2-4)
    by (auto simp: indexes_def proper_entry_def)
qed

lemma index_loop_spec:
  assumes "indexes l idx es0" "rd_limits r = l" "index_loop r (max_entries l) idx = Inr idx'"
  shows "\<exists>es. archive_entries r = Inr es \<and> indexes l idx' (es0 @ non_root es)"
  using assms
proof (induction r "max_entries l" idx arbitrary: es0 rule: index_loop.induct)
  case (1 r idx)
  obtain a r1 where nxt: "next_entry r = (a, r1)" by fastforce
  show ?case
  proof (cases "a = Inr None")
    case True
    then show ?thesis using 1 nxt by (auto simp: index_loop.simps [of r] archive_entries.simps [of r])
  next
    case False
    then obtain e b r2 where e: "a = Inr (Some e)" "skip_entry_body r1 = (Inr b, r2)"
      using "1.prems"(3) nxt by (auto simp: index_loop.simps [of r] split: prod.splits sum.splits option.splits)
    have ok: "entry_ok l (te_path e) e" "\<not> synthetic e" "rd_limits r2 = l"
      using next_entry_ok [of r e r1] nxt e "1.prems"(2) lim.skip_entry_body [OF _ e(2)] by auto
    have entries: "archive_entries r = (case archive_entries r2 of Inl e \<Rightarrow> Inl e | Inr es \<Rightarrow> Inr (e # es))"
      using nxt e by (simp add: archive_entries.simps [of r])
    show ?thesis
    proof (cases "te_path e = tar_root")
      case True
      then have root: "tar_is_root (te_path e)" by (simp add: tar_root_def tar_is_root_def)
      then have "index_loop r2 (max_entries l) idx = Inr idx'"
        using "1.prems"(3) nxt e by (simp add: index_loop.simps [of r])
      from "1.hyps"(1) [OF nxt [symmetric] e(1) _ e(2) [symmetric] refl root "1.prems"(1) ok(3) this]
      show ?thesis using entries True by auto
    next
      case nonroot: False
      then have root: "\<not> tar_is_root (te_path e)"
        by (cases "te_path e") (auto simp: tar_root_def tar_is_root_def)
      obtain c idx1 where ins: "insert_with_parents e (max_entries l) idx = (c, idx1)" by fastforce
      then have c: "c = Inr ()" and rest: "index_loop r2 (max_entries l) idx1 = Inr idx'"
        using "1.prems"(3) nxt e root by (auto simp: index_loop.simps [of r] split: sum.splits)
      from "1.hyps"(2) [OF nxt [symmetric] e(1) _ e(2) [symmetric] refl root ins [symmetric] c
          indexes_insert [OF "1.prems"(1) ok(1,2) nonroot ins [unfolded c]] ok(3) rest]
      show ?thesis using entries nonroot by auto
    qed
  qed
qed

section \<open>Insertions that have room succeed\<close>

text \<open>The index stays inside a set of paths small enough for the limit, closed under parents.\<close>

definition fits :: "tar_limits \<Rightarrow> tar_path set \<Rightarrow> tar_index \<Rightarrow> bool" where
  "fits l N idx \<longleftrightarrow> finite N \<and> tar_root \<notin> N \<and> card N \<le> unat (max_entries l) \<and> dom (map_of idx) \<subseteq> insert tar_root N"

lemma index_wf_length: "index_wf l idx \<Longrightarrow> length idx = card (dom (map_of idx))"
  using distinct_card [of "map fst idx"] by (simp add: index_wf_def strict_sorted_iff dom_map_of_conv_image_fst)

lemma fits_capacity:
  assumes "index_wf l idx" "fits l N idx" "q \<in> N" "map_of idx q = None"
  shows "ensure_capacity idx (max_entries l) = Inr ()"
proof -
  have "length idx = card (dom (map_of idx))" by (rule index_wf_length [OF assms(1)])
  moreover have "card (dom (map_of idx)) \<le> card (insert tar_root (N - {q}))"
    using assms by (intro card_mono) (auto simp: fits_def)
  moreover have "card (insert tar_root (N - {q})) = card N"
    using assms(2,3) card_Suc_Diff1 [of N q] by (simp add: fits_def)
  moreover have "0 < card N" using assms(2,3) by (auto simp: fits_def card_gt_0_iff)
  moreover have "card N \<le> unat (max_entries l)" using assms(2) by (simp add: fits_def)
  ultimately show ?thesis unfolding ensure_capacity_ok by linarith
qed

lemma insert_missing_fits:
  assumes "index_wf l idx" "fits l N idx" "tar_path_ok l q" "\<And>x. x = q \<or> is_descendant_of q x \<Longrightarrow> x \<noteq> tar_root \<Longrightarrow> x \<in> N"
  shows "fst (insert_missing (rev (missing_parents idx (Some q))) (max_entries l) idx) = Inr ()"
  using assms(3,4)
proof (induction "tar_depth q" arbitrary: q rule: less_induct)
  case less
  show ?case
  proof (cases "map_of idx q")
    case (Some e)
    then show ?thesis by (simp add: missing_parents.simps [of idx "Some q"])
  next
    case None
    then have "q \<noteq> tar_root" using assms(1) by (auto simp: index_wf_def)
    then obtain p where p: "tar_parent q = Some p" using root_parent by (cases "tar_parent q") auto
    have "fst (insert_missing (rev (missing_parents idx (Some p))) (max_entries l) idx) = Inr ()"
      by (rule less(1) [OF tar_parent_smaller [OF p] tar_path_ok_parent [OF less(2) p]])
         (use less(3) descendant_parent [OF p] in blast)
    then obtain idx1 where first: "insert_missing (rev (missing_parents idx (Some p))) (max_entries l) idx = (Inr (), idx1)"
      by (cases "insert_missing (rev (missing_parents idx (Some p))) (max_entries l) idx") simp
    note spec = insert_missing_spec [OF assms(1) tar_path_ok_parent [OF less(2) p] first]
    have "map_of idx1 q = None"
      using spec None descendant_parent [OF p, of q] tar_parent_smaller [OF p]
      by (auto simp: with_ancestors_def is_descendant_of_def)
    moreover have "fits l N idx1" using assms(2) spec less(3) descendant_parent [OF p]
      by (auto simp: fits_def with_ancestors_def dom_def split: if_splits)
    ultimately have "ensure_capacity idx1 (max_entries l) = Inr ()"
      using fits_capacity [of l idx1 N q] spec less(3) \<open>q \<noteq> tar_root\<close> by blast
    then show ?thesis using first None p
      by (simp add: missing_parents.simps [of idx "Some q"] insert_missing_append)
  qed
qed

lemma insert_with_parents_fits:
  assumes "index_wf l idx" "fits l N idx" "entry_ok l p e" "p \<noteq> tar_root" "\<not> synthetic e"
    "\<And>x. x = p \<or> is_descendant_of p x \<Longrightarrow> x \<noteq> tar_root \<Longrightarrow> x \<in> N"
    "\<And>old. map_of idx p = Some old \<Longrightarrow> synthetic old"
  shows "\<exists>idx'. insert_with_parents e (max_entries l) idx = (Inr (), idx') \<and> fits l N idx'"
proof -
  have path: "te_path e = p" "tar_path_ok l p" using assms(3) by (auto simp: entry_ok_def)
  obtain q where q: "tar_parent p = Some q" using assms(4) root_parent by (cases "tar_parent p") auto
  have "fst (insert_missing (rev (missing_parents idx (Some q))) (max_entries l) idx) = Inr ()"
    by (rule insert_missing_fits [OF assms(1,2) tar_path_ok_parent [OF path(2) q]])
       (use assms(6) descendant_parent [OF q] in blast)
  then obtain idx1 where first: "insert_missing (rev (missing_parents idx (Some q))) (max_entries l) idx = (Inr (), idx1)"
    by (cases "insert_missing (rev (missing_parents idx (Some q))) (max_entries l) idx") simp
  note spec = insert_missing_spec [OF assms(1) tar_path_ok_parent [OF path(2) q] first]
  have look: "map_of idx1 p = map_of idx p"
    using spec descendant_parent [OF q, of p] by (auto simp: with_ancestors_def is_descendant_of_def)
  have fits1: "fits l N idx1" using assms(2,6) spec descendant_parent [OF q]
    by (auto simp: fits_def with_ancestors_def dom_def split: if_splits)
  have room: "ensure_capacity idx1 (max_entries l) = Inr ()" if "map_of idx p = None"
    using fits_capacity [of l idx1 N p] spec fits1 that look assms(4,6) by auto
  have "insert_with_parents e (max_entries l) idx = (Inr (), btree_insert p e idx1)"
    using first path q look room assms(5,7)
    by (cases "map_of idx p") (auto simp: insert_with_parents_def)
  then show ?thesis using fits1 assms(4,6) by (auto simp: fits_def)
qed

lemma index_loop_complete:
  assumes "indexes l idx es0" "rd_limits r = l" "archive_entries r = Inr es" "distinct (map te_path (es0 @ non_root es))"
    "fits l N idx" "\<And>e x. e \<in> set (non_root es) \<Longrightarrow> x = te_path e \<or> is_descendant_of (te_path e) x \<Longrightarrow> x \<noteq> tar_root \<Longrightarrow> x \<in> N"
  shows "is_ok (index_loop r (max_entries l) idx)"
  using assms
proof (induction r "max_entries l" idx arbitrary: es0 es rule: index_loop.induct)
  case (1 r idx)
  obtain a r1 where nxt: "next_entry r = (a, r1)" by fastforce
  show ?case
  proof (cases "a = Inr None")
    case True
    then show ?thesis using nxt by (simp add: index_loop.simps [of r])
  next
    case False
    then obtain e b r2 es' where e: "a = Inr (Some e)" "skip_entry_body r1 = (Inr b, r2)"
        "archive_entries r2 = Inr es'" "es = e # es'"
      using "1.prems"(3) nxt by (auto simp: archive_entries.simps [of r] split: prod.splits sum.splits option.splits)
    have ok: "entry_ok l (te_path e) e" "\<not> synthetic e" "rd_limits r2 = l"
      using next_entry_ok [of r e r1] nxt e "1.prems"(2) lim.skip_entry_body [OF _ e(2)] by auto
    show ?thesis
    proof (cases "te_path e = tar_root")
      case True
      then have root: "tar_is_root (te_path e)" by (simp add: tar_root_def tar_is_root_def)
      have "is_ok (index_loop r2 (max_entries l) idx)"
        using "1.prems" e True
        by (intro "1.hyps"(1) [OF nxt [symmetric] e(1) _ e(2) [symmetric] refl root "1.prems"(1) ok(3) e(3)]) auto
      then show ?thesis using nxt e root by (simp add: index_loop.simps [of r])
    next
      case nonroot: False
      then have root: "\<not> tar_is_root (te_path e)"
        by (cases "te_path e") (auto simp: tar_root_def tar_is_root_def)
      have es0: "index_wf l idx" "map_of idx = index_spec es0" "\<forall>e \<in> set es0. \<not> synthetic e"
        using "1.prems"(1) by (auto simp: indexes_def proper_entry_def)
      have "te_path e \<notin> te_path ` set es0" using "1.prems"(4) e(4) nonroot by auto
      then have "synthetic old" if "map_of idx (te_path e) = Some old" for old
        using index_spec_synthetic [OF es0(3), of "te_path e" old] that es0(2) nonroot by simp
      moreover have "x \<in> N" if "x = te_path e \<or> is_descendant_of (te_path e) x" "x \<noteq> tar_root" for x
        using "1.prems"(6) [of e x] e(4) nonroot that by simp
      ultimately obtain idx1 where ins: "insert_with_parents e (max_entries l) idx = (Inr (), idx1)" "fits l N idx1"
        using insert_with_parents_fits [OF es0(1) "1.prems"(5) ok(1) nonroot ok(2)] by blast
      have "is_ok (index_loop r2 (max_entries l) idx1)"
        using "1.prems" e nonroot ins(2)
        by (intro "1.hyps"(2) [OF nxt [symmetric] e(1) _ e(2) [symmetric] refl root ins(1) [symmetric] refl
              indexes_insert [OF "1.prems"(1) ok(1,2) nonroot ins(1)] ok(3) e(3)]) auto
      then show ?thesis using nxt e root ins by (simp add: index_loop.simps [of r])
    qed
  qed
qed

text \<open>The nodes an archive's entries need, the root apart.\<close>

definition node_paths :: "tar_entry list \<Rightarrow> tar_path set" where
  "node_paths es = {q. q \<noteq> tar_root \<and> (\<exists>e \<in> set es. q = te_path e \<or> is_descendant_of (te_path e) q)}"

lemma finite_node_paths: "finite (node_paths es)"
proof -
  have "q \<in> TarPath ` set (prefixes (tar_components p))" if "q = p \<or> is_descendant_of p q" for p q
    using that by (cases q) (auto simp: is_descendant_of_def tar_starts_with_def image_iff)
  then have "node_paths es \<subseteq> (\<Union>e \<in> set es. TarPath ` set (prefixes (tar_components (te_path e))))"
    unfolding node_paths_def by blast
  then show ?thesis by (rule finite_subset) auto
qed

lemma root_not_node: "tar_root \<notin> node_paths es"
  by (simp add: node_paths_def)

lemma dom_index_spec: "dom (index_spec es) = insert tar_root (node_paths es)"
  by (auto simp: index_spec_def node_paths_def dom_def map_of_eq_None_iff image_image split: option.splits if_splits
      dest!: map_of_SomeD)

lemma indexes_card:
  assumes "indexes l idx es"
  shows "card (node_paths es) \<le> unat (max_entries l)"
proof -
  have "length idx = card (dom (map_of idx))" using assms index_wf_length by (auto simp: indexes_def)
  also have "dom (map_of idx) = insert tar_root (node_paths es)" using assms dom_index_spec by (simp add: indexes_def)
  also have "card (insert tar_root (node_paths es)) = Suc (card (node_paths es))"
    using finite_node_paths by (simp add: node_paths_def)
  finally show ?thesis using assms by (simp add: indexes_def index_wf_def)
qed

lemma indexes_empty: "limits_validate l = Inr () \<Longrightarrow> indexes l index_empty []"
  using index_wf_empty by (auto simp: indexes_def index_empty_def index_spec_def fun_eq_iff)

text \<open>
  Given the entries its reader delivers, an archive is accepted exactly if no two entries other than the root have the
  same path and the nodes they need are not more than the limit; and then looking up any path gives the entry with that
  path, a directory made up for a path that only occurs as an ancestor, the root directory, and nothing else.
\<close>

lemma index_of_entries:
  assumes "limits_validate l = Inr ()" "archive_entries (reader_new s l) = Inr es"
  shows "(is_ok (from_stream s l) \<longleftrightarrow>
      distinct (map te_path (non_root es)) \<and> card (node_paths (non_root es)) \<le> unat (max_entries l)) \<and>
    (\<forall>idx. from_stream s l = Inr idx \<longrightarrow> (\<forall>q. index_get idx q = index_spec (non_root es) q))"
proof -
  have lim: "rd_limits (reader_new s l) = l" by (simp add: reader_new_def)
  have run: "from_stream s l = index_loop (reader_new s l) (max_entries l) index_empty"
    using assms(1) by (simp add: from_stream_def bindR_def)
  have sound: "indexes l idx (non_root es)" if "from_stream s l = Inr idx" for idx
    using index_loop_spec [OF indexes_empty [OF assms(1)] lim] that run assms(2) by fastforce
  have "is_ok (from_stream s l)"
    if "distinct (map te_path (non_root es))" "card (node_paths (non_root es)) \<le> unat (max_entries l)"
    unfolding run
  proof (rule index_loop_complete [OF indexes_empty [OF assms(1)] lim assms(2)])
    show "fits l (node_paths (non_root es)) index_empty"
      using that(2) finite_node_paths root_not_node by (auto simp: fits_def index_empty_def)
  qed (use that in \<open>auto simp: node_paths_def\<close>)
  moreover have "distinct (map te_path (non_root es)) \<and> card (node_paths (non_root es)) \<le> unat (max_entries l)"
    if "is_ok (from_stream s l)" using that sound indexes_card by (auto simp: is_ok_iff indexes_def)
  ultimately show ?thesis using sound by (auto simp: index_get_def indexes_def)
qed

section \<open>Persisted indexes\<close>

lemma collect_results_Inr:
  "(\<And>r. r \<in> set rs \<Longrightarrow> is_ok r) \<Longrightarrow> is_ok (collect_results rs)"
  by (induction rs) (auto simp: bindR_def is_ok_iff split: sum.splits)

lemma index_wf_persisted:
  assumes "index_wf l idx" "limits_validate l = Inr ()" "max_entries l \<noteq> - 1"
  shows "validate_persisted idx l = Inr ()"
proof -
  have entry: "persisted_entry_ok idx l (p, e) = Inr ()" if "(p, e) \<in> set idx" for p e
  proof -
    have "map_of idx p = Some e" using that assms(1) btree_map_of by (fastforce simp: index_wf_def)
    then have "entry_ok l p e" "\<And>q. tar_parent p = Some q \<Longrightarrow> map_of idx q \<noteq> None"
      using assms(1) by (auto simp: index_wf_def)
    moreover have "map_of idx (the (tar_parent p)) \<noteq> None" if "\<not> tar_is_root p"
      using calculation(2) that by (simp add: tar_parent_def)
    ultimately show ?thesis
      by (auto simp: persisted_entry_ok_def entry_ok_def tar_path_ok_def Let_def bindR_def is_ok_iff ok_or_def)
  qed
  have "is_ok (collect_results (map (persisted_entry_ok idx l) idx))"
    using entry by (intro collect_results_Inr) auto
  moreover have "unat (max_entries l + 1) = unat (max_entries l) + 1"
    using assms(3) by (rule unat_plus_one)
  ultimately show ?thesis
    using assms(1,2) by (auto simp: validate_persisted_def bindR_def index_wf_def tar_entry_root_def is_ok_iff)
qed

lemma from_stream_wf:
  assumes "from_stream s l = Inr idx"
  shows "index_wf l idx"
proof -
  have l: "limits_validate l = Inr ()" and run: "index_loop (reader_new s l) (max_entries l) index_empty = Inr idx"
    using assms by (auto simp: from_stream_def)
  then show ?thesis
    using index_loop_spec [OF indexes_empty [OF l] _ run] by (auto simp: reader_new_def indexes_def)
qed

text \<open>C28. An index made from an archive is well-formed: its keys are in strict order, the root is a
  directory, every entry is stored under its own path of plain file names, within the limits on path and file sizes,
  every hard link has a usable target and every ancestor of an entry is present, and there are at most as many entries as
  allowed; so the check that a persisted index must pass accepts it.\<close>

theorem tar_index_well_formed:
  assumes "from_stream s l = Inr idx" "max_entries l \<noteq> - 1"
  shows "index_wf l idx \<and> validate_persisted idx l = Inr ()"
  using from_stream_wf [OF assms(1)] index_wf_persisted assms by (auto simp: from_stream_def)

section \<open>Hard links\<close>

lemma collect_file_names_bytes: "collect_file_names cs = Inr ns \<Longrightarrow> map name_bytes ns = cs"
  by (induction cs arbitrary: ns) (auto simp: virtual_file_name_new_Inr split: sum.splits)

lemma from_to_virtual: "to_virtual p = Inr w \<Longrightarrow> from_virtual w = p"
  by (cases p) (auto simp: to_virtual_def from_virtual_def from_components_Inr split: sum.splits
      dest: collect_file_names_bytes)

lemma content_kind:
  "(case te_kind content of
        TarRegularFile \<Rightarrow> to_virtual (te_path content)
      | TarDirectory \<Rightarrow> Inl IsDirectory
      | TarCharacterDevice \<Rightarrow> Inl SpecialFile
      | TarBlockDevice \<Rightarrow> Inl SpecialFile
      | TarNamedPipe \<Rightarrow> Inl SpecialFile
      | TarOther \<Rightarrow> Inl SpecialFile
      | _ \<Rightarrow> Inl (InvalidInput ''node is not a regular file'')) = Inr w \<longleftrightarrow>
   te_kind content = TarRegularFile \<and> to_virtual (te_path content) = Inr w"
  by (cases "te_kind content") simp_all

lemma hardlink_loop_result:
  "hardlink_loop n idx visited p = Inr e \<Longrightarrow> te_kind e \<noteq> TarHardlink \<and> (\<exists>q. index_get idx q = Some e)"
  by (induction n arbitrary: visited p) (auto split: if_splits)


section \<open>Listings\<close>

text \<open>The children of a directory come in the order of their names, each name once.\<close>

lemma child_components:
  assumes "entry \<in> set (index_children idx parent)"
  obtains c where "tar_components (te_path entry) = tar_components parent @ [c]" "tar_name (te_path entry) = Some c"
proof -
  have "tar_parent (te_path entry) = Some parent" using assms by (simp add: index_children_def)
  then obtain c where "tar_components (te_path entry) = tar_components parent @ [c]"
    by (metis option.distinct(1) option.sel tar_parent_cases tar_path.sel)
  then show ?thesis using that by (simp add: tar_name_def)
qed

lemma same_prefix_less: "xs @ [c] < xs @ [d] \<longleftrightarrow> c < d" for c d :: "'a::linorder"
  by (induction xs) simp_all

lemma children_sorted:
  assumes "sorted_wrt (<) (map fst idx)" "\<forall>(p, e) \<in> set idx. te_path e = p"
  shows "sorted_wrt (\<lambda>e f. the (tar_name (te_path e)) < the (tar_name (te_path f))) (index_children idx parent)"
proof -
  have "map (te_path \<circ> snd) idx = map fst idx" using assms(2) by (induction idx) auto
  then have "sorted_wrt (<) (map te_path (map snd idx))" using assms(1) by (metis map_map)
  then have "sorted_wrt (\<lambda>e f. te_path e < te_path f) (index_children idx parent)"
    by (simp add: index_children_def sorted_wrt_map sorted_wrt_filter)
  moreover have "the (tar_name (te_path e)) < the (tar_name (te_path f))"
    if "e \<in> set (index_children idx parent)" "f \<in> set (index_children idx parent)" "te_path e < te_path f" for e f
  proof -
    note mem = that
    obtain c where c: "tar_components (te_path e) = tar_components parent @ [c]" "tar_name (te_path e) = Some c"
      by (rule child_components [OF mem(1)])
    obtain d where "tar_components (te_path f) = tar_components parent @ [d]" "tar_name (te_path f) = Some d"
      by (rule child_components [OF mem(2)])
    with c mem(3) show ?thesis by (simp add: less_tar_path_def same_prefix_less)
  qed
  ultimately show ?thesis by (rule sorted_wrt_mono_rel [rotated])
qed

lemma collect_results_map: "collect_results rs = Inr vs \<longleftrightarrow> rs = map Inr vs"
  by (induction rs arbitrary: vs) auto

text \<open>Listings made of the children one by one, each under its own name.\<close>

lemma listing_of_children:
  assumes "sorted_wrt (<) (map fst idx)" "\<forall>(p, e) \<in> set idx. te_path e = p"
    and "collect_results (map f (index_children idx parent)) = Inr es"
    and "\<And>child e. f child = Inr e \<Longrightarrow> \<exists>raw. tar_name (te_path child) = Some raw \<and> virtual_file_name_new raw = Inr (de_name e)"
  shows "sorted_wrt (<) (map de_name es) \<and> (\<forall>e \<in> set es. valid_name (de_name e))"
proof -
  let ?cs = "index_children idx parent"
  have es: "map f ?cs = map Inr es" using assms(3) by (simp add: collect_results_map)
  then have len: "length es = length ?cs" by (metis length_map)
  have names: "\<exists>raw. tar_name (te_path (?cs ! i)) = Some raw \<and> virtual_file_name_new raw = Inr (de_name (es ! i))" if "i < length es" for i
  proof (rule assms(4))
    show "f (?cs ! i) = Inr (es ! i)" using es len that by (metis nth_map)
  qed
  have "sorted_wrt (<) (map de_name es)"
    unfolding sorted_wrt_iff_nth_less
  proof (intro allI impI)
    fix i j
    assume ij: "i < j" "j < length (map de_name es)"
    then have "the (tar_name (te_path (?cs ! i))) < the (tar_name (te_path (?cs ! j)))"
      using children_sorted [OF assms(1,2), of parent] len by (simp add: sorted_wrt_iff_nth_less)
    then show "map de_name es ! i < map de_name es ! j"
      using names [of i] names [of j] ij by (auto simp: less_virtual_file_name_def virtual_file_name_new_Inr)
  qed
  moreover have "valid_name (de_name e)" if "e \<in> set es" for e
    using names that by (auto simp: in_set_conv_nth virtual_file_name_new_Inr)
  ultimately show ?thesis by blast
qed

lemma index_wf_keys:
  assumes "index_wf l idx"
  shows "sorted_wrt (<) (map fst idx) \<and> (\<forall>(p, e) \<in> set idx. te_path e = p)"
proof -
  have s: "sorted_wrt (<) (map fst idx)" using assms by (simp add: index_wf_def)
  then have "distinct (map fst idx)" by (simp add: strict_sorted_iff)
  then show ?thesis using s assms by (auto simp: index_wf_def entry_ok_def)
qed

end
