(* ===== verification/Tar_Chunks.thy ===== *)
theory Tar_Chunks
  imports Tar_Index
begin

text \<open>
  Reading a tar archive does not depend on the sizes in which its bytes arrive: the reader's operations depend on
  the bytes still to come, not on how they are spread over its buffer and the items of the stream.
\<close>

section \<open>What a reader can still deliver\<close>

definition stream_content :: "archive_byte_stream \<Rightarrow> bytes" where
  "stream_content s = concat (map (\<lambda>x. case x of Inl _ \<Rightarrow> [] | Inr c \<Rightarrow> c) s)"

definition pending :: "tar_reader \<Rightarrow> bytes" where
  "pending r = rd_buffer r @ stream_content (rd_stream r)"

text \<open>A reader that meets no error of the stream and stays within the byte limit.\<close>

definition clean :: "tar_reader \<Rightarrow> bool" where
  "clean r \<longleftrightarrow>
     (\<forall>x \<in> set (rd_stream r). \<not> isl x) \<and> (ended r \<longrightarrow> rd_stream r = []) \<and>
     unat (received r) + stream_weight (rd_stream r) \<le> unat (max_archive_bytes (rd_limits r))"

text \<open>The part of the state that does not concern the delivery of bytes.\<close>

definition core :: "tar_reader \<Rightarrow> tar_reader" where
  "core r = r\<lparr>rd_stream := [], rd_buffer := [], received := 0, ended := False\<rparr>"

lemma stream_content_simps [simp]:
  "stream_content [] = []" "stream_content (Inl e # s) = stream_content s" "stream_content (Inr c # s) = c @ stream_content s"
  by (simp_all add: stream_content_def)

lemma length_stream_content: "length (stream_content s) = stream_weight s"
  by (induction s) (auto simp: stream_content_def stream_weight_def split: sum.splits)

lemma length_pending: "length (pending r) = weight r"
  by (simp add: pending_def weight_def length_stream_content)

lemma core_updates [simp]:
  "core (r\<lparr>rd_stream := s\<rparr>) = core r" "core (r\<lparr>rd_buffer := b\<rparr>) = core r"
  "core (r\<lparr>received := n\<rparr>) = core r" "core (r\<lparr>ended := e\<rparr>) = core r"
  by (simp_all add: core_def)

lemma core_fields:
  assumes "core r = core q"
  shows "rd_limits r = rd_limits q" "archive_finished r = archive_finished q" "current_size r = current_size q"
    "global_pax r = global_pax q" "pending_pax r = pending_pax q" "pending_long_name r = pending_long_name q"
    "pending_long_link r = pending_long_link q"
proof -
  show "rd_limits r = rd_limits q" "archive_finished r = archive_finished q" "current_size r = current_size q"
    "global_pax r = global_pax q" "pending_pax r = pending_pax q" "pending_long_name r = pending_long_name q"
    "pending_long_link r = pending_long_link q"
    using arg_cong [OF assms, of rd_limits] arg_cong [OF assms, of archive_finished] arg_cong [OF assms, of current_size]
      arg_cong [OF assms, of global_pax] arg_cong [OF assms, of pending_pax] arg_cong [OF assms, of pending_long_name]
      arg_cong [OF assms, of pending_long_link]
    by (simp_all add: core_def)
qed

lemma fill_loop_clean:
  assumes "clean (r\<lparr>rd_stream := s\<rparr>)" "rd_buffer r = []" "\<not> ended r" "fill_loop s r = (res, r')"
  shows "res = Inr () \<and> clean r' \<and> pending r' = stream_content s \<and> core r' = core r
    \<and> (rd_buffer r' = [] \<longleftrightarrow> stream_content s = [])"
  using assms
proof (induction s r rule: fill_loop.induct)
  case (3 chunk s r)
  show ?case
  proof (cases "chunk = []")
    case True
    then show ?thesis using 3 by (auto simp: clean_def)
  next
    case False
    have le: "unat (received r) + length chunk + stream_weight s \<le> unat (max_archive_bytes (rd_limits r))"
      using 3(2) by (simp add: clean_def)
    then have "length chunk \<le> unat (max_archive_bytes (rd_limits r))" by simp
    then have len: "unat (word_of_nat (length chunk) :: u64) = length chunk" by (rule unat_word_of_nat_le)
    have "unat (received r) + length chunk < 2 ^ 64"
      using le unsigned_less [of "max_archive_bytes (rd_limits r)", where ?'a = nat] by simp
    then have add: "checked_add (received r) (word_of_nat (length chunk)) = Some (received r + word_of_nat (length chunk))"
        "unat (received r + word_of_nat (length chunk)) = unat (received r) + length chunk"
      using len by (auto simp: checked_add_Some unat_word_ariths)
    then have "\<not> received r + word_of_nat (length chunk) > max_archive_bytes (rd_limits r)"
      using le by (simp add: word_less_nat_alt)
    then show ?thesis using 3 False add le
      by (auto simp: Let_def clean_def pending_def)
  qed
qed (auto simp: clean_def pending_def)

lemma fill_clean:
  assumes "clean r" "fill r = (res, r')"
  shows "res = Inr ()" "clean r'" "pending r' = pending r" "core r' = core r" "rd_buffer r' = [] \<longleftrightarrow> pending r = []"
proof -
  have "res = Inr () \<and> clean r' \<and> pending r' = pending r \<and> core r' = core r \<and> (rd_buffer r' = [] \<longleftrightarrow> pending r = [])"
    using assms fill_loop_clean [where s = "rd_stream r" and r = r and res = res and r' = r']
    by (auto simp: fill_def clean_def pending_def split: if_splits)
  then show "res = Inr ()" "clean r'" "pending r' = pending r" "core r' = core r" "rd_buffer r' = [] \<longleftrightarrow> pending r = []"
    by auto
qed

lemma clean_buffer [simp]: "clean (r\<lparr>rd_buffer := b\<rparr>) \<longleftrightarrow> clean r"
  by (simp add: clean_def)

lemma drop_buffer: "k \<le> length (rd_buffer r) \<Longrightarrow> pending (r\<lparr>rd_buffer := drop k (rd_buffer r)\<rparr>) = drop k (pending r)"
  by (simp add: pending_def)

lemma take_buffer: "k \<le> length (rd_buffer r) \<Longrightarrow> take k (rd_buffer r) = take k (pending r)"
  by (simp add: pending_def)

section \<open>Reads in closed form\<close>

lemma read_exact_from_clean:
  assumes "clean r" "length result \<le> n" "read_exact_from n result r = (res, r')"
  shows "clean r' \<and> core r' = core r \<and>
    (if n \<le> length result + length (pending r)
     then res = Inr (result @ take (n - length result) (pending r)) \<and> pending r' = drop (n - length result) (pending r)
     else res = Inl truncated_archive)"
  using assms
proof (induction n result r arbitrary: r' rule: read_exact_from.induct)
  case (1 n result r)
  obtain a q where fill: "fill r = (a, q)" by fastforce
  note q = fill_clean [OF 1(2) fill]
  show ?case
  proof (cases "length result < n")
    case False
    then show ?thesis using 1(2-) by (simp add: read_exact_from.simps [of n])
  next
    case True
    show ?thesis
    proof (cases "rd_buffer q = []")
      case empty: True
      then show ?thesis using 1(4) True fill q by (simp add: read_exact_from.simps [of n])
    next
      case False
      define k where "k = min (n - length result) (length (rd_buffer q))"
      define q' where "q' = q\<lparr>rd_buffer := drop k (rd_buffer q)\<rparr>"
      have k: "k \<le> length (rd_buffer q)" "k \<le> n - length result" by (simp_all add: k_def)
      have k': "k \<le> length (pending r)" using k(1) q(3) by (metis length_append pending_def trans_le_add1)
      have buf: "take k (rd_buffer q) = take k (pending r)" using take_buffer [OF k(1)] q(3) by simp
      have step: "read_exact_from n (result @ take k (pending r)) q' = (res, r')"
        using 1(4) True False fill q(1) buf by (simp add: read_exact_from.simps [of n result] k_def q'_def Let_def)
      have q': "clean q'" "pending q' = drop k (pending r)" "core q' = core r"
        using q k(1) drop_buffer by (simp_all add: q'_def)
      have "clean r' \<and> core r' = core q' \<and>
          (if n \<le> length (result @ take k (pending r)) + length (pending q')
           then res = Inr ((result @ take k (pending r)) @ take (n - length (result @ take k (pending r))) (pending q')) \<and>
             pending r' = drop (n - length (result @ take k (pending r))) (pending q')
           else res = Inl truncated_archive)"
        using "1.IH" [OF True fill [symmetric] q(1) False refl, folded k_def, folded q'_def, unfolded buf, OF q'(1) _ step]
          k(2) True by (simp add: min_def split: if_splits)
      moreover have "take k (pending r) @ take (n - length result - k) (drop k (pending r)) = take (n - length result) (pending r)"
        using k(2) by (metis take_add le_add_diff_inverse)
      ultimately show ?thesis using k k' q' True by (simp add: min.absorb2 diff_diff_left)
    qed
  qed
qed

lemma tar_read_exact_clean:
  assumes "clean r" "tar_read_exact n r = (res, r')"
  shows "clean r'" "core r' = core r"
    "res = (if n \<le> length (pending r) then Inr (take n (pending r)) else Inl truncated_archive)"
    "n \<le> length (pending r) \<Longrightarrow> pending r' = drop n (pending r)"
  using read_exact_from_clean [of r "[]" n res r'] assms by (auto simp: tar_read_exact_def split: if_splits)

lemma skip_exact_clean:
  assumes "clean r" "skip_exact n r = (res, r')"
  shows "clean r' \<and> core r' = core r \<and>
    (if unat n \<le> length (pending r) then res = Inr () \<and> pending r' = drop (unat n) (pending r)
     else res = Inl truncated_archive)"
  using assms
proof (induction n r arbitrary: r' rule: skip_exact.induct)
  case (1 n r)
  obtain a q where fill: "fill r = (a, q)" by fastforce
  note q = fill_clean [OF 1(2) fill]
  show ?case
  proof (cases "n = 0 \<or> rd_buffer q = []")
    case True
    then show ?thesis using 1(2,3) fill q by (auto simp: skip_exact.simps [of n] unat_eq_zero split: if_splits)
  next
    case False
    define k where "k = min (unat n) (length (rd_buffer q))"
    define q' where "q' = q\<lparr>rd_buffer := drop k (rd_buffer q)\<rparr>"
    have k: "k \<le> length (rd_buffer q)" "k \<le> unat n" by (simp_all add: k_def)
    have k': "k \<le> length (pending r)" using k(1) q(3) by (metis length_append pending_def trans_le_add1)
    have step: "skip_exact (n - word_of_nat k) q' = (res, r')"
      using 1(3) False fill q(1) by (simp add: skip_exact.simps [of n] k_def q'_def Let_def)
    have q': "clean q'" "pending q' = drop k (pending r)" "core q' = core r"
      using q k(1) drop_buffer by (simp_all add: q'_def)
    have "clean r' \<and> core r' = core q' \<and>
      (if unat (n - word_of_nat k) \<le> length (pending q')
       then res = Inr () \<and> pending r' = drop (unat (n - word_of_nat k)) (pending q') else res = Inl truncated_archive)"
      using "1.IH" [OF _ fill [symmetric] q(1) _ refl, folded k_def, folded q'_def, OF _ _ q'(1) step] False by simp
    then show ?thesis using unat_sub_nat [OF k(2)] q' k(2) k' by (auto split: if_splits)
  qed
qed

lemma ensure_zero_tail_clean:
  assumes "clean r" "ensure_zero_tail r = (res, r')"
  shows "clean r' \<and> core r' = core r \<and> (res = Inr () \<longrightarrow> pending r' = []) \<and>
    res = (if list_all (\<lambda>b. b = 0) (pending r) then Inr () else Inl (Io ''non-zero bytes after tar end marker''))"
  using assms
proof (induction r arbitrary: r' rule: ensure_zero_tail.induct)
  case (1 r)
  obtain a q where fill: "fill r = (a, q)" by fastforce
  note q = fill_clean [OF 1(2) fill]
  have split: "pending r = rd_buffer q @ stream_content (rd_stream q)" using q(3) by (simp add: pending_def)
  consider "rd_buffer q = []" | "rd_buffer q \<noteq> []" "list_ex (\<lambda>b. b \<noteq> 0) (rd_buffer q)"
    | "rd_buffer q \<noteq> []" "\<not> list_ex (\<lambda>b. b \<noteq> 0) (rd_buffer q)" by blast
  then show ?case
  proof cases
    case 1
    then show ?thesis using "1.prems"(2) fill q by (simp add: ensure_zero_tail.simps [of r])
  next
    case 2
    then have "\<not> list_all (\<lambda>b. b = 0) (pending r)" unfolding split by (auto simp: list_all_iff list_ex_iff)
    then show ?thesis using 2 "1.prems"(2) fill q by (auto simp: ensure_zero_tail.simps [of r])
  next
    case 3
    have step: "ensure_zero_tail (q\<lparr>rd_buffer := []\<rparr>) = (res, r')"
      using "1.prems"(2) fill q 3 by (simp add: ensure_zero_tail.simps [of r])
    have rest: "pending (q\<lparr>rd_buffer := []\<rparr>) = stream_content (rd_stream q)" by (simp add: pending_def)
    have zero: "list_all (\<lambda>b. b = 0) (rd_buffer q)" using 3(2) by (auto simp: list_all_iff list_ex_iff)
    have "clean (q\<lparr>rd_buffer := []\<rparr>)" using q(2) by simp
    from "1.IH" [OF fill [symmetric] q(1) 3 this step]
    show ?thesis unfolding rest split using zero q(4) by simp
  qed
qed

section \<open>Readers with the same bytes to come\<close>

definition same_input :: "tar_reader \<Rightarrow> tar_reader \<Rightarrow> bool" where
  "same_input r q \<longleftrightarrow> clean r \<and> clean q \<and> pending r = pending q \<and> core r = core q"

text \<open>Two runs of an operation with equal results that, on success, leave readers with the same bytes to come.\<close>

definition agree :: "'a vfs_result \<times> tar_reader \<Rightarrow> 'a vfs_result \<times> tar_reader \<Rightarrow> bool" where
  "agree x y \<longleftrightarrow> fst x = fst y \<and> (is_ok (fst x) \<longrightarrow> same_input (snd x) (snd y))"

lemma agreeI: "same_input r q \<Longrightarrow> agree (res, r) (res, q)" "agree (Inl e, r') (Inl e, q')"
  by (simp_all add: agree_def)

lemma agreeE:
  assumes "agree x y"
  obtains e r q where "x = (Inl e, r)" "y = (Inl e, q)"
  | v r q where "x = (Inr v, r)" "y = (Inr v, q)" "same_input r q"
  using assms by (cases x; cases y; cases "fst x") (auto simp: agree_def)

lemma read_exact_agree:
  assumes "same_input r q"
  shows "agree (tar_read_exact n r) (tar_read_exact n q)"
proof -
  obtain x r' y q' where run: "tar_read_exact n r = (x, r')" "tar_read_exact n q = (y, q')" by fastforce
  have *: "clean r" "clean q" "pending q = pending r" "core q = core r" using assms by (simp_all add: same_input_def)
  note r = tar_read_exact_clean [OF *(1) run(1)] and q = tar_read_exact_clean [OF *(2) run(2), unfolded *(3,4)]
  show ?thesis unfolding run agree_def same_input_def using r q by simp
qed

lemma skip_exact_agree:
  assumes "same_input r q"
  shows "agree (skip_exact n r) (skip_exact n q)"
proof -
  obtain x r' y q' where run: "skip_exact n r = (x, r')" "skip_exact n q = (y, q')" by fastforce
  have *: "clean r" "clean q" "pending q = pending r" "core q = core r" using assms by (simp_all add: same_input_def)
  note r = skip_exact_clean [OF *(1) run(1)] and q = skip_exact_clean [OF *(2) run(2), unfolded *(3,4)]
  show ?thesis unfolding run agree_def same_input_def using r q by (simp split: if_splits)
qed

lemma ensure_zero_tail_agree:
  assumes "same_input r q"
  shows "agree (ensure_zero_tail r) (ensure_zero_tail q)"
proof -
  obtain x r' y q' where run: "ensure_zero_tail r = (x, r')" "ensure_zero_tail q = (y, q')" by fastforce
  have *: "clean r" "clean q" "pending q = pending r" "core q = core r" using assms by (simp_all add: same_input_def)
  note r = ensure_zero_tail_clean [OF *(1) run(1)] and q = ensure_zero_tail_clean [OF *(2) run(2), unfolded *(3,4)]
  show ?thesis unfolding run agree_def same_input_def using r q by (simp split: if_splits)
qed

lemma same_input_core:
  "same_input r q \<Longrightarrow> rd_limits r = rd_limits q \<and> archive_finished r = archive_finished q \<and> current_size r = current_size q
     \<and> global_pax r = global_pax q \<and> pending_pax r = pending_pax q \<and> pending_long_name r = pending_long_name q
     \<and> pending_long_link r = pending_long_link q"
  using core_fields [of r q] by (auto simp: same_input_def)

lemma same_input_updates:
  assumes "same_input r q"
  shows "same_input (r\<lparr>archive_finished := b\<rparr>) (q\<lparr>archive_finished := b\<rparr>)"
    and "same_input (r\<lparr>current_size := c\<rparr>) (q\<lparr>current_size := c\<rparr>)"
    and "same_input (r\<lparr>global_pax := p\<rparr>) (q\<lparr>global_pax := p\<rparr>)"
    and "same_input (r\<lparr>pending_pax := p\<rparr>) (q\<lparr>pending_pax := p\<rparr>)"
    and "same_input (r\<lparr>pending_long_name := n\<rparr>) (q\<lparr>pending_long_name := n\<rparr>)"
    and "same_input (r\<lparr>pending_long_link := n\<rparr>) (q\<lparr>pending_long_link := n\<rparr>)"
proof -
  have core: "core (r\<lparr>archive_finished := b\<rparr>) = (core r)\<lparr>archive_finished := b\<rparr>"
    "core (r\<lparr>current_size := c\<rparr>) = (core r)\<lparr>current_size := c\<rparr>"
    "core (r\<lparr>global_pax := p\<rparr>) = (core r)\<lparr>global_pax := p\<rparr>"
    "core (r\<lparr>pending_pax := p\<rparr>) = (core r)\<lparr>pending_pax := p\<rparr>"
    "core (r\<lparr>pending_long_name := n\<rparr>) = (core r)\<lparr>pending_long_name := n\<rparr>"
    "core (r\<lparr>pending_long_link := n\<rparr>) = (core r)\<lparr>pending_long_link := n\<rparr>" for r b c p n
    by (simp_all add: core_def)
  show "same_input (r\<lparr>archive_finished := b\<rparr>) (q\<lparr>archive_finished := b\<rparr>)"
    "same_input (r\<lparr>current_size := c\<rparr>) (q\<lparr>current_size := c\<rparr>)"
    "same_input (r\<lparr>global_pax := p\<rparr>) (q\<lparr>global_pax := p\<rparr>)"
    "same_input (r\<lparr>pending_pax := p\<rparr>) (q\<lparr>pending_pax := p\<rparr>)"
    "same_input (r\<lparr>pending_long_name := n\<rparr>) (q\<lparr>pending_long_name := n\<rparr>)"
    "same_input (r\<lparr>pending_long_link := n\<rparr>) (q\<lparr>pending_long_link := n\<rparr>)"
    using assms by (simp_all add: same_input_def core clean_def pending_def)
qed

text \<open>Sequencing keeps agreement; it is how each method is a chain of reads with \<^verbatim>\<open>?\<close>.\<close>

lemma agree_case:
  assumes "agree x y" "\<And>v r q. same_input r q \<Longrightarrow> agree (f v r) (g v q)"
  shows "agree (case x of (Inl e, r) \<Rightarrow> (Inl e, r) | (Inr v, r) \<Rightarrow> f v r)
               (case y of (Inl e, q) \<Rightarrow> (Inl e, q) | (Inr v, q) \<Rightarrow> g v q)"
  using assms by (auto elim!: agreeE intro: agreeI)

lemma read_extension_agree: "same_input r q \<Longrightarrow> agree (read_extension n r) (read_extension n q)"
  using same_input_core [of r q]
  by (auto simp: read_extension_def intro!: agree_case read_exact_agree skip_exact_agree agreeI)

lemma take_pax_agree:
  assumes "same_input r q"
  shows "agree (take_pax h r) (take_pax h q)"
  unfolding take_pax_def
proof (intro agree_case read_extension_agree [OF assms])
  fix payload r q assume same: "same_input r q"
  show "agree
      (case parse_pax payload of Inl e \<Rightarrow> (Inl e, r)
       | Inr pax \<Rightarrow> (Inr (), if type_flag h = 103 then r\<lparr>global_pax := overlay (global_pax r) pax\<rparr>
           else r\<lparr>pending_pax := overlay (pending_pax r) pax\<rparr>))
      (case parse_pax payload of Inl e \<Rightarrow> (Inl e, q)
       | Inr pax \<Rightarrow> (Inr (), if type_flag h = 103 then q\<lparr>global_pax := overlay (global_pax q) pax\<rparr>
           else q\<lparr>pending_pax := overlay (pending_pax q) pax\<rparr>))"
    using same_input_core [OF same] same by (auto split: sum.split intro!: agreeI same_input_updates)
qed

lemma take_long_agree: "same_input r q \<Longrightarrow> agree (take_long h r) (take_long h q)"
  unfolding take_long_def
  by (intro agree_case read_extension_agree; assumption?)
     (auto split: sum.split intro!: agreeI same_input_updates)

lemma finish_archive_agree: "same_input r q \<Longrightarrow> agree (finish_archive r) (finish_archive q)"
  unfolding finish_archive_def
  by (intro agree_case read_exact_agree; assumption?)
     (auto intro!: agreeI same_input_updates agree_case ensure_zero_tail_agree)

lemma resolve_names_agree:
  assumes "same_input r q"
  shows "fst (resolve_names h r) = fst (resolve_names h q)" "same_input (snd (resolve_names h r)) (snd (resolve_names h q))"
  using same_input_core [OF assms] assms
  by (simp_all add: resolve_names_def Let_def same_input_updates cong: option.case_cong)

lemma make_entry_agree:
  assumes "same_input r q"
  shows "agree (make_entry h r) (make_entry h q)"
  using resolve_names_agree [OF assms, of h] same_input_core [OF assms]
  by (cases "resolve_names h r"; cases "resolve_names h q")
     (auto simp: make_entry_def split: sum.split intro!: agreeI same_input_updates)

lemma next_entry_loop_agree: "same_input r q \<Longrightarrow> agree (next_entry_loop r) (next_entry_loop q)"
proof (induction "weight r" arbitrary: r q rule: less_induct)
  case less
  from read_exact_agree [OF less(2), of TAR_BLOCK] show ?case
  proof (cases rule: agreeE)
    case (1 e r1 q1)
    then show ?thesis by (simp add: next_entry_loop.simps [of r] next_entry_loop.simps [of q] agreeI)
  next
    case (2 block r1 q1)
    have less1: "weight r1 < weight r"
      using tar_read_exact_weight(2) [OF 2(1) refl] tar_block_pos by linarith
    have IH: "agree (case x of (Inl e, r2) \<Rightarrow> (Inl e, r2) | (Inr _, r2) \<Rightarrow> next_entry_loop r2)
        (case y of (Inl e, q2) \<Rightarrow> (Inl e, q2) | (Inr _, q2) \<Rightarrow> next_entry_loop q2)"
      if "agree x y" "\<And>res r2. x = (res, r2) \<Longrightarrow> weight r2 < weight r"
      for x y :: "unit vfs_result \<times> tar_reader"
      using that less(1) by (auto elim!: agreeE intro: agreeI)
    have pax: "weight r2 < weight r" if "take_pax h r1 = (res, r2)" for h res r2
      using take_pax_weight [OF that] less1 by simp
    have long: "weight r2 < weight r" if "take_long h r1 = (res, r2)" for h res r2
      using take_long_weight [OF that] less1 by simp
    show ?thesis
      using 2 IH [OF take_pax_agree [OF 2(3)] pax] IH [OF take_long_agree [OF 2(3)] long]
        finish_archive_agree [OF 2(3)] make_entry_agree [OF 2(3)]
      by (auto simp: next_entry_loop.simps [of r] next_entry_loop.simps [of q] split: sum.split intro!: agreeI)
  qed
qed

lemma next_entry_agree: "same_input r q \<Longrightarrow> agree (next_entry r) (next_entry q)"
  using same_input_core [of r q] next_entry_loop_agree by (auto simp: next_entry_def intro!: agreeI)

lemma skip_entry_body_agree: "same_input r q \<Longrightarrow> agree (skip_entry_body r) (skip_entry_body q)"
  using same_input_core [of r q]
  by (auto simp: skip_entry_body_def split: option.split intro!: agreeI agree_case skip_exact_agree same_input_updates)

lemma index_loop_agree: "same_input r q \<Longrightarrow> index_loop r m idx = index_loop q m idx"
proof (induction r m idx arbitrary: q rule: index_loop.induct)
  case (1 r m idx)
  from next_entry_agree [OF 1(3)] show ?case
  proof (cases rule: agreeE)
    case (1 e r1 q1)
    then show ?thesis by (simp add: index_loop.simps [of r] index_loop.simps [of q])
  next
    case (2 x r1 q1)
    show ?thesis
    proof (cases x)
      case None
      then show ?thesis using 2 by (simp add: index_loop.simps [of r] index_loop.simps [of q])
    next
      case (Some entry)
      from skip_entry_body_agree [OF 2(3)] show ?thesis
      proof (cases rule: agreeE)
        case (1 e r2 q2)
        then show ?thesis using 2 Some by (simp add: index_loop.simps [of r] index_loop.simps [of q])
      next
        case skip: (2 u r2 q2)
        show ?thesis
          using 2 Some skip "1.IH" [OF 2(1) [symmetric] refl Some skip(1) [symmetric]] skip(3)
          by (auto simp: index_loop.simps [of r] index_loop.simps [of q] split: prod.split sum.split)
      qed
    qed
  qed
qed

section \<open>Accepted archives are read to the end\<close>

definition has_error :: "archive_byte_stream \<Rightarrow> bool" where
  "has_error s \<longleftrightarrow> (\<exists>x \<in> set s. isl x)"

text \<open>The length of a chunk is a \<^verbatim>\<open>usize\<close>.\<close>

definition machine_chunks :: "archive_byte_stream \<Rightarrow> bool" where
  "machine_chunks s \<longleftrightarrow> list_all (\<lambda>x. case x of Inl _ \<Rightarrow> True | Inr c \<Rightarrow> length c < 2 ^ 64) s"

lemma machine_chunks_simps [simp]:
  "machine_chunks []" "machine_chunks (Inl e # s) \<longleftrightarrow> machine_chunks s"
  "machine_chunks (Inr c # s) \<longleftrightarrow> length c < 2 ^ 64 \<and> machine_chunks s"
  by (simp_all add: machine_chunks_def)

text \<open>The bytes received and those still in the stream make up the whole, within the limit so far.\<close>

definition accounted :: "archive_byte_stream \<Rightarrow> tar_limits \<Rightarrow> tar_reader \<Rightarrow> bool" where
  "accounted s l r \<longleftrightarrow>
     rd_limits r = l \<and> received r \<le> max_archive_bytes l \<and> (ended r \<longrightarrow> rd_stream r = []) \<and> (archive_finished r \<longrightarrow> ended r) \<and>
     unat (received r) + stream_weight (rd_stream r) = stream_weight s \<and> (has_error (rd_stream r) \<longleftrightarrow> has_error s)
     \<and> machine_chunks (rd_stream r)"

lemma fill_loop_accounted:
  assumes "accounted s l (r\<lparr>rd_stream := t\<rparr>)" "fill_loop t r = (Inr u, r')" "\<not> ended r"
  shows "accounted s l r'"
  using assms
proof (induction t r rule: fill_loop.induct)
  case (3 chunk t r)
  show ?case
  proof (cases "chunk = []")
    case True
    then show ?thesis using 3 by (auto simp: accounted_def has_error_def)
  next
    case False
    then obtain n where n: "checked_add (received r) (word_of_nat (length chunk)) = Some n"
      "\<not> n > max_archive_bytes (rd_limits r)" "r' = r\<lparr>rd_stream := t, received := n, rd_buffer := chunk\<rparr>"
      using 3(3) by (auto simp: Let_def split: option.splits if_splits)
    have len: "unat (received r) + length chunk + stream_weight t = stream_weight s" using 3(2) by (simp add: accounted_def)
    have "length chunk < 2 ^ 64" using 3(2) by (simp add: accounted_def)
    then have "unat (word_of_nat (length chunk) :: u64) = length chunk"
      by (simp add: unsigned_of_nat take_bit_nat_eq_self)
    then have "unat n = unat (received r) + length chunk"
      using n(1) by (auto simp: checked_add_Some unat_word_ariths)
    then show ?thesis using 3(2,4) n len by (auto simp: accounted_def has_error_def not_less)
  qed
qed (auto simp: accounted_def has_error_def)

interpretation acc: reader_keeps "accounted s l" for s l
proof
  fix r r' and u :: unit assume "accounted s l r" "fill r = (Inr u, r')"
  then show "accounted s l r'"
    using fill_loop_accounted [where s = s and l = l and r = r and t = "rd_stream r" and u = u and r' = r']
    by (auto simp: fill_def split: if_splits)
qed (auto simp: accounted_def)

lemma next_entry_loop_end: "next_entry_loop r = (Inr None, r') \<Longrightarrow> ended r'"
proof (induction r arbitrary: r' rule: next_entry_loop.induct)
  case (1 r)
  obtain a r1 where read: "tar_read_exact TAR_BLOCK r = (a, r1)" by fastforce
  then obtain block where a: "a = Inr block" using 1(3) by (cases a) (auto simp: next_entry_loop.simps [of r])
  show ?case
  proof (cases "list_all (\<lambda>b. b = 0) block")
    case True
    then show ?thesis using 1(3) read a finish_archive_end [of r1] by (simp add: next_entry_loop.simps [of r])
  next
    case False
    then obtain header where h: "parse_header block = Inr header"
      using 1(3) read a by (cases "parse_header block") (auto simp: next_entry_loop.simps [of r])
    obtain b r2 c r3 where t: "take_pax header r1 = (b, r2)" "take_long header r1 = (c, r3)" by fastforce
    have "fst (make_entry header r1) \<noteq> Inr None"
      by (auto simp: make_entry_def split: prod.splits sum.splits)
    then show ?thesis
      using 1(3) read a False h t
        "1.IH"(1) [OF read [symmetric] a False h _ t(1) [symmetric]]
        "1.IH"(2) [OF read [symmetric] a False h _ _ t(2) [symmetric]]
      by (cases b; cases c) (auto simp: next_entry_loop.simps [of r] split: if_splits)
  qed
qed

lemma index_loop_accounted:
  assumes "accounted s l r" "index_loop r m idx = Inr idx'"
  shows "\<not> has_error s \<and> stream_weight s \<le> unat (max_archive_bytes l)"
  using assms
proof (induction r m idx rule: index_loop.induct)
  case (1 r m idx)
  obtain a r1 where nxt: "next_entry r = (a, r1)" by fastforce
  show ?case
  proof (cases "a = Inr None")
    case True
    then have "ended r1" using nxt 1(3) next_entry_loop_end
      by (auto simp: next_entry_def accounted_def split: if_splits)
    then show ?thesis using acc.next_entry [OF 1(3)] nxt True
      by (auto simp: accounted_def has_error_def word_le_nat_alt)
  next
    case False
    then obtain e b r2 where e: "a = Inr (Some e)" "skip_entry_body r1 = (Inr b, r2)"
      using 1(4) nxt by (auto simp: index_loop.simps [of r] split: prod.splits sum.splits option.splits)
    have r2: "accounted s l r2" using acc.skip_entry_body [OF acc.next_entry [OF 1(3)]] nxt e by blast
    show ?thesis
      using 1(4) nxt e r2 "1.IH" [OF nxt [symmetric] e(1) refl e(2) [symmetric] refl]
      by (auto simp: index_loop.simps [of r] split: prod.splits sum.splits if_splits)
  qed
qed

lemma from_stream_one_chunk:
  assumes "\<not> has_error s" "length (stream_content s) \<le> unat (max_archive_bytes l)"
  shows "from_stream s l = from_stream [Inr (stream_content s)] l"
proof -
  have "same_input (reader_new s l) (reader_new [Inr (stream_content s)] l)"
    using assms
    by (auto simp: same_input_def clean_def pending_def core_def reader_new_def has_error_def length_stream_content)
  then show ?thesis using index_loop_agree by (simp add: from_stream_def)
qed

text \<open>C27. Reading a tar archive does not depend on how the stream cuts it into chunks: if the stream
  delivers no error and no more bytes than the limit, the result, an index or an error, is that of the same bytes in
  one chunk; and an archive is accepted only if the stream was read to its end without an error and within the
  limit.\<close>

theorem tar_chunk_independent:
  assumes "machine_chunks s"
  shows "(\<not> has_error s \<and> length (stream_content s) \<le> unat (max_archive_bytes l) \<longrightarrow>
      from_stream s l = from_stream [Inr (stream_content s)] l) \<and>
    (is_ok (from_stream s l) \<longrightarrow> \<not> has_error s \<and> length (stream_content s) \<le> unat (max_archive_bytes l))"
proof (intro conjI impI; (elim conjE)?)
  assume "\<not> has_error s" "length (stream_content s) \<le> unat (max_archive_bytes l)"
  then show "from_stream s l = from_stream [Inr (stream_content s)] l" by (rule from_stream_one_chunk)
next
  assume "is_ok (from_stream s l)"
  moreover have "accounted s l (reader_new s l)" using assms by (simp add: accounted_def reader_new_def)
  ultimately show "\<not> has_error s" "length (stream_content s) \<le> unat (max_archive_bytes l)"
    using index_loop_accounted by (auto simp: from_stream_def length_stream_content is_ok_iff)
qed

theorem tar_chunk_independent_witness:
  "from_stream [Inr (replicate 500 0), Inr [], Inr (replicate 524 0)] limits_default
     = from_stream [Inr (replicate 1024 0)] limits_default"
  using tar_chunk_independent [of "[Inr (replicate 500 0), Inr [], Inr (replicate 524 0)]" limits_default]
  by (simp add: has_error_def limits_default_def flip: replicate_add)

end
