(* ===== verification/Tar_Archive.thy ===== *)
theory Tar_Archive
  imports Tar_Chunks
begin

text \<open>
  Tar archives as they are written, and that the index reads them back: the layout of a \<^verbatim>\<open>ustar\<close> archive
  (512-byte headers with octal fields and a checksum, bodies padded to whole blocks, two zero blocks at the end), as
  the archives of the unit tests of \<^verbatim>\<open>tar_index.rs\<close> are built, over arbitrary entries.
\<close>

section \<open>Writing\<close>

primrec octal_digits :: "nat \<Rightarrow> nat \<Rightarrow> bytes" where
  "octal_digits 0 n = []"
| "octal_digits (Suc k) n = octal_digits k (n div 8) @ [word_of_nat (48 + n mod 8)]"

definition octal_field :: "nat \<Rightarrow> nat \<Rightarrow> bytes" where
  "octal_field w n = octal_digits w n @ [0]"

definition pad_to :: "nat \<Rightarrow> bytes \<Rightarrow> bytes" where
  "pad_to n bs = bs @ replicate (n - length bs) 0"

record plain_entry =
  pe_name :: bytes
  pe_flag :: byte
  pe_mode :: nat
  pe_uid :: nat
  pe_gid :: nat
  pe_mtime :: nat
  pe_link :: bytes
  pe_body :: bytes

definition before_checksum :: "plain_entry \<Rightarrow> bytes" where
  "before_checksum e =
     pad_to 100 (pe_name e) @ octal_field 7 (pe_mode e) @ octal_field 7 (pe_uid e) @ octal_field 7 (pe_gid e)
     @ octal_field 11 (length (pe_body e)) @ octal_field 11 (pe_mtime e)"

definition after_checksum :: "plain_entry \<Rightarrow> bytes" where
  "after_checksum e =
     pe_flag e # pad_to 100 (pe_link e) @ ascii ''ustar'' @ [0] @ ascii ''00'' @ replicate 247 0"

definition byte_sum :: "bytes \<Rightarrow> nat" where
  "byte_sum bs = sum_list (map unat bs)"

definition write_header :: "plain_entry \<Rightarrow> bytes" where
  "write_header e =
     before_checksum e @ octal_field 7 (byte_sum (before_checksum e) + 8 * 32 + byte_sum (after_checksum e))
     @ after_checksum e"

definition write_entry :: "plain_entry \<Rightarrow> bytes" where
  "write_entry e =
     write_header e @ pe_body e @ replicate (unat (padding 0 (word_of_nat (length (pe_body e))))) 0"

definition write_archive :: "plain_entry list \<Rightarrow> bytes" where
  "write_archive es = concat (map write_entry es) @ replicate (2 * TAR_BLOCK) 0"

text \<open>Entries that fit the format and the limits.\<close>

definition plain_ok :: "tar_limits \<Rightarrow> plain_entry \<Rightarrow> bool" where
  "plain_ok l e \<longleftrightarrow>
     pe_name e \<noteq> [] \<and> length (pe_name e) \<le> 100 \<and> is_ok (from_tar_bytes (pe_name e) l) \<and>
     pe_flag e \<notin> {120, 103, 76, 75} \<and>
     pe_mode e < 8 ^ 7 \<and> pe_uid e < 8 ^ 7 \<and> pe_gid e < 8 ^ 7 \<and> pe_mtime e < 8 ^ 11 \<and>
     length (pe_body e) < 8 ^ 11 \<and> length (pe_body e) \<le> unat (max_entry_bytes l) \<and>
     length (pe_link e) \<le> 100 \<and> 0 \<notin> set (pe_link e) \<and>
     (pe_link e \<noteq> [] \<longrightarrow> is_ok (validate_link_target (Some (pe_link e)) l)) \<and>
     (kind_of_flag (pe_flag e) = TarHardlink \<longrightarrow> pe_link e \<noteq> [] \<and> is_ok (from_tar_bytes (pe_link e) l))"

definition entry_of :: "tar_limits \<Rightarrow> plain_entry \<Rightarrow> tar_entry" where
  "entry_of l e =
     \<lparr>raw_path = pe_name e, te_path = projr (from_tar_bytes (pe_name e) l), te_kind = kind_of_flag (pe_flag e),
      te_size = word_of_nat (length (pe_body e)), te_mode = word_of_nat (pe_mode e), te_uid = word_of_nat (pe_uid e),
      te_gid = word_of_nat (pe_gid e), te_mtime = int (pe_mtime e),
      link_target = (if pe_link e \<noteq> [] then Some (pe_link e) else None), device_major = None, device_minor = None,
      synthetic = False\<rparr>"

section \<open>Octal fields\<close>

lemma length_octal_digits [simp]: "length (octal_digits k n) = k"
  by (induction k arbitrary: n) auto

lemma length_octal_field [simp]: "length (octal_field w n) = Suc w"
  by (simp add: octal_field_def)

lemma length_pad_to [simp]: "length bs \<le> n \<Longrightarrow> length (pad_to n bs) = n"
  by (simp add: pad_to_def)

lemma octal_digit_byte:
  assumes "d < 8"
  shows "unat (word_of_nat (48 + d) :: byte) = 48 + d" "(word_of_nat (48 + d) :: byte) - 48 = word_of_nat d"
    "unat (word_of_nat d :: byte) = d" "(word_of_nat (48 + d) :: byte) AND 0x80 = 0"
proof -
  have "d = 0 \<or> d = 1 \<or> d = 2 \<or> d = 3 \<or> d = 4 \<or> d = 5 \<or> d = 6 \<or> d = 7" using assms by linarith
  then show "unat (word_of_nat (48 + d) :: byte) = 48 + d" "(word_of_nat (48 + d) :: byte) - 48 = word_of_nat d"
    "unat (word_of_nat d :: byte) = d" "(word_of_nat (48 + d) :: byte) AND 0x80 = 0"
    by (elim disjE; simp)+
qed

lemma octal_digits_bytes: "b \<in> set (octal_digits k n) \<Longrightarrow> \<exists>d < 8. b = word_of_nat (48 + d)"
proof (induction k arbitrary: n)
  case (Suc k)
  then have "b \<in> set (octal_digits k (n div 8)) \<or> b = word_of_nat (48 + n mod 8)" by (auto simp del: of_nat_add)
  moreover have "n mod 8 < 8" by simp
  ultimately show ?case using Suc.IH by blast
qed simp

lemma octal_digit_range:
  assumes "b \<in> set (octal_digits k n)"
  shows "48 \<le> b" "b \<le> 55" "\<not> blank b" "b AND 0x80 = 0"
proof -
  obtain d where d: "d < 8" "b = word_of_nat (48 + d)" using octal_digits_bytes [OF assms] by blast
  then have u: "unat b = 48 + d" using octal_digit_byte(1) by simp
  show "48 \<le> b" "b \<le> 55" using u d(1) by (simp_all add: word_le_nat_alt)
  show "\<not> blank b" using u by (auto simp: blank_def)
  show "b AND 0x80 = 0" unfolding d(2) by (rule octal_digit_byte(4) [OF d(1)])
qed

lemma octal_value_digits: "n < 8 ^ k \<Longrightarrow> octal_value (octal_digits k n) = n"
proof (induction k arbitrary: n)
  case 0
  then show ?case by (simp add: octal_value_def)
next
  case (Suc k)
  have "octal_value (octal_digits (Suc k) n) = octal_value (octal_digits k (n div 8)) * 8 + n mod 8"
    using octal_digit_byte(2,3) [of "n mod 8"] by (simp add: octal_value_def del: of_nat_add)
  moreover have "n div 8 < 8 ^ k" using Suc.prems by (simp add: less_mult_imp_div_less mult.commute)
  ultimately show ?case using Suc.IH by (simp add: mult.commute)
qed

lemma tar_number_octal_field:
  assumes "n < 8 ^ w" "0 < w" "8 ^ w \<le> (2 ^ 64 :: nat)"
  shows "tar_number (octal_field w n) label = Inr (word_of_nat n)"
proof -
  obtain d ds where ds: "octal_digits w n = d # ds" using assms(2) length_octal_digits [of w n] by (cases "octal_digits w n") auto
  have d: "\<not> blank d" "d AND 0x80 = 0" using octal_digit_range [of d w n] ds by auto
  have "takeWhile (\<lambda>b. \<not> blank b) (octal_digits w n @ [0]) = octal_digits w n"
    using octal_digit_range(3) by (subst takeWhile_append2) (auto simp: blank_def)
  moreover have "dropWhile blank (octal_digits w n @ [0]) = octal_digits w n @ [0]" using ds d(1) by simp
  moreover have "list_all (\<lambda>b. 48 \<le> b \<and> b \<le> 55) (octal_digits w n)"
    using octal_digit_range by (auto simp: list_all_iff)
  moreover have "hd (octal_digits w n @ [0]) AND 0x80 = 0" using ds d(2) by simp
  moreover have "n < 2 ^ 64" using assms(1,3) by (rule less_le_trans)
  ultimately show ?thesis
    using octal_value_digits [OF assms(1)] ds by (simp add: tar_number_def octal_field_def)
qed

section \<open>Headers read back\<close>

lemma sum_outside_checksum:
  "\<forall>i. n \<le> i \<and> i < n + length xs \<longrightarrow> \<not> (148 \<le> i \<and> i < 156) \<Longrightarrow>
   sum_list (map (\<lambda>(index, b). if 148 \<le> index \<and> index < 156 then 32 else unat b) (List.enumerate n xs)) = byte_sum xs"
proof (induction xs arbitrary: n)
  case (Cons x xs)
  then have "\<not> (148 \<le> n \<and> n < 156)" by (auto dest: spec [of _ n])
  moreover have "\<forall>i. Suc n \<le> i \<and> i < Suc n + length xs \<longrightarrow> \<not> (148 \<le> i \<and> i < 156)" using Cons.prems by auto
  ultimately show ?case using Cons.IH [of "Suc n"] by (auto simp: byte_sum_def)
qed (simp add: byte_sum_def)

lemma sum_inside_checksum:
  "\<forall>i. n \<le> i \<and> i < n + length xs \<longrightarrow> 148 \<le> i \<and> i < 156 \<Longrightarrow>
   sum_list (map (\<lambda>(index, b). if 148 \<le> index \<and> index < 156 then 32 else unat b) (List.enumerate n xs)) = length xs * 32"
proof (induction xs arbitrary: n)
  case (Cons x xs)
  then have "148 \<le> n \<and> n < 156" by (auto dest: spec [of _ n])
  moreover have "\<forall>i. Suc n \<le> i \<and> i < Suc n + length xs \<longrightarrow> 148 \<le> i \<and> i < 156" using Cons.prems by auto
  ultimately show ?case using Cons.IH [of "Suc n"] by auto
qed simp

lemma header_sum_parts:
  assumes "length a = 148" "length c = 8"
  shows "header_sum (a @ c @ b) = byte_sum a + 8 * 32 + byte_sum b"
  using sum_outside_checksum [of 0 a] sum_inside_checksum [of 148 c] sum_outside_checksum [of 156 b] assms
  by (simp add: header_sum_def enumerate_append_eq)

lemma byte_sum_bound: "byte_sum bs \<le> 255 * length bs"
proof (induction bs)
  case (Cons b bs)
  have "unat b \<le> 255" using unsigned_less [of b, where ?'a = nat] by simp
  then show ?case using Cons by (simp add: byte_sum_def)
qed (simp add: byte_sum_def)

lemma text_field_pad_to: "0 \<notin> set bs \<Longrightarrow> length bs \<le> n \<Longrightarrow> text_field (pad_to n bs) = bs"
proof -
  assume "0 \<notin> set bs" "length bs \<le> n"
  then have "takeWhile (\<lambda>b. b \<noteq> 0) (bs @ replicate (n - length bs) 0) = bs @ takeWhile (\<lambda>b. b \<noteq> 0) (replicate (n - length bs) (0 :: byte))"
    by (intro takeWhile_append2) auto
  then show ?thesis by (cases "n - length bs") (simp_all add: text_field_def pad_to_def)
qed

lemma from_tar_bytes_plain: "is_ok (from_tar_bytes raw l) \<Longrightarrow> 0 \<notin> set raw"
  by (auto simp: from_tar_bytes_def split: if_splits)

lemma length_parts:
  assumes "plain_ok l e"
  shows "length (before_checksum e) = 148" "length (after_checksum e) = 356"
  using assms by (simp_all add: before_checksum_def after_checksum_def ascii_def plain_ok_def)

lemma length_write_header: "plain_ok l e \<Longrightarrow> length (write_header e) = TAR_BLOCK"
  by (simp add: write_header_def length_parts TAR_BLOCK_def)

lemma header_fields:
  assumes "plain_ok l e"
  shows "field 0 100 (write_header e) = pad_to 100 (pe_name e)"
    and "field 100 108 (write_header e) = octal_field 7 (pe_mode e)"
    and "field 108 116 (write_header e) = octal_field 7 (pe_uid e)"
    and "field 116 124 (write_header e) = octal_field 7 (pe_gid e)"
    and "field 124 136 (write_header e) = octal_field 11 (length (pe_body e))"
    and "field 136 148 (write_header e) = octal_field 11 (pe_mtime e)"
    and "field 148 156 (write_header e) =
      octal_field 7 (byte_sum (before_checksum e) + 8 * 32 + byte_sum (after_checksum e))"
    and "write_header e ! 156 = pe_flag e"
    and "field 157 257 (write_header e) = pad_to 100 (pe_link e)"
    and "field 329 337 (write_header e) = replicate 8 0"
    and "field 337 345 (write_header e) = replicate 8 0"
    and "field 345 500 (write_header e) = replicate 155 0"
proof -
  have len: "length (pe_name e) \<le> 100" "length (pe_link e) \<le> 100" using assms by (simp_all add: plain_ok_def)
  note lengths = length_parts [OF assms]
  show "field 148 156 (write_header e) =
      octal_field 7 (byte_sum (before_checksum e) + 8 * 32 + byte_sum (after_checksum e))"
    using lengths by (simp add: field_def write_header_def)
  show "write_header e ! 156 = pe_flag e"
    using lengths by (simp add: write_header_def nth_append after_checksum_def)
  have before: "field a b (write_header e) = field a b (before_checksum e)" if "b \<le> 148" "a \<le> b" for a b
    using lengths that by (simp add: field_def write_header_def)
  show "field 0 100 (write_header e) = pad_to 100 (pe_name e)"
    "field 100 108 (write_header e) = octal_field 7 (pe_mode e)"
    "field 108 116 (write_header e) = octal_field 7 (pe_uid e)"
    "field 116 124 (write_header e) = octal_field 7 (pe_gid e)"
    "field 124 136 (write_header e) = octal_field 11 (length (pe_body e))"
    "field 136 148 (write_header e) = octal_field 11 (pe_mtime e)"
    using len by (simp_all add: before) (simp_all add: field_def before_checksum_def)
  have after: "field (156 + a) (156 + b) (write_header e) = field a b (after_checksum e)" for a b
    using lengths by (simp add: field_def write_header_def)
  show "field 157 257 (write_header e) = pad_to 100 (pe_link e)"
    "field 329 337 (write_header e) = replicate 8 0"
    "field 337 345 (write_header e) = replicate 8 0"
    "field 345 500 (write_header e) = replicate 155 0"
    using len after [of 1 101] after [of 173 181] after [of 181 189] after [of 189 344]
    by (simp_all add: field_def after_checksum_def ascii_def)
qed

lemma verify_checksum_written:
  assumes "plain_ok l e"
  shows "verify_checksum (write_header e) = Inr ()"
proof -
  let ?sum = "byte_sum (before_checksum e) + 8 * 32 + byte_sum (after_checksum e)"
  note lengths = length_parts [OF assms]
  have "?sum \<le> 255 * 148 + 256 + 255 * 356"
    using byte_sum_bound [of "before_checksum e"] byte_sum_bound [of "after_checksum e"] lengths by simp
  then have bound: "?sum < 8 ^ 7" by simp
  then have "tar_number (octal_field 7 ?sum) ''checksum'' = Inr (word_of_nat ?sum)"
    by (rule tar_number_octal_field) simp_all
  moreover have "header_sum (write_header e) = ?sum"
    unfolding write_header_def using lengths by (intro header_sum_parts) simp_all
  moreover have "unat (word_of_nat ?sum :: u64) = ?sum"
    using bound by (simp add: unsigned_of_nat take_bit_nat_eq_self del: of_nat_add)
  ultimately show ?thesis
    using header_fields(7) [OF assms] by (simp add: verify_checksum_def del: of_nat_add)
qed

definition header_of :: "plain_entry \<Rightarrow> raw_header" where
  "header_of e =
     \<lparr>rh_path = pe_name e, rh_link_target = (if pe_link e \<noteq> [] then Some (pe_link e) else None), type_flag = pe_flag e,
      rh_kind = kind_of_flag (pe_flag e), rh_size = word_of_nat (length (pe_body e)), rh_mode = word_of_nat (pe_mode e),
      rh_uid = word_of_nat (pe_uid e), rh_gid = word_of_nat (pe_gid e), rh_mtime = int (pe_mtime e),
      rh_device_major = None, rh_device_minor = None\<rparr>"

lemma unat_small_u64: "n < 8 ^ 11 \<Longrightarrow> unat (word_of_nat n :: u64) = n"
  by (simp add: unsigned_of_nat take_bit_nat_eq_self)

lemma parse_written_header:
  assumes "plain_ok l e"
  shows "parse_header (write_header e) = Inr (header_of e)"
proof -
  note fields = header_fields [OF assms]
  have names: "text_field (pad_to 100 (pe_name e)) = pe_name e" "text_field (pad_to 100 (pe_link e)) = pe_link e"
      "pe_name e \<noteq> []"
    using assms from_tar_bytes_plain by (auto simp: plain_ok_def intro!: text_field_pad_to)
  then have path: "header_path (write_header e) = pe_name e"
    using fields by (simp add: header_path_def text_field_def)
  have num: "tar_number (octal_field 7 n) label = Inr (word_of_nat n)" if "n < 8 ^ 7" for n label
    using that by (rule tar_number_octal_field) simp_all
  have num': "tar_number (octal_field 11 n) label = Inr (word_of_nat n)" if "n < 8 ^ 11" for n label
    using that by (rule tar_number_octal_field) simp_all
  have "header_mtime (octal_field 11 (pe_mtime e)) = Inr (int (pe_mtime e))"
    using assms num' unat_small_u64 by (simp add: header_mtime_def plain_ok_def)
  moreover have "optional_tar_number (replicate 8 0) label = Inr None" for label
    by (simp add: optional_tar_number_def blank_def list_all_iff)
  ultimately show ?thesis
    using assms names path fields verify_checksum_written [OF assms] length_write_header [OF assms]
    by (simp add: parse_header_def bindR_def Let_def header_of_def plain_ok_def num num')
qed

lemma checked_u32_small: "n < 8 ^ 7 \<Longrightarrow> checked_u32 (word_of_nat n) label = Inr (word_of_nat n)"
proof -
  assume "n < 8 ^ 7"
  then have n: "unat (word_of_nat n :: u64) = n" "n < 2 ^ 32"
    by (simp_all add: unsigned_of_nat take_bit_nat_eq_self)
  then have "(ucast (word_of_nat n :: u64) :: u32) = word_of_nat n"
    by (simp add: unsigned_of_nat take_bit_nat_eq_self)
  then show ?thesis using n by (simp add: checked_u32_def)
qed

lemma build_written_entry:
  assumes "plain_ok l e"
  shows "build_entry (header_of e) pax_default (pe_name e) (rh_link_target (header_of e)) l = Inr (entry_of l e)"
proof -
  obtain p where p: "from_tar_bytes (pe_name e) l = Inr p" using assms by (auto simp: plain_ok_def is_ok_iff)
  have size: "\<not> word_of_nat (length (pe_body e)) > max_entry_bytes l"
    using assms unat_small_u64 by (simp add: plain_ok_def word_less_nat_alt)
  have link: "validate_link_target (rh_link_target (header_of e)) l = Inr ()"
    using assms by (auto simp: plain_ok_def header_of_def validate_link_target_def is_ok_iff)
  have hard: "check_hardlink (header_of e) (rh_link_target (header_of e)) l = Inr ()"
    using assms by (auto simp: plain_ok_def header_of_def check_hardlink_def is_ok_iff)
  show ?thesis using assms p size link hard
    by (simp add: build_entry_def bindR_def Let_def pax_default_def checked_u32_small checked_u32_option_def
        plain_ok_def entry_of_def header_of_def)
qed

section \<open>Archives read back\<close>

text \<open>A reader between two entries with nothing pending for the next one.\<close>

definition fresh_reader :: "tar_limits \<Rightarrow> tar_reader \<Rightarrow> bool" where
  "fresh_reader l r \<longleftrightarrow>
     clean r \<and> rd_limits r = l \<and> \<not> archive_finished r \<and> current_size r = None \<and> global_pax r = pax_default \<and>
     pending_pax r = pax_default \<and> pending_long_name r = None \<and> pending_long_link r = None"

lemma fresh_reader_core: "fresh_reader l r \<Longrightarrow> clean r' \<Longrightarrow> core r' = core r \<Longrightarrow> fresh_reader l r'"
  using core_fields [of r' r] by (auto simp: fresh_reader_def)

lemma overlay_default: "overlay pax_default pax_default = pax_default"
  by (simp add: overlay_def pax_default_def or_else_def)

lemma pax_default_fields [simp]:
  "pax_path pax_default = None" "pax_link_path pax_default = None" "pax_size pax_default = None"
  "pax_uid pax_default = None" "pax_gid pax_default = None" "pax_mtime pax_default = None"
  by (simp_all add: pax_default_def)

lemma resolve_names_fresh:
  assumes "fresh_reader l r"
  shows "resolve_names h r = ((pax_default, rh_path h, rh_link_target h),
    r\<lparr>pending_pax := pax_default, pending_long_name := None, pending_long_link := None\<rparr>)"
  using assms by (simp add: resolve_names_def Let_def fresh_reader_def overlay_default or_else_def)

lemma next_entry_written:
  assumes "plain_ok l e" "fresh_reader l r" "pending r = write_header e @ rest"
  obtains r' where "next_entry r = (Inr (Some (entry_of l e)), r'\<lparr>current_size := Some (word_of_nat (length (pe_body e)))\<rparr>)"
    "fresh_reader l r'" "pending r' = rest"
proof -
  obtain x r1 where read: "tar_read_exact TAR_BLOCK r = (x, r1)" by fastforce
  have clean: "clean r" using assms(2) by (simp add: fresh_reader_def)
  note len = length_write_header [OF assms(1)]
  have r1: "x = Inr (write_header e)" "pending r1 = rest"
    using tar_read_exact_clean(3,4) [OF clean read] assms(3) len by simp_all
  have fresh: "fresh_reader l r1"
    by (rule fresh_reader_core [OF assms(2) tar_read_exact_clean(1,2) [OF clean read]])
  have header: "parse_header (write_header e) = Inr (header_of e)" by (rule parse_written_header [OF assms(1)])
  have nonzero: "\<not> list_all (\<lambda>b. b = 0) (write_header e)"
  proof
    assume "list_all (\<lambda>b. b = 0) (write_header e)"
    moreover have "hd (pe_name e) \<in> set (write_header e)" "hd (pe_name e) \<noteq> 0"
      using assms(1) from_tar_bytes_plain [of "pe_name e" l]
      by (auto simp: plain_ok_def write_header_def before_checksum_def pad_to_def dest: hd_in_set)
    ultimately show False by (simp add: list_all_iff)
  qed
  have flags: "type_flag (header_of e) = pe_flag e" "pe_flag e \<noteq> 120" "pe_flag e \<noteq> 103" "pe_flag e \<noteq> 76" "pe_flag e \<noteq> 75"
    using assms(1) by (auto simp: header_of_def plain_ok_def)
  define r' where "r' = r1\<lparr>pending_pax := pax_default, pending_long_name := None, pending_long_link := None\<rparr>"
  have names: "resolve_names (header_of e) r1 = ((pax_default, pe_name e, rh_link_target (header_of e)), r')"
    using resolve_names_fresh [OF fresh] by (simp add: r'_def header_of_def)
  have r': "fresh_reader l r'" "pending r' = rest"
    using fresh r1(2) by (auto simp: r'_def fresh_reader_def clean_def pending_def)
  have lim: "rd_limits r1 = l" using fresh by (simp add: fresh_reader_def)
  have "next_entry r = (Inr (Some (entry_of l e)), r'\<lparr>current_size := Some (te_size (entry_of l e))\<rparr>)"
    using assms(2) read r1(1) header nonzero flags names build_written_entry [OF assms(1)] lim
    by (simp add: next_entry_def fresh_reader_def next_entry_loop.simps [of r] make_entry_def)
  then show ?thesis using that r' by (simp add: entry_of_def)
qed

lemma skip_written_body:
  assumes "plain_ok l e" "fresh_reader l r"
    and "pending r = pe_body e @ replicate (unat (padding 0 (word_of_nat (length (pe_body e))))) 0 @ rest"
  obtains r' where "skip_entry_body (r\<lparr>current_size := Some (word_of_nat (length (pe_body e)))\<rparr>) = (Inr (), r')"
    "fresh_reader l r'" "pending r' = rest"
proof -
  let ?n = "word_of_nat (length (pe_body e)) :: u64"
  have n: "unat ?n = length (pe_body e)" using assms(1) unat_small_u64 by (simp add: plain_ok_def)
  have clean: "clean r" using assms(2) by (simp add: fresh_reader_def)
  have same: "r\<lparr>current_size := None\<rparr> = r" using assms(2) by (simp add: fresh_reader_def)
  obtain x r1 where first: "skip_exact ?n r = (x, r1)" by fastforce
  have r1: "x = Inr ()" "clean r1" "core r1 = core r"
      "pending r1 = replicate (unat (padding 0 ?n)) 0 @ rest"
    using skip_exact_clean [OF clean first] assms(3) n by (auto split: if_splits)
  obtain y r2 where second: "skip_exact (padding ?n ?n) r1 = (y, r2)" by fastforce
  have pad: "padding ?n ?n = padding 0 ?n" by (simp add: padding_def)
  have r2: "y = Inr ()" "clean r2" "core r2 = core r1" "pending r2 = rest"
    using skip_exact_clean [OF r1(2) second] r1(4) pad by (auto split: if_splits)
  have "skip_entry_body (r\<lparr>current_size := Some ?n\<rparr>) = (Inr (), r2)"
    using first second r1(1) r2(1) same by (simp add: skip_entry_body_def)
  then show ?thesis
    using that r2 fresh_reader_core [OF assms(2) r2(2)] r1(3) by simp
qed

lemma next_entry_end:
  assumes "fresh_reader l r" "pending r = replicate (2 * TAR_BLOCK) 0"
  obtains r' where "next_entry r = (Inr None, r')"
proof -
  have clean: "clean r" using assms(1) by (simp add: fresh_reader_def)
  have pend: "pending r = replicate TAR_BLOCK 0 @ replicate TAR_BLOCK 0"
    using assms(2) by (simp add: mult_2 replicate_add)
  obtain x r1 where a: "tar_read_exact TAR_BLOCK r = (x, r1)" by fastforce
  have r1: "x = Inr (replicate TAR_BLOCK 0)" "pending r1 = replicate TAR_BLOCK 0" "clean r1"
    using tar_read_exact_clean [OF clean a] pend by simp_all
  obtain y r2 where b: "tar_read_exact TAR_BLOCK r1 = (y, r2)" by fastforce
  have r2: "y = Inr (replicate TAR_BLOCK 0)" "pending r2 = []" "clean r2"
    using tar_read_exact_clean [OF r1(3) b] r1(2) by simp_all
  obtain z r3 where c: "ensure_zero_tail r2 = (z, r3)" by fastforce
  have "z = Inr ()" using ensure_zero_tail_clean [OF r2(3) c] r2(2) by simp
  then have "next_entry r = (Inr None, r3\<lparr>archive_finished := True\<rparr>)"
    using assms(1) a b c r1(1) r2(1)
    by (simp add: next_entry_def fresh_reader_def next_entry_loop.simps [of r] finish_archive_def list_all_iff list_ex_iff)
  then show ?thesis by (rule that)
qed

lemma archive_entries_written:
  assumes "\<forall>e \<in> set es. plain_ok l e" "fresh_reader l r" "pending r = write_archive es"
  shows "archive_entries r = Inr (map (entry_of l) es)"
  using assms
proof (induction es arbitrary: r)
  case Nil
  then obtain r' where "next_entry r = (Inr None, r')"
    using next_entry_end [of l r] by (auto simp: write_archive_def)
  then show ?case by (simp add: archive_entries.simps [of r])
next
  case (Cons e es)
  then have ok: "plain_ok l e" by simp
  let ?body = "pe_body e @ replicate (unat (padding 0 (word_of_nat (length (pe_body e))))) 0 @ write_archive es"
  have "pending r = write_header e @ ?body" using Cons.prems(3) by (simp add: write_archive_def write_entry_def)
  from next_entry_written [OF ok Cons.prems(2) this] obtain r1 where r1:
    "next_entry r = (Inr (Some (entry_of l e)), r1\<lparr>current_size := Some (word_of_nat (length (pe_body e)))\<rparr>)"
    "fresh_reader l r1" "pending r1 = ?body" by blast
  from skip_written_body [OF ok r1(2,3)] obtain r2 where r2:
    "skip_entry_body (r1\<lparr>current_size := Some (word_of_nat (length (pe_body e)))\<rparr>) = (Inr (), r2)"
    "fresh_reader l r2" "pending r2 = write_archive es" by blast
  have "archive_entries r2 = Inr (map (entry_of l) es)" using Cons.IH [OF _ r2(2,3)] Cons.prems(1) by simp
  then show ?case using r1(1) r2(1) by (simp add: archive_entries.simps [of r])
qed

lemma archive_indexed:
  assumes "limits_validate l = Inr ()" "\<forall>e \<in> set es. plain_ok l e"
    and "\<not> has_error s" "stream_content s = write_archive es" "length (write_archive es) \<le> unat (max_archive_bytes l)"
  shows "(is_ok (from_stream s l) \<longleftrightarrow>
      distinct (map te_path (non_root (map (entry_of l) es))) \<and>
      card (node_paths (non_root (map (entry_of l) es))) \<le> unat (max_entries l)) \<and>
    (\<forall>idx. from_stream s l = Inr idx \<longrightarrow> (\<forall>q. index_get idx q = index_spec (non_root (map (entry_of l) es)) q))"
proof -
  have "fresh_reader l (reader_new s l)" "pending (reader_new s l) = write_archive es"
    using assms(3,4,5) length_stream_content [of s]
    by (auto simp: fresh_reader_def clean_def pending_def reader_new_def has_error_def)
  then have "archive_entries (reader_new s l) = Inr (map (entry_of l) es)"
    by (rule archive_entries_written [OF assms(2)])
  then show ?thesis by (rule index_of_entries [OF assms(1)])
qed

definition demo_plain :: plain_entry where
  "demo_plain =
     \<lparr>pe_name = [97, slash, 98], pe_flag = 48, pe_mode = 420, pe_uid = 12, pe_gid = 34, pe_mtime = 7, pe_link = [],
      pe_body = [1, 2, 3]\<rparr>"

lemma demo_path: "from_tar_bytes [97, slash, 98] limits_default = Inr (TarPath [[97], [98]])"
  by (simp add: from_tar_bytes_def limits_default_def virtual_file_name_new_def MAX_NAME_BYTES_def tar_encoded_len_def
      tar_is_root_def)

lemma demo_plain_ok: "plain_ok limits_default demo_plain"
  by (simp add: plain_ok_def demo_plain_def demo_path kind_of_flag_def) (simp add: limits_default_def)

lemma demo_archive_length: "length (write_archive [demo_plain]) = 2048"
proof -
  have "length (write_archive [demo_plain]) = 512 + 3 + unat (padding 0 3) + 1024"
    using length_write_header [OF demo_plain_ok] by (simp add: write_archive_def write_entry_def demo_plain_def TAR_BLOCK_def)
  then show ?thesis by (simp add: padding_def)
qed

lemma demo_nodes:
  "non_root (map (entry_of limits_default) [demo_plain]) = [entry_of limits_default demo_plain]"
  "te_path (entry_of limits_default demo_plain) = TarPath [[97], [98]]"
  "node_paths [entry_of limits_default demo_plain] \<subseteq> {TarPath [[97]], TarPath [[97], [98]]}"
proof -
  show path: "te_path (entry_of limits_default demo_plain) = TarPath [[97], [98]]"
    by (simp add: entry_of_def demo_plain_def demo_path)
  then show "non_root (map (entry_of limits_default) [demo_plain]) = [entry_of limits_default demo_plain]"
    by (simp add: tar_root_def)
  have "q = TarPath [[97]]" if "is_descendant_of (TarPath [[97], [98]]) q" "q \<noteq> tar_root" for q
    using that by (cases q) (auto simp: is_descendant_of_def tar_depth_def tar_starts_with_def tar_root_def prefix_Cons)
  then show "node_paths [entry_of limits_default demo_plain] \<subseteq> {TarPath [[97]], TarPath [[97], [98]]}"
    using path by (auto simp: node_paths_def)
qed

lemma demo_limits_valid: "limits_validate limits_default = Inr ()"
  by (simp add: limits_validate_def limits_default_def TAR_BLOCK_def)

lemma demo_card: "card (node_paths [entry_of limits_default demo_plain]) \<le> unat (max_entries limits_default)"
proof -
  have "card (node_paths [entry_of limits_default demo_plain]) \<le> card {TarPath [[97]], TarPath [[97], [98]]}"
    by (rule card_mono [OF _ demo_nodes(3)]) simp
  then show ?thesis by (simp add: limits_default_def)
qed

lemma demo_archive_accepted: "\<exists>idx. from_stream [Inr (write_archive [demo_plain])] limits_default = Inr idx"
  using archive_indexed [of limits_default "[demo_plain]" "[Inr (write_archive [demo_plain])]"]
    demo_plain_ok demo_nodes(1) demo_card demo_limits_valid demo_archive_length
  by (simp add: has_error_def is_ok_iff limits_default_def)

text \<open>C26. Archives are read back: for an archive written in the \<^verbatim>\<open>ustar\<close> layout from entries that
  fit the format and the limits, delivered in chunks of any sizes, the index is accepted exactly if the paths are
  distinct and not too many, and it holds each entry with its name, kind, size, mode, owner, time and link target at its
  path, the directories that the paths imply, and nothing else.\<close>

theorem tar_archive_roundtrip:
  assumes "limits_validate l = Inr ()" "\<forall>e \<in> set es. plain_ok l e"
    and "\<not> has_error s" "stream_content s = write_archive es" "length (write_archive es) \<le> unat (max_archive_bytes l)"
  shows "(is_ok (from_stream s l) \<longleftrightarrow>
      distinct (map te_path (non_root (map (entry_of l) es))) \<and>
      card (node_paths (non_root (map (entry_of l) es))) \<le> unat (max_entries l)) \<and>
    (\<forall>idx. from_stream s l = Inr idx \<longrightarrow> (\<forall>q. index_get idx q = index_spec (non_root (map (entry_of l) es)) q))"
  by (rule archive_indexed [OF assms])

theorem tar_archive_roundtrip_witness:
  "\<exists>idx. from_stream [Inr (take 700 (write_archive [demo_plain])), Inr (drop 700 (write_archive [demo_plain]))] limits_default
       = Inr idx \<and>
     index_get idx (TarPath [[97], [98]]) = Some (entry_of limits_default demo_plain) \<and>
     index_get idx (TarPath [[97]]) = Some (synthetic_directory (TarPath [[97]])) \<and>
     index_get idx (TarPath [[98]]) = None"
proof -
  let ?s = "[Inr (take 700 (write_archive [demo_plain])), Inr (drop 700 (write_archive [demo_plain]))] :: archive_byte_stream"
  have "\<not> has_error ?s" "stream_content ?s = write_archive [demo_plain]"
      "length (write_archive [demo_plain]) \<le> unat (max_archive_bytes limits_default)"
    using demo_archive_length by (simp_all add: has_error_def limits_default_def)
  then obtain idx where idx: "from_stream ?s limits_default = Inr idx"
      "\<And>q. index_get idx q = index_spec [entry_of limits_default demo_plain] q"
    using tar_archive_roundtrip [of limits_default "[demo_plain]" ?s] demo_plain_ok demo_nodes(1)
      demo_card demo_limits_valid by (auto simp: is_ok_iff)
  have "is_descendant_of (TarPath [[97], [98]]) (TarPath [[97]])" "\<not> is_descendant_of (TarPath [[97], [98]]) (TarPath [[98]])"
    by (simp_all add: is_descendant_of_def tar_depth_def tar_starts_with_def)
  then show ?thesis using idx demo_nodes(2) by (simp add: index_spec_def tar_root_def)
qed

theorem tar_index_well_formed_witness:
  "\<exists>idx. from_stream [Inr (write_archive [demo_plain])] limits_default = Inr idx \<and>
     index_wf limits_default idx \<and> validate_persisted idx limits_default = Inr ()"
  using demo_archive_accepted tar_index_well_formed [of "[Inr (write_archive [demo_plain])]" limits_default]
  by (auto simp: limits_default_def)

definition demo_file :: tar_entry where
  "demo_file = (synthetic_directory (TarPath [[97]]))\<lparr>te_kind := TarRegularFile, synthetic := False\<rparr>"

definition demo_hardlink :: tar_entry where
  "demo_hardlink =
     (synthetic_directory (TarPath [[98]]))\<lparr>te_kind := TarHardlink, link_target := Some [97], synthetic := False\<rparr>"

definition demo_hardlinks :: tar_index where
  "demo_hardlinks = [(tar_root, tar_entry_root), (TarPath [[97]], demo_file), (TarPath [[98]], demo_hardlink)]"

lemma demo_target: "from_tar_bytes [97] limits_default = Inr (TarPath [[97]])"
  by (simp add: from_tar_bytes_def limits_default_def virtual_file_name_new_def MAX_NAME_BYTES_def tar_encoded_len_def
      tar_is_root_def)

lemma demo_hardlinks_wf: "index_wf limits_default demo_hardlinks"
  by (simp add: index_wf_def demo_hardlinks_def entry_ok_def demo_file_def demo_hardlink_def synthetic_directory_def demo_target
      tar_entry_root_def tar_path_ok_def tar_encoded_len_def tar_is_root_def tar_root_def tar_parent_def valid_name_def
      MAX_NAME_BYTES_def less_tar_path_def) (simp add: limits_default_def)


text \<open>A file may have children: an entry whose parent was made up may replace it by a file, and the persisted check accepts it.\<close>

lemma file_with_children_accepted:
  "\<exists>idx. insert_with_parents demo_file 5 (snd (insert_with_parents
      (demo_file\<lparr>te_path := TarPath [[97], [98]]\<rparr>) 5 index_empty)) = (Inr (), idx) \<and>
     map_option te_kind (index_get idx (TarPath [[97]])) = Some TarRegularFile \<and>
     index_get idx (TarPath [[97], [98]]) \<noteq> None"
  by (simp add: insert_with_parents_def demo_file_def synthetic_directory_def tar_parent_def tar_is_root_def
      missing_parents.simps index_empty_def tar_root_def tar_entry_root_def ensure_capacity_def less_tar_path_def index_get_def)

end
