(* ===== verification/Content_Spool.thy ===== *)
theory Content_Spool
  imports Vfs_Error
begin

text \<open>
  The bounded local store of file contents, \<^verbatim>\<open>docker-core/src/vfs_providers/spool.rs\<close>: reservations against a
  total, writers that keep a small content in memory and move a larger one to a temporary file, and the
  backings they finish with. A temporary file is private to its writer and backing, so it is the bytes written to it; the
  outcomes of the file operations to come, in order, are part of the state, an exhausted list meaning success. A backing
  owns a lease on its bytes; dropping it gives them back.
\<close>

section \<open>Limits and reservations\<close>

record spool_limits =
  memory_threshold :: u64
  max_single_bytes :: u64
  max_total_bytes :: u64

definition spool_limits_default :: spool_limits where
  "spool_limits_default =
     \<lparr>memory_threshold = 2 * 1024 * 1024, max_single_bytes = 2 * 1024 * 1024 * 1024,
      max_total_bytes = 2 * 1024 * 1024 * 1024\<rparr>"

definition spool_limits_validate :: "spool_limits \<Rightarrow> unit vfs_result" where
  "spool_limits_validate l =
     (if memory_threshold l > max_single_bytes l \<or> max_single_bytes l = 0 \<or> max_single_bytes l > max_total_bytes l
      then Inl (InvalidInput ''invalid content spool limits'') else Inr ())"

record spool =
  sp_limits :: spool_limits
  reserved_bytes :: u64
  io_outcomes :: "vfs_error option list"

definition io_step :: "spool \<Rightarrow> unit vfs_result \<times> spool" where
  "io_step sp =
     (case io_outcomes sp of
        [] \<Rightarrow> (Inr (), sp)
      | None # rest \<Rightarrow> (Inr (), sp\<lparr>io_outcomes := rest\<rparr>)
      | Some e # rest \<Rightarrow> (Inl e, sp\<lparr>io_outcomes := rest\<rparr>))"

text \<open>\<^verbatim>\<open>ContentSpool::new\<close>: the directory is created and made private.\<close>

definition spool_new :: "spool_limits \<Rightarrow> vfs_error option list \<Rightarrow> spool vfs_result" where
  "spool_new l outcomes =
     (case spool_limits_validate l of
        Inl e \<Rightarrow> Inl e
      | Inr _ \<Rightarrow>
          (case io_step \<lparr>sp_limits = l, reserved_bytes = 0, io_outcomes = outcomes\<rparr> of
             (Inl e, _) \<Rightarrow> Inl e
           | (Inr _, sp) \<Rightarrow> (case io_step sp of (Inl e, _) \<Rightarrow> Inl e | (Inr _, sp') \<Rightarrow> Inr sp')))"

definition reserve :: "u64 \<Rightarrow> spool \<Rightarrow> unit vfs_result \<times> spool" where
  "reserve n sp =
     (case checked_add (reserved_bytes sp) n of
        None \<Rightarrow> (Inl (Unavailable ''total content spool limit exceeded''), sp)
      | Some m \<Rightarrow>
          if m \<le> max_total_bytes (sp_limits sp) then (Inr (), sp\<lparr>reserved_bytes := m\<rparr>)
          else (Inl (Unavailable ''total content spool limit exceeded''), sp))"

definition release :: "u64 \<Rightarrow> spool \<Rightarrow> spool" where
  "release n sp = sp\<lparr>reserved_bytes := reserved_bytes sp - n\<rparr>"

section \<open>Backings\<close>

record lease =
  lease_bytes :: u64

datatype content_backing =
  DirectLocalFile bytes u64
| MemoryBacking bytes lease
| SpoolFile bytes u64 lease

fun backing_len :: "content_backing \<Rightarrow> u64" where
  "backing_len (DirectLocalFile content len) = len"
| "backing_len (MemoryBacking bs _) = word_of_nat (length bs)"
| "backing_len (SpoolFile content completed _) = completed"

definition backing_is_empty :: "content_backing \<Rightarrow> bool" where
  "backing_is_empty b \<longleftrightarrow> backing_len b = 0"

fun backing_lease :: "content_backing \<Rightarrow> u64" where
  "backing_lease (DirectLocalFile _ _) = 0"
| "backing_lease (MemoryBacking _ l) = lease_bytes l"
| "backing_lease (SpoolFile _ _ l) = lease_bytes l"

text \<open>The drop of the last reference to a backing.\<close>

definition backing_drop :: "content_backing \<Rightarrow> spool \<Rightarrow> spool" where
  "backing_drop b sp = release (backing_lease b) sp"

definition direct_local_file :: "bytes vfs_result \<Rightarrow> content_backing vfs_result" where
  "direct_local_file f = map_sum id (\<lambda>content. DirectLocalFile content (word_of_nat (length content))) f"

definition spool_memory :: "bytes \<Rightarrow> spool \<Rightarrow> content_backing vfs_result \<times> spool" where
  "spool_memory bs sp =
     (let n = word_of_nat (length bs)
      in if n > max_single_bytes (sp_limits sp)
         then (Inl (Unavailable ''single content spool limit exceeded''), sp)
         else case reserve n sp of
                (Inl e, sp') \<Rightarrow> (Inl e, sp')
              | (Inr _, sp') \<Rightarrow> (Inr (MemoryBacking bs \<lparr>lease_bytes = n\<rparr>), sp'))"

text \<open>
  One positioned read of a file: how many bytes the system delivers of those asked for, which is not more than there are;
  \<open>file_reads offset len\<close> is its answer. Zero bytes end the loop.
\<close>

type_synonym file_reads = "nat \<Rightarrow> nat \<Rightarrow> vfs_error + nat"

function read_file_loop :: "file_reads \<Rightarrow> bytes \<Rightarrow> nat \<Rightarrow> nat \<Rightarrow> bytes \<Rightarrow> bytes vfs_result" where
  "read_file_loop file_reads content offset wanted output =
     (if length output < wanted then
        (case file_reads (offset + length output) (wanted - length output) of
           Inl e \<Rightarrow> Inl e
         | Inr n \<Rightarrow>
             let got = take (min n (wanted - length output)) (drop (offset + length output) content)
             in if got = [] then Inr output
                else read_file_loop file_reads content offset wanted (output @ got))
      else Inr output)"
  by pat_completeness auto
termination
  by (relation "measure (\<lambda>(file_reads, content, offset, wanted, output). wanted - length output)")
     (auto simp: min_def neq_Nil_conv)

declare read_file_loop.simps [simp del]

definition read_file_at :: "file_reads \<Rightarrow> bytes \<Rightarrow> u64 \<Rightarrow> u64 \<Rightarrow> u32 \<Rightarrow> bytes vfs_result" where
  "read_file_at file_reads content len offset sz =
     (if offset \<ge> len \<or> sz = 0 then Inr []
      else
        let wanted = unat (min (ucast sz) (len - offset))
        in read_file_loop file_reads content (unat offset) wanted [])"

fun backing_read_at :: "file_reads \<Rightarrow> content_backing \<Rightarrow> u64 \<Rightarrow> u32 \<Rightarrow> bytes vfs_result" where
  "backing_read_at file_reads (MemoryBacking bs _) offset sz =
     (let start = min (unat offset) (length bs); stop = min (start + unat sz) (length bs)
      in Inr (take (stop - start) (drop start bs)))"
| "backing_read_at file_reads (DirectLocalFile content len) offset sz = read_file_at file_reads content len offset sz"
| "backing_read_at file_reads (SpoolFile content completed _) offset sz = read_file_at file_reads content completed offset sz"

section \<open>Writers\<close>

record spool_writer =
  wr_memory :: bytes
  wr_temporary :: "bytes option"
  wr_reserved :: u64
  wr_finished :: bool

definition writer_new :: spool_writer where
  "writer_new = \<lparr>wr_memory = [], wr_temporary = None, wr_reserved = 0, wr_finished = False\<rparr>"

text \<open>Moving a content to a temporary file: create it, write what memory holds.\<close>

definition spill :: "spool_writer \<Rightarrow> spool \<Rightarrow> unit vfs_result \<times> spool_writer \<times> spool" where
  "spill w sp =
     (case io_step sp of
        (Inl e, sp') \<Rightarrow> (Inl e, w, sp')
      | (Inr _, sp') \<Rightarrow>
          (case io_step sp' of
             (Inl e, sp'') \<Rightarrow> (Inl e, w, sp'')
           | (Inr _, sp'') \<Rightarrow> (Inr (), w\<lparr>wr_memory := [], wr_temporary := Some (wr_memory w)\<rparr>, sp'')))"

definition append_file :: "bytes \<Rightarrow> spool_writer \<Rightarrow> spool \<Rightarrow> unit vfs_result \<times> spool_writer \<times> spool" where
  "append_file chunk w sp =
     (case wr_temporary w of
        None \<Rightarrow> (Inr (), w, sp)
      | Some content \<Rightarrow>
          (case io_step sp of
             (Inl e, sp') \<Rightarrow> (Inl e, w, sp')
           | (Inr _, sp') \<Rightarrow> (Inr (), w\<lparr>wr_temporary := Some (content @ chunk)\<rparr>, sp')))"

definition writer_push :: "bytes \<Rightarrow> spool_writer \<Rightarrow> spool \<Rightarrow> unit vfs_result \<times> spool_writer \<times> spool" where
  "writer_push chunk w sp =
     (case checked_add (wr_reserved w) (word_of_nat (length chunk)) of
        None \<Rightarrow> (Inl (Unavailable ''content spool size overflow''), w, sp)
      | Some next_size \<Rightarrow>
          if next_size > max_single_bytes (sp_limits sp)
          then (Inl (Unavailable ''single content spool limit exceeded''), w, sp)
          else case reserve (word_of_nat (length chunk)) sp of
                 (Inl e, sp') \<Rightarrow> (Inl e, w, sp')
               | (Inr _, sp') \<Rightarrow>
                   let w' = w\<lparr>wr_reserved := next_size\<rparr>
                   in if wr_temporary w' = None \<and> next_size \<le> memory_threshold (sp_limits sp)
                      then (Inr (), w'\<lparr>wr_memory := wr_memory w' @ chunk\<rparr>, sp')
                      else case (if wr_temporary w' = None then spill w' sp' else (Inr (), w', sp')) of
                             (Inl e, w'', sp'') \<Rightarrow> (Inl e, w'', sp'')
                           | (Inr _, w'', sp'') \<Rightarrow> append_file chunk w'' sp'')"

definition writer_drop :: "spool_writer \<Rightarrow> spool \<Rightarrow> spool" where
  "writer_drop w sp = (if \<not> wr_finished w then release (wr_reserved w) sp else sp)"

text \<open>
  \<^verbatim>\<open>finish\<close> makes the lease first and takes the reservation from the writer; an error of flushing, syncing or reopening the
  file drops the lease.
\<close>

definition writer_finish :: "spool_writer \<Rightarrow> spool \<Rightarrow> content_backing vfs_result \<times> spool" where
  "writer_finish w sp =
     (let l = \<lparr>lease_bytes = wr_reserved w\<rparr>
      in case wr_temporary w of
           None \<Rightarrow> (Inr (MemoryBacking (wr_memory w) l), sp)
         | Some content \<Rightarrow>
             (case io_step sp of
                (Inl e, sp1) \<Rightarrow> (Inl e, release (lease_bytes l) sp1)
              | (Inr _, sp1) \<Rightarrow>
                  (case io_step sp1 of
                     (Inl e, sp2) \<Rightarrow> (Inl e, release (lease_bytes l) sp2)
                   | (Inr _, sp2) \<Rightarrow>
                       (case io_step sp2 of
                          (Inl e, sp3) \<Rightarrow> (Inl e, release (lease_bytes l) sp3)
                        | (Inr _, sp3) \<Rightarrow> (Inr (SpoolFile content (lease_bytes l) l), sp3)))))"

text \<open>\<^verbatim>\<open>ContentSpool::spool\<close>: a whole stream through a writer, which an error drops.\<close>

fun push_all :: "bytes vfs_result list \<Rightarrow> spool_writer \<Rightarrow> spool \<Rightarrow> content_backing vfs_result \<times> spool" where
  "push_all [] w sp = writer_finish w sp"
| "push_all (Inl e # rest) w sp = (Inl e, writer_drop w sp)"
| "push_all (Inr chunk # rest) w sp =
     (case writer_push chunk w sp of
        (Inl e, w', sp') \<Rightarrow> (Inl e, writer_drop w' sp')
      | (Inr _, w', sp') \<Rightarrow> push_all rest w' sp')"

definition spool_stream :: "bytes vfs_result list \<Rightarrow> spool \<Rightarrow> content_backing vfs_result \<times> spool" where
  "spool_stream s sp = push_all s writer_new sp"

section \<open>Accounting\<close>

text \<open>The bytes outstanding are what is reserved, and they stay within the total.\<close>

definition outstanding :: "nat \<Rightarrow> spool \<Rightarrow> bool" where
  "outstanding n sp \<longleftrightarrow> unat (reserved_bytes sp) = n \<and> n \<le> unat (max_total_bytes (sp_limits sp))"

lemma io_step_state:
  assumes "io_step sp = (r, sp')"
  shows "sp_limits sp' = sp_limits sp \<and> reserved_bytes sp' = reserved_bytes sp"
  using assms by (auto simp: io_step_def split: list.splits option.splits)

lemma io_step_limits: "io_step sp = (r, sp') \<Longrightarrow> sp_limits sp' = sp_limits sp"
  using io_step_state by blast

lemma outstanding_io_step:
  assumes "io_step sp = (r, sp')"
  shows "outstanding n sp' \<longleftrightarrow> outstanding n sp"
  using io_step_state [OF assms] by (simp add: outstanding_def)

lemma reserve_cases:
  assumes "reserve k sp = (r, sp')" "outstanding n sp"
  shows "(\<exists>e. r = Inl e \<and> sp' = sp) \<or>
         (r = Inr () \<and> sp_limits sp' = sp_limits sp \<and> outstanding (n + unat k) sp')"
  using assms
  by (auto simp: reserve_def outstanding_def checked_add_Some word_le_nat_alt unat_word_ariths split: option.splits if_splits)

lemma outstanding_release:
  assumes "outstanding (n + unat k) sp"
  shows "outstanding n (release k sp)"
  using assms by (auto simp: outstanding_def release_def unat_sub word_le_nat_alt)

lemma release_limits [simp]: "sp_limits (release k sp) = sp_limits sp"
  by (simp add: release_def)

text \<open>Where a writer keeps what was written to it.\<close>

definition writer_content :: "spool_writer \<Rightarrow> bytes" where
  "writer_content w = (case wr_temporary w of None \<Rightarrow> wr_memory w | Some content \<Rightarrow> content)"

definition writer_exact :: "spool_writer \<Rightarrow> bool" where
  "writer_exact w \<longleftrightarrow> unat (wr_reserved w) = length (writer_content w) \<and> \<not> wr_finished w"

lemma spill_cases:
  assumes "spill w sp = (r, w', sp')" "wr_temporary w = None"
  shows "sp_limits sp' = sp_limits sp \<and> reserved_bytes sp' = reserved_bytes sp \<and>
         wr_reserved w' = wr_reserved w \<and> wr_finished w' = wr_finished w \<and>
         (r = Inr () \<longrightarrow> wr_temporary w' = Some (wr_memory w) \<and> writer_content w' = writer_content w)"
  using assms
  by (auto simp: spill_def writer_content_def split: prod.splits sum.splits dest!: io_step_state)

lemma append_file_cases:
  assumes "append_file chunk w sp = (r, w', sp')" "wr_temporary w = Some content"
  shows "sp_limits sp' = sp_limits sp \<and> reserved_bytes sp' = reserved_bytes sp \<and>
         wr_reserved w' = wr_reserved w \<and> wr_finished w' = wr_finished w \<and>
         (r = Inr () \<longrightarrow> writer_content w' = writer_content w @ chunk)"
  using assms
  by (auto simp: append_file_def writer_content_def split: prod.splits sum.splits dest!: io_step_state)

text \<open>A push reserves what it adds to the writer's account, whether or not the file operations after it succeed.\<close>

lemma writer_push_cases:
  assumes "writer_push chunk w sp = (r, w', sp')" and "outstanding (n + unat (wr_reserved w)) sp"
  shows "sp_limits sp' = sp_limits sp \<and> outstanding (n + unat (wr_reserved w')) sp' \<and> wr_finished w' = wr_finished w \<and>
         (wr_reserved w \<le> max_single_bytes (sp_limits sp) \<longrightarrow> wr_reserved w' \<le> max_single_bytes (sp_limits sp)) \<and>
         (r = Inr () \<longrightarrow> writer_content w' = writer_content w @ chunk \<and>
            unat (wr_reserved w') = unat (wr_reserved w) + unat (word_of_nat (length chunk) :: u64))"
proof -
  let ?k = "word_of_nat (length chunk) :: u64"
  consider (early) "\<exists>e. r = Inl e" "w' = w" "sp' = sp"
    | (go) sp1 where "checked_add (wr_reserved w) ?k = Some (wr_reserved w + ?k)" "reserve ?k sp = (Inr (), sp1)"
        "wr_reserved w + ?k \<le> max_single_bytes (sp_limits sp)"
    using assms reserve_cases [of ?k sp _ _ "n + unat (wr_reserved w)"]
    by (auto simp: writer_push_def checked_add_Some checked_add_None not_less split: option.splits if_splits prod.splits sum.splits)
  then show ?thesis
  proof cases
    case early
    then show ?thesis using assms(2) by auto
  next
    case go
    define w1 where "w1 = w\<lparr>wr_reserved := wr_reserved w + ?k\<rparr>"
    then have w1_reserved: "wr_reserved w1 = wr_reserved w + ?k" by simp
    have sum: "unat (wr_reserved w + ?k) = unat (wr_reserved w) + unat ?k"
      using go(1) by (simp add: checked_add_Some unat_word_ariths)
    have sp1: "sp_limits sp1 = sp_limits sp" "outstanding (n + unat (wr_reserved w1)) sp1"
      using reserve_cases [OF go(2) assms(2)] sum by (simp_all add: w1_def add.assoc)
    have w1: "writer_content w1 = writer_content w" "wr_temporary w1 = wr_temporary w" "wr_finished w1 = wr_finished w"
      by (simp_all add: w1_def writer_content_def split: option.split)
    have push: "(if wr_temporary w1 = None \<and> wr_reserved w1 \<le> memory_threshold (sp_limits sp)
        then (Inr (), w1\<lparr>wr_memory := wr_memory w1 @ chunk\<rparr>, sp1)
        else case (if wr_temporary w1 = None then spill w1 sp1 else (Inr (), w1, sp1)) of
               (Inl e, w'', sp'') \<Rightarrow> (Inl e, w'', sp'')
             | (Inr _, w'', sp'') \<Rightarrow> append_file chunk w'' sp'') = (r, w', sp')"
      using assms(1) go leD [OF go(3)] by (simp add: writer_push_def w1_def [symmetric] Let_def w1_reserved)
    consider (memory) "wr_temporary w1 = None" "r = Inr ()" "w' = w1\<lparr>wr_memory := wr_memory w1 @ chunk\<rparr>" "sp' = sp1"
      | (spill_failed) "wr_temporary w1 = None" "spill w1 sp1 = (r, w', sp')" "\<exists>e. r = Inl e"
      | (moved) w2 sp2 where "wr_temporary w1 = None" "spill w1 sp1 = (Inr (), w2, sp2)" "append_file chunk w2 sp2 = (r, w', sp')"
      | (stored) content where "wr_temporary w1 = Some content" "append_file chunk w1 sp1 = (r, w', sp')"
    proof (cases "wr_temporary w1")
      case None
      show ?thesis
      proof (cases "wr_reserved w1 \<le> memory_threshold (sp_limits sp)")
        case True
        then show ?thesis using push None by (intro memory) auto
      next
        case False
        obtain r2 w2 sp2 where "spill w1 sp1 = (r2, w2, sp2)" by (metis prod_cases3)
        with False show ?thesis using push None spill_failed moved by (cases r2) auto
      qed
    next
      case (Some content)
      then show ?thesis using push stored by auto
    qed
    then show ?thesis
    proof cases
      case memory
      then show ?thesis using sp1 w1 sum go(3) by (auto simp: writer_content_def w1_def)
    next
      case spill_failed
      then show ?thesis using spill_cases [OF spill_failed(2,1)] sp1 w1 go(3) by (auto simp: outstanding_def w1_reserved)
    next
      case moved
      then show ?thesis
        using spill_cases [OF moved(2,1)] append_file_cases [OF moved(3)] sp1 w1 sum go(3)
        by (auto simp: outstanding_def w1_def)
    next
      case stored
      then show ?thesis using append_file_cases [OF stored(2,1)] sp1 w1 sum go(3) by (auto simp: outstanding_def w1_def)
    qed
  qed
qed

lemma writer_finish_cases:
  assumes "writer_finish w sp = (r, sp')" "outstanding (n + unat (wr_reserved w)) sp"
  shows "sp_limits sp' = sp_limits sp \<and>
         ((\<exists>e. r = Inl e) \<and> outstanding n sp' \<or>
          (\<exists>b. r = Inr b \<and> backing_lease b = wr_reserved w \<and> outstanding (n + unat (backing_lease b)) sp' \<and>
             (b = MemoryBacking (writer_content w) \<lparr>lease_bytes = wr_reserved w\<rparr> \<or>
              b = SpoolFile (writer_content w) (wr_reserved w) \<lparr>lease_bytes = wr_reserved w\<rparr>)))"
  using assms
  by (auto simp: writer_finish_def writer_content_def Let_def outstanding_release outstanding_io_step io_step_limits
      split: option.splits prod.splits sum.splits)

section \<open>Contents\<close>

text \<open>What a backing holds, and a backing that holds all of what its length says.\<close>

fun backing_content :: "content_backing \<Rightarrow> bytes" where
  "backing_content (DirectLocalFile content _) = content"
| "backing_content (MemoryBacking bs _) = bs"
| "backing_content (SpoolFile content _ _) = content"

definition backing_exact :: "content_backing \<Rightarrow> bool" where
  "backing_exact b \<longleftrightarrow> unat (backing_len b) = length (backing_content b)"

text \<open>A positioned read of a regular file answers, with at least one of the bytes asked for.\<close>

definition reads_progress :: "file_reads \<Rightarrow> bool" where
  "reads_progress fr \<longleftrightarrow> (\<forall>offset len. 0 < len \<longrightarrow> (\<exists>n > 0. fr offset len = Inr n))"

lemma read_file_loop_exact:
  assumes "reads_progress fr" "offset + wanted \<le> length content"
    and "outp = take (length outp) (drop offset content)" "length outp \<le> wanted"
  shows "read_file_loop fr content offset wanted outp = Inr (take wanted (drop offset content))"
  using assms(3-)
proof (induction "wanted - length outp" arbitrary: outp rule: less_induct)
  case less
  show ?case
  proof (cases "length outp < wanted")
    case False
    then have "length outp = wanted" using less.prems by simp
    then have "take wanted (drop offset content) = outp" using less.prems(1) by simp
    with False show ?thesis by (simp add: read_file_loop.simps [of fr content offset wanted outp])
  next
    case True
    obtain n where n: "0 < n" "fr (offset + length outp) (wanted - length outp) = Inr n"
      using assms(1) True unfolding reads_progress_def by (metis zero_less_diff)
    define got where "got = take (min n (wanted - length outp)) (drop (offset + length outp) content)"
    have got: "got \<noteq> []" "length outp + length got \<le> wanted"
      using n True assms(2) by (auto simp: got_def)
    have "got = take (length got) (drop (length outp) (drop offset content))"
      by (simp add: got_def add.commute min_def)
    then have slice: "outp @ got = take (length (outp @ got)) (drop offset content)"
      using less.prems(1) by (metis length_append take_add)
    have "read_file_loop fr content offset wanted outp = read_file_loop fr content offset wanted (outp @ got)"
      using True n got(1) unfolding got_def [symmetric]
      by (subst read_file_loop.simps) (simp add: got_def [symmetric])
    also have "\<dots> = Inr (take wanted (drop offset content))"
      using got True by (intro less.hyps [OF _ slice]) (auto simp: diff_less_mono2 simp flip: length_greater_0_conv)
    finally show ?thesis .
  qed
qed

lemma unat_ucast_u32: "unat (ucast (k :: u32) :: u64) = unat k"
  using unsigned_less [of k, where ?'a = nat] by (simp add: unsigned_ucast_eq take_bit_nat_eq_self)

lemma backing_read_exact:
  assumes "backing_exact b" "reads_progress fr"
  shows "backing_read_at fr b offset sz = Inr (take (unat sz) (drop (unat offset) (backing_content b)))"
proof -
  have from_file: "read_file_at fr content len offset sz = Inr (take (unat sz) (drop (unat offset) content))"
    if "unat len = length content" for content and len :: u64
  proof (cases "offset \<ge> len \<or> sz = 0")
    case True
    then show ?thesis using that by (auto simp: read_file_at_def word_le_nat_alt)
  next
    case False
    then have "unat (min (ucast sz) (len - offset)) = min (unat sz) (length content - unat offset)"
      using that by (simp add: min_def word_le_nat_alt unat_sub unat_ucast_u32)
    moreover have "read_file_loop fr content (unat offset) (min (unat sz) (length content - unat offset)) [] =
        Inr (take (min (unat sz) (length content - unat offset)) (drop (unat offset) content))"
      using False that assms(2) by (intro read_file_loop_exact) (auto simp: word_le_nat_alt)
    ultimately show ?thesis using False by (auto simp: read_file_at_def Let_def min_def)
  qed
  show ?thesis
    using assms(1) by (cases b) (auto simp: backing_exact_def from_file Let_def min_def)
qed

text \<open>What a stream puts into the store is what it delivers, and nothing is kept of a stream that fails.\<close>

definition fits_usize :: "bytes vfs_result \<Rightarrow> bool" where
  "fits_usize item \<longleftrightarrow> (case item of Inl _ \<Rightarrow> True | Inr chunk \<Rightarrow> length chunk < 2 ^ 64)"

lemma writer_push_exact:
  assumes "writer_push chunk w sp = (Inr (), w', sp')" "outstanding (n + unat (wr_reserved w)) sp" "writer_exact w"
    and "length chunk < 2 ^ 64"
  shows "writer_exact w' \<and> writer_content w' = writer_content w @ chunk"
  using writer_push_cases [OF assms(1,2)] assms(3,4)
  by (simp add: writer_exact_def unsigned_of_nat take_bit_nat_eq_self)

lemma writer_finish_exact:
  assumes "writer_finish w sp = (Inr b, sp')" "outstanding (n + unat (wr_reserved w)) sp" "writer_exact w"
  shows "backing_exact b \<and> backing_content b = writer_content w \<and> backing_lease b = backing_len b \<and>
         outstanding (n + unat (backing_lease b)) sp'"
proof -
  have "word_of_nat (unat (wr_reserved w)) = wr_reserved w" by simp
  then have "word_of_nat (length (writer_content w)) = wr_reserved w"
    using assms(3) unfolding writer_exact_def by metis
  then show ?thesis
    using writer_finish_cases [OF assms(1,2)] assms(3) by (auto simp: backing_exact_def writer_exact_def)
qed

lemma push_all_exact:
  assumes "push_all s w sp = (r, sp')" "outstanding (n + unat (wr_reserved w)) sp" "writer_exact w" "list_all fits_usize s"
  shows "(\<exists>e. r = Inl e) \<and> outstanding n sp' \<or>
         (\<exists>b chunks. r = Inr b \<and> s = map Inr chunks \<and> backing_exact b \<and>
            backing_content b = writer_content w @ concat chunks \<and> backing_lease b = backing_len b \<and>
            outstanding (n + unat (backing_lease b)) sp')"
  using assms
proof (induction s w sp rule: push_all.induct)
  case (1 w sp)
  then show ?case
    using writer_finish_cases [of w sp r sp' n] writer_finish_exact [of w sp _ sp' n] by (cases r) auto
next
  case (2 e rest w sp)
  then show ?case by (auto simp: writer_drop_def writer_exact_def outstanding_release)
next
  case (3 chunk rest w sp)
  obtain r1 w1 sp1 where push: "writer_push chunk w sp = (r1, w1, sp1)" by (metis prod_cases3)
  note step = writer_push_cases [OF push "3.prems"(2)]
  show ?case
  proof (cases r1)
    case (Inl e)
    then show ?thesis
      using "3.prems"(1,3) push step by (auto simp: writer_drop_def writer_exact_def outstanding_release)
  next
    case (Inr u)
    have exact: "writer_exact w1" "writer_content w1 = writer_content w @ chunk"
      using writer_push_exact [of chunk w sp w1 sp1 n] push Inr "3.prems" by (auto simp: fits_usize_def)
    have "push_all rest w1 sp1 = (r, sp')" using "3.prems"(1) push Inr by simp
    from "3.IH" [OF push [symmetric] Inr refl this _ exact(1)] step "3.prems"(4) show ?thesis
      by (fastforce simp: exact(2) intro: exI [of _ "chunk # chunks" for chunks])
  qed
qed

section \<open>Writers and backings side by side\<close>

text \<open>
  The store shared by any number of writers and backings: what each call does to it, in any order. A reservation is one
  compare-and-exchange and a release one subtraction, and the file operations of a push touch its own writer only, so the
  calls of different tasks interleave as whole steps.
\<close>

inductive spool_step :: "spool \<times> spool_writer list \<times> content_backing list \<Rightarrow> spool \<times> spool_writer list \<times> content_backing list \<Rightarrow> bool"
where
  step_writer: "spool_step (sp, ws, bs) (sp, ws @ [writer_new], bs)"
| step_push: "writer_push chunk w sp = (r, w', sp') \<Longrightarrow> spool_step (sp, ws @ w # vs, bs) (sp', ws @ w' # vs, bs)"
| step_finish: "writer_finish w sp = (Inr b, sp') \<Longrightarrow> spool_step (sp, ws @ w # vs, bs) (sp', ws @ vs, bs @ [b])"
| step_finish_failed: "writer_finish w sp = (Inl e, sp') \<Longrightarrow> spool_step (sp, ws @ w # vs, bs) (sp', ws @ vs, bs)"
| step_drop_writer: "spool_step (sp, ws @ w # vs, bs) (writer_drop w sp, ws @ vs, bs)"
| step_memory: "spool_memory content sp = (Inr b, sp') \<Longrightarrow> spool_step (sp, ws, bs) (sp', ws, bs @ [b])"
| step_memory_failed: "spool_memory content sp = (Inl e, sp') \<Longrightarrow> spool_step (sp, ws, bs) (sp', ws, bs)"
| step_drop_backing: "spool_step (sp, ws, bs @ b # cs) (backing_drop b sp, ws, bs @ cs)"

abbreviation spool_reaches where "spool_reaches \<equiv> spool_step\<^sup>*\<^sup>*"

definition held_bytes :: "spool_writer list \<Rightarrow> content_backing list \<Rightarrow> nat" where
  "held_bytes ws bs = (\<Sum>w\<leftarrow>ws. unat (wr_reserved w)) + (\<Sum>b\<leftarrow>bs. unat (backing_lease b))"

definition spool_consistent :: "spool_limits \<Rightarrow> spool \<times> spool_writer list \<times> content_backing list \<Rightarrow> bool" where
  "spool_consistent l st =
     (case st of (sp, ws, bs) \<Rightarrow>
        sp_limits sp = l \<and> outstanding (held_bytes ws bs) sp \<and>
        (\<forall>w \<in> set ws. \<not> wr_finished w \<and> wr_reserved w \<le> max_single_bytes l) \<and>
        (\<forall>b \<in> set bs. backing_lease b \<le> max_single_bytes l))"

lemma held_bytes_simps [simp]:
  "held_bytes (ws @ w # vs) bs = held_bytes (ws @ vs) bs + unat (wr_reserved w)"
  "held_bytes ws (bs @ b # cs) = held_bytes ws (bs @ cs) + unat (backing_lease b)"
  "held_bytes (ws @ [writer_new]) bs = held_bytes ws bs"
  by (simp_all add: held_bytes_def writer_new_def)

lemma spool_memory_cases:
  assumes "spool_memory content sp = (r, sp')" "outstanding n sp"
  shows "sp_limits sp' = sp_limits sp \<and>
         ((\<exists>e. r = Inl e) \<and> sp' = sp \<or>
          (\<exists>b. r = Inr b \<and> backing_lease b \<le> max_single_bytes (sp_limits sp) \<and>
             outstanding (n + unat (backing_lease b)) sp'))"
  using assms reserve_cases [of "word_of_nat (length content)" sp _ _ n]
  by (fastforce simp: spool_memory_def Let_def not_less split: if_splits prod.splits sum.splits)

lemma spool_step_consistent:
  assumes "spool_step st st'" "spool_consistent l st"
  shows "spool_consistent l st'"
  using assms
proof (induction rule: spool_step.induct)
  case (step_push chunk w sp r w' sp' ws vs bs)
  then show ?case
    using writer_push_cases [OF step_push(1), of "held_bytes (ws @ vs) bs"]
    by (auto simp: spool_consistent_def)
next
  case (step_finish w sp b sp' ws vs bs)
  then show ?case
    using writer_finish_cases [OF step_finish(1), of "held_bytes (ws @ vs) bs"]
    by (auto simp: spool_consistent_def)
next
  case (step_finish_failed w sp e sp' ws vs bs)
  then show ?case
    using writer_finish_cases [OF step_finish_failed(1), of "held_bytes (ws @ vs) bs"]
    by (auto simp: spool_consistent_def)
next
  case (step_memory content sp b sp' ws bs)
  then show ?case
    using spool_memory_cases [OF step_memory(1), of "held_bytes ws bs"]
    by (auto simp: spool_consistent_def)
next
  case (step_memory_failed content sp e sp' ws bs)
  then show ?case
    using spool_memory_cases [OF step_memory_failed(1), of "held_bytes ws bs"]
    by (auto simp: spool_consistent_def)
qed (auto simp: spool_consistent_def writer_drop_def backing_drop_def outstanding_release, auto simp: writer_new_def)

text \<open>C30. In every state of the store that any interleaving of writers, finished contents and drops reaches, the bytes
  reserved are exactly the sum of what the live writers and contents hold, never exceed the configured total, and no
  writer or content holds more than the limit for one; so nothing reserved is left once all of them are gone.\<close>

theorem spool_accounting:
  assumes "spool_new l outcomes = Inr sp0" and "spool_reaches (sp0, [], []) (sp, ws, bs)"
  shows "unat (reserved_bytes sp) = held_bytes ws bs \<and> held_bytes ws bs \<le> unat (max_total_bytes l) \<and>
         (\<forall>w \<in> set ws. wr_reserved w \<le> max_single_bytes l) \<and> (\<forall>b \<in> set bs. backing_lease b \<le> max_single_bytes l) \<and>
         (ws = [] \<and> bs = [] \<longrightarrow> reserved_bytes sp = 0)"
proof -
  have "spool_consistent l (sp0, [], [])"
    using assms(1)
    by (auto simp: spool_new_def spool_consistent_def outstanding_def held_bytes_def
        split: sum.splits prod.splits dest!: io_step_state)
  with assms(2) have "spool_consistent l (sp, ws, bs)"
    by (induction rule: rtranclp_induct2) (auto intro: spool_step_consistent)
  then show ?thesis
    by (auto simp: spool_consistent_def outstanding_def held_bytes_def unsigned_eq_0_iff)
qed

theorem spool_accounting_witness:
  "let l = \<lparr>memory_threshold = 2, max_single_bytes = 4, max_total_bytes = 6\<rparr>;
       sp0 = \<lparr>sp_limits = l, reserved_bytes = 0, io_outcomes = []\<rparr>;
       w = \<lparr>wr_memory = [], wr_temporary = Some [1, 2, 3], wr_reserved = 3, wr_finished = False\<rparr>;
       b = MemoryBacking [4, 5] \<lparr>lease_bytes = 2\<rparr>
   in spool_new l [] = Inr sp0 \<and> spool_reaches (sp0, [], []) (sp0\<lparr>reserved_bytes := 5\<rparr>, [w], [b]) \<and>
      held_bytes [w] [b] = 5 \<and> (5 :: u64) \<le> max_total_bytes l"
proof -
  define l where "l = \<lparr>memory_threshold = 2, max_single_bytes = 4, max_total_bytes = (6 :: u64)\<rparr>"
  define sp0 where "sp0 = \<lparr>sp_limits = l, reserved_bytes = 0, io_outcomes = []\<rparr>"
  define w where "w = \<lparr>wr_memory = [], wr_temporary = Some [1, 2, 3 :: 8 word], wr_reserved = 3, wr_finished = False\<rparr>"
  define b where "b = MemoryBacking [4, 5] \<lparr>lease_bytes = 2\<rparr>"
  note defs = l_def sp0_def w_def b_def
  have new: "spool_new l [] = Inr sp0"
    by (simp add: defs spool_new_def spool_limits_validate_def io_step_def)
  have "spool_step (sp0, [], []) (sp0, [writer_new], [])"
    using step_writer [of sp0 "[]" "[]"] by simp
  moreover have "writer_push [1, 2, 3] writer_new sp0 = (Inr (), w, sp0\<lparr>reserved_bytes := 3\<rparr>)"
    by (simp add: defs writer_push_def writer_new_def checked_add_def reserve_def spill_def io_step_def append_file_def)
  then have "spool_step (sp0, [writer_new], []) (sp0\<lparr>reserved_bytes := 3\<rparr>, [w], [])"
    using step_push [of "[1, 2, 3]" writer_new sp0 _ w _ "[]" "[]" "[]"] by simp
  moreover have "spool_memory [4, 5] (sp0\<lparr>reserved_bytes := 3\<rparr>) = (Inr b, sp0\<lparr>reserved_bytes := 5\<rparr>)"
    by (simp add: defs spool_memory_def reserve_def checked_add_def Let_def)
  then have "spool_step (sp0\<lparr>reserved_bytes := 3\<rparr>, [w], []) (sp0\<lparr>reserved_bytes := 5\<rparr>, [w], [b])"
    using step_memory [of "[4, 5]" "sp0\<lparr>reserved_bytes := 3\<rparr>" b _ "[w]" "[]"] by simp
  ultimately have reach: "spool_reaches (sp0, [], []) (sp0\<lparr>reserved_bytes := 5\<rparr>, [w], [b])"
    by (meson r_into_rtranclp rtranclp_trans)
  show ?thesis
    using spool_accounting [OF new reach] new reach
    by (simp add: Let_def l_def [symmetric] sp0_def [symmetric] w_def [symmetric] b_def [symmetric])
       (simp add: defs word_le_nat_alt)
qed

section \<open>Bounds of reads\<close>

lemma read_file_loop_bounded:
  assumes "read_file_loop fr content offset wanted acc = Inr bs" "length acc \<le> wanted"
  shows "length bs \<le> wanted"
  using assms
proof (induction "wanted - length acc" arbitrary: acc rule: less_induct)
  case less
  show ?case
  proof (cases "length acc < wanted")
    case False
    then show ?thesis using less.prems by (simp add: read_file_loop.simps [of fr content offset wanted acc])
  next
    case True
    then obtain n where n: "fr (offset + length acc) (wanted - length acc) = Inr n"
      using less.prems(1) by (auto simp: read_file_loop.simps [of fr content offset wanted acc] split: sum.splits)
    define got where "got = take (min n (wanted - length acc)) (drop (offset + length acc) content)"
    have step: "read_file_loop fr content offset wanted acc =
        (if got = [] then Inr acc else read_file_loop fr content offset wanted (acc @ got))"
      using True n by (subst read_file_loop.simps) (simp add: got_def [symmetric])
    have len: "length acc + length got \<le> wanted" using True by (auto simp: got_def)
    show ?thesis
    proof (cases "got = []")
      case True
      then show ?thesis using less.prems step by simp
    next
      case False
      then have "wanted - length (acc @ got) < wanted - length acc" using True by (simp add: diff_less_mono2)
      then show ?thesis using less.hyps [of "acc @ got"] less.prems(1) step False len by simp
    qed
  qed
qed

lemma backing_read_bounded:
  assumes "backing_read_at fr b offset sz = Inr bs"
  shows "length bs \<le> unat sz"
proof -
  have from_file: "length bs \<le> unat sz" if "read_file_at fr content len offset sz = Inr bs" for content and len :: u64
  proof (cases "offset \<ge> len \<or> sz = 0")
    case True
    then show ?thesis using that by (simp add: read_file_at_def)
  next
    case False
    then have "length bs \<le> unat (min (ucast sz :: u64) (len - offset))"
      using that read_file_loop_bounded [of fr content _ _ "[]" bs] by (simp add: read_file_at_def Let_def)
    also have "\<dots> \<le> unat (ucast sz :: u64)" by (simp add: min_def word_le_nat_alt)
    finally show ?thesis by (simp add: unat_ucast_u32)
  qed
  show ?thesis
    using assms from_file by (cases b) (auto simp: Let_def)
qed

end
