(* ===== verification/Archive_Provider.thy ===== *)
theory Archive_Provider
  imports Tar_Archive Content_Spool Provider Docker_Error
begin

text \<open>
  The provider that reads a container's files through the Docker archive endpoint,
  \<^verbatim>\<open>docker-core/src/vfs_providers/archive.rs\<close>: every operation downloads a tar archive of the path it is asked for and
  indexes it, and an open extracts the file into the content store. The download is the parameter \<open>source\<close>: what the
  \<open>n\<close>-th call delivers, or that it did not end within the operation's timeout, which drops whatever the operation had
  reserved.
\<close>

section \<open>Archives from Docker\<close>

definition validate_object_id :: "bytes \<Rightarrow> unit vfs_result" where
  "validate_object_id object_id =
     (if trim_is_empty object_id \<or> 0 \<in> set object_id
      then Inl (InvalidInput ''empty or NUL-containing Docker object ID'') else Inr ())"

definition virtual_path_string :: "virtual_path \<Rightarrow> bytes vfs_result" where
  "virtual_path_string path =
     (if valid_utf8 (path_as_bytes path) then Inr (path_as_bytes path)
      else Inl (InvalidInput ''Docker Archive API path is not UTF-8''))"

text \<open>The text of a library error is \<open>show_error\<close>.\<close>

fun map_archive_error :: "(bollard_error \<Rightarrow> string) \<Rightarrow> bollard_error \<Rightarrow> vfs_error" where
  "map_archive_error show_error (ServerError status_code m) =
     (if status_code = 401 \<or> status_code = 403 then PermissionDenied
      else if status_code = 404 then Unsupported ''Docker Container Archive does not expose this runtime mount path''
      else Unavailable (show_error (ServerError status_code m)))"
| "map_archive_error show_error e = Unavailable (show_error e)"

text \<open>\<^verbatim>\<open>DockerContainerArchiveSource::archive\<close>; \<open>download\<close> is \<^verbatim>\<open>download_from_container\<close> of the client library.\<close>

definition docker_archive ::
    "(bollard_error \<Rightarrow> string) \<Rightarrow> (bytes \<Rightarrow> bytes \<Rightarrow> (bollard_error + bytes) list) \<Rightarrow> bytes \<Rightarrow> virtual_path \<Rightarrow>
       archive_byte_stream vfs_result" where
  "docker_archive show_error download object_id path =
     bindR (validate_object_id object_id) (\<lambda>_.
     bindR (virtual_path_string path) (\<lambda>text.
     Inr (map (map_sum (map_archive_error show_error) id) (download object_id text))))"

datatype archive_reply = Late | Reply "archive_byte_stream vfs_result"

type_synonym archive_source = "nat \<Rightarrow> bytes \<Rightarrow> virtual_path \<Rightarrow> request_context \<Rightarrow> archive_reply"

section \<open>State\<close>

record archive_config =
  ac_object_id :: bytes
  ac_limits :: tar_limits
  ac_kind :: provider_kind
  ac_source_label :: "string option"

record archive_state =
  as_calls :: nat
  as_spool :: spool
  as_next_handle :: u64
  as_handles :: "(u64 \<times> content_backing) list"

definition archive_with_kind ::
    "bytes \<Rightarrow> spool \<Rightarrow> tar_limits \<Rightarrow> nat \<Rightarrow> provider_kind \<Rightarrow> string option \<Rightarrow> (archive_config \<times> archive_state) vfs_result" where
  "archive_with_kind object_id sp limits operation_timeout kind label =
     bindR (validate_object_id object_id) (\<lambda>_.
     bindR (limits_validate limits) (\<lambda>_.
     if operation_timeout = 0 then Inl (InvalidInput ''archive timeout must be non-zero'')
     else Inr (\<lparr>ac_object_id = object_id, ac_limits = limits, ac_kind = kind, ac_source_label = label\<rparr>,
               \<lparr>as_calls = 0, as_spool = sp, as_next_handle = 1, as_handles = []\<rparr>)))"

definition archive_new ::
    "bytes \<Rightarrow> spool \<Rightarrow> tar_limits \<Rightarrow> nat \<Rightarrow> (archive_config \<times> archive_state) vfs_result" where
  "archive_new object_id sp limits operation_timeout =
     archive_with_kind object_id sp limits operation_timeout provider_kind.ContainerArchiveLive None"

section \<open>Selecting and extracting\<close>

definition select_archive_root :: "tar_index \<Rightarrow> virtual_path \<Rightarrow> tar_entry vfs_result" where
  "select_archive_root idx requested =
     (if is_root requested then ok_or NotFound (index_get idx tar_root)
      else case index_get idx (from_virtual requested) of
             Some entry \<Rightarrow> Inr entry
           | None \<Rightarrow>
               bindR (ok_or NotFound (file_name requested)) (\<lambda>requested_name.
               case filter (\<lambda>entry. tar_depth (te_path entry) = 1 \<and> tar_name (te_path entry) = Some (name_bytes requested_name))
                      (map snd idx) of
                 [] \<Rightarrow> Inl NotFound
               | [entry] \<Rightarrow> Inr entry
               | _ \<Rightarrow> Inl (Io ''ambiguous Docker archive root'')))"

text \<open>
  The loop that reads the body of a file into a writer. A writer that is given up is dropped, and so is the file found
  before, so that an error leaves nothing reserved.
\<close>

definition BODY_CHUNK :: nat where "BODY_CHUNK = 128 * 1024"

lemma read_body_chunk_Some:
  assumes "read_body_chunk maximum r = (Inr (Some chunk), r')"
  obtains remaining q k where "current_size r = Some remaining" "fill r = (Inr (), q)" "0 < k" "k \<le> length (rd_buffer q)"
    "k \<le> unat remaining" "k \<le> max maximum 1" "chunk = take k (rd_buffer q)"
    "r' = q\<lparr>rd_buffer := drop k (rd_buffer q), current_size := Some (remaining - word_of_nat k)\<rparr>"
proof -
  obtain remaining q where
    q: "current_size r = Some remaining" "remaining \<noteq> 0" "fill r = (Inr (), q)" "rd_buffer q \<noteq> []" and
    r': "Inr (Some chunk) = (Inr (Some (take (min (min (max maximum 1) (length (rd_buffer q))) (unat remaining)) (rd_buffer q)))
           :: bytes option vfs_result)"
      "r' = q\<lparr>rd_buffer := drop (min (min (max maximum 1) (length (rd_buffer q))) (unat remaining)) (rd_buffer q),
             current_size := Some (remaining - word_of_nat (min (min (max maximum 1) (length (rd_buffer q))) (unat remaining)))\<rparr>"
    using assms by (auto simp: read_body_chunk_def Let_def split: option.splits if_splits prod.splits sum.splits)
  have "0 < min (min (max maximum 1) (length (rd_buffer q))) (unat remaining)"
    using q(2,4) by (simp add: unat_gt_0)
  then show ?thesis
    using that [OF q(1,3)] r' by (metis Inr_inject min.cobounded1 min.cobounded2 min.coboundedI1 option.inject)
qed

lemma read_body_chunk_weight:
  assumes "read_body_chunk maximum r = (Inr x, r')"
  shows "weight r' \<le> weight r \<and> (x \<noteq> None \<longrightarrow> weight r' < weight r)"
proof (cases x)
  case None
  then have "r' = r"
    using assms by (auto simp: read_body_chunk_def Let_def split: option.splits if_splits prod.splits sum.splits)
  then show ?thesis using None by simp
next
  case (Some chunk)
  show ?thesis
  proof (rule read_body_chunk_Some [OF assms [unfolded Some]])
    fix remaining q k
    assume q: "fill r = (Inr (), q)" "0 < k" "k \<le> length (rd_buffer q)"
      and r': "r' = q\<lparr>rd_buffer := drop k (rd_buffer q), current_size := Some (remaining - word_of_nat k)\<rparr>"
    have "weight r' < weight q" using q(2,3) by (simp add: r' weight_def)
    with fill_weight [OF q(1)] show ?thesis by linarith
  qed
qed

function copy_body :: "tar_reader \<Rightarrow> spool_writer \<Rightarrow> spool \<Rightarrow> unit vfs_result \<times> tar_reader \<times> spool_writer \<times> spool" where
  "copy_body r w sp =
     (case read_body_chunk BODY_CHUNK r of
        (Inl e, r') \<Rightarrow> (Inl e, r', w, sp)
      | (Inr None, r') \<Rightarrow> (Inr (), r', w, sp)
      | (Inr (Some chunk), r') \<Rightarrow>
          (case writer_push chunk w sp of
             (Inl e, w', sp') \<Rightarrow> (Inl e, r', w', sp')
           | (Inr _, w', sp') \<Rightarrow> copy_body r' w' sp'))"
  by pat_completeness auto
termination
  by (relation "measure (\<lambda>(r, w, sp). weight r)") (auto dest!: read_body_chunk_weight [OF sym])

declare copy_body.simps [simp del]

definition extract_entry :: "tar_entry \<Rightarrow> tar_reader \<Rightarrow> spool \<Rightarrow> content_backing vfs_result \<times> tar_reader \<times> spool" where
  "extract_entry entry r sp =
     (case copy_body r writer_new sp of
        (Inl e, r', w, sp') \<Rightarrow> (Inl e, r', writer_drop w sp')
      | (Inr _, r', w, sp') \<Rightarrow>
          (case complete_consumed_body (te_size entry) r' of
             (Inl e, r'') \<Rightarrow> (Inl e, r'', writer_drop w sp')
           | (Inr _, r'') \<Rightarrow> (case writer_finish w sp' of (b, sp'') \<Rightarrow> (b, r'', sp''))))"

definition not_regular_error :: "tar_entry_kind \<Rightarrow> vfs_error" where
  "not_regular_error k =
     (if k = TarDirectory then IsDirectory
      else if k \<in> {TarCharacterDevice, TarBlockDevice, TarNamedPipe, TarOther} then SpecialFile
      else InvalidInput ''archive entry is not a regular file'')"

definition entry_matches :: "virtual_path \<Rightarrow> virtual_file_name \<Rightarrow> tar_entry \<Rightarrow> bool" where
  "entry_matches requested requested_name entry \<longleftrightarrow>
     te_path entry = from_virtual requested \<or>
     (tar_depth (te_path entry) = 1 \<and> tar_name (te_path entry) = Some (name_bytes requested_name))"

definition drop_result :: "content_backing option \<Rightarrow> spool \<Rightarrow> spool" where
  "drop_result result sp = (case result of None \<Rightarrow> sp | Some b \<Rightarrow> backing_drop b sp)"

lemma copy_body_weight: "copy_body r w sp = (Inr u, r', w', sp') \<Longrightarrow> weight r' \<le> weight r"
proof (induction r w sp rule: copy_body.induct)
  case (1 r w sp)
  obtain x q where body: "read_body_chunk BODY_CHUNK r = (x, q)" by fastforce
  show ?case
  proof (cases x)
    case (Inr c)
    note le = read_body_chunk_weight [OF body [unfolded Inr]]
    show ?thesis
    proof (cases c)
      case None
      then show ?thesis using "1.prems" body Inr le by (auto simp: copy_body.simps [of r])
    next
      case (Some chunk)
      then obtain v w1 sp1 where "writer_push chunk w sp = (Inr v, w1, sp1)" "copy_body q w1 sp1 = (Inr u, r', w', sp')"
        using "1.prems" body Inr by (auto simp: copy_body.simps [of r] split: prod.splits sum.splits)
      then show ?thesis using "1.IH" [OF body [symmetric] Inr Some] le by (metis order.trans)
    qed
  qed (use "1.prems" body in \<open>simp add: copy_body.simps [of r]\<close>)
qed

function extract_loop ::
    "(tar_entry \<Rightarrow> bool) \<Rightarrow> u64 \<Rightarrow> tar_reader \<Rightarrow> nat \<Rightarrow> content_backing option \<Rightarrow> spool \<Rightarrow> content_backing vfs_result \<times> spool"
where
  "extract_loop matches maximum r entries result sp =
     (case next_entry r of
        (Inl e, r') \<Rightarrow> (Inl e, drop_result result sp)
      | (Inr None, r') \<Rightarrow> (ok_or NotFound result, sp)
      | (Inr (Some entry), r') \<Rightarrow>
          if entries + 1 > unat maximum then (Inl (Unavailable ''tar entry limit exceeded''), drop_result result sp)
          else if \<not> matches entry then
            (case skip_entry_body r' of
               (Inl e, r'') \<Rightarrow> (Inl e, drop_result result sp)
             | (Inr _, r'') \<Rightarrow> extract_loop matches maximum r'' (entries + 1) result sp)
          else if result \<noteq> None then (Inl (Io ''ambiguous Docker file archive''), drop_result result sp)
          else if te_kind entry \<noteq> TarRegularFile then (Inl (not_regular_error (te_kind entry)), drop_result result sp)
          else
            (case extract_entry entry r' sp of
               (Inl e, r'', sp') \<Rightarrow> (Inl e, sp')
             | (Inr b, r'', sp') \<Rightarrow> extract_loop matches maximum r'' (entries + 1) (Some b) sp'))"
  by pat_completeness auto

lemma complete_consumed_body_weight: "complete_consumed_body n r = (res, r') \<Longrightarrow> weight r' \<le> weight r"
  by (auto simp: complete_consumed_body_def Let_def split: option.splits if_splits dest!: skip_exact_weight)

lemma extract_entry_weight: "extract_entry entry r sp = (Inr b, r', sp') \<Longrightarrow> weight r' \<le> weight r"
  by (auto simp: extract_entry_def split: prod.splits sum.splits
      dest!: copy_body_weight complete_consumed_body_weight)

termination extract_loop
  by (relation "measure (\<lambda>(matches, maximum, r, entries, result, sp). weight r)")
     (auto dest!: next_entry_weight [OF sym] skip_entry_body_weight [OF sym] extract_entry_weight [OF sym])

declare extract_loop.simps [simp del]

definition extract_regular_file ::
    "archive_byte_stream \<Rightarrow> virtual_path \<Rightarrow> tar_limits \<Rightarrow> spool \<Rightarrow> content_backing vfs_result \<times> spool" where
  "extract_regular_file s requested limits sp =
     (case file_name requested of
        None \<Rightarrow> (Inl IsDirectory, sp)
      | Some requested_name \<Rightarrow>
          extract_loop (entry_matches requested requested_name) (max_entries limits) (reader_new s limits) 0 None sp)"

section \<open>Operations\<close>

text \<open>One call of the source.\<close>

definition fetch ::
    "archive_source \<Rightarrow> archive_config \<Rightarrow> virtual_path \<Rightarrow> request_context \<Rightarrow> archive_state \<Rightarrow> archive_reply \<times> archive_state" where
  "fetch source cfg path ctx st =
     (source (as_calls st) (ac_object_id cfg) path ctx, st\<lparr>as_calls := as_calls st + 1\<rparr>)"

definition operation_index ::
    "archive_source \<Rightarrow> archive_config \<Rightarrow> virtual_path \<Rightarrow> request_context \<Rightarrow> archive_state \<Rightarrow> tar_index vfs_result \<times> archive_state" where
  "operation_index source cfg path ctx st =
     (case fetch source cfg path ctx st of
        (Late, st') \<Rightarrow> (Inl TimedOut, st')
      | (Reply (Inl e), st') \<Rightarrow> (Inl e, st')
      | (Reply (Inr s), st') \<Rightarrow> (from_stream s (ac_limits cfg), st'))"

definition operation_content ::
    "archive_source \<Rightarrow> archive_config \<Rightarrow> virtual_path \<Rightarrow> request_context \<Rightarrow> archive_state \<Rightarrow> content_backing vfs_result \<times> archive_state" where
  "operation_content source cfg path ctx st =
     (case fetch source cfg path ctx st of
        (Late, st') \<Rightarrow> (Inl TimedOut, st')
      | (Reply (Inl e), st') \<Rightarrow> (Inl e, st')
      | (Reply (Inr s), st') \<Rightarrow>
          (case extract_regular_file s path (ac_limits cfg) (as_spool st') of
             (r, sp) \<Rightarrow> (r, st'\<lparr>as_spool := sp\<rparr>)))"

definition archive_identity :: "archive_config \<Rightarrow> virtual_path \<Rightarrow> bytes" where
  "archive_identity cfg path = ac_object_id cfg @ 0 # path_as_bytes path"

definition archive_metadata_for ::
    "archive_config \<Rightarrow> tar_index \<Rightarrow> tar_entry \<Rightarrow> virtual_path \<Rightarrow> virtual_metadata vfs_result" where
  "archive_metadata_for cfg idx entry path = index_metadata idx (te_path entry) (archive_identity cfg path) 0"

text \<open>A number that is in use again after 2^64 opens replaces the content it named, which is dropped.\<close>

definition archive_insert_handle :: "virtual_path \<Rightarrow> content_backing \<Rightarrow> archive_state \<Rightarrow> provider_file_handle \<times> archive_state" where
  "archive_insert_handle path backing st =
     (let i = as_next_handle st
      in (\<lparr>pfh_id = i, pfh_path = path, content_generation = 0\<rparr>,
          st\<lparr>as_next_handle := i + 1, as_handles := hm_insert i backing (as_handles st),
             as_spool := drop_result (map_of (as_handles st) i) (as_spool st)\<rparr>))"

definition archive_descriptor :: "archive_config \<Rightarrow> provider_descriptor" where
  "archive_descriptor cfg =
     \<lparr>pd_kind = ac_kind cfg, pd_consistency = consistency_mode.OperationTimeRead, pd_source = ac_source_label cfg, pd_capabilities = READ_ONLY\<rparr>"

definition archive_getattr ::
    "archive_source \<Rightarrow> archive_config \<Rightarrow> virtual_path \<Rightarrow> request_context \<Rightarrow> archive_state \<Rightarrow> virtual_metadata vfs_result \<times> archive_state" where
  "archive_getattr source cfg path ctx st =
     (if is_root path then (Inr (metadata_directory (archive_identity cfg path)), st)
      else case operation_index source cfg path ctx st of
             (Inl e, st') \<Rightarrow> (Inl e, st')
           | (Inr idx, st') \<Rightarrow>
               (bindR (select_archive_root idx path) (\<lambda>entry. archive_metadata_for cfg idx entry path), st'))"

definition archive_lookup ::
    "archive_source \<Rightarrow> archive_config \<Rightarrow> virtual_path \<Rightarrow> virtual_file_name \<Rightarrow> request_context \<Rightarrow> archive_state \<Rightarrow>
       virtual_metadata vfs_result \<times> archive_state" where
  "archive_lookup source cfg parent name ctx st =
     (case path_join parent name of
        Inl e \<Rightarrow> (Inl e, st)
      | Inr path \<Rightarrow> archive_getattr source cfg path ctx st)"

definition archive_child ::
    "archive_config \<Rightarrow> tar_index \<Rightarrow> virtual_path \<Rightarrow> tar_entry \<Rightarrow> virtual_directory_entry vfs_result" where
  "archive_child cfg idx path child =
     bindR (ok_or NotFound (tar_name (te_path child))) (\<lambda>raw.
     bindR (virtual_file_name_new raw) (\<lambda>name.
     bindR (path_join path name) (\<lambda>child_path.
     bindR (archive_metadata_for cfg idx child child_path) (\<lambda>metadata.
     Inr \<lparr>de_name = name, de_metadata = metadata\<rparr>))))"

definition archive_read_dir ::
    "archive_source \<Rightarrow> archive_config \<Rightarrow> virtual_path \<Rightarrow> request_context \<Rightarrow> archive_state \<Rightarrow>
       virtual_directory_entry list vfs_result \<times> archive_state" where
  "archive_read_dir source cfg path ctx st =
     (case operation_index source cfg path ctx st of
        (Inl e, st') \<Rightarrow> (Inl e, st')
      | (Inr idx, st') \<Rightarrow>
          (bindR (select_archive_root idx path) (\<lambda>archive_root.
           if te_kind archive_root \<noteq> TarDirectory then Inl NotDirectory
           else
             bindR (collect_results (map (archive_child cfg idx path) (index_children idx (te_path archive_root))))
               (\<lambda>entries. Inr (sort_key de_name entries))), st'))"

definition archive_read_link ::
    "archive_source \<Rightarrow> archive_config \<Rightarrow> virtual_path \<Rightarrow> request_context \<Rightarrow> archive_state \<Rightarrow> virtual_path_bytes vfs_result \<times> archive_state" where
  "archive_read_link source cfg path ctx st =
     (case operation_index source cfg path ctx st of
        (Inl e, st') \<Rightarrow> (Inl e, st')
      | (Inr idx, st') \<Rightarrow>
          (bindR (select_archive_root idx path) (\<lambda>entry.
           if te_kind entry \<noteq> TarSymlink then Inl (InvalidInput ''node is not a symlink'')
           else virtual_path_bytes_new (case link_target entry of None \<Rightarrow> [] | Some t \<Rightarrow> t)), st'))"

definition archive_open ::
    "(32 word \<Rightarrow> open_acc_mode) \<Rightarrow> archive_source \<Rightarrow> archive_config \<Rightarrow> virtual_path \<Rightarrow> 32 word \<Rightarrow> request_context \<Rightarrow> archive_state \<Rightarrow>
       provider_file_handle vfs_result \<times> archive_state" where
  "archive_open acc_mode source cfg path flags ctx st =
     (if \<not> is_read_only_open acc_mode flags then (Inl ReadOnly, st)
      else case operation_content source cfg path ctx st of
             (Inl e, st') \<Rightarrow> (Inl e, st')
           | (Inr backing, st') \<Rightarrow> (case archive_insert_handle path backing st' of (h, st'') \<Rightarrow> (Inr h, st'')))"

definition archive_read_at ::
    "file_reads \<Rightarrow> provider_file_handle \<Rightarrow> u64 \<Rightarrow> u32 \<Rightarrow> request_context \<Rightarrow> archive_state \<Rightarrow> bytes vfs_result \<times> archive_state" where
  "archive_read_at file_reads handle offset sz ctx st =
     (bindR (ok_or BadHandle (map_of (as_handles st) (pfh_id handle))) (\<lambda>backing. backing_read_at file_reads backing offset sz), st)"

definition archive_close :: "provider_file_handle \<Rightarrow> archive_state \<Rightarrow> unit vfs_result \<times> archive_state" where
  "archive_close handle st =
     (case map_of (as_handles st) (pfh_id handle) of
        None \<Rightarrow> (Inl BadHandle, st)
      | Some backing \<Rightarrow>
          (Inr (), st\<lparr>as_handles := hm_remove (pfh_id handle) (as_handles st), as_spool := backing_drop backing (as_spool st)\<rparr>))"

definition archive_refresh :: "virtual_path option \<Rightarrow> archive_state \<Rightarrow> unit vfs_result \<times> archive_state" where
  "archive_refresh path st = (Inr (), st)"

definition archive_provider ::
    "(32 word \<Rightarrow> open_acc_mode) \<Rightarrow> archive_source \<Rightarrow> file_reads \<Rightarrow> archive_config \<Rightarrow> archive_state provider" where
  "archive_provider acc_mode source file_reads cfg =
     \<lparr>prov_descriptor = (\<lambda>_. archive_descriptor cfg), prov_lookup = archive_lookup source cfg,
      prov_getattr = archive_getattr source cfg, prov_read_dir = archive_read_dir source cfg,
      prov_read_link = archive_read_link source cfg, prov_open = archive_open acc_mode source cfg,
      prov_read_at = archive_read_at file_reads, prov_close = archive_close, prov_refresh = archive_refresh\<rparr>"

section \<open>What an extraction leaves\<close>

definition kept_backing :: "content_backing \<Rightarrow> bool" where
  "kept_backing b \<longleftrightarrow> backing_exact b \<and> backing_lease b = backing_len b"

lemma read_body_chunk_length:
  assumes "read_body_chunk BODY_CHUNK r = (Inr (Some chunk), r')"
  shows "length chunk < 2 ^ 64"
  by (rule read_body_chunk_Some [OF assms]) (auto simp: BODY_CHUNK_def)

lemma copy_body_accounts:
  assumes "copy_body r w sp = (res, r', w', sp')" "outstanding (n + unat (wr_reserved w)) sp" "writer_exact w"
  shows "outstanding (n + unat (wr_reserved w')) sp' \<and> \<not> wr_finished w' \<and> (res = Inr () \<longrightarrow> writer_exact w')"
  using assms
proof (induction r w sp rule: copy_body.induct)
  case (1 r w sp)
  obtain x q where body: "read_body_chunk BODY_CHUNK r = (x, q)" by fastforce
  show ?case
  proof (cases "\<exists>chunk. x = Inr (Some chunk)")
    case False
    then show ?thesis
      using "1.prems" body by (auto simp: copy_body.simps [of r] writer_exact_def split: sum.splits option.splits)
  next
    case True
    then obtain chunk where x: "x = Inr (Some chunk)" by blast
    obtain y w1 sp1 where push: "writer_push chunk w sp = (y, w1, sp1)" by (metis prod_cases3)
    note step = writer_push_cases [OF push "1.prems"(2)]
    show ?thesis
    proof (cases y)
      case (Inl e)
      then show ?thesis using "1.prems" body x push step by (auto simp: copy_body.simps [of r] writer_exact_def)
    next
      case (Inr u)
      have "copy_body q w1 sp1 = (res, r', w', sp')"
        using "1.prems"(1) body x push Inr by (simp add: copy_body.simps [of r])
      moreover have "writer_exact w1"
        using writer_push_exact [of chunk w sp w1 sp1 n] push Inr "1.prems"(2,3) read_body_chunk_length body x by simp
      ultimately show ?thesis
        using "1.IH" [OF body [symmetric] x refl push [symmetric] Inr refl] step by simp
    qed
  qed
qed

lemma writer_new_exact: "writer_exact writer_new" "wr_reserved writer_new = 0" "writer_content writer_new = []"
  by (simp_all add: writer_exact_def writer_new_def writer_content_def)

lemma extract_entry_accounts:
  assumes "extract_entry entry r sp = (res, r', sp')" "outstanding n sp"
  shows "(\<exists>e. res = Inl e) \<and> outstanding n sp' \<or>
         (\<exists>b. res = Inr b \<and> kept_backing b \<and> outstanding (n + unat (backing_lease b)) sp')"
proof -
  obtain x q w sp1 where copy: "copy_body r writer_new sp = (x, q, w, sp1)" by (metis prod_cases4)
  have w: "outstanding (n + unat (wr_reserved w)) sp1" "\<not> wr_finished w" "x = Inr () \<longrightarrow> writer_exact w"
    using copy_body_accounts [OF copy, of n] assms(2) writer_new_exact by auto
  then have gone: "outstanding n (writer_drop w sp1)"
    by (simp add: writer_drop_def outstanding_release)
  show ?thesis
  proof (cases "\<exists>q'. x = Inr () \<and> complete_consumed_body (te_size entry) q = (Inr (), q')")
    case False
    then show ?thesis using assms(1) copy gone by (auto simp: extract_entry_def split: sum.splits prod.splits)
  next
    case True
    then obtain b where "writer_finish w sp1 = (res, sp')" using assms(1) copy by (auto simp: extract_entry_def split: prod.splits)
    then show ?thesis
      using writer_finish_cases [of w sp1 res sp' n] writer_finish_exact [of w sp1 _ sp' n] w True
      by (cases res) (auto simp: kept_backing_def)
  qed
qed

definition result_lease :: "content_backing option \<Rightarrow> nat" where
  "result_lease result = (case result of None \<Rightarrow> 0 | Some b \<Rightarrow> unat (backing_lease b))"

lemma outstanding_drop_result:
  "outstanding (n + result_lease result) sp \<Longrightarrow> outstanding n (drop_result result sp)"
  by (auto simp: drop_result_def result_lease_def backing_drop_def outstanding_release split: option.splits)

lemma extract_loop_accounts:
  assumes "extract_loop matches maximum r entries result sp = (res, sp')"
    and "outstanding (n + result_lease result) sp" "\<forall>b. result = Some b \<longrightarrow> kept_backing b"
  shows "(\<exists>e. res = Inl e) \<and> outstanding n sp' \<or>
         (\<exists>b. res = Inr b \<and> kept_backing b \<and> outstanding (n + unat (backing_lease b)) sp')"
  using assms
proof (induction matches maximum r entries result sp rule: extract_loop.induct)
  case (1 matches maximum r entries result sp)
  note gone = outstanding_drop_result [OF "1.prems"(2)]
  obtain x q where nxt: "next_entry r = (x, q)" by fastforce
  show ?case
  proof (cases "\<exists>entry. x = Inr (Some entry) \<and> entries + 1 \<le> unat maximum")
    case False
    then show ?thesis
      using "1.prems" nxt gone
      by (auto simp: extract_loop.simps [of _ _ r] ok_or_def result_lease_def split: sum.splits option.splits)
  next
    case True
    then obtain entry where x: "x = Inr (Some entry)" "\<not> entries + 1 > unat maximum" by auto
    obtain a q2 where skip: "skip_entry_body q = (a, q2)" by fastforce
    obtain y q3 sp1 where ext: "extract_entry entry q sp = (y, q3, sp1)" by (metis prod_cases3)
    consider (skipped) q' where "\<not> matches entry" "skip_entry_body q = (Inr (), q')"
      | (failed) "\<exists>e. extract_loop matches maximum r entries result sp = (Inl e, drop_result result sp)"
      | (extracted) y q' sp1 where "matches entry" "result = None" "te_kind entry = TarRegularFile"
          "extract_entry entry q sp = (y, q', sp1)"
      using nxt x skip ext
      by (cases "matches entry"; cases a; cases "result = None \<and> te_kind entry = TarRegularFile")
         (auto simp: extract_loop.simps [of _ _ r])
    then show ?thesis
    proof cases
      case skipped
      then show ?thesis using "1.IH"(1) [OF nxt [symmetric] x(1) refl x(2) skipped(1) skipped(2) [symmetric] refl] "1.prems" nxt x
        by (simp add: extract_loop.simps [of _ _ r])
    next
      case failed
      then show ?thesis using "1.prems"(1) gone by auto
    next
      case extracted
      note ends = extract_entry_accounts [OF extracted(4), of n]
      show ?thesis
      proof (cases y)
        case (Inl e)
        then show ?thesis using "1.prems" nxt x extracted ends by (auto simp: extract_loop.simps [of _ _ r] result_lease_def)
      next
        case (Inr b)
        then have "extract_loop matches maximum q' (entries + 1) (Some b) sp1 = (res, sp')"
          using "1.prems" nxt x extracted by (simp add: extract_loop.simps [of _ _ r])
        then show ?thesis
          using "1.IH"(2) [OF nxt [symmetric] x(1) refl x(2) _ _ _ extracted(4) [symmetric] Inr refl] extracted ends Inr "1.prems"(2)
          by (auto simp: result_lease_def)
      qed
    qed
  qed
qed

section \<open>The contract\<close>

text \<open>
  The invariant of the provider, \<open>n\<close> being what other users of the store hold: its handles have distinct numbers, each
  content is complete, and what is reserved is what they hold.
\<close>

definition handles_lease :: "(u64 \<times> content_backing) list \<Rightarrow> nat" where
  "handles_lease hs = sum_list (map ((\<lambda>b. unat (backing_lease b)) \<circ> snd) hs)"

definition archive_inv :: "nat \<Rightarrow> archive_state \<Rightarrow> bool" where
  "archive_inv n st \<longleftrightarrow>
     distinct (map fst (as_handles st)) \<and> (\<forall>(_, b) \<in> set (as_handles st). kept_backing b) \<and>
     outstanding (n + handles_lease (as_handles st)) (as_spool st)"

lemma handles_lease_remove:
  assumes "distinct (map fst hs)"
  shows "handles_lease hs = handles_lease (hm_remove i hs) + result_lease (map_of hs i)"
proof (cases "map_of hs i")
  case None
  then have "i \<notin> fst ` set hs" by (simp add: map_of_eq_None_iff)
  with None show ?thesis by (simp add: hm_remove_fresh result_lease_def)
next
  case (Some b)
  then show ?thesis
    using sum_list_hm_remove [OF assms Some, of "\<lambda>b. unat (backing_lease b)"]
    by (simp add: handles_lease_def result_lease_def)
qed

lemma operation_index_state: "operation_index source cfg p c st = (r, st') \<Longrightarrow> archive_inv n st' \<longleftrightarrow> archive_inv n st"
  by (auto simp: operation_index_def fetch_def archive_inv_def split: archive_reply.splits sum.splits)

lemma operation_content_inv:
  assumes "operation_content source cfg p c st = (r, st')" "archive_inv n st"
  shows "(\<exists>e. r = Inl e) \<and> archive_inv n st' \<or>
         (\<exists>b. r = Inr b \<and> kept_backing b \<and> archive_inv (n + unat (backing_lease b)) st')"
proof (cases "\<exists>s sp. source (as_calls st) (ac_object_id cfg) p c = Reply (Inr s)")
  case False
  then show ?thesis
    using assms by (auto simp: operation_content_def fetch_def archive_inv_def split: archive_reply.splits sum.splits)
next
  case True
  then obtain s where s: "source (as_calls st) (ac_object_id cfg) p c = Reply (Inr s)" by blast
  obtain sp where ext: "extract_regular_file s p (ac_limits cfg) (as_spool st) = (r, sp)"
      and st': "st' = st\<lparr>as_calls := as_calls st + 1, as_spool := sp\<rparr>"
    using assms(1) s by (auto simp: operation_content_def fetch_def split: prod.splits)
  show ?thesis
  proof (cases "file_name p")
    case None
    then show ?thesis using ext st' assms(2) by (auto simp: extract_regular_file_def archive_inv_def)
  next
    case (Some name)
    then show ?thesis
      using extract_loop_accounts [of _ _ _ _ None "as_spool st" r sp "n + handles_lease (as_handles st)"] ext st' assms(2)
      by (auto simp: extract_regular_file_def archive_inv_def result_lease_def ac_simps)
  qed
qed

lemma archive_insert_handle_inv:
  assumes "archive_insert_handle p b st = (h, st')" "archive_inv (n + unat (backing_lease b)) st" "kept_backing b"
  shows "archive_inv n st' \<and> map_of (as_handles st') (pfh_id h) = Some b"
proof -
  let ?i = "as_next_handle st"
  have d: "distinct (map fst (as_handles st))" using assms(2) by (simp add: archive_inv_def)
  have "outstanding (n + unat (backing_lease b) + handles_lease (hm_remove ?i (as_handles st)) + result_lease (map_of (as_handles st) ?i))
      (as_spool st)"
    using assms(2) handles_lease_remove [OF d, of ?i] by (simp add: archive_inv_def ac_simps)
  then have "outstanding (n + unat (backing_lease b) + handles_lease (hm_remove ?i (as_handles st)))
      (drop_result (map_of (as_handles st) ?i) (as_spool st))"
    by (rule outstanding_drop_result)
  then show ?thesis
    using assms d distinct_hm_insert [OF d, of ?i b]
    by (auto simp: archive_insert_handle_def archive_inv_def Let_def handles_lease_def hm_insert_def ac_simps)
qed

lemma archive_open_inv:
  assumes "archive_open acc_mode source cfg p flags c st = (r, st')" "archive_inv n st"
  shows "archive_inv n st' \<and> (\<forall>h. r = Inr h \<longrightarrow> is_read_only_open acc_mode flags)"
proof (cases "is_read_only_open acc_mode flags")
  case True
  obtain x st1 where content: "operation_content source cfg p c st = (x, st1)" by fastforce
  show ?thesis
    using operation_content_inv [OF content assms(2)] assms(1) True content archive_insert_handle_inv
    by (auto simp: archive_open_def split: prod.splits sum.splits)
qed (use assms in \<open>auto simp: archive_open_def\<close>)

lemma archive_close_inv:
  assumes "archive_inv n st"
  shows "archive_inv n (snd (archive_close h st))"
proof (cases "map_of (as_handles st) (pfh_id h)")
  case (Some b)
  have d: "distinct (map fst (as_handles st))" using assms by (simp add: archive_inv_def)
  have "outstanding (n + handles_lease (hm_remove (pfh_id h) (as_handles st)) + unat (backing_lease b)) (as_spool st)"
    using assms handles_lease_remove [OF d, of "pfh_id h"] Some by (simp add: archive_inv_def result_lease_def ac_simps)
  then show ?thesis
    using assms distinct_hm_remove [OF d, of "pfh_id h"] Some
    by (auto simp: archive_close_def archive_inv_def backing_drop_def outstanding_release)
qed (use assms in \<open>simp add: archive_close_def\<close>)

lemma operation_index_wf: "operation_index source cfg p c st = (Inr idx, st') \<Longrightarrow> index_wf (ac_limits cfg) idx"
  by (auto simp: operation_index_def fetch_def split: archive_reply.splits sum.splits dest: from_stream_wf)

lemma archive_listing:
  assumes "archive_read_dir source cfg p c st = (Inr es, st')"
  shows "sorted_wrt (<) (map de_name es) \<and> (\<forall>e \<in> set es. valid_name (de_name e))"
proof -
  obtain idx xs and root :: tar_entry where idx: "operation_index source cfg p c st = (Inr idx, st')"
      and xs: "collect_results (map (archive_child cfg idx p) (index_children idx (te_path root))) = Inr xs"
      and es: "es = sort_key de_name xs"
    using assms by (auto simp: archive_read_dir_def split: prod.splits sum.splits if_splits)
  have "sorted_wrt (<) (map de_name xs) \<and> (\<forall>e \<in> set xs. valid_name (de_name e))"
    by (rule listing_of_children [OF _ _ xs]) (use index_wf_keys [OF operation_index_wf [OF idx]] in \<open>auto simp: archive_child_def\<close>)
  then show ?thesis using es sort_key_strict [of de_name xs] strict_sorted_iff by auto
qed

lemma virtual_path_bytes_valid: "virtual_path_bytes_new bs = Inr t \<Longrightarrow> valid_target t"
  by (auto simp: virtual_path_bytes_new_def valid_target_def split: if_splits)

lemmas archive_op_defs = archive_lookup_def archive_getattr_def archive_read_dir_def archive_read_link_def archive_read_at_def
  archive_refresh_def

interpretation arch: readonly_provider acc_mode "archive_provider acc_mode source file_reads cfg" "archive_inv n"
  for source file_reads cfg n
proof (unfold_locales, goal_cases)
  case (2 w p flags c h w')
  then show ?case using archive_open_inv by (fastforce simp: archive_provider_def)
next
  case (3 w h off sz c bs w')
  then show ?case using backing_read_bounded by (auto simp: archive_provider_def archive_read_at_def)
next
  case (4 w p c es w')
  then show ?case using archive_listing by (simp add: archive_provider_def)
next
  case (8 w p flags c)
  then show ?case using archive_open_inv by (metis archive_provider_def prod.collapse provider.select_convs(6))
next
  case (10 w h)
  then show ?case using archive_close_inv by (simp add: archive_provider_def)
next
  case (12 w p c t w')
  then show ?case
    using virtual_path_bytes_valid
    by (auto simp: archive_provider_def archive_read_link_def split: prod.splits sum.splits if_splits)
qed (auto simp: archive_provider_def archive_op_defs operation_index_state split: sum.splits prod.splits if_splits)

section \<open>Files read back\<close>

text \<open>A store whose file operations succeed and that has room for \<open>k\<close> more bytes.\<close>

definition has_room :: "nat \<Rightarrow> nat \<Rightarrow> spool \<Rightarrow> bool" where
  "has_room n k sp \<longleftrightarrow> outstanding n sp \<and> n + k \<le> unat (max_total_bytes (sp_limits sp)) \<and> io_outcomes sp = []"

lemma io_step_quiet: "io_outcomes sp = [] \<Longrightarrow> io_step sp = (Inr (), sp)"
  by (simp add: io_step_def)

lemma writer_push_room:
  assumes "has_room (n + unat (wr_reserved w)) k sp" "length chunk \<le> k" "length chunk < 2 ^ 64"
    and "unat (wr_reserved w) + length chunk \<le> unat (max_single_bytes (sp_limits sp))"
  obtains w' sp' where "writer_push chunk w sp = (Inr (), w', sp')" "io_outcomes sp' = []"
proof -
  let ?c = "word_of_nat (length chunk) :: u64"
  have c: "unat ?c = length chunk" using assms(3) by (simp add: unsigned_of_nat take_bit_nat_eq_self)
  have "unat (wr_reserved w) + unat ?c < 2 ^ 64"
    using assms(4) c unsigned_less [of "max_single_bytes (sp_limits sp)", where ?'a = nat] by simp
  then have a: "checked_add (wr_reserved w) ?c = Some (wr_reserved w + ?c)"
      "unat (wr_reserved w + ?c) = unat (wr_reserved w) + length chunk"
    using c by (auto simp: checked_add_Some unat_word_ariths)
  have "unat (reserved_bytes sp) + unat ?c \<le> unat (max_total_bytes (sp_limits sp))"
    using assms(1,2) c by (simp add: has_room_def outstanding_def)
  then have b: "checked_add (reserved_bytes sp) ?c = Some (reserved_bytes sp + ?c)"
      "reserved_bytes sp + ?c \<le> max_total_bytes (sp_limits sp)"
    using unsigned_less [of "max_total_bytes (sp_limits sp)", where ?'a = nat]
    by (auto simp: checked_add_Some unat_word_ariths word_le_nat_alt)
  have "\<not> wr_reserved w + ?c > max_single_bytes (sp_limits sp)"
    using assms(4) a(2) by (simp add: word_less_nat_alt)
  then have "fst (writer_push chunk w sp) = Inr () \<and> io_outcomes (snd (snd (writer_push chunk w sp))) = []"
    using a(1) b assms(1)
    by (auto simp: writer_push_def reserve_def Let_def has_room_def spill_def append_file_def io_step_quiet
        split: option.splits)
  then show ?thesis using that by (metis prod.collapse)
qed

lemma writer_finish_room:
  assumes "has_room n k sp"
  obtains b sp' where "writer_finish w sp = (Inr b, sp')" "sp' = sp"
  using assms that by (cases "wr_temporary w") (auto simp: writer_finish_def has_room_def io_step_quiet)

abbreviation in_body :: "bytes \<Rightarrow> tar_reader \<Rightarrow> tar_reader" where
  "in_body body r \<equiv> r\<lparr>current_size := Some (word_of_nat (length body))\<rparr>"

lemma read_body_written:
  assumes "fresh_reader l r" "pending r = body @ rest" "body \<noteq> []" "length body < 2 ^ 64"
  obtains k r' where "0 < k" "k \<le> length body"
    "read_body_chunk BODY_CHUNK (in_body body r) = (Inr (Some (take k body)), in_body (drop k body) r')"
    "fresh_reader l r'" "pending r' = drop k body @ rest"
proof -
  let ?n = "word_of_nat (length body) :: u64"
  have n: "unat ?n = length body" using assms(4) by (simp add: unsigned_of_nat take_bit_nat_eq_self)
  have clean: "clean (in_body body r)" using assms(1) by (auto simp: fresh_reader_def clean_def)
  obtain x q where fill: "fill (in_body body r) = (x, q)" by fastforce
  note q = fill_clean [OF clean fill]
  have pend: "pending q = body @ rest" using q(3) assms(2) by (simp add: pending_def)
  define k where "k = min (min (max BODY_CHUNK 1) (length (rd_buffer q))) (unat ?n)"
  define r' where "r' = q\<lparr>rd_buffer := drop k (rd_buffer q), current_size := None\<rparr>"
  have nonempty: "rd_buffer q \<noteq> []" using q(3,5) pend assms(3) by auto
  then have k: "0 < k" "k \<le> length body" "k \<le> length (rd_buffer q)" using n assms(3) by (auto simp: k_def)
  have "take k (rd_buffer q) = take k body" using take_buffer [OF k(3)] pend k(2) by simp
  moreover have "?n - word_of_nat k = word_of_nat (length (drop k body))" using k(2) by (simp add: of_nat_diff)
  moreover have "?n \<noteq> 0" using n assms(3) by auto
  ultimately have read: "read_body_chunk BODY_CHUNK (in_body body r) = (Inr (Some (take k body)), in_body (drop k body) r')"
    using fill q(1) nonempty unfolding read_body_chunk_def Let_def
    by (simp add: r'_def One_nat_def [symmetric] k_def [symmetric] del: One_nat_def)
  have "core q = core (in_body body r)" by (rule q(4))
  from core_fields [OF this] have "fresh_reader l r'"
    using assms(1) q(2) by (simp add: fresh_reader_def r'_def clean_def)
  moreover have "pending r' = drop k body @ rest"
  proof -
    have "pending r' = drop k (pending q)" using k(3) by (simp add: r'_def pending_def)
    then show ?thesis using pend k(2) by simp
  qed
  ultimately show ?thesis using that k(1,2) read by blast
qed

lemma copy_body_written:
  assumes "fresh_reader l r" "pending r = body @ rest" "length body < 2 ^ 64" "writer_exact w"
    and "has_room (n + unat (wr_reserved w)) (length body) sp"
    and "unat (wr_reserved w) + length body \<le> unat (max_single_bytes (sp_limits sp))"
  shows "\<exists>r' w' sp'. copy_body (in_body body r) w sp = (Inr (), in_body [] r', w', sp') \<and> fresh_reader l r' \<and> pending r' = rest \<and>
           writer_exact w' \<and> writer_content w' = writer_content w @ body \<and> has_room (n + unat (wr_reserved w')) 0 sp' \<and>
           sp_limits sp' = sp_limits sp"
  using assms
proof (induction "length body" arbitrary: body r w sp rule: less_induct)
  case less
  show ?case
  proof (cases "body = []")
    case True
    then have "copy_body (in_body body r) w sp = (Inr (), in_body [] r, w, sp)"
      by (subst copy_body.simps) (simp add: read_body_chunk_def)
    then show ?thesis using less.prems True by auto
  next
    case False
    from read_body_written [OF less.prems(1,2) False less.prems(3)] obtain k r1 where k: "0 < k" "k \<le> length body"
      and read: "read_body_chunk BODY_CHUNK (in_body body r) = (Inr (Some (take k body)), in_body (drop k body) r1)"
      and r1: "fresh_reader l r1" "pending r1 = drop k body @ rest" by blast
    from writer_push_room [OF less.prems(5), of "take k body"] obtain w1 sp1
      where push: "writer_push (take k body) w sp = (Inr (), w1, sp1)" "io_outcomes sp1 = []"
      using k less.prems(3,6) by auto
    have out: "outstanding (n + unat (wr_reserved w)) sp" using less.prems(5) by (simp add: has_room_def)
    have w1: "writer_exact w1" "writer_content w1 = writer_content w @ take k body"
      using writer_push_exact [OF push(1) out less.prems(4)] k less.prems(3) by auto
    have sp1: "sp_limits sp1 = sp_limits sp" "outstanding (n + unat (wr_reserved w1)) sp1"
      using writer_push_cases [OF push(1) out] by blast+
    have res: "unat (wr_reserved w1) = unat (wr_reserved w) + k"
      using w1 less.prems(4) k by (simp add: writer_exact_def)
    have room: "has_room (n + unat (wr_reserved w1)) (length (drop k body)) sp1"
      using less.prems(5) sp1 push(2) res k by (simp add: has_room_def)
    have "copy_body (in_body body r) w sp = copy_body (in_body (drop k body) r1) w1 sp1"
      using read push(1) by (simp add: copy_body.simps [of "in_body body r"])
    moreover have "length (drop k body) < length body" using k by simp
    ultimately show ?thesis
      using less.hyps [OF _ r1 _ w1(1) room] less.prems(3,6) sp1 res w1(2) k by simp
  qed
qed

lemma skip_written_entries:
  assumes "\<forall>e \<in> set es. plain_ok l e \<and> \<not> matches (entry_of l e)" "fresh_reader l r"
    and "pending r = write_archive (es @ fs)" "k + length es \<le> unat maximum"
  shows "\<exists>r'. extract_loop matches maximum r k result sp = extract_loop matches maximum r' (k + length es) result sp \<and>
           fresh_reader l r' \<and> pending r' = write_archive fs"
  using assms
proof (induction es arbitrary: r k)
  case Nil
  then show ?case by auto
next
  case (Cons e es)
  let ?rest = "write_archive (es @ fs)"
  let ?body = "pe_body e @ replicate (unat (padding 0 (word_of_nat (length (pe_body e))))) 0 @ ?rest"
  have ok: "plain_ok l e" "\<not> matches (entry_of l e)" using Cons.prems(1) by auto
  have "pending r = write_header e @ ?body" using Cons.prems(3) by (simp add: write_archive_def write_entry_def)
  from next_entry_written [OF ok(1) Cons.prems(2) this] obtain r1 where r1:
    "next_entry r = (Inr (Some (entry_of l e)), in_body (pe_body e) r1)" "fresh_reader l r1" "pending r1 = ?body" by blast
  from skip_written_body [OF ok(1) r1(2,3)] obtain r2 where r2:
    "skip_entry_body (in_body (pe_body e) r1) = (Inr (), r2)" "fresh_reader l r2" "pending r2 = ?rest" by blast
  have "extract_loop matches maximum r k result sp = extract_loop matches maximum r2 (k + 1) result sp"
    using r1(1) r2(1) ok(2) Cons.prems(4) by (subst extract_loop.simps) simp
  then show ?case using Cons.IH [OF _ r2(2,3), of "k + 1"] Cons.prems(1,4) by simp
qed

lemma extract_written_entry:
  assumes "plain_ok l e" "fresh_reader l r" "has_room n (length (pe_body e)) sp"
    and "pending r = pe_body e @ replicate (unat (padding 0 (word_of_nat (length (pe_body e))))) 0 @ rest"
    and "length (pe_body e) \<le> unat (max_single_bytes (sp_limits sp))"
  shows "\<exists>b r' sp'. extract_entry (entry_of l e) (in_body (pe_body e) r) sp = (Inr b, r', sp') \<and> fresh_reader l r' \<and>
           pending r' = rest \<and> kept_backing b \<and> backing_content b = pe_body e"
proof -
  let ?n = "word_of_nat (length (pe_body e)) :: u64"
  have len: "length (pe_body e) < 2 ^ 64" using assms(1) by (simp add: plain_ok_def)
  obtain r1 w sp1 where copy: "copy_body (in_body (pe_body e) r) writer_new sp = (Inr (), in_body [] r1, w, sp1)"
    and r1: "fresh_reader l r1" "pending r1 = replicate (unat (padding 0 ?n)) 0 @ rest"
    and w: "writer_exact w" "writer_content w = pe_body e" "has_room (n + unat (wr_reserved w)) 0 sp1"
    using copy_body_written [OF assms(2,4) len writer_new_exact(1), of n sp] assms(3,5) writer_new_exact by auto
  have clean: "clean r1" using r1(1) by (simp add: fresh_reader_def)
  obtain y r2 where skip: "skip_exact (padding ?n ?n) r1 = (y, r2)" by fastforce
  have r2: "y = Inr ()" "clean r2" "core r2 = core r1" "pending r2 = rest"
    using skip_exact_clean [OF clean skip] r1(2) by (auto simp: padding_def split: if_splits)
  have "r1\<lparr>current_size := None\<rparr> = r1" using r1(1) by (simp add: fresh_reader_def)
  then have "complete_consumed_body ?n (in_body [] r1) = (Inr (), r2)"
    using skip r2(1) by (simp add: complete_consumed_body_def)
  moreover obtain b where fin: "writer_finish w sp1 = (Inr b, sp1)" using writer_finish_room [OF w(3), of w] by metis
  ultimately have "extract_entry (entry_of l e) (in_body (pe_body e) r) sp = (Inr b, r2, sp1)"
    using copy by (simp add: extract_entry_def entry_of_def)
  moreover have "kept_backing b \<and> backing_content b = pe_body e"
    using writer_finish_exact [OF fin _ w(1), of n] w(2,3) by (simp add: kept_backing_def has_room_def)
  ultimately show ?thesis using fresh_reader_core [OF r1(1) r2(2,3)] r2(4) by blast
qed

text \<open>The stream that delivers an archive written from \<open>es\<close>, in chunks of any sizes.\<close>

definition delivers :: "tar_limits \<Rightarrow> archive_byte_stream \<Rightarrow> plain_entry list \<Rightarrow> bool" where
  "delivers l s es \<longleftrightarrow>
     (\<forall>e \<in> set es. plain_ok l e) \<and> \<not> has_error s \<and> stream_content s = write_archive es \<and>
     length (write_archive es) \<le> unat (max_archive_bytes l) \<and> length es \<le> unat (max_entries l)"

lemma delivers_reader:
  "delivers l s es \<Longrightarrow> fresh_reader l (reader_new s l) \<and> pending (reader_new s l) = write_archive es"
  using length_stream_content [of s]
  by (auto simp: delivers_def fresh_reader_def clean_def pending_def reader_new_def has_error_def)

lemma extract_written_file:
  assumes "delivers l s (es @ e # fs)" "file_name p = Some name" "te_kind (entry_of l e) = TarRegularFile"
    and "entry_matches p name (entry_of l e)" "\<forall>f \<in> set es \<union> set fs. \<not> entry_matches p name (entry_of l f)"
    and "has_room n (length (pe_body e)) sp" "length (pe_body e) \<le> unat (max_single_bytes (sp_limits sp))"
  shows "\<exists>b sp'. extract_regular_file s p l sp = (Inr b, sp') \<and> kept_backing b \<and> backing_content b = pe_body e"
proof -
  let ?m = "entry_matches p name"
  have ok: "\<forall>f \<in> set es. plain_ok l f \<and> \<not> ?m (entry_of l f)" "\<forall>f \<in> set fs. plain_ok l f \<and> \<not> ?m (entry_of l f)" "plain_ok l e"
      and count: "length es + (1 + length fs) \<le> unat (max_entries l)"
    using assms(1,5) by (auto simp: delivers_def)
  obtain r where r: "extract_loop ?m (max_entries l) (reader_new s l) 0 None sp = extract_loop ?m (max_entries l) r (length es) None sp"
      "fresh_reader l r" "pending r = write_archive (e # fs)"
    using skip_written_entries [OF ok(1), of "reader_new s l" "e # fs" 0 "max_entries l" None sp] delivers_reader [OF assms(1)] count by auto
  have "pending r = write_header e @ pe_body e @ replicate (unat (padding 0 (word_of_nat (length (pe_body e))))) 0 @ write_archive fs"
    using r(3) by (simp add: write_archive_def write_entry_def)
  from next_entry_written [OF ok(3) r(2) this] obtain r1 where r1:
    "next_entry r = (Inr (Some (entry_of l e)), in_body (pe_body e) r1)" "fresh_reader l r1"
    "pending r1 = pe_body e @ replicate (unat (padding 0 (word_of_nat (length (pe_body e))))) 0 @ write_archive fs" by blast
  from extract_written_entry [OF ok(3) r1(2) assms(6) r1(3) assms(7)] obtain b r2 sp1 where b:
    "extract_entry (entry_of l e) (in_body (pe_body e) r1) sp = (Inr b, r2, sp1)" "fresh_reader l r2"
    "pending r2 = write_archive fs" "kept_backing b" "backing_content b = pe_body e" by blast
  have "extract_loop ?m (max_entries l) r (length es) None sp = extract_loop ?m (max_entries l) r2 (length es + 1) (Some b) sp1"
    using r1(1) b(1) assms(3,4) count by (subst extract_loop.simps) simp
  moreover obtain r3 where r3: "extract_loop ?m (max_entries l) r2 (length es + 1) (Some b) sp1 =
      extract_loop ?m (max_entries l) r3 (length es + 1 + length fs) (Some b) sp1" "fresh_reader l r3" "pending r3 = write_archive []"
    using skip_written_entries [OF ok(2) b(2), of "[]" "length es + 1" "max_entries l" "Some b" sp1] b(3) count by auto
  moreover have "extract_loop ?m (max_entries l) r3 (length es + 1 + length fs) (Some b) sp1 = (Inr b, sp1)"
  proof -
    obtain r4 where "next_entry r3 = (Inr None, r4)"
      using next_entry_end [OF r3(2)] r3(3) by (auto simp: write_archive_def)
    then show ?thesis by (subst extract_loop.simps) simp
  qed
  ultimately show ?thesis using r(1) b(4,5) assms(2) by (simp add: extract_regular_file_def)
qed

text \<open>C31. Whatever a client asks of the archive provider, in any order, and whatever archives, errors and timeouts Docker
  answers with, what is reserved in the content store is exactly what other users of the store and the provider's open
  handles hold, within the store's total, the handles have distinct numbers and each holds its whole content.\<close>

theorem archive_accounting:
  assumes "archive_with_kind object_id sp l timeout k label = Inr (cfg, st0)" "outstanding n sp"
    and "prov_reaches (archive_provider acc_mode source file_reads cfg) st0 st"
  shows "unat (reserved_bytes (as_spool st)) = n + handles_lease (as_handles st) \<and>
         unat (reserved_bytes (as_spool st)) \<le> unat (max_total_bytes (sp_limits (as_spool st))) \<and>
         distinct (map fst (as_handles st)) \<and>
         (\<forall>(i, b) \<in> set (as_handles st). backing_lease b = backing_len b \<and> unat (backing_len b) = length (backing_content b))"
proof -
  have "archive_inv n st0"
    using assms(1,2) by (auto simp: archive_with_kind_def archive_inv_def handles_lease_def split: if_splits)
  then have "archive_inv n st" using arch.reaches_inv assms(3) by blast
  then show ?thesis by (auto simp: archive_inv_def outstanding_def kept_backing_def backing_exact_def)
qed

text \<open>C32. A file is read as it is in the container: when the archive that Docker delivers for a path has exactly one entry
  for it, a regular file, and the content store has room, opening the path read-only succeeds and every read of
  the handle returns the bytes of the file at the offset, up to the size asked for, however the archive was cut into
  chunks.\<close>

theorem archive_open_reads_file:
  assumes "archive_inv n st" "source (as_calls st) (ac_object_id cfg) p c = Reply (Inr s)"
    and "delivers (ac_limits cfg) s (es @ e # fs)" "file_name p = Some name"
    and "te_kind (entry_of (ac_limits cfg) e) = TarRegularFile" "entry_matches p name (entry_of (ac_limits cfg) e)"
    and "\<forall>f \<in> set es \<union> set fs. \<not> entry_matches p name (entry_of (ac_limits cfg) f)"
    and "has_room (n + handles_lease (as_handles st)) (length (pe_body e)) (as_spool st)"
    and "length (pe_body e) \<le> unat (max_single_bytes (sp_limits (as_spool st)))"
    and "is_read_only_open acc_mode flags" "reads_progress file_reads"
  shows "\<exists>h st'. archive_open acc_mode source cfg p flags c st = (Inr h, st') \<and> archive_inv n st' \<and>
           (\<forall>offset sz c'. archive_read_at file_reads h offset sz c' st' = (Inr (take (unat sz) (drop (unat offset) (pe_body e))), st'))"
proof -
  obtain b sp' where b: "extract_regular_file s p (ac_limits cfg) (as_spool st) = (Inr b, sp')" "kept_backing b"
      "backing_content b = pe_body e"
    using extract_written_file [OF assms(3-9)] by blast
  define st1 where "st1 = st\<lparr>as_calls := as_calls st + 1, as_spool := sp'\<rparr>"
  have content: "operation_content source cfg p c st = (Inr b, st1)"
    using assms(2) b(1) by (simp add: operation_content_def fetch_def st1_def)
  obtain h st' where ins: "archive_insert_handle p b st1 = (h, st')" by fastforce
  have "archive_inv (n + unat (backing_lease b)) st1" using operation_content_inv [OF content assms(1)] by auto
  from archive_insert_handle_inv [OF ins this b(2)]
  have inv: "archive_inv n st'" and h: "map_of (as_handles st') (pfh_id h) = Some b" by auto
  have "archive_open acc_mode source cfg p flags c st = (Inr h, st')"
    using assms(10) content ins by (simp add: archive_open_def)
  moreover have "archive_read_at file_reads h offset sz c' st' = (Inr (take (unat sz) (drop (unat offset) (pe_body e))), st')" for offset sz c'
    using h b(2,3) backing_read_exact [OF _ assms(11), of b] by (simp add: archive_read_at_def kept_backing_def bindR_def ok_or_def)
  ultimately show ?thesis using inv by blast
qed

definition demo_spool :: spool where
  "demo_spool = \<lparr>sp_limits = spool_limits_default, reserved_bytes = 0, io_outcomes = []\<rparr>"

definition demo_config :: archive_config where
  "demo_config =
     \<lparr>ac_object_id = [99, 49], ac_limits = limits_default, ac_kind = provider_kind.ContainerArchiveLive, ac_source_label = None\<rparr>"

definition demo_state :: archive_state where
  "demo_state = \<lparr>as_calls = 0, as_spool = demo_spool, as_next_handle = 1, as_handles = []\<rparr>"

definition demo_source :: archive_source where
  "demo_source n i p c = Reply (Inr [Inr (take 700 (write_archive [demo_plain])), Inr (drop 700 (write_archive [demo_plain]))])"

definition demo_file_path :: virtual_path where
  "demo_file_path = \<lparr>components = [VirtualFileName [97], VirtualFileName [98]], byte_len_field = 4\<rparr>"

definition demo_context :: request_context where
  "demo_context = \<lparr>rc_uid = 1, rc_gid = 1, rc_pid = 1, rc_request_id = 1\<rparr>"

lemma demo_spool_room: "k \<le> 1024 \<Longrightarrow> has_room 0 k demo_spool"
  by (simp add: has_room_def outstanding_def demo_spool_def spool_limits_default_def)

lemma demo_delivers:
  "delivers limits_default [Inr (take 700 (write_archive [demo_plain])), Inr (drop 700 (write_archive [demo_plain]))] ([] @ demo_plain # [])"
  using demo_plain_ok demo_archive_length by (simp add: delivers_def has_error_def) (simp add: limits_default_def)

lemma demo_config_made:
  "archive_with_kind [99, 49] demo_spool limits_default 5 provider_kind.ContainerArchiveLive None = Inr (demo_config, demo_state)"
  using demo_limits_valid
  by (simp add: archive_with_kind_def bindR_def validate_object_id_def trim_is_empty.simps utf8_first.simps is_white_space_def
      demo_config_def demo_state_def)

theorem archive_open_reads_file_witness:
  "\<exists>h st'. archive_open (\<lambda>_. O_RDONLY) demo_source demo_config demo_file_path 0 demo_context demo_state = (Inr h, st') \<and>
     archive_inv 0 st' \<and> archive_read_at (\<lambda>_ k. Inr k) h 1 5 demo_context st' = (Inr [2, 3], st')"
proof -
  let ?s = "[Inr (take 700 (write_archive [demo_plain])), Inr (drop 700 (write_archive [demo_plain]))] :: archive_byte_stream"
  have inv: "archive_inv 0 demo_state"
    using demo_spool_room [of 0] by (simp add: archive_inv_def demo_state_def handles_lease_def has_room_def)
  have limits: "ac_limits demo_config = limits_default" by (simp add: demo_config_def)
  have entry: "te_kind (entry_of (ac_limits demo_config) demo_plain) = TarRegularFile"
      "entry_matches demo_file_path (VirtualFileName [98]) (entry_of (ac_limits demo_config) demo_plain)"
    using demo_nodes(2)
    by (simp_all add: limits entry_matches_def from_virtual_def demo_file_path_def)
       (simp add: entry_of_def demo_plain_def kind_of_flag_def)
  have room: "has_room (0 + handles_lease (as_handles demo_state)) (length (pe_body demo_plain)) (as_spool demo_state)"
      "length (pe_body demo_plain) \<le> unat (max_single_bytes (sp_limits (as_spool demo_state)))"
    using demo_spool_room [of "length (pe_body demo_plain)"]
    by (simp_all add: demo_state_def handles_lease_def demo_plain_def)
       (simp add: demo_spool_def spool_limits_default_def)
  have flags: "is_read_only_open (\<lambda>_. O_RDONLY) 0" "reads_progress (\<lambda>_ k. Inr k)"
    by (simp_all add: is_read_only_open_bits reads_progress_def)
  have "\<exists>h st'. archive_open (\<lambda>_. O_RDONLY) demo_source demo_config demo_file_path 0 demo_context demo_state = (Inr h, st') \<and>
      archive_inv 0 st' \<and>
      (\<forall>offset sz c'. archive_read_at (\<lambda>_ k. Inr k) h offset sz c' st' = (Inr (take (unat sz) (drop (unat offset) (pe_body demo_plain))), st'))"
    by (rule archive_open_reads_file [OF inv _ demo_delivers [folded limits] _ entry _ room flags])
       (simp_all add: demo_source_def demo_file_path_def file_name_def)
  then show ?thesis by (force simp: demo_plain_def)
qed

theorem archive_accounting_witness:
  "unat (reserved_bytes (as_spool (snd (archive_open (\<lambda>_. O_RDONLY) demo_source demo_config demo_file_path 0 demo_context demo_state)))) =
     handles_lease (as_handles (snd (archive_open (\<lambda>_. O_RDONLY) demo_source demo_config demo_file_path 0 demo_context demo_state)))"
proof -
  let ?prov = "archive_provider (\<lambda>_. O_RDONLY) demo_source (\<lambda>_ k. Inr k) demo_config"
  have "prov_reaches ?prov demo_state (snd (prov_open ?prov demo_file_path 0 demo_context demo_state))"
    by (rule r_into_rtranclp, rule prov_step.step_open)
  then show ?thesis
    using archive_accounting [OF demo_config_made, of 0 "\<lambda>_. O_RDONLY" demo_source "\<lambda>_ k. Inr k"] demo_spool_room [of 0]
    by (simp add: archive_provider_def has_room_def)
qed

end
