(* ===== verification/Image_Provider.thy ===== *)
theory Image_Provider
  imports Archive_Provider
begin

unbundle bit_operations_syntax

text \<open>
  The provider of an image's files, \<^verbatim>\<open>docker-core/src/vfs_providers/image.rs\<close>: the index of the image's root file system, built
  once from the export of a container that is never started, kept in memory and in a checked cache file, and the files
  themselves through an archive provider. The JSON library is the parameter \<open>js\<close>, the exports of the image are the
  parameter \<open>exports\<close>, the outcomes of the file operations to come are part of the state as in the content store.
\<close>

section \<open>Identities and checksums\<close>

definition is_ascii_hexdigit :: "byte \<Rightarrow> bool" where
  "is_ascii_hexdigit b \<longleftrightarrow> (48 \<le> b \<and> b \<le> 57) \<or> (65 \<le> b \<and> b \<le> 70) \<or> (97 \<le> b \<and> b \<le> 102)"

definition validate_image_id :: "bytes \<Rightarrow> unit vfs_result" where
  "validate_image_id image_id =
     (let pre = ascii ''sha256:''; digest = drop (length pre) image_id
      in if prefix pre image_id \<and> length digest = 64 \<and> list_all is_ascii_hexdigit digest then Inr ()
         else Inl (InvalidInput ''image identity must be a full immutable sha256 image ID''))"

definition fnv1a64_index :: "bytes \<Rightarrow> u64" where
  "fnv1a64_index bs = fold (\<lambda>b h. (h XOR ucast b) * 0x100000001b3) bs 0xcbf29ce484222325"

section \<open>The persisted index\<close>

text \<open>\<^verbatim>\<open>entry_map_serde\<close>: the map is written as the list of its entries and read back by inserting them at their paths.\<close>

definition entry_map_serialize :: "tar_index \<Rightarrow> tar_entry list" where
  "entry_map_serialize idx = map snd idx"

fun entry_map_loop :: "tar_entry list \<Rightarrow> tar_index \<Rightarrow> string + tar_index" where
  "entry_map_loop [] m = Inr m"
| "entry_map_loop (entry # entries) m =
     (if map_of m (te_path entry) \<noteq> None then Inl ''duplicate persisted tar path''
      else entry_map_loop entries (btree_insert (te_path entry) entry m))"

definition entry_map_deserialize :: "tar_entry list \<Rightarrow> string + tar_index" where
  "entry_map_deserialize entries = entry_map_loop entries []"

definition CACHE_FORMAT_VERSION :: u32 where "CACHE_FORMAT_VERSION = 1"

record persisted_index =
  format_version :: u32
  pi_image_id :: bytes
  payload_checksum :: u64
  pi_entries :: "tar_entry list"

text \<open>What is used of the JSON library: texts of an entry list and of the envelope, and the envelope of a text.\<close>

record json =
  js_entries :: "tar_entry list \<Rightarrow> string + bytes"
  js_write :: "persisted_index \<Rightarrow> string + bytes"
  js_read :: "bytes \<Rightarrow> string + persisted_index"

definition index_checksum :: "json \<Rightarrow> tar_index \<Rightarrow> u64 vfs_result" where
  "index_checksum js idx = map_sum Io fnv1a64_index (js_entries js (entry_map_serialize idx))"

section \<open>State\<close>

record image_config =
  ic_image_id :: bytes
  ic_limits :: tar_limits
  ic_content :: archive_config

text \<open>\<open>is_parts\<close> counts the temporary files that are left in the cache directory.\<close>

record image_state =
  is_index :: "tar_index option"
  is_cache :: "bytes option"
  is_parts :: nat
  is_io :: "vfs_error option list"
  is_exports :: nat
  is_archive :: archive_state

type_synonym image_exports = "nat \<Rightarrow> bytes \<Rightarrow> archive_reply"

definition image_new ::
    "bytes \<Rightarrow> archive_config \<times> archive_state \<Rightarrow> tar_limits \<Rightarrow> nat \<Rightarrow> bytes option \<Rightarrow> vfs_error option list \<Rightarrow>
       (image_config \<times> image_state) vfs_result" where
  "image_new image_id backend limits operation_timeout cache outcomes =
     bindR (validate_image_id image_id) (\<lambda>_.
     bindR (limits_validate limits) (\<lambda>_.
     if operation_timeout = 0 then Inl (InvalidInput ''image index timeout must be non-zero'')
     else Inr (\<lparr>ic_image_id = image_id, ic_limits = limits, ic_content = fst backend\<rparr>,
               \<lparr>is_index = None, is_cache = cache, is_parts = 0, is_io = outcomes, is_exports = 0, is_archive = snd backend\<rparr>)))"

text \<open>\<^verbatim>\<open>ImageRootfsImmutableProvider::docker\<close>: the archive provider behind it.\<close>

definition image_docker ::
    "bytes \<Rightarrow> spool \<Rightarrow> tar_limits \<Rightarrow> nat \<Rightarrow> string option \<Rightarrow> bytes option \<Rightarrow> vfs_error option list \<Rightarrow>
       (image_config \<times> image_state) vfs_result" where
  "image_docker image_id sp limits operation_timeout label cache outcomes =
     bindR (archive_with_kind image_id sp limits operation_timeout provider_kind.ImageRootfsImmutable label) (\<lambda>backend.
     image_new image_id backend limits operation_timeout cache outcomes)"

definition image_io :: "image_state \<Rightarrow> unit vfs_result \<times> image_state" where
  "image_io st =
     (case is_io st of
        [] \<Rightarrow> (Inr (), st)
      | None # rest \<Rightarrow> (Inr (), st\<lparr>is_io := rest\<rparr>)
      | Some e # rest \<Rightarrow> (Inl e, st\<lparr>is_io := rest\<rparr>))"

text \<open>Sequencing of operations that may fail.\<close>

definition andthen :: "'a vfs_result \<times> 's \<Rightarrow> ('a \<Rightarrow> 's \<Rightarrow> 'b vfs_result \<times> 's) \<Rightarrow> 'b vfs_result \<times> 's" where
  "andthen x k = (case x of (Inl e, s) \<Rightarrow> (Inl e, s) | (Inr v, s) \<Rightarrow> k v s)"

section \<open>The cache\<close>

definition check_persisted :: "json \<Rightarrow> image_config \<Rightarrow> persisted_index \<Rightarrow> tar_index vfs_result" where
  "check_persisted js cfg persisted =
     bindR (map_sum (\<lambda>e. Io (''corrupt image index: '' @ e)) id (entry_map_deserialize (pi_entries persisted))) (\<lambda>idx.
     if format_version persisted \<noteq> CACHE_FORMAT_VERSION \<or> pi_image_id persisted \<noteq> ic_image_id cfg
       then Inl (Io ''corrupt image index envelope'')
     else
       bindR (index_checksum js idx) (\<lambda>checksum.
       if payload_checksum persisted \<noteq> checksum then Inl (Io ''corrupt image index envelope'')
       else bindR (validate_persisted idx (ic_limits cfg)) (\<lambda>_. Inr idx)))"

definition load_cache :: "json \<Rightarrow> image_config \<Rightarrow> image_state \<Rightarrow> tar_index option vfs_result \<times> image_state" where
  "load_cache js cfg st =
     andthen (image_io st) (\<lambda>_ st'.
       case is_cache st' of
         None \<Rightarrow> (Inr None, st')
       | Some bs \<Rightarrow>
           (bindR (map_sum (\<lambda>e. Io (''corrupt image index: '' @ e)) id (js_read js bs)) (\<lambda>persisted.
            map_sum id Some (check_persisted js cfg persisted)), st'))"

text \<open>
  The new content is written to a temporary file and renamed over the old one. An error of writing or renaming removes the
  temporary file; an error of syncing does not.
\<close>

definition discard_part :: "'a vfs_result \<times> image_state \<Rightarrow> 'a vfs_result \<times> image_state" where
  "discard_part x = (case x of (Inl e, st) \<Rightarrow> (Inl e, (snd (image_io st))\<lparr>is_parts := is_parts st - 1\<rparr>) | (Inr v, st) \<Rightarrow> (Inr v, st))"

definition persist_cache :: "json \<Rightarrow> image_config \<Rightarrow> tar_index \<Rightarrow> image_state \<Rightarrow> unit vfs_result \<times> image_state" where
  "persist_cache js cfg idx st =
     andthen (image_io st) (\<lambda>_ st.
     andthen (index_checksum js idx, st) (\<lambda>checksum st.
     let persisted = \<lparr>format_version = CACHE_FORMAT_VERSION, pi_image_id = ic_image_id cfg, payload_checksum = checksum,
                      pi_entries = entry_map_serialize idx\<rparr> in
     andthen (map_sum Io id (js_write js persisted), st) (\<lambda>bs st.
     andthen (image_io st) (\<lambda>_ st.
     andthen (discard_part (image_io (st\<lparr>is_parts := is_parts st + 1\<rparr>))) (\<lambda>_ st.
     andthen (image_io st) (\<lambda>_ st.
     andthen (discard_part (image_io st)) (\<lambda>_ st.
     (Inr (), st\<lparr>is_cache := Some bs, is_parts := is_parts st - 1\<rparr>))))))))"

definition rebuild_index :: "json \<Rightarrow> image_exports \<Rightarrow> image_config \<Rightarrow> image_state \<Rightarrow> tar_index vfs_result \<times> image_state" where
  "rebuild_index js exports cfg st =
     (let st1 = st\<lparr>is_exports := is_exports st + 1\<rparr>
      in case exports (is_exports st) (ic_image_id cfg) of
           Late \<Rightarrow> (Inl TimedOut, st1)
         | Reply (Inl e) \<Rightarrow> (Inl e, st1)
         | Reply (Inr s) \<Rightarrow>
             andthen (from_stream s (ic_limits cfg), st1) (\<lambda>idx st2.
             andthen (persist_cache js cfg idx st2) (\<lambda>_ st3. (Inr idx, st3))))"

definition ensure_index :: "json \<Rightarrow> image_exports \<Rightarrow> image_config \<Rightarrow> image_state \<Rightarrow> tar_index vfs_result \<times> image_state" where
  "ensure_index js exports cfg st =
     (case is_index st of
        Some idx \<Rightarrow> (Inr idx, st)
      | None \<Rightarrow>
          andthen
            (case load_cache js cfg st of
               (Inr (Some idx), st') \<Rightarrow> (Inr idx, st')
             | (_, st') \<Rightarrow> rebuild_index js exports cfg st')
            (\<lambda>idx st'. (Inr idx, st'\<lparr>is_index := Some idx\<rparr>)))"

section \<open>Operations\<close>

definition image_identity :: "image_config \<Rightarrow> bytes" where
  "image_identity cfg = ascii ''image:'' @ ic_image_id cfg"

definition image_root_metadata :: "image_config \<Rightarrow> virtual_metadata" where
  "image_root_metadata cfg = metadata_directory (image_identity cfg)"

text \<open>The label of the descriptor is the identity as text.\<close>

definition image_descriptor :: "image_config \<Rightarrow> provider_descriptor" where
  "image_descriptor cfg =
     \<lparr>pd_kind = provider_kind.ImageRootfsImmutable, pd_consistency = consistency_mode.Immutable,
      pd_source = Some (map (\<lambda>b. char_of (unat b)) (ic_image_id cfg)), pd_capabilities = READ_ONLY\<rparr>"

text \<open>An operation over the index.\<close>

definition with_index ::
    "json \<Rightarrow> image_exports \<Rightarrow> image_config \<Rightarrow> (tar_index \<Rightarrow> 'a vfs_result) \<Rightarrow> image_state \<Rightarrow> 'a vfs_result \<times> image_state" where
  "with_index js exports cfg f st = andthen (ensure_index js exports cfg st) (\<lambda>idx st'. (f idx, st'))"

definition image_lookup ::
    "json \<Rightarrow> image_exports \<Rightarrow> image_config \<Rightarrow> virtual_path \<Rightarrow> virtual_file_name \<Rightarrow> request_context \<Rightarrow> image_state \<Rightarrow>
       virtual_metadata vfs_result \<times> image_state" where
  "image_lookup js exports cfg parent name ctx st =
     (case path_join parent name of
        Inl e \<Rightarrow> (Inl e, st)
      | Inr path \<Rightarrow> with_index js exports cfg (\<lambda>idx. index_metadata idx (from_virtual path) (image_identity cfg) 0) st)"

definition image_getattr ::
    "json \<Rightarrow> image_exports \<Rightarrow> image_config \<Rightarrow> virtual_path \<Rightarrow> request_context \<Rightarrow> image_state \<Rightarrow> virtual_metadata vfs_result \<times> image_state" where
  "image_getattr js exports cfg path ctx st =
     (if is_root path then (Inr (image_root_metadata cfg), st)
      else with_index js exports cfg (\<lambda>idx. index_metadata idx (from_virtual path) (image_identity cfg) 0) st)"

definition image_read_dir ::
    "json \<Rightarrow> image_exports \<Rightarrow> image_config \<Rightarrow> virtual_path \<Rightarrow> request_context \<Rightarrow> image_state \<Rightarrow>
       virtual_directory_entry list vfs_result \<times> image_state" where
  "image_read_dir js exports cfg path ctx st =
     with_index js exports cfg (\<lambda>idx. directory_entries idx path (image_identity cfg) 0) st"

definition image_read_link ::
    "json \<Rightarrow> image_exports \<Rightarrow> image_config \<Rightarrow> virtual_path \<Rightarrow> request_context \<Rightarrow> image_state \<Rightarrow> virtual_path_bytes vfs_result \<times> image_state" where
  "image_read_link js exports cfg path ctx st =
     with_index js exports cfg (\<lambda>idx.
       bindR (ok_or NotFound (get_virtual idx path)) (\<lambda>entry.
       if te_kind entry \<noteq> TarSymlink then Inl (InvalidInput ''node is not a symlink'')
       else virtual_path_bytes_new (case link_target entry of None \<Rightarrow> [] | Some t \<Rightarrow> t))) st"

text \<open>Calls of the archive provider that holds the contents.\<close>

definition on_archive :: "(archive_state \<Rightarrow> 'a \<times> archive_state) \<Rightarrow> image_state \<Rightarrow> 'a \<times> image_state" where
  "on_archive f st = (case f (is_archive st) of (r, a) \<Rightarrow> (r, st\<lparr>is_archive := a\<rparr>))"

definition image_open ::
    "(32 word \<Rightarrow> open_acc_mode) \<Rightarrow> json \<Rightarrow> image_exports \<Rightarrow> archive_source \<Rightarrow> image_config \<Rightarrow> virtual_path \<Rightarrow> 32 word \<Rightarrow>
       request_context \<Rightarrow> image_state \<Rightarrow> provider_file_handle vfs_result \<times> image_state" where
  "image_open acc_mode js exports source cfg path flags ctx st =
     (if \<not> is_read_only_open acc_mode flags then (Inl ReadOnly, st)
      else
        andthen (with_index js exports cfg (\<lambda>idx. content_path idx path) st) (\<lambda>target st'.
        andthen (on_archive (archive_open acc_mode source (ic_content cfg) target flags ctx) st') (\<lambda>handle st''.
        (Inr (handle\<lparr>pfh_path := path\<rparr>), st''))))"

definition image_read_at ::
    "file_reads \<Rightarrow> provider_file_handle \<Rightarrow> u64 \<Rightarrow> u32 \<Rightarrow> request_context \<Rightarrow> image_state \<Rightarrow> bytes vfs_result \<times> image_state" where
  "image_read_at file_reads handle offset sz ctx st = on_archive (archive_read_at file_reads handle offset sz ctx) st"

definition image_close :: "provider_file_handle \<Rightarrow> image_state \<Rightarrow> unit vfs_result \<times> image_state" where
  "image_close handle st = on_archive (archive_close handle) st"

definition image_refresh ::
    "json \<Rightarrow> image_exports \<Rightarrow> image_config \<Rightarrow> virtual_path option \<Rightarrow> image_state \<Rightarrow> unit vfs_result \<times> image_state" where
  "image_refresh js exports cfg path st =
     andthen (rebuild_index js exports cfg st) (\<lambda>idx st'. (Inr (), st'\<lparr>is_index := Some idx\<rparr>))"

definition image_provider ::
    "(32 word \<Rightarrow> open_acc_mode) \<Rightarrow> json \<Rightarrow> image_exports \<Rightarrow> archive_source \<Rightarrow> file_reads \<Rightarrow> image_config \<Rightarrow> image_state provider" where
  "image_provider acc_mode js exports source file_reads cfg =
     \<lparr>prov_descriptor = (\<lambda>_. image_descriptor cfg), prov_lookup = image_lookup js exports cfg,
      prov_getattr = image_getattr js exports cfg, prov_read_dir = image_read_dir js exports cfg,
      prov_read_link = image_read_link js exports cfg, prov_open = image_open acc_mode js exports source cfg,
      prov_read_at = image_read_at file_reads, prov_close = image_close, prov_refresh = image_refresh js exports cfg\<rparr>"

section \<open>The contract\<close>

lemma andthen_Inr: "andthen x k = (Inr v, s) \<longleftrightarrow> (\<exists>u t. x = (Inr u, t) \<and> k u t = (Inr v, s))"
  by (cases x; cases "fst x") (auto simp: andthen_def)

text \<open>A property of states that every step of a sequence keeps.\<close>

lemma andthen_keeps:
  assumes "P (snd x)" "\<And>v s. x = (Inr v, s) \<Longrightarrow> P (snd (k v s))"
  shows "P (snd (andthen x k))"
  using assms by (cases x; cases "fst x") (auto simp: andthen_def)

text \<open>What the cache and the exports leave alone.\<close>

definition same_archive :: "image_state \<Rightarrow> image_state \<Rightarrow> bool" where
  "same_archive s t \<longleftrightarrow> is_archive t = is_archive s \<and> is_index t = is_index s"

lemma image_io_same: "same_archive s t \<Longrightarrow> same_archive s (snd (image_io t))"
  by (auto simp: image_io_def same_archive_def split: list.splits option.splits)

lemma discard_part_same: "same_archive s (snd x) \<Longrightarrow> same_archive s (snd (discard_part x))"
  using image_io_same [of s "snd x"] by (cases x; cases "fst x") (auto simp: discard_part_def same_archive_def)

lemma same_archive_updates [simp]:
  "same_archive s (t\<lparr>is_parts := n\<rparr>) = same_archive s t" "same_archive s (t\<lparr>is_cache := c\<rparr>) = same_archive s t"
  "same_archive s (t\<lparr>is_exports := n\<rparr>) = same_archive s t" "same_archive s s"
  by (simp_all add: same_archive_def)

lemma same_andthen:
  assumes "same_archive s0 (snd x)" "\<And>v s. same_archive s0 s \<Longrightarrow> same_archive s0 (snd (k v s))"
  shows "same_archive s0 (snd (andthen x k))"
  using assms by (cases x; cases "fst x") (auto simp: andthen_def)

lemma load_cache_same: "same_archive s t \<Longrightarrow> same_archive s (snd (load_cache js cfg t))"
  unfolding load_cache_def by (rule same_andthen) (auto simp: image_io_same split: option.splits)

lemma persist_cache_same: "same_archive s t \<Longrightarrow> same_archive s (snd (persist_cache js cfg idx t))"
  unfolding persist_cache_def Let_def
  by (rule same_andthen | simp add: image_io_same discard_part_same)+

lemma rebuild_index_same:
  assumes "same_archive s t"
  shows "same_archive s (snd (rebuild_index js exports cfg t))"
proof (cases "exports (is_exports t) (ic_image_id cfg)")
  case (Reply r)
  show ?thesis
  proof (cases r)
    case (Inr xs)
    have "same_archive s (snd (andthen (from_stream xs (ic_limits cfg), t\<lparr>is_exports := is_exports t + 1\<rparr>)
        (\<lambda>idx st2. andthen (persist_cache js cfg idx st2) (\<lambda>_ st3. (Inr idx, st3)))))"
      by (rule same_andthen | simp add: assms persist_cache_same)+
    then show ?thesis using Reply Inr by (simp add: rebuild_index_def)
  qed (use assms Reply in \<open>simp add: rebuild_index_def\<close>)
qed (use assms in \<open>simp add: rebuild_index_def\<close>)

text \<open>What is known of an index, wherever it comes from.\<close>

definition index_keyed :: "tar_index \<Rightarrow> bool" where
  "index_keyed idx \<longleftrightarrow> sorted_wrt (<) (map fst idx) \<and> (\<forall>(p, e) \<in> set idx. te_path e = p)"

lemma set_btree_insert: "set (btree_insert k v xs) \<subseteq> insert (k, v) (set xs)"
  by (induction k v xs rule: btree_insert.induct) auto

lemma entry_map_keyed: "entry_map_loop es m = Inr idx \<Longrightarrow> index_keyed m \<Longrightarrow> index_keyed idx"
proof (induction es arbitrary: m)
  case (Cons e es)
  have "index_keyed (btree_insert (te_path e) e m)"
    using Cons.prems(2) sorted_btree_insert [of m "te_path e" e] set_btree_insert [of "te_path e" e m]
    by (fastforce simp: index_keyed_def)
  then show ?case using Cons by (simp split: if_splits)
qed simp

lemma map_sum_Inr: "map_sum f g x = Inr v \<longleftrightarrow> (\<exists>u. x = Inr u \<and> v = g u)"
  by (cases x) auto

lemma check_persisted_keyed: "check_persisted js cfg p = Inr idx \<Longrightarrow> index_keyed idx"
  using entry_map_keyed [of "pi_entries p" "[]"]
  by (auto simp: check_persisted_def entry_map_deserialize_def index_keyed_def map_sum_Inr split: if_splits)

lemma load_cache_Some:
  assumes "load_cache js cfg st = (Inr (Some idx), st')"
  obtains bs persisted where "is_cache st = Some bs" "js_read js bs = Inr persisted" "check_persisted js cfg persisted = Inr idx"
proof -
  have "is_cache st1 = is_cache st" if "image_io st = (r, st1)" for r st1
    using that by (auto simp: image_io_def split: list.splits option.splits)
  then show ?thesis
    using assms that by (cases "is_cache st") (auto simp: load_cache_def andthen_Inr map_sum_Inr)
qed

lemma rebuild_index_Inr:
  assumes "rebuild_index js exports cfg st = (Inr idx, st')"
  obtains s st2 where "exports (is_exports st) (ic_image_id cfg) = Reply (Inr s)" "from_stream s (ic_limits cfg) = Inr idx"
    "persist_cache js cfg idx (st\<lparr>is_exports := is_exports st + 1\<rparr>) = (Inr (), st')"
  using assms that by (auto simp: rebuild_index_def Let_def andthen_Inr split: archive_reply.splits sum.splits)

lemma rebuild_index_keyed: "rebuild_index js exports cfg st = (Inr idx, st') \<Longrightarrow> index_keyed idx"
  by (erule rebuild_index_Inr) (simp add: index_keyed_def index_wf_keys [OF from_stream_wf])

definition image_inv :: "nat \<Rightarrow> image_state \<Rightarrow> bool" where
  "image_inv n st \<longleftrightarrow> archive_inv n (is_archive st) \<and> (\<forall>idx. is_index st = Some idx \<longrightarrow> index_keyed idx)"

lemma same_archive_inv: "same_archive s t \<Longrightarrow> image_inv n s \<Longrightarrow> image_inv n t"
  by (simp add: same_archive_def image_inv_def)

lemma ensure_index_inv:
  assumes "ensure_index js exports cfg st = (r, st')" "image_inv n st"
  shows "image_inv n st' \<and> (\<forall>idx. r = Inr idx \<longrightarrow> index_keyed idx)"
proof (cases "is_index st")
  case (Some idx)
  then show ?thesis using assms by (auto simp: ensure_index_def image_inv_def)
next
  case None
  obtain a st1 where load: "load_cache js cfg st = (a, st1)" by fastforce
  have st1: "same_archive st st1" using load_cache_same [of st st js cfg] load by simp
  show ?thesis
  proof (cases "\<exists>idx. a = Inr (Some idx)")
    case True
    then obtain idx where a: "a = Inr (Some idx)" by blast
    have "index_keyed idx" by (rule load_cache_Some [OF load [unfolded a]]) (rule check_persisted_keyed)
    then show ?thesis
      using assms load a None same_archive_inv [OF st1] by (auto simp: ensure_index_def andthen_def image_inv_def)
  next
    case False
    obtain b st2 where rebuild: "rebuild_index js exports cfg st1 = (b, st2)" by fastforce
    have st2: "same_archive st st2" using rebuild_index_same [OF st1, of js exports cfg] rebuild by simp
    have "ensure_index js exports cfg st = andthen (b, st2) (\<lambda>idx st'. (Inr idx, st'\<lparr>is_index := Some idx\<rparr>))"
      using None load rebuild False by (auto simp: ensure_index_def split: sum.splits option.splits)
    then show ?thesis
      using assms rebuild_index_keyed [of js exports cfg st1 _ st2] rebuild same_archive_inv [OF st2]
      by (cases b) (auto simp: andthen_def image_inv_def)
  qed
qed

lemma with_index_inv:
  assumes "with_index js exports cfg f st = (r, st')" "image_inv n st"
  shows "image_inv n st' \<and> (\<forall>v. r = Inr v \<longrightarrow> (\<exists>idx. index_keyed idx \<and> f idx = Inr v))"
proof -
  obtain a st1 where "ensure_index js exports cfg st = (a, st1)" by fastforce
  then show ?thesis using assms ensure_index_inv by (cases a) (fastforce simp: with_index_def andthen_def)+
qed

lemma with_index_snd: "image_inv n st \<Longrightarrow> image_inv n (snd (with_index js exports cfg f st))"
  using with_index_inv by (metis prod.collapse)

lemma on_archive_inv: "image_inv n st \<Longrightarrow> archive_inv n (snd (f (is_archive st))) \<Longrightarrow> image_inv n (snd (on_archive f st))"
  by (auto simp: on_archive_def image_inv_def split: prod.splits)

lemma image_open_inv:
  assumes "image_inv n st"
  shows "image_inv n (snd (image_open acc_mode js exports source cfg p flags c st))"
proof (cases "is_read_only_open acc_mode flags")
  case True
  obtain a st1 where w: "with_index js exports cfg (\<lambda>idx. content_path idx p) st = (a, st1)" by fastforce
  have st1: "image_inv n st1" using with_index_inv [OF w assms] by simp
  have "image_inv n (snd (on_archive (archive_open acc_mode source (ic_content cfg) t flags c) st1))" for t
    using st1 archive_open_inv by (intro on_archive_inv) (auto simp: image_inv_def, metis prod.collapse)
  then show ?thesis
    using st1 True w by (cases a) (auto simp: image_open_def andthen_def split: prod.splits sum.splits; metis snd_conv)+
qed (use assms in \<open>simp add: image_open_def\<close>)

lemma image_refresh_inv:
  assumes "image_inv n st"
  shows "image_inv n (snd (image_refresh js exports cfg po st))"
proof -
  obtain b st2 where rebuild: "rebuild_index js exports cfg st = (b, st2)" by fastforce
  have "same_archive st st2" using rebuild_index_same [of st st js exports cfg] rebuild by simp
  then show ?thesis
    using assms rebuild rebuild_index_keyed [of js exports cfg st _ st2]
    by (cases b) (auto simp: image_refresh_def andthen_def image_inv_def same_archive_def)
qed

lemma path_join_not_root: "path_join p n = Inr q \<Longrightarrow> \<not> is_root q"
  by (auto simp: path_join_def from_components_def is_root_def Let_def split: if_splits)

interpretation img: readonly_provider acc_mode "image_provider acc_mode js exports source file_reads cfg" "image_inv n"
  for js exports source file_reads cfg n
proof (unfold_locales, goal_cases)
  case (1 w p m c)
  then show ?case
    by (auto simp: image_provider_def image_lookup_def image_getattr_def path_join_not_root split: sum.splits)
next
  case (2 w p flags c h w')
  then show ?case by (auto simp: image_provider_def image_open_def split: if_splits)
next
  case (3 w h off sz c bs w')
  then show ?case
    using backing_read_bounded
    by (auto simp: image_provider_def image_read_at_def on_archive_def archive_read_at_def split: prod.splits)
next
  case (4 w p c es w')
  then obtain idx where idx: "index_keyed idx" "directory_entries idx p (image_identity cfg) 0 = Inr es"
    using with_index_inv [of js exports cfg _ w "Inr es" w' n] by (auto simp: image_provider_def image_read_dir_def)
  show ?case
    by (rule listing_of_children [of idx "child_directory_entry idx (image_identity cfg) 0" "from_virtual p"])
       (use idx in \<open>auto simp: index_keyed_def directory_entries_def child_directory_entry_def Let_def split: if_splits\<close>)
next
  case (5 w p c)
  then show ?case by (simp add: image_provider_def image_getattr_def with_index_snd)
next
  case (6 w p c)
  then show ?case by (simp add: image_provider_def image_read_dir_def with_index_snd)
next
  case (7 w p c)
  then show ?case by (simp add: image_provider_def image_read_link_def with_index_snd)
next
  case (8 w p flags c)
  then show ?case by (simp add: image_provider_def image_open_inv)
next
  case (9 w h off sz c)
  then show ?case by (simp add: image_provider_def image_read_at_def on_archive_def archive_read_at_def)
next
  case (10 w h)
  then have "archive_inv n (snd (archive_close h (is_archive w)))" by (simp add: archive_close_inv image_inv_def)
  with 10 show ?case by (simp add: image_provider_def image_close_def on_archive_inv)
next
  case (11 w po)
  then show ?case by (simp add: image_provider_def image_refresh_inv)
next
  case (12 w p c t w')
  then show ?case
    using with_index_inv [of js exports cfg _ w "Inr t" w' n] virtual_path_bytes_valid
    by (fastforce simp: image_provider_def image_read_link_def split: if_splits)
qed

section \<open>What the cache returns\<close>

lemma btree_insert_last: "\<forall>(l, u) \<in> set m. l < k \<Longrightarrow> btree_insert k v m = m @ [(k, v)]"
  by (induction k v m rule: btree_insert.induct) auto

lemma entry_map_roundtrip:
  "index_keyed (m @ xs) \<Longrightarrow> entry_map_loop (map snd xs) m = Inr (m @ xs)"
proof (induction xs arbitrary: m)
  case (Cons x xs)
  obtain k e where x: "x = (k, e)" by fastforce
  have e: "te_path e = k" and less: "\<forall>(l, u) \<in> set m. l < k" and fresh: "map_of m k = None"
    using Cons.prems x by (auto simp: index_keyed_def sorted_wrt_append map_of_eq_None_iff)
  have "btree_insert k e m @ xs = m @ x # xs" using btree_insert_last [OF less] x by simp
  then show ?case using Cons.IH [of "btree_insert k e m"] Cons.prems x e fresh by simp
qed simp

lemma entry_map_restores: "index_keyed idx \<Longrightarrow> entry_map_deserialize (entry_map_serialize idx) = Inr idx"
  using entry_map_roundtrip [of "[]" idx] by (simp add: entry_map_deserialize_def entry_map_serialize_def)

lemma image_io_fields:
  "image_io st = (r, st') \<Longrightarrow> is_cache st' = is_cache st \<and> is_parts st' = is_parts st \<and> is_exports st' = is_exports st"
  by (auto simp: image_io_def split: list.splits option.splits)

lemma persist_cache_Inr:
  assumes "persist_cache js cfg idx st = (Inr (), st')"
  obtains checksum bs where "index_checksum js idx = Inr checksum" "is_cache st' = Some bs" "is_parts st' = is_parts st"
    "js_write js \<lparr>format_version = CACHE_FORMAT_VERSION, pi_image_id = ic_image_id cfg, payload_checksum = checksum,
                  pi_entries = entry_map_serialize idx\<rparr> = Inr bs"
proof -
  have keep: "is_parts t' = is_parts t" if "discard_part (image_io t) = (Inr u, t')" for t u t'
    using that image_io_fields [of t] by (cases "image_io t"; cases "fst (image_io t)") (auto simp: discard_part_def)
  show ?thesis
    using assms that
    by (auto simp: persist_cache_def andthen_Inr Let_def map_sum_Inr dest!: keep image_io_fields)
qed

text \<open>The JSON library reads what it has written.\<close>

definition json_faithful :: "json \<Rightarrow> bool" where
  "json_faithful js \<longleftrightarrow> (\<forall>p bs. js_write js p = Inr bs \<longrightarrow> js_read js bs = Inr p)"

lemma load_cache_exports: "load_cache js cfg st = (r, st') \<Longrightarrow> is_exports st' = is_exports st"
  using image_io_fields [of st]
  by (cases "image_io st"; cases "fst (image_io st)") (auto simp: load_cache_def andthen_def split: option.splits)

text \<open>C33. The cache of an image's index is read back: when an index has been built and stored, a provider for the same
  image with the same limits finds exactly this index in the cache file and needs no export of the image for it; storing it
  leaves no temporary file.\<close>

theorem image_cache_roundtrip:
  assumes "json_faithful js" "rebuild_index js exports cfg st = (Inr idx, st')" "max_entries (ic_limits cfg) \<noteq> - 1"
    and "is_io st' = []"
  shows "ensure_index js exports' cfg (st'\<lparr>is_index := None\<rparr>) = (Inr idx, st'\<lparr>is_index := Some idx\<rparr>) \<and>
         is_parts st' = is_parts st"
proof -
  obtain s where s: "from_stream s (ic_limits cfg) = Inr idx"
      and persist: "persist_cache js cfg idx (st\<lparr>is_exports := is_exports st + 1\<rparr>) = (Inr (), st')"
    using rebuild_index_Inr [OF assms(2)] by metis
  obtain checksum bs where stored: "index_checksum js idx = Inr checksum" "is_cache st' = Some bs" "is_parts st' = is_parts st"
      "js_write js \<lparr>format_version = CACHE_FORMAT_VERSION, pi_image_id = ic_image_id cfg, payload_checksum = checksum,
                    pi_entries = entry_map_serialize idx\<rparr> = Inr bs"
    using persist_cache_Inr [OF persist] by (metis image_state.select_convs(3) image_state.surjective image_state.update_convs(5))
  have keyed: "index_keyed idx" by (rule rebuild_index_keyed [OF assms(2)])
  have limits: "limits_validate (ic_limits cfg) = Inr ()" using s by (auto simp: from_stream_def)
  have valid: "validate_persisted idx (ic_limits cfg) = Inr ()"
    using index_wf_persisted [OF from_stream_wf [OF s]] limits assms(3) by simp
  show ?thesis
    using stored assms(1,4) keyed valid
    by (simp add: ensure_index_def load_cache_def image_io_def andthen_def json_faithful_def check_persisted_def
        entry_map_restores bindR_def)
qed

text \<open>Where the index of an image comes from when none is in memory: from the cache file, and then its version and image
  are right, its checksum is that of its entries and the index passes the check of persisted indexes; or from an export of the
  image that was read to its end.\<close>

theorem image_index_checked:
  assumes "is_index st = None" "ensure_index js exports cfg st = (Inr idx, st')"
  shows "(\<exists>bs p. is_cache st = Some bs \<and> js_read js bs = Inr p \<and> format_version p = CACHE_FORMAT_VERSION \<and>
            pi_image_id p = ic_image_id cfg \<and> index_checksum js idx = Inr (payload_checksum p) \<and>
            entry_map_deserialize (pi_entries p) = Inr idx \<and> validate_persisted idx (ic_limits cfg) = Inr ()) \<or>
         (\<exists>s. exports (is_exports st) (ic_image_id cfg) = Reply (Inr s) \<and> from_stream s (ic_limits cfg) = Inr idx)"
proof -
  obtain a st1 where load: "load_cache js cfg st = (a, st1)" by fastforce
  show ?thesis
  proof (cases "\<exists>idx. a = Inr (Some idx)")
    case True
    then have "a = Inr (Some idx)" using assms load by (auto simp: ensure_index_def andthen_Inr)
    then obtain bs p where "is_cache st = Some bs" "js_read js bs = Inr p" "check_persisted js cfg p = Inr idx"
      using load_cache_Some [of js cfg st idx st1] load by metis
    then show ?thesis by (auto simp: check_persisted_def map_sum_Inr split: if_splits)
  next
    case False
    then obtain st2 where "rebuild_index js exports cfg st1 = (Inr idx, st2)"
      using assms load by (auto simp: ensure_index_def andthen_Inr split: sum.splits option.splits)
    then show ?thesis using load_cache_exports [OF load] by (auto elim!: rebuild_index_Inr)
  qed
qed

definition demo_image_config :: image_config where
  "demo_image_config = \<lparr>ic_image_id = [105], ic_limits = limits_default, ic_content = demo_config\<rparr>"

definition demo_envelope :: persisted_index where
  "demo_envelope =
     \<lparr>format_version = CACHE_FORMAT_VERSION, pi_image_id = [105], payload_checksum = fnv1a64_index [], pi_entries = [tar_entry_root]\<rparr>"

definition demo_json :: json where
  "demo_json =
     \<lparr>js_entries = (\<lambda>_. Inr []), js_write = (\<lambda>p. if p = demo_envelope then Inr [1] else Inl ''unsupported''),
      js_read = (\<lambda>bs. if bs = [1] then Inr demo_envelope else Inl ''unsupported'')\<rparr>"

definition demo_image_state :: image_state where
  "demo_image_state = \<lparr>is_index = None, is_cache = None, is_parts = 0, is_io = [], is_exports = 0, is_archive = demo_state\<rparr>"

definition demo_exports :: image_exports where
  "demo_exports n i = Reply (Inr [Inr (write_archive [])])"

lemma demo_empty_archive: "from_stream [Inr (write_archive [])] limits_default = Inr index_empty"
proof -
  let ?r = "reader_new [Inr (write_archive [])] limits_default"
  have "delivers limits_default [Inr (write_archive [])] []"
    by (simp add: delivers_def has_error_def write_archive_def TAR_BLOCK_def limits_default_def)
  then have "fresh_reader limits_default ?r" "pending ?r = replicate (2 * TAR_BLOCK) 0"
    using delivers_reader by (auto simp: write_archive_def)
  then obtain r' where "next_entry ?r = (Inr None, r')" by (rule next_entry_end)
  then show ?thesis by (simp add: from_stream_def demo_limits_valid bindR_def index_loop.simps [of ?r])
qed

lemma demo_rebuild:
  "rebuild_index demo_json demo_exports demo_image_config demo_image_state =
     (Inr index_empty, demo_image_state\<lparr>is_exports := 1, is_cache := Some [1]\<rparr>)"
  by (simp add: rebuild_index_def demo_exports_def demo_image_config_def demo_empty_archive andthen_def persist_cache_def
      demo_image_state_def image_io_def discard_part_def index_checksum_def demo_json_def demo_envelope_def
      entry_map_serialize_def index_empty_def Let_def)

theorem image_cache_roundtrip_witness:
  "ensure_index demo_json (\<lambda>_ _. Late) demo_image_config (demo_image_state\<lparr>is_exports := 1, is_cache := Some [1]\<rparr>) =
     (Inr index_empty, demo_image_state\<lparr>is_exports := 1, is_cache := Some [1], is_index := Some index_empty\<rparr>)"
proof -
  have "json_faithful demo_json" by (auto simp: json_faithful_def demo_json_def split: if_splits)
  moreover have "max_entries (ic_limits demo_image_config) \<noteq> - 1"
    by (simp add: demo_image_config_def limits_default_def)
  ultimately show ?thesis
    using image_cache_roundtrip [OF _ demo_rebuild, of "\<lambda>_ _. Late"] by (simp add: demo_image_state_def)
qed

theorem image_index_checked_witness:
  "\<exists>st'. ensure_index demo_json demo_exports demo_image_config demo_image_state = (Inr index_empty, st') \<and>
     (\<exists>s. demo_exports 0 [105] = Reply (Inr s) \<and> from_stream s limits_default = Inr index_empty)"
proof -
  have "ensure_index demo_json demo_exports demo_image_config demo_image_state =
      (Inr index_empty, demo_image_state\<lparr>is_exports := 1, is_cache := Some [1], is_index := Some index_empty\<rparr>)"
    using demo_rebuild by (simp add: ensure_index_def load_cache_def demo_image_state_def image_io_def andthen_def)
  moreover from image_index_checked [OF _ this]
  have "\<exists>s. demo_exports 0 [105] = Reply (Inr s) \<and> from_stream s limits_default = Inr index_empty"
    by (simp add: demo_image_state_def demo_image_config_def)
  ultimately show ?thesis by blast
qed

end
