(* ===== verification/Event_Monitor.thy ===== *)
theory Event_Monitor
  imports Utf8 "HOL-Library.Sublist"
begin

text \<open>
  The Docker event monitor, \<^verbatim>\<open>docker-core/src/cache/events.rs\<close>, and the daemon's consumer of its notifications
  (\<^verbatim>\<open>tuxstack-daemon/src/state.rs\<close>): events are classified and coalesced into batches, batches are published on a
  channel that holds the latest value only, and the consumer rebuilds the namespace. Instants and durations are
  milliseconds; the delays of the timer and of the reconnects are steps whose time is free.
\<close>

section \<open>Events and their classes\<close>

record docker_event =
  event_type :: bytes
  ev_action :: bytes
  ev_actor_id :: "bytes option"
  actor_attributes :: "(bytes \<times> bytes) list"

datatype change_kind = Images | Containers | Volumes | Networks | Daemon

record container_change =
  cc_actor_id :: bytes
  cc_action :: bytes

definition MAX_CONTAINER_CHANGES :: nat where "MAX_CONTAINER_CHANGES = 256"

record change_notification =
  cn_kinds :: "change_kind list"
  cn_container_changes :: "container_change list"
  cn_truncated :: bool
  cn_burst :: nat
  cn_reconnected :: bool

definition bytes_starts_with :: "bytes \<Rightarrow> string \<Rightarrow> bool" where
  "bytes_starts_with bs p \<longleftrightarrow> take (length p) bs = ascii p"

definition is_internal_helper_event :: "docker_event \<Rightarrow> bool" where
  "is_internal_helper_event event \<longleftrightarrow>
     list_ex (\<lambda>(key, v).
       (key = ascii ''name'' \<and>
          (bytes_starts_with v ''tuxstack-fs-helper-'' \<or> bytes_starts_with v ''tuxstack-bind-helper-'' \<or>
           bytes_starts_with v ''tuxstack-image-helper-'' \<or> bytes_starts_with v ''tuxstack-volume-helper-'')) \<or>
       (key = ascii ''io.github.tuxstack.managed'' \<and> v = ascii ''true'')) (actor_attributes event)"

definition kind_of_type :: "bytes \<Rightarrow> change_kind option" where
  "kind_of_type t =
     (if t = ascii ''image'' then Some Images
      else if t = ascii ''container'' then Some Containers
      else if t = ascii ''volume'' then Some Volumes
      else if t = ascii ''network'' then Some Networks
      else if t = ascii ''daemon'' then Some Daemon
      else None)"

definition classify :: "docker_event \<Rightarrow> change_kind option" where
  "classify event =
     (case kind_of_type (event_type event) of
        None \<Rightarrow> None
      | Some kind \<Rightarrow>
          if kind = Containers \<and> is_internal_helper_event event then None
          else if kind = Containers \<and> bytes_starts_with (ev_action event) ''exec_'' then None
          else Some kind)"

section \<open>Batches\<close>

record pending_batch =
  pb_start :: nat
  pb_kinds :: "change_kind set"
  pb_changes :: "container_change list"
  pb_seen :: "container_change set"
  pb_truncated :: bool
  pb_burst :: nat

definition change_of :: "docker_event \<Rightarrow> container_change" where
  "change_of event =
     \<lparr>cc_actor_id = (case ev_actor_id event of None \<Rightarrow> [] | Some i \<Rightarrow> i), cc_action = ev_action event\<rparr>"

definition batch_add :: "change_kind \<Rightarrow> docker_event \<Rightarrow> pending_batch \<Rightarrow> pending_batch" where
  "batch_add kind event b =
     (let b1 = b\<lparr>pb_kinds := insert kind (pb_kinds b), pb_burst := pb_burst b + 1\<rparr>; change = change_of event
      in if kind \<noteq> Containers then b1
         else if change \<in> pb_seen b1 then b1
         else if length (pb_changes b1) \<ge> MAX_CONTAINER_CHANGES then b1\<lparr>pb_truncated := True\<rparr>
         else b1\<lparr>pb_seen := insert change (pb_seen b1), pb_changes := pb_changes b1 @ [change]\<rparr>)"

definition batch_empty :: "nat \<Rightarrow> pending_batch" where
  "batch_empty now = \<lparr>pb_start = now, pb_kinds = {}, pb_changes = [], pb_seen = {}, pb_truncated = False, pb_burst = 0\<rparr>"

definition batch_new :: "nat \<Rightarrow> change_kind \<Rightarrow> docker_event \<Rightarrow> pending_batch" where
  "batch_new now kind event = batch_add kind event (batch_empty now)"

text \<open>The kinds of a batch, a hash set, are sorted by their position in a fixed list.\<close>

definition kind_order :: "change_kind list" where
  "kind_order = [Images, Containers, Volumes, Networks, Daemon]"

definition notification_of :: "pending_batch \<Rightarrow> bool \<Rightarrow> change_notification" where
  "notification_of b reconnected =
     \<lparr>cn_kinds = filter (\<lambda>k. k \<in> pb_kinds b) kind_order, cn_container_changes = pb_changes b,
      cn_truncated = pb_truncated b, cn_burst = pb_burst b, cn_reconnected = reconnected\<rparr>"

section \<open>The loop\<close>

definition DEBOUNCE :: nat where "DEBOUNCE = 250"

text \<open>The state of \<^verbatim>\<open>run_monitor\<close>; \<open>mo_sent\<close> are the values sent on the channel so far.\<close>

record monitor =
  mo_pending :: "pending_batch option"
  mo_reconnected :: bool
  mo_backoff :: nat
  mo_running :: bool
  mo_sent :: "change_notification list"

definition monitor_new :: monitor where
  "monitor_new = \<lparr>mo_pending = None, mo_reconnected = False, mo_backoff = 1000, mo_running = True, mo_sent = []\<rparr>"

definition flush_pending :: "monitor \<Rightarrow> monitor" where
  "flush_pending m =
     (case mo_pending m of
        None \<Rightarrow> m
      | Some b \<Rightarrow> m\<lparr>mo_pending := None, mo_sent := mo_sent m @ [notification_of b (mo_reconnected m)]\<rparr>)"

definition on_event :: "nat \<Rightarrow> docker_event \<Rightarrow> monitor \<Rightarrow> monitor" where
  "on_event now event m =
     (case classify event of
        None \<Rightarrow> m
      | Some kind \<Rightarrow>
          let m1 = (case mo_pending m of
                      Some b \<Rightarrow> if now - pb_start b \<ge> DEBOUNCE then (flush_pending m)\<lparr>mo_reconnected := False\<rparr> else m
                    | None \<Rightarrow> m)
          in m1\<lparr>mo_pending := Some (case mo_pending m1 of
                                       Some b \<Rightarrow> batch_add kind event b
                                     | None \<Rightarrow> batch_new now kind event),
                mo_backoff := 1000\<rparr>)"

text \<open>The end of the loop, which publishes what is pending.\<close>

definition monitor_break :: "monitor \<Rightarrow> monitor" where
  "monitor_break m = (flush_pending m)\<lparr>mo_running := False\<rparr>"

text \<open>
  An error or the end of the stream: \<open>waited\<close> says that the delay ended before a cancellation, \<open>has_client\<close> that a client is bound.
\<close>

definition on_disconnect :: "bool \<Rightarrow> bool \<Rightarrow> monitor \<Rightarrow> monitor" where
  "on_disconnect waited has_client m =
     (let m1 = (flush_pending m)\<lparr>mo_reconnected := True\<rparr>
      in if \<not> waited then monitor_break m1
         else
           let m2 = m1\<lparr>mo_backoff := min (mo_backoff m1 * 2) 30000\<rparr>
           in if has_client then m2 else monitor_break m2)"

text \<open>The timer arm: without a batch it sleeps an hour and changes nothing.\<close>

definition debounce_tick :: "monitor \<Rightarrow> monitor" where
  "debounce_tick m =
     (case mo_pending m of
        None \<Rightarrow> m
      | Some _ \<Rightarrow> (flush_pending m)\<lparr>mo_reconnected := False\<rparr>)"

inductive monitor_step :: "docker_event list \<Rightarrow> monitor \<Rightarrow> docker_event list \<Rightarrow> monitor \<Rightarrow> bool" where
  mon_event: "mo_running m \<Longrightarrow> monitor_step evs m (evs @ [event]) (on_event now event m)"
| mon_disconnect: "mo_running m \<Longrightarrow> monitor_step evs m evs (on_disconnect waited has_client m)"
| mon_tick: "mo_running m \<Longrightarrow> monitor_step evs m evs (debounce_tick m)"
| mon_cancel: "mo_running m \<Longrightarrow> monitor_step evs m evs (monitor_break m)"

text \<open>The histories of received events that lead to a state.\<close>

inductive monitor_run :: "docker_event list \<Rightarrow> monitor \<Rightarrow> bool" where
  run_new: "monitor_run [] monitor_new"
| run_step: "monitor_run evs m \<Longrightarrow> monitor_step evs m evs' m' \<Longrightarrow> monitor_run evs' m'"

section \<open>What a batch holds\<close>

text \<open>The changes of a list of classified events, each once, in the order of first appearance.\<close>

definition classified :: "docker_event list \<Rightarrow> (change_kind \<times> docker_event) list" where
  "classified evs = concat (map (\<lambda>ev. case classify ev of None \<Rightarrow> [] | Some k \<Rightarrow> [(k, ev)]) evs)"

definition changes_of :: "(change_kind \<times> docker_event) list \<Rightarrow> container_change list" where
  "changes_of cs = map (change_of \<circ> snd) (filter (\<lambda>c. fst c = Containers) cs)"

definition first_seen :: "'a list \<Rightarrow> 'a list" where
  "first_seen xs = rev (remdups (rev xs))"

definition summary :: "(change_kind \<times> docker_event) list \<Rightarrow> bool \<Rightarrow> change_notification" where
  "summary cs reconnected =
     (let changes = first_seen (changes_of cs)
      in \<lparr>cn_kinds = filter (\<lambda>k. k \<in> fst ` set cs) kind_order,
          cn_container_changes = take MAX_CONTAINER_CHANGES changes,
          cn_truncated = (length changes > MAX_CONTAINER_CHANGES), cn_burst = length cs, cn_reconnected = reconnected\<rparr>)"

lemma first_seen_snoc: "first_seen (xs @ [x]) = (if x \<in> set xs then first_seen xs else first_seen xs @ [x])"
  by (simp add: first_seen_def)

lemma set_first_seen [simp]: "set (first_seen xs) = set xs"
  by (simp add: first_seen_def)

definition batch_holds :: "(change_kind \<times> docker_event) list \<Rightarrow> pending_batch \<Rightarrow> bool" where
  "batch_holds cs b \<longleftrightarrow>
     (let changes = first_seen (changes_of cs)
      in pb_kinds b = fst ` set cs \<and> pb_changes b = take MAX_CONTAINER_CHANGES changes \<and> pb_seen b = set (pb_changes b) \<and>
         pb_truncated b = (length changes > MAX_CONTAINER_CHANGES) \<and> pb_burst b = length cs)"

lemma changes_of_snoc:
  "changes_of (cs @ [(k, ev)]) = changes_of cs @ (if k = Containers then [change_of ev] else [])"
  by (simp add: changes_of_def)

lemma batch_holds_empty: "batch_holds [] (batch_empty now)"
  by (simp add: batch_holds_def batch_empty_def changes_of_def first_seen_def)

lemma in_set_takeD': "x \<in> set xs \<Longrightarrow> length xs \<le> n \<Longrightarrow> x \<in> set (take n xs)"
  by simp

lemma batch_holds_add:
  assumes "batch_holds cs b"
  shows "batch_holds (cs @ [(kind, ev)]) (batch_add kind ev b)"
proof (cases "kind = Containers")
  case False
  then show ?thesis using assms by (auto simp: batch_holds_def batch_add_def changes_of_snoc Let_def)
next
  case True
  let ?xs = "changes_of cs" and ?c = "change_of ev"
  have b: "pb_changes b = take MAX_CONTAINER_CHANGES (first_seen ?xs)" "pb_seen b = set (pb_changes b)"
    using assms by (auto simp: batch_holds_def Let_def)
  have new: "changes_of (cs @ [(kind, ev)]) = ?xs @ [?c]" using True by (simp add: changes_of_snoc)
  consider (seen) "?c \<in> set (pb_changes b)" | (late) "?c \<notin> set (pb_changes b)" "MAX_CONTAINER_CHANGES \<le> length (first_seen ?xs)"
    | (fresh) "?c \<notin> set ?xs" "length (first_seen ?xs) < MAX_CONTAINER_CHANGES"
    using b(1) by fastforce
  then show ?thesis
  proof cases
    case seen
    then have "?c \<in> set ?xs" using b(1) by (metis in_set_takeD set_first_seen)
    then show ?thesis
      using assms seen True b new by (auto simp: batch_holds_def batch_add_def first_seen_snoc Let_def)
  next
    case late
    then show ?thesis
      using assms True b new
      by (cases "?c \<in> set ?xs") (auto simp: batch_holds_def batch_add_def first_seen_snoc Let_def dest: in_set_takeD')
  next
    case fresh
    then show ?thesis
      using assms True b new by (auto simp: batch_holds_def batch_add_def first_seen_snoc Let_def)
  qed
qed

lemma batch_holds_notification: "batch_holds cs b \<Longrightarrow> notification_of b r = summary cs r"
  by (auto simp: batch_holds_def notification_of_def summary_def Let_def)

text \<open>The batches published so far and the one being collected, as a partition of the events.\<close>

definition monitor_holds ::
    "((change_kind \<times> docker_event) list \<times> bool) list \<Rightarrow> (change_kind \<times> docker_event) list \<Rightarrow> monitor \<Rightarrow> bool" where
  "monitor_holds batches pending m \<longleftrightarrow>
     mo_sent m = map (\<lambda>(cs, r). summary cs r) batches \<and> (\<forall>(cs, r) \<in> set batches. cs \<noteq> []) \<and>
     (case mo_pending m of None \<Rightarrow> pending = [] | Some b \<Rightarrow> pending \<noteq> [] \<and> batch_holds pending b) \<and>
     1000 \<le> mo_backoff m \<and> mo_backoff m \<le> 30000 \<and> (\<not> mo_running m \<longrightarrow> pending = [])"

definition closed_batches where
  "closed_batches batches pending m = (if pending = [] then batches else batches @ [(pending, mo_reconnected m)])"

lemma flush_holds:
  assumes "monitor_holds batches pending m"
  shows "monitor_holds (closed_batches batches pending m) [] (flush_pending m) \<and> mo_pending (flush_pending m) = None \<and>
         mo_backoff (flush_pending m) = mo_backoff m"
  using assms
  by (auto simp: monitor_holds_def flush_pending_def closed_batches_def batch_holds_notification split: option.splits)

lemma concat_closed [simp]: "concat (map fst (closed_batches batches pending m)) = concat (map fst batches) @ pending"
  by (simp add: closed_batches_def)

lemma monitor_holds_flags [simp]:
  "monitor_holds bs p (m\<lparr>mo_reconnected := r\<rparr>) = monitor_holds bs p m"
  by (simp add: monitor_holds_def)

lemma monitor_break_holds:
  assumes "monitor_holds batches pending m"
  shows "monitor_holds (closed_batches batches pending m) [] (monitor_break m)"
  using flush_holds [OF assms] by (simp add: monitor_holds_def monitor_break_def)

lemma add_holds:
  assumes "monitor_holds batches pending m" "mo_running m"
  shows "monitor_holds batches (pending @ [(kind, ev)])
           (m\<lparr>mo_pending := Some (case mo_pending m of Some b \<Rightarrow> batch_add kind ev b | None \<Rightarrow> batch_new now kind ev), mo_backoff := 1000\<rparr>)"
  using assms batch_holds_add [OF batch_holds_empty, of kind ev now]
  by (auto simp: monitor_holds_def batch_new_def batch_holds_add split: option.splits)

lemma classified_snoc:
  "classified (evs @ [ev]) = classified evs @ (case classify ev of None \<Rightarrow> [] | Some k \<Rightarrow> [(k, ev)])"
  by (simp add: classified_def)

lemma monitor_step_holds:
  assumes "monitor_step evs m evs' m'" "monitor_holds batches pending m" "concat (map fst batches) @ pending = classified evs"
  shows "\<exists>batches' pending'. monitor_holds batches' pending' m' \<and> concat (map fst batches') @ pending' = classified evs'"
  using assms
proof (induction rule: monitor_step.induct)
  case (mon_event m evs event now)
  note flushed = flush_holds [OF mon_event(2)]
  show ?case
  proof (cases "classify event")
    case None
    then show ?thesis using mon_event by (auto simp: on_event_def classified_snoc)
  next
    case (Some kind)
    define late where "late \<longleftrightarrow> (\<exists>b. mo_pending m = Some b \<and> now - pb_start b \<ge> DEBOUNCE)"
    show ?thesis
    proof (cases late)
      case True
      let ?m = "(flush_pending m)\<lparr>mo_reconnected := False\<rparr>"
      have "mo_running ?m" using mon_event(1) by (simp add: flush_pending_def split: option.splits)
      then have "monitor_holds (closed_batches batches pending m) ([] @ [(kind, event)]) (on_event now event m)"
        using add_holds [of _ "[]" ?m kind event now] flushed True Some
        by (auto simp: on_event_def late_def Let_def)
      then show ?thesis using mon_event(3) Some by (fastforce simp: classified_snoc)
    next
      case False
      then have "monitor_holds batches (pending @ [(kind, event)]) (on_event now event m)"
        using add_holds [OF mon_event(2,1), of kind event now] Some
        by (auto simp: on_event_def late_def Let_def split: option.splits)
      then show ?thesis using mon_event(3) Some by (fastforce simp: classified_snoc)
    qed
  qed
next
  case (mon_disconnect m evs waited has_client)
  let ?m = "(flush_pending m)\<lparr>mo_reconnected := True\<rparr>" and ?bs = "closed_batches batches pending m"
  have m: "monitor_holds ?bs [] ?m" using flush_holds [OF mon_disconnect(2)] by simp
  then have slower: "monitor_holds ?bs [] (?m\<lparr>mo_backoff := min (mo_backoff ?m * 2) 30000\<rparr>)"
    by (simp add: monitor_holds_def)
  have "monitor_holds ?bs [] (on_disconnect waited has_client m)"
    using slower monitor_break_holds [OF m] monitor_break_holds [OF slower]
    by (auto simp: on_disconnect_def Let_def closed_batches_def)
  then show ?case using mon_disconnect(3) by (intro exI [of _ ?bs] exI [of _ "[]"]) simp
next
  case (mon_tick m evs)
  have "monitor_holds (closed_batches batches pending m) [] (debounce_tick m)"
    using flush_holds [OF mon_tick(2)] mon_tick(2)
    by (auto simp: debounce_tick_def flush_pending_def monitor_holds_def closed_batches_def split: option.splits)
  then show ?case using mon_tick(3) by (intro exI [of _ "closed_batches batches pending m"] exI [of _ "[]"]) simp
next
  case (mon_cancel m evs)
  then show ?case
    using monitor_break_holds by (intro exI [of _ "closed_batches batches pending m"] exI [of _ "[]"]) simp
qed

lemma monitor_run_holds:
  "monitor_run evs m \<Longrightarrow> \<exists>batches pending. monitor_holds batches pending m \<and> concat (map fst batches) @ pending = classified evs"
proof (induction rule: monitor_run.induct)
  case run_new
  have "monitor_holds [] [] monitor_new" by (simp add: monitor_holds_def monitor_new_def)
  then show ?case by (intro exI [of _ "[]"]) (simp add: classified_def)
next
  case (run_step evs m evs' m')
  then show ?case using monitor_step_holds by blast
qed

text \<open>C34. Events are neither lost nor repeated up to the channel: in every run of the monitor the relevant events
  received so far are, in order, the events of the batches published, none empty, followed by those of the batch being
  collected; a published notification has exactly the kinds of its batch in a fixed order, the first 256 distinct
  container changes in order of first appearance, says whether there were more, and counts the events. The delay before a
  reconnect stays between one and thirty seconds, and a monitor that has stopped has published everything.\<close>

theorem monitor_publishes_batches:
  assumes "monitor_run evs m"
  shows "\<exists>batches pending.
           classified evs = concat (map fst batches) @ pending \<and> (\<forall>(cs, r) \<in> set batches. cs \<noteq> []) \<and>
           mo_sent m = map (\<lambda>(cs, r). summary cs r) batches \<and> (mo_pending m = None \<longleftrightarrow> pending = []) \<and>
           (\<not> mo_running m \<longrightarrow> pending = []) \<and> 1000 \<le> mo_backoff m \<and> mo_backoff m \<le> 30000"
proof -
  obtain batches pending where "monitor_holds batches pending m" "concat (map fst batches) @ pending = classified evs"
    using monitor_run_holds [OF assms] by blast
  then show ?thesis
    by (intro exI [of _ batches] exI [of _ pending]) (auto simp: monitor_holds_def split: option.splits)
qed

definition demo_event :: docker_event where
  "demo_event = \<lparr>event_type = ascii ''container'', ev_action = ascii ''die'', ev_actor_id = Some [1], actor_attributes = []\<rparr>"

theorem monitor_publishes_batches_witness:
  "\<exists>batches pending.
     classified [demo_event, demo_event] = concat (map fst batches) @ pending \<and>
     mo_sent (debounce_tick (on_event 10 demo_event (on_event 5 demo_event monitor_new))) = map (\<lambda>(cs, r). summary cs r) batches"
proof -
  let ?m1 = "on_event 5 demo_event monitor_new"
  let ?m2 = "on_event 10 demo_event ?m1"
  have running: "mo_running ?m1" "mo_running ?m2"
    by (simp_all add: on_event_def monitor_new_def Let_def flush_pending_def split: option.split)
  have "monitor_step [] monitor_new ([] @ [demo_event]) ?m1" by (rule mon_event) (simp add: monitor_new_def)
  then have "monitor_run [demo_event] ?m1" using run_step [OF run_new] by simp
  moreover have "monitor_step [demo_event] ?m1 ([demo_event] @ [demo_event]) ?m2" by (rule mon_event) (rule running)
  ultimately have "monitor_run [demo_event, demo_event] ?m2" using run_step by fastforce
  moreover have "monitor_step [demo_event, demo_event] ?m2 [demo_event, demo_event] (debounce_tick ?m2)"
    by (rule mon_tick) (rule running)
  ultimately have "monitor_run [demo_event, demo_event] (debounce_tick ?m2)" by (rule run_step)
  from monitor_publishes_batches [OF this] show ?thesis by blast
qed

section \<open>The consumer\<close>

text \<open>
  The channel is a \<^verbatim>\<open>watch\<close>: it holds the latest value and whether the receiver has seen it. The consumer takes a value and
  handles it before it looks again; rebuilding the namespace takes as long as Docker does.
\<close>

definition needs_rebuild :: "change_notification \<Rightarrow> bool" where
  "needs_rebuild n \<longleftrightarrow> list_ex (\<lambda>k. k = Containers \<or> k = Images \<or> k = Volumes) (cn_kinds n)"

datatype changed_resource = RkContainer | RkImage | RkVolume

fun resource_of_kind :: "change_kind \<Rightarrow> changed_resource option" where
  "resource_of_kind Containers = Some RkContainer"
| "resource_of_kind Images = Some RkImage"
| "resource_of_kind Volumes = Some RkVolume"
| "resource_of_kind Networks = None"
| "resource_of_kind Daemon = None"

definition publish_change :: "change_notification \<Rightarrow> changed_resource list" where
  "publish_change n = List.map_filter resource_of_kind (cn_kinds n)"

record consumer =
  co_value :: "change_notification option"
  co_unseen :: bool
  co_busy :: "change_notification option"
  co_rebuilds :: nat
  co_events :: "changed_resource list"

definition consumer_new :: consumer where
  "consumer_new = \<lparr>co_value = None, co_unseen = False, co_busy = None, co_rebuilds = 0, co_events = []\<rparr>"

definition watch_send :: "change_notification \<Rightarrow> consumer \<Rightarrow> consumer" where
  "watch_send n c = c\<lparr>co_value := Some n, co_unseen := True\<rparr>"

definition take_change :: "consumer \<Rightarrow> consumer" where
  "take_change c = c\<lparr>co_unseen := False, co_busy := co_value c\<rparr>"

definition handle_change :: "change_notification \<Rightarrow> consumer \<Rightarrow> consumer" where
  "handle_change n c =
     c\<lparr>co_busy := None, co_rebuilds := co_rebuilds c + (if needs_rebuild n then 1 else 0),
       co_events := co_events c @ publish_change n\<rparr>"

text \<open>The steps, with the notifications sent and those handled so far.\<close>

inductive consumer_run :: "change_notification list \<Rightarrow> change_notification list \<Rightarrow> consumer \<Rightarrow> bool" where
  cons_new: "consumer_run [] [] consumer_new"
| cons_send: "consumer_run sent handled c \<Longrightarrow> consumer_run (sent @ [n]) handled (watch_send n c)"
| cons_take: "consumer_run sent handled c \<Longrightarrow> co_busy c = None \<Longrightarrow> co_unseen c \<Longrightarrow> consumer_run sent handled (take_change c)"
| cons_done: "consumer_run sent handled c \<Longrightarrow> co_busy c = Some n \<Longrightarrow> consumer_run sent (handled @ [n]) (handle_change n c)"

definition busy_list :: "consumer \<Rightarrow> change_notification list" where
  "busy_list c = (case co_busy c of None \<Rightarrow> [] | Some n \<Rightarrow> [n])"

lemma consumer_run_latest:
  assumes "consumer_run sent handled c"
  shows "co_value c = (if sent = [] then None else Some (last sent)) \<and> (co_unseen c \<longrightarrow> sent \<noteq> []) \<and>
         (if co_unseen c then subseq (handled @ busy_list c) (butlast sent)
          else subseq (handled @ busy_list c) sent \<and> (sent \<noteq> [] \<longrightarrow> handled @ busy_list c \<noteq> [] \<and> last (handled @ busy_list c) = last sent)) \<and>
         co_rebuilds c = length (filter needs_rebuild handled) \<and> co_events c = concat (map publish_change handled)"
  using assms
proof (induction rule: consumer_run.induct)
  case cons_new
  then show ?case by (simp add: consumer_new_def busy_list_def)
next
  case (cons_send sent handled c n)
  have "subseq (butlast sent) sent" by (metis append_butlast_last_id butlast.simps(1) list_emb_append2 subseq_order.order_refl subseq_rev_drop_many sublist_imp_subseq)
  then show ?case using cons_send by (auto simp: watch_send_def busy_list_def split: if_splits intro: subseq_order.trans)
next
  case (cons_take sent handled c)
  then have "subseq (handled @ [last sent]) sent"
    by (metis append_butlast_last_id busy_list_def list_emb_append_mono option.case(1) append_Nil2 subseq_order.order_refl)
  then show ?case using cons_take by (auto simp: take_change_def busy_list_def)
next
  case (cons_done sent handled c n)
  then show ?case by (auto simp: handle_change_def busy_list_def split: if_splits)
qed

definition network_notice :: change_notification where
  "network_notice =
     \<lparr>cn_kinds = [Networks], cn_container_changes = [], cn_truncated = False, cn_burst = 1, cn_reconnected = False\<rparr>"

definition container_notice :: change_notification where
  "container_notice =
     \<lparr>cn_kinds = [Containers], cn_container_changes = [change_of demo_event], cn_truncated = False, cn_burst = 1,
      cn_reconnected = False\<rparr>"

text \<open>What the daemon sees of the published notifications: it handles some of them in order, and whenever it is
  idle and has seen the channel's value, the last one handled is the last one sent; one rebuild of the namespace
  happens for each notification handled that needs it. Others can be skipped: there is a run in which a container change is published,
  the daemon ends idle with nothing unseen, and neither was the namespace rebuilt nor did a client hear of the change.\<close>

theorem watch_drops_changes:
  "(\<forall>sent handled c. consumer_run sent handled c \<and> co_busy c = None \<and> \<not> co_unseen c \<longrightarrow>
      subseq handled sent \<and> (sent \<noteq> [] \<longrightarrow> handled \<noteq> [] \<and> last handled = last sent) \<and>
      co_rebuilds c = length (filter needs_rebuild handled) \<and> co_events c = concat (map publish_change handled)) \<and>
   (\<exists>sent handled c n. consumer_run sent handled c \<and> co_busy c = None \<and> \<not> co_unseen c \<and>
      n \<in> set sent \<and> needs_rebuild n \<and> co_rebuilds c = 0 \<and> co_events c = [])"
proof (intro conjI allI impI)
  fix sent handled c
  assume "consumer_run sent handled c \<and> co_busy c = None \<and> \<not> co_unseen c"
  then show "subseq handled sent" "sent \<noteq> [] \<Longrightarrow> handled \<noteq> []" "sent \<noteq> [] \<Longrightarrow> last handled = last sent"
      "co_rebuilds c = length (filter needs_rebuild handled)" "co_events c = concat (map publish_change handled)"
    using consumer_run_latest [of sent handled c] by (auto simp: busy_list_def)
next
  let ?c1 = "take_change (watch_send network_notice consumer_new)"
  let ?c2 = "watch_send network_notice (watch_send container_notice ?c1)"
  let ?c3 = "handle_change network_notice (take_change (handle_change network_notice ?c2))"
  have "consumer_run [network_notice] [] ?c1"
    using cons_take [OF cons_send [OF cons_new]] by (simp add: watch_send_def consumer_new_def)
  from cons_send [OF cons_send [OF this, of container_notice], of network_notice]
  have "consumer_run [network_notice, container_notice, network_notice] [] ?c2" by simp
  from cons_done [OF this, of network_notice]
  have "consumer_run [network_notice, container_notice, network_notice] [network_notice] (handle_change network_notice ?c2)"
    by (simp add: watch_send_def take_change_def consumer_new_def)
  from cons_take [OF this]
  have "consumer_run [network_notice, container_notice, network_notice] [network_notice] (take_change (handle_change network_notice ?c2))"
    by (simp add: watch_send_def take_change_def handle_change_def)
  from cons_done [OF this, of network_notice]
  have "consumer_run [network_notice, container_notice, network_notice] [network_notice, network_notice] ?c3"
    by (simp add: watch_send_def take_change_def handle_change_def)
  moreover have "co_busy ?c3 = None" "\<not> co_unseen ?c3" "co_rebuilds ?c3 = 0" "co_events ?c3 = []"
    by (simp_all add: handle_change_def take_change_def watch_send_def consumer_new_def needs_rebuild_def network_notice_def
        publish_change_def List.map_filter_def)
  moreover have "needs_rebuild container_notice" by (simp add: needs_rebuild_def container_notice_def)
  ultimately show "\<exists>sent handled c n. consumer_run sent handled c \<and> co_busy c = None \<and> \<not> co_unseen c \<and>
      n \<in> set sent \<and> needs_rebuild n \<and> co_rebuilds c = 0 \<and> co_events c = []"
    by (metis list.set_intros(1,2))
qed

theorem watch_drops_changes_witness:
  "let c = handle_change container_notice (take_change (watch_send container_notice consumer_new))
   in consumer_run [container_notice] [container_notice] c \<and> co_rebuilds c = length (filter needs_rebuild [container_notice]) \<and>
      co_events c = [RkContainer]"
proof -
  let ?c = "take_change (watch_send container_notice consumer_new)"
  have "consumer_run [container_notice] [] ?c"
    using cons_take [OF cons_send [OF cons_new]] by (simp add: watch_send_def consumer_new_def)
  from cons_done [OF this, of container_notice]
  have run: "consumer_run [container_notice] [container_notice] (handle_change container_notice ?c)"
    by (simp add: take_change_def watch_send_def)
  moreover have "co_busy (handle_change container_notice ?c) = None" "\<not> co_unseen (handle_change container_notice ?c)"
    by (simp_all add: handle_change_def take_change_def)
  ultimately show ?thesis
    using watch_drops_changes by (auto simp: Let_def publish_change_def List.map_filter_def container_notice_def)
qed

end
