(* ===== verification/Request_Coordinator.thy ===== *)
theory Request_Coordinator
  imports Prelude
begin

text \<open>
  Request deduplication and the TTL cache, \<^verbatim>\<open>docker-core/src/cache/coordinator.rs\<close>. Instants are natural numbers. Calls of
  \<^verbatim>\<open>run_once\<close> interleave: entering the critical section, joining or leading a flight, the end of the shared future, the
  return of the waiters and the guard of the leader, which gives up when the lock is taken.
\<close>

section \<open>The TTL cache\<close>

record 'v ttl_entry =
  tt_value :: 'v
  tt_inserted_at :: nat
  tt_expires_at :: "nat option"

definition ttl_fresh :: "nat \<Rightarrow> 'v \<Rightarrow> nat option \<Rightarrow> 'v ttl_entry" where
  "ttl_fresh now v ttl = \<lparr>tt_value = v, tt_inserted_at = now, tt_expires_at = map_option (\<lambda>t. now + t) ttl\<rparr>"

definition ttl_expired :: "'v ttl_entry \<Rightarrow> nat \<Rightarrow> bool" where
  "ttl_expired e now = (case tt_expires_at e of None \<Rightarrow> False | Some at \<Rightarrow> now \<ge> at)"

type_synonym ('k, 'v) ttl_cache = "('k \<times> 'v ttl_entry) list"

definition ttl_get :: "nat \<Rightarrow> 'k \<Rightarrow> nat option \<Rightarrow> ('k, 'v) ttl_cache \<Rightarrow> 'v option \<times> ('k, 'v) ttl_cache" where
  "ttl_get now key ttl m =
     (let expired = (case map_of m key of
                       None \<Rightarrow> False
                     | Some e \<Rightarrow> (case ttl of Some t \<Rightarrow> now - tt_inserted_at e \<ge> t | None \<Rightarrow> False))
      in if expired then (None, hm_remove key m) else (map_option tt_value (map_of m key), m))"

definition ttl_insert :: "nat \<Rightarrow> 'k \<Rightarrow> 'v \<Rightarrow> nat option \<Rightarrow> ('k, 'v) ttl_cache \<Rightarrow> ('k, 'v) ttl_cache" where
  "ttl_insert now key v ttl m = hm_insert key (ttl_fresh now v ttl) m"

definition ttl_remove :: "'k \<Rightarrow> ('k, 'v) ttl_cache \<Rightarrow> ('k, 'v) ttl_cache" where
  "ttl_remove key m = hm_remove key m"

definition ttl_contains :: "'k \<Rightarrow> ('k, 'v) ttl_cache \<Rightarrow> bool" where
  "ttl_contains key m = hm_contains key m"

definition ttl_prune_expired :: "nat \<Rightarrow> nat option \<Rightarrow> ('k, 'v) ttl_cache \<Rightarrow> nat \<times> ('k, 'v) ttl_cache" where
  "ttl_prune_expired now ttl m =
     (case ttl of
        None \<Rightarrow> (0, m)
      | Some t \<Rightarrow>
          let m' = filter (\<lambda>(_, e). now - tt_inserted_at e < t) m in (length m - length m', m'))"

definition ttl_clear :: "('k, 'v) ttl_cache \<Rightarrow> ('k, 'v) ttl_cache" where
  "ttl_clear m = []"

text \<open>What the cache promises: a value is returned while it is younger than the lifetime asked for, and pruning changes no answer.\<close>

lemma ttl_get_insert:
  "fst (ttl_get (now + d) key (Some t) (ttl_insert now key v ttl m)) = (if d < t then Some v else None)"
  "other \<noteq> key \<Longrightarrow> fst (ttl_get n other t' (ttl_insert now key v ttl m)) = fst (ttl_get n other t' m)"
  by (simp_all add: ttl_get_def ttl_insert_def ttl_fresh_def Let_def split: option.split)

lemma map_of_filter_distinct:
  "distinct (map fst m) \<Longrightarrow>
     map_of (filter (\<lambda>(_, e). P e) m) k = (case map_of m k of Some e \<Rightarrow> if P e then Some e else None | None \<Rightarrow> None)"
proof (induction m)
  case (Cons a m)
  obtain l e where a: "a = (l, e)" by fastforce
  have "map_of m l = None" using Cons.prems a by (simp add: map_of_eq_None_iff)
  then show ?case using Cons a by (cases "l = k") (auto split: option.splits)
qed simp

lemma ttl_prune_answers:
  assumes "distinct (map fst m)"
  shows "fst (ttl_get now key (Some t) (snd (ttl_prune_expired now (Some t) m))) = fst (ttl_get now key (Some t) m)"
  using assms by (auto simp: ttl_get_def ttl_prune_expired_def Let_def map_of_filter_distinct split: option.splits)

section \<open>Flights\<close>

datatype flight_outcome = Leader | Joined

text \<open>A call: before the lock, holding it, awaiting a flight (as its leader or not), returned, or dropped by its caller.\<close>

datatype ('k, 'v) call =
  Entering 'k
| Inside 'k
| Awaiting 'k nat bool
| Returned 'k flight_outcome 'v
| Dropped

text \<open>A flight is its key and, once the shared future has ended, its value.\<close>

record ('k, 'v) coordinator =
  rq_in_flight :: "('k \<times> nat) list"
  rq_flights :: "('k \<times> 'v option) list"
  rq_lock :: "nat option"
  rq_calls :: "('k, 'v) call list"

definition coordinator_new :: "('k, 'v) coordinator" where
  "coordinator_new = \<lparr>rq_in_flight = [], rq_flights = [], rq_lock = None, rq_calls = []\<rparr>"

text \<open>\<^verbatim>\<open>InFlightGuard::drop\<close>: \<^verbatim>\<open>try_lock\<close>, and nothing when it fails.\<close>

definition guard_drop :: "'k \<Rightarrow> ('k, 'v) coordinator \<Rightarrow> ('k, 'v) coordinator" where
  "guard_drop key s = (if rq_lock s = None then s\<lparr>rq_in_flight := hm_remove key (rq_in_flight s)\<rparr> else s)"

definition set_call :: "nat \<Rightarrow> ('k, 'v) call \<Rightarrow> ('k, 'v) coordinator \<Rightarrow> ('k, 'v) coordinator" where
  "set_call i c s = s\<lparr>rq_calls := (rq_calls s)[i := c]\<rparr>"

definition call_is :: "('k, 'v) coordinator \<Rightarrow> nat \<Rightarrow> ('k, 'v) call \<Rightarrow> bool" where
  "call_is s i c \<longleftrightarrow> i < length (rq_calls s) \<and> rq_calls s ! i = c"

inductive flight_step :: "('k, 'v) coordinator \<Rightarrow> ('k, 'v) coordinator \<Rightarrow> bool" where
  fl_call: "flight_step s (s\<lparr>rq_calls := rq_calls s @ [Entering k]\<rparr>)"
| fl_acquire: "call_is s i (Entering k) \<Longrightarrow> rq_lock s = None \<Longrightarrow> flight_step s (set_call i (Inside k) (s\<lparr>rq_lock := Some i\<rparr>))"
| fl_join: "call_is s i (Inside k) \<Longrightarrow> map_of (rq_in_flight s) k = Some f \<Longrightarrow>
    flight_step s (set_call i (Awaiting k f False) (s\<lparr>rq_lock := None\<rparr>))"
| fl_lead: "call_is s i (Inside k) \<Longrightarrow> map_of (rq_in_flight s) k = None \<Longrightarrow>
    flight_step s (set_call i (Awaiting k (length (rq_flights s)) True)
      (s\<lparr>rq_lock := None, rq_in_flight := hm_insert k (length (rq_flights s)) (rq_in_flight s),
         rq_flights := rq_flights s @ [(k, None)]\<rparr>))"
| fl_produce: "call_is s i (Awaiting k f l) \<Longrightarrow> f < length (rq_flights s) \<Longrightarrow> rq_flights s ! f = (k', None) \<Longrightarrow>
    flight_step s (s\<lparr>rq_flights := (rq_flights s)[f := (k', Some v)]\<rparr>)"
| fl_joined: "call_is s i (Awaiting k f False) \<Longrightarrow> f < length (rq_flights s) \<Longrightarrow> rq_flights s ! f = (k', Some v) \<Longrightarrow>
    flight_step s (set_call i (Returned k Joined v) s)"
| fl_led: "call_is s i (Awaiting k f True) \<Longrightarrow> f < length (rq_flights s) \<Longrightarrow> rq_flights s ! f = (k', Some v) \<Longrightarrow>
    flight_step s (guard_drop k (set_call i (Returned k Leader v) s))"

text \<open>Callers that go away, \<^verbatim>\<open>forget\<close> and \<^verbatim>\<open>clear\<close>.\<close>

inductive disturb_step :: "('k, 'v) coordinator \<Rightarrow> ('k, 'v) coordinator \<Rightarrow> bool" where
  di_entering: "call_is s i (Entering k) \<Longrightarrow> disturb_step s (set_call i Dropped s)"
| di_joined: "call_is s i (Awaiting k f False) \<Longrightarrow> disturb_step s (set_call i Dropped s)"
| di_leader: "call_is s i (Awaiting k f True) \<Longrightarrow> disturb_step s (guard_drop k (set_call i Dropped s))"
| di_forget: "rq_lock s = None \<Longrightarrow> disturb_step s (s\<lparr>rq_in_flight := hm_remove k (rq_in_flight s)\<rparr>)"
| di_clear: "rq_lock s = None \<Longrightarrow> disturb_step s (s\<lparr>rq_in_flight := []\<rparr>)"

definition in_flight_count :: "('k, 'v) coordinator \<Rightarrow> nat" where
  "in_flight_count s = length (rq_in_flight s)"

abbreviation flights_reach where "flights_reach \<equiv> flight_step\<^sup>*\<^sup>*"

definition running :: "('k, 'v) coordinator \<Rightarrow> nat \<Rightarrow> 'k \<Rightarrow> bool" where
  "running s f k \<longleftrightarrow> f < length (rq_flights s) \<and> rq_flights s ! f = (k, None)"

section \<open>One flight per key\<close>

definition flights_ok :: "('k, 'v) coordinator \<Rightarrow> bool" where
  "flights_ok s \<longleftrightarrow>
     (\<forall>f k. running s f k \<longrightarrow> map_of (rq_in_flight s) k = Some f) \<and>
     (\<forall>k f. map_of (rq_in_flight s) k = Some f \<longrightarrow> f < length (rq_flights s) \<and> fst (rq_flights s ! f) = k) \<and>
     (\<forall>i k f l. call_is s i (Awaiting k f l) \<longrightarrow> f < length (rq_flights s) \<and> fst (rq_flights s ! f) = k) \<and>
     (\<forall>i k f. call_is s i (Awaiting k f True) \<longrightarrow> map_of (rq_in_flight s) k = Some f) \<and>
     (\<forall>i j k f. call_is s i (Awaiting k f True) \<longrightarrow> call_is s j (Awaiting k f True) \<longrightarrow> i = j) \<and>
     (\<forall>i k out v. call_is s i (Returned k out v) \<longrightarrow> (\<exists>f < length (rq_flights s). rq_flights s ! f = (k, Some v)))"

lemma call_is_set [simp]:
  "call_is (set_call i c s) j d \<longleftrightarrow> (if j = i then i < length (rq_calls s) \<and> d = c else call_is s j d)"
  by (auto simp: call_is_def set_call_def)

lemma call_is_append:
  "call_is (s\<lparr>rq_calls := rq_calls s @ [c]\<rparr>) j d \<longleftrightarrow> (if j = length (rq_calls s) then d = c else call_is s j d)"
  by (auto simp: call_is_def nth_append)

lemma call_is_fields [simp]:
  "call_is (s\<lparr>rq_lock := x\<rparr>) = call_is s" "call_is (s\<lparr>rq_in_flight := y\<rparr>) = call_is s" "call_is (s\<lparr>rq_flights := z\<rparr>) = call_is s"
  by (auto simp: call_is_def fun_eq_iff)

lemma set_call_fields [simp]:
  "rq_in_flight (set_call i c s) = rq_in_flight s" "rq_flights (set_call i c s) = rq_flights s" "rq_lock (set_call i c s) = rq_lock s"
  by (simp_all add: set_call_def)

lemma flights_ok_new: "flights_ok coordinator_new"
  by (simp add: flights_ok_def coordinator_new_def running_def call_is_def)

lemma running_update:
  assumes "f < length (rq_flights s)" "rq_flights s ! f = (k', None)"
  shows "running (s\<lparr>rq_flights := (rq_flights s)[f := (k', Some v)]\<rparr>) g k \<longleftrightarrow> g \<noteq> f \<and> running s g k"
  using assms by (auto simp: running_def nth_list_update)

lemma flights_okI:
  assumes "\<And>f k. running s f k \<Longrightarrow> map_of (rq_in_flight s) k = Some f"
    and "\<And>k f. map_of (rq_in_flight s) k = Some f \<Longrightarrow> f < length (rq_flights s) \<and> fst (rq_flights s ! f) = k"
    and "\<And>i k f l. call_is s i (Awaiting k f l) \<Longrightarrow> f < length (rq_flights s) \<and> fst (rq_flights s ! f) = k"
    and "\<And>i k f. call_is s i (Awaiting k f True) \<Longrightarrow> map_of (rq_in_flight s) k = Some f"
    and "\<And>i j k f. call_is s i (Awaiting k f True) \<Longrightarrow> call_is s j (Awaiting k f True) \<Longrightarrow> i = j"
    and "\<And>i k out v. call_is s i (Returned k out v) \<Longrightarrow> \<exists>f < length (rq_flights s). rq_flights s ! f = (k, Some v)"
  shows "flights_ok s"
  unfolding flights_ok_def using assms by blast

lemma flights_okD:
  assumes "flights_ok s"
  shows "running s f k \<Longrightarrow> map_of (rq_in_flight s) k = Some f"
    and "map_of (rq_in_flight s) k = Some f \<Longrightarrow> f < length (rq_flights s) \<and> fst (rq_flights s ! f) = k"
    and "call_is s i (Awaiting k f l) \<Longrightarrow> f < length (rq_flights s) \<and> fst (rq_flights s ! f) = k"
    and "call_is s i (Awaiting k f True) \<Longrightarrow> map_of (rq_in_flight s) k = Some f"
    and "call_is s i (Awaiting k f True) \<Longrightarrow> call_is s j (Awaiting k f True) \<Longrightarrow> i = j"
    and "call_is s i (Returned k out v) \<Longrightarrow> \<exists>f < length (rq_flights s). rq_flights s ! f = (k, Some v)"
  using assms unfolding flights_ok_def by blast+

lemma running_fields [simp]:
  "running (s\<lparr>rq_lock := x\<rparr>) = running s" "running (s\<lparr>rq_in_flight := y\<rparr>) = running s" "running (s\<lparr>rq_calls := c\<rparr>) = running s"
  "running (set_call i d s) = running s"
  by (auto simp: running_def set_call_def fun_eq_iff)

lemma running_append: "running (s\<lparr>rq_flights := rq_flights s @ [(k, None)]\<rparr>) f k' \<longleftrightarrow> (f = length (rq_flights s) \<and> k' = k) \<or> running s f k'"
  by (auto simp: running_def nth_append)

lemma lead_ok:
  assumes "flights_ok s" "call_is s i (Inside k)" "map_of (rq_in_flight s) k = None"
  shows "flights_ok (set_call i (Awaiting k (length (rq_flights s)) True)
      (s\<lparr>rq_lock := None, rq_in_flight := hm_insert k (length (rq_flights s)) (rq_in_flight s),
         rq_flights := rq_flights s @ [(k, None)]\<rparr>))"
proof -
  note D = flights_okD [OF assms(1)]
  let ?n = "length (rq_flights s)"
  have none: "\<not> running s f k" "\<not> call_is s j (Awaiting k f True)" for f j
    using D(1) [of f k] D(4) [of j k f] assms(3) by auto
  have old: "\<not> call_is s j (Awaiting k' ?n l)" for j k' l using D(3) [of j k' ?n l] by auto
  have more: "f < ?n \<Longrightarrow> (rq_flights s @ [(k, None)]) ! f = rq_flights s ! f" for f by (simp add: nth_append)
  let ?t = "s\<lparr>rq_lock := None, rq_in_flight := hm_insert k ?n (rq_in_flight s), rq_flights := rq_flights s @ [(k, None)]\<rparr>"
  have run: "running ?t f k' \<longleftrightarrow> (f = ?n \<and> k' = k) \<or> running s f k'" for f k'
    by (auto simp: running_def nth_append)
  have "flights_ok (set_call i (Awaiting k ?n True) ?t)"
  proof (rule flights_okI, goal_cases)
    case (1 f k')
    then show ?case using run none D(1) by auto
  next
    case (2 k' f)
    then show ?case using D(2) [of k' f] more by (auto split: if_splits simp: less_Suc_eq)
  next
    case (3 j k' f l)
    then show ?case using D(3) [of j k' f l] more by (auto split: if_splits simp: less_Suc_eq)
  next
    case (4 j k' f)
    then show ?case using D(4) [of j k' f] none by (auto split: if_splits)
  next
    case (5 j j' k' f)
    then show ?case using D(5) [of j k' f j'] old by (auto split: if_splits)
  next
    case (6 j k' out v)
    then show ?case using D(6) [of j k' out v] more by (fastforce split: if_splits simp: less_Suc_eq)
  qed
  then show ?thesis .
qed

lemma led_ok:
  assumes "flights_ok s" "call_is s i (Awaiting k f True)" "rq_flights s ! f = (k', Some v)"
  shows "flights_ok (guard_drop k (set_call i (Returned k Leader v) s))"
proof -
  note D = flights_okD [OF assms(1)]
  have f: "f < length (rq_flights s)" "k' = k" "map_of (rq_in_flight s) k = Some f"
    using D(3,4) [OF assms(2)] assms(3) by auto
  have gone: "\<not> running s g k" for g using D(1) [of g k] f(3) assms(3) by (auto simp: running_def)
  have alone: "\<not> call_is s j (Awaiting k g True)" if "j \<noteq> i" for j g
    using D(4) [of j k g] D(5) [OF assms(2), of j] f(3) that by auto
  let ?t = "set_call i (Returned k Leader v) s"
  have calls: "call_is ?t j (Awaiting k2 g l) \<Longrightarrow> j \<noteq> i \<and> call_is s j (Awaiting k2 g l)" for j k2 g l
    by (simp split: if_splits)
  have ret: "\<exists>f < length (rq_flights s). rq_flights s ! f = (k2, Some w)" if "call_is ?t j (Returned k2 out w)" for j k2 out w
    using that D(6) [of j k2 out w] assms(3) f by (auto split: if_splits)
  have ok: "flights_ok ?t"
  proof (rule flights_okI, goal_cases)
    case (3 j k2 g l)
    then show ?case using D(3) [of j k2 g l] calls [OF 3] by (simp del: call_is_set)
  next
    case (4 j k2 g)
    then show ?case using D(4) [of j k2 g] calls [OF 4] by (simp del: call_is_set)
  next
    case (5 j j' k2 g)
    then show ?case using D(5) [of j k2 g j'] calls [OF 5(1)] calls [OF 5(2)] by blast
  next
    case (6 j k2 out w)
    then show ?case using ret [OF 6] by (simp del: call_is_set)
  qed (use D(1,2) in simp_all)
  have "flights_ok (?t\<lparr>rq_in_flight := hm_remove k (rq_in_flight ?t)\<rparr>)"
  proof (rule flights_okI, goal_cases)
    case (1 g k2)
    then show ?case using gone D(1) by auto
  next
    case (4 j k2 g)
    then have "call_is ?t j (Awaiting k2 g True)" by (simp only: call_is_fields)
    from calls [OF this] have "j \<noteq> i \<and> call_is s j (Awaiting k2 g True)" .
    then show ?case using alone [of j g] D(4) [of j k2 g] by (cases "k2 = k") auto
  next
    case (3 j k2 g l)
    then show ?case using flights_okD(3) [OF ok, of j k2 g l] by simp
  next
    case (5 j j' k2 g)
    then show ?case using flights_okD(5) [OF ok, of j k2 g j'] by (simp only: call_is_fields)
  next
    case (6 j k2 out w)
    then show ?case using flights_okD(6) [OF ok, of j k2 out w] by (simp only: call_is_fields) simp
  qed (use flights_okD(2) [OF ok] in \<open>auto split: if_splits\<close>)
  with ok show ?thesis by (simp add: guard_drop_def)
qed

lemma flight_step_ok:
  assumes "flight_step s t" "flights_ok s"
  shows "flights_ok t"
  using assms
proof (induction rule: flight_step.induct)
  case (fl_call s k)
  then show ?case by (intro flights_okI) (auto simp: call_is_append dest: flights_okD split: if_splits)
next
  case (fl_acquire s i k)
  then show ?case by (intro flights_okI) (auto dest: flights_okD split: if_splits)
next
  case (fl_join s i k f)
  then show ?case by (intro flights_okI) (auto dest: flights_okD split: if_splits)
next
  case (fl_lead s i k)
  then show ?case by (intro lead_ok)
next
  case (fl_produce s i k f l k' v)
  let ?t = "s\<lparr>rq_flights := (rq_flights s)[f := (k', Some v)]\<rparr>"
  have same: "g < length (rq_flights s) \<Longrightarrow> fst (rq_flights ?t ! g) = fst (rq_flights s ! g)" for g
    using fl_produce(3) by (cases "g = f") simp_all
  have kept: "rq_flights s ! g = (k2, Some w) \<Longrightarrow> rq_flights ?t ! g = (k2, Some w)" for g k2 w
    using fl_produce(3) by (cases "g = f") auto
  note D = flights_okD [OF fl_produce(4)]
  show ?case
  proof (rule flights_okI, goal_cases)
    case (1 g k2)
    then show ?case using running_update [OF fl_produce(2,3)] D(1) by auto
  next
    case (6 j k2 out w)
    then show ?case using D(6) [of j k2 out w] kept by auto
  next
    case (3 j k2 g l)
    then show ?case using D(3) [of j k2 g l] same [of g] by simp
  next
    case (5 j j' k2 g)
    then show ?case using D(5) [of j k2 g j'] by (simp only: call_is_fields)
  next
    case (2 k2 g)
    then show ?case using D(2) [of k2 g] same [of g] by simp
  next
    case (4 j k2 g)
    then show ?case using D(4) [of j k2 g] by simp
  qed
next
  case (fl_joined s i k f k' v)
  note D = flights_okD [OF fl_joined(4)]
  have "k' = k" using D(3) [OF fl_joined(1)] fl_joined(3) by simp
  with fl_joined show ?case by (intro flights_okI) (auto dest: flights_okD split: if_splits)
next
  case (fl_led s i k f k' v)
  then show ?case by (intro led_ok)
qed


section \<open>A flight that is never cleared\<close>

definition requests_for :: "'k \<Rightarrow> ('k, 'v) coordinator \<Rightarrow> nat" where
  "requests_for k s = length (filter (\<lambda>p. fst p = k) (rq_flights s))"

text \<open>An entry whose flight is over and whose leader is gone; calls from the \<open>n\<close>-th on have only got its value.\<close>

definition stale :: "'k \<Rightarrow> 'v \<Rightarrow> nat \<Rightarrow> nat \<Rightarrow> ('k, 'v) coordinator \<Rightarrow> bool" where
  "stale k v f n s \<longleftrightarrow>
     map_of (rq_in_flight s) k = Some f \<and> f < length (rq_flights s) \<and> rq_flights s ! f = (k, Some v) \<and>
     (\<forall>i g l. call_is s i (Awaiting k g l) \<longrightarrow> g = f \<and> \<not> l) \<and>
     (\<forall>i out w. n \<le> i \<longrightarrow> call_is s i (Returned k out w) \<longrightarrow> out = Joined \<and> w = v)"

lemma requests_for_update:
  "f < length xs \<Longrightarrow> fst (xs ! f) = fst y \<Longrightarrow> length (filter (\<lambda>p. fst p = k) (xs[f := y])) = length (filter (\<lambda>p. fst p = k) xs)"
  by (induction xs arbitrary: f) (auto split: nat.split simp: nth_Cons')

lemma staleI:
  assumes "map_of (rq_in_flight s) k = Some f" "f < length (rq_flights s)" "rq_flights s ! f = (k, Some v)"
    and "\<And>i g l. call_is s i (Awaiting k g l) \<Longrightarrow> g = f \<and> \<not> l"
    and "\<And>i out w. n \<le> i \<Longrightarrow> call_is s i (Returned k out w) \<Longrightarrow> out = Joined \<and> w = v"
  shows "stale k v f n s"
  using assms by (auto simp: stale_def)

lemma staleD:
  assumes "stale k v f n s"
  shows "map_of (rq_in_flight s) k = Some f" "f < length (rq_flights s)" "rq_flights s ! f = (k, Some v)"
    and "call_is s i (Awaiting k g l) \<Longrightarrow> g = f \<and> \<not> l"
    and "n \<le> i \<Longrightarrow> call_is s i (Returned k out w) \<Longrightarrow> out = Joined \<and> w = v"
  using assms unfolding stale_def by blast+

lemma stale_step:
  assumes "flight_step s t" "stale k v f n s"
  shows "stale k v f n t \<and> requests_for k t = requests_for k s"
  using assms
proof (induction rule: flight_step.induct)
  case (fl_call s k2)
  then show ?case by (auto intro!: staleI dest: staleD simp: call_is_append requests_for_def split: if_splits)
next
  case (fl_acquire s i k2)
  then show ?case by (auto intro!: staleI dest: staleD simp: requests_for_def split: if_splits)
next
  case (fl_join s i k2 g)
  have here: "g = f" if "k2 = k" using staleD(1) [OF fl_join(3)] fl_join(2) that by simp
  let ?t = "set_call i (Awaiting k2 g False) (s\<lparr>rq_lock := None\<rparr>)"
  have "stale k v f n ?t"
  proof (rule staleI, goal_cases)
    case (4 j h l)
    then show ?case using here staleD(4) [OF fl_join(3), of j h l] by (cases "j = i") auto
  next
    case (5 j out w)
    then show ?case using staleD(5) [OF fl_join(3), of j out w] by (cases "j = i") auto
  qed (use staleD(1-3) [OF fl_join(3)] in simp_all)
  then show ?case by (simp add: requests_for_def)
next
  case (fl_lead s i k2)
  then have "k2 \<noteq> k" using staleD(1) [OF fl_lead(3)] by auto
  then show ?case using fl_lead by (auto intro!: staleI dest: staleD simp: requests_for_def nth_append split: if_splits)
next
  case (fl_produce s i k2 g l k' w)
  then have "g \<noteq> f" using staleD(3) [OF fl_produce(4)] by auto
  with fl_produce show ?case by (auto intro!: staleI dest: staleD simp: requests_for_def requests_for_update)
next
  case (fl_joined s i k2 g k' w)
  have "w = v" if "k2 = k" using staleD(3,4) [OF fl_joined(4)] fl_joined(1,3) that by fastforce
  with fl_joined show ?case by (auto intro!: staleI dest: staleD simp: requests_for_def split: if_splits)
next
  case (fl_led s i k2 g k' w)
  have "k2 \<noteq> k" using staleD(4) [OF fl_led(4)] fl_led(1) by auto
  then show ?case
    using fl_led by (auto intro!: staleI dest: staleD simp: requests_for_def guard_drop_def split: if_splits)
qed

lemma stale_forever:
  assumes "flights_reach s t" "stale k v f n s"
  shows "stale k v f n t \<and> requests_for k t = requests_for k s"
  using assms by (induction rule: rtranclp_induct) (auto dest: stale_step)

definition stuck :: "'k \<Rightarrow> 'v \<Rightarrow> ('k, 'v) coordinator" where
  "stuck k v =
     \<lparr>rq_in_flight = [(k, 0)], rq_flights = [(k, Some v)], rq_lock = None, rq_calls = [Returned k Leader v, Returned k Joined v]\<rparr>"

definition first_call :: "'k \<Rightarrow> 'v \<Rightarrow> ('k, 'v) coordinator" where
  "first_call k v =
     \<lparr>rq_in_flight = [(k, 0)], rq_flights = [(k, Some v)], rq_lock = None, rq_calls = [Awaiting k 0 True]\<rparr>"

lemma flight_steps:
  "flight_step a b \<Longrightarrow> flight_step b c \<Longrightarrow> flight_step c d \<Longrightarrow> flight_step d e \<Longrightarrow> flights_reach e f \<Longrightarrow> flights_reach a f"
  by (blast intro: converse_rtranclp_into_rtranclp)

lemma reach_first_call: "flights_reach coordinator_new (first_call k v)"
proof -
  let ?s1 = "coordinator_new\<lparr>rq_calls := [Entering k]\<rparr>"
  let ?s2 = "coordinator_new\<lparr>rq_calls := [Inside k], rq_lock := Some 0\<rparr>"
  let ?s3 = "\<lparr>rq_in_flight = [(k, 0)], rq_flights = [(k, None)], rq_lock = None, rq_calls = [Awaiting k 0 True]\<rparr>"
  have s1: "flight_step coordinator_new ?s1" using fl_call [of coordinator_new k] by (simp add: coordinator_new_def)
  have s2: "flight_step ?s1 ?s2"
    using fl_acquire [of ?s1 0 k] by (simp add: coordinator_new_def call_is_def set_call_def)
  have s3: "flight_step ?s2 ?s3"
    using fl_lead [of ?s2 0 k] by (simp add: coordinator_new_def call_is_def set_call_def hm_insert_def hm_remove_def)
  have s4: "flight_step ?s3 (first_call k v)"
    using fl_produce [of ?s3 0 k 0 True k v] by (simp add: call_is_def first_call_def)
  show ?thesis by (rule flight_steps [OF s1 s2 s3 s4]) simp
qed

lemma reach_stuck: "flights_reach (first_call k v) (stuck k v)"
proof -
  let ?s1 = "first_call k v\<lparr>rq_calls := [Awaiting k 0 True, Entering k]\<rparr>"
  let ?s2 = "first_call k v\<lparr>rq_calls := [Awaiting k 0 True, Inside k], rq_lock := Some 1\<rparr>"
  let ?s3 = "first_call k v\<lparr>rq_calls := [Returned k Leader v, Inside k], rq_lock := Some 1\<rparr>"
  let ?s4 = "first_call k v\<lparr>rq_calls := [Returned k Leader v, Awaiting k 0 False]\<rparr>"
  have s1: "flight_step (first_call k v) ?s1" using fl_call [of "first_call k v" k] by (simp add: first_call_def)
  have s2: "flight_step ?s1 ?s2"
    using fl_acquire [of ?s1 1 k] by (simp add: first_call_def call_is_def set_call_def)
  have s3: "flight_step ?s2 ?s3"
    using fl_led [of ?s2 0 k 0 k v] by (simp add: first_call_def call_is_def set_call_def guard_drop_def)
  have s4: "flight_step ?s3 ?s4"
    using fl_join [of ?s3 1 k 0] by (simp add: first_call_def call_is_def set_call_def)
  have s5: "flight_step ?s4 (stuck k v)"
    using fl_joined [of ?s4 1 k 0 k v] by (simp add: first_call_def call_is_def set_call_def stuck_def)
  show ?thesis by (rule flight_steps [OF s1 s2 s3 s4]) (use s5 in simp)
qed

lemma stuck_stale: "stale k v 0 2 (stuck k v)"
  by (rule staleI) (auto simp: stuck_def call_is_def less_Suc_eq)

text \<open>The leader's guard takes the lock with \<^verbatim>\<open>try_lock\<close> and gives up when another call holds it, so the entry of a finished
  request can stay: a state is reachable in which both calls have returned and the entry is still there, and from it on, until
  something is forgotten, no request for the key is ever started again and every later call gets the old value.\<close>

theorem finished_flight_persists:
  "\<exists>s. flights_reach coordinator_new s \<and> rq_calls s = [Returned k Leader v, Returned k Joined v] \<and> in_flight_count s = 1 \<and>
     (\<forall>t. flights_reach s t \<longrightarrow> requests_for k t = 1 \<and> in_flight_count t \<ge> 1 \<and>
        (\<forall>i out w. 2 \<le> i \<longrightarrow> call_is t i (Returned k out w) \<longrightarrow> out = Joined \<and> w = v))"
proof (intro exI conjI allI impI)
  show "flights_reach coordinator_new (stuck k v)" using reach_first_call reach_stuck by (rule rtranclp_trans)
  show "rq_calls (stuck k v) = [Returned k Leader v, Returned k Joined v]" "in_flight_count (stuck k v) = 1"
    by (simp_all add: stuck_def in_flight_count_def)
  fix t
  assume t: "flights_reach (stuck k v) t"
  note later = stale_forever [OF t stuck_stale]
  show "requests_for k t = 1" using later by (simp add: requests_for_def stuck_def)
  show "1 \<le> in_flight_count t" using later by (cases "rq_in_flight t") (auto simp: stale_def in_flight_count_def)
  show "out = Joined" "w = v" if "2 \<le> i" "call_is t i (Returned k out w)" for i out w
    using staleD(5) [OF conjunct1 [OF later] that] by simp_all
qed

theorem finished_flight_persists_witness:
  "\<exists>s. flights_reach coordinator_new s \<and> rq_calls s = [Returned ''inspect'' Leader True, Returned ''inspect'' Joined True] \<and>
     in_flight_count s = 1 \<and> requests_for ''inspect'' s = 1"
  using finished_flight_persists [of "''inspect''" True] by blast


end
