(* ===== verification/Persistent_Cache.thy ===== *)
theory Persistent_Cache
  imports Prelude
begin

text \<open>
  The caches that outlive a request: the SQLite snapshot cache \<^verbatim>\<open>docker-core/src/cache/persistent.rs\<close> with its write-behind
  thread, and the two caches in front of it, \<^verbatim>\<open>image_metadata.rs\<close> and \<^verbatim>\<open>volume_usage.rs\<close>. A table is an association list by
  primary key, so that an upsert is an insertion; a statement fails when it names a column that its table does not have, and not
  otherwise. JSON encoding and decoding are parameters. Times are integers (seconds) in rows and natural numbers for instants.
\<close>

section \<open>Endpoint keys\<close>

record endpoint_key =
  ek_fingerprint :: string
  ek_daemon_id :: "string option"
  ek_context_name :: "string option"

definition storage_key :: "endpoint_key \<Rightarrow> string" where
  "storage_key e =
     (case (ek_daemon_id e, ek_context_name e) of
        (Some daemon, Some context) \<Rightarrow> ek_fingerprint e @ ''|'' @ daemon @ ''|'' @ context
      | (Some daemon, None) \<Rightarrow> ek_fingerprint e @ ''|'' @ daemon
      | (None, Some context) \<Rightarrow> ek_fingerprint e @ ''||'' @ context
      | (None, None) \<Rightarrow> ek_fingerprint e)"

text \<open>\<^verbatim>\<open>default_cache_path\<close>, on the two environment variables.\<close>

definition path_push :: "string \<Rightarrow> string \<Rightarrow> string" where
  "path_push p seg = (if p = [] \<or> last p = CHR ''/'' then p @ seg else p @ ''/'' @ seg)"

definition default_cache_path :: "string option \<Rightarrow> string option \<Rightarrow> string" where
  "default_cache_path xdg_cache_home home =
     (let base = (case xdg_cache_home of
                    Some p \<Rightarrow> p
                  | None \<Rightarrow> (case home of Some h \<Rightarrow> path_push h ''.cache'' | None \<Rightarrow> ''/tmp''))
      in path_push (path_push base ''tuxstack'') ''docker-cache.sqlite3'')"

section \<open>The database\<close>

text \<open>The columns of the tables that \<^verbatim>\<open>create_schema\<close> creates.\<close>

definition payload_columns :: "string \<Rightarrow> string list" where
  "payload_columns key_column = [''endpoint_key'', key_column, ''payload'', ''updated_at'']"

definition create_schema :: "(string \<times> string list) list" where
  "create_schema =
     [(''docker_cache_metadata'', [''endpoint_key'', ''schema_version'', ''daemon_id'', ''api_version'', ''last_connected_at'']),
      (''image_summaries'', payload_columns ''image_id''),
      (''image_details'', payload_columns ''image_id''),
      (''volume_summaries'', payload_columns ''volume_name''),
      (''volume_usage'', [''endpoint_key'', ''volume_name'', ''size_bytes'', ''ref_count'', ''measured_at'']),
      (''network_summaries'', payload_columns ''network_id''),
      (''container_summaries'', payload_columns ''container_id'')]"

text \<open>Whether a statement on a table that names these columns can be prepared.\<close>

definition prepares :: "string \<Rightarrow> string list \<Rightarrow> bool" where
  "prepares table cols = (case map_of create_schema table of None \<Rightarrow> False | Some have \<Rightarrow> list_all (\<lambda>c. c \<in> set have) cols)"

definition key_column_for :: "string \<Rightarrow> string option" where
  "key_column_for table =
     (if table = ''image_summaries'' \<or> table = ''image_details'' then Some ''image_id''
      else if table = ''volume_summaries'' then Some ''volume_name''
      else if table = ''network_summaries'' then Some ''network_id''
      else if table = ''container_summaries'' then Some ''container_id''
      else None)"

record metadata_row =
  mr_schema_version :: nat
  mr_daemon_id :: "string option"
  mr_api_version :: "string option"
  mr_last_connected_at :: int

record usage_row =
  us_size_bytes :: "int option"
  us_ref_count :: "int option"
  us_measured_at :: int

text \<open>The rows: metadata by endpoint, payload and time by table, endpoint and key, usage by endpoint and volume.\<close>

record cache_db =
  db_metadata :: "(string \<times> metadata_row) list"
  db_rows :: "((string \<times> string \<times> string) \<times> bytes \<times> int) list"
  db_usage :: "((string \<times> string) \<times> usage_row) list"

definition empty_db :: cache_db where
  "empty_db = \<lparr>db_metadata = [], db_rows = [], db_usage = []\<rparr>"

record pending_write =
  pw_table :: string
  pw_endpoint :: string
  pw_key :: string
  pw_payload :: "bytes option"
  pw_timestamp :: int

text \<open>One statement of the transaction of \<^verbatim>\<open>flush_batch\<close>.\<close>

definition write_row :: "cache_db \<Rightarrow> pending_write \<Rightarrow> cache_db" where
  "write_row db w =
     (case pw_payload w of
        None \<Rightarrow> db
      | Some payload \<Rightarrow>
          (case key_column_for (pw_table w) of
             None \<Rightarrow> db
           | Some key_column \<Rightarrow>
               if prepares (pw_table w) [''endpoint_key'', key_column, ''payload'', ''updated_at'']
               then db\<lparr>db_rows := hm_insert (pw_table w, pw_endpoint w, pw_key w) (payload, pw_timestamp w) (db_rows db)\<rparr>
               else db))"

definition flush_batch :: "cache_db \<Rightarrow> pending_write list \<Rightarrow> cache_db" where
  "flush_batch db batch = foldl write_row db batch"

section \<open>The cache\<close>

text \<open>Statements that run on a thread nobody joins.\<close>

datatype db_job =
  ConnectJob string "string option" "string option" int
| UsageJob string string "int option" "int option" int

text \<open>The flusher thread: blocked in \<^verbatim>\<open>recv\<close>, collecting a batch, or about to write it. The cache is the connection, the
  channel, the flusher, and the detached threads that have not run yet.\<close>

datatype flusher = Blocked | Collecting "pending_write list" | Writing "pending_write list"

record persistent_cache =
  pc_db :: cache_db
  pc_channel :: "pending_write list"
  pc_flusher :: flusher
  pc_threads :: "db_job list"

definition from_connection :: "cache_db \<Rightarrow> persistent_cache" where
  "from_connection db = \<lparr>pc_db = db, pc_channel = [], pc_flusher = Blocked, pc_threads = []\<rparr>"

text \<open>\<open>open_connection\<close> and the removal of the files are parameters, as functions of the file.\<close>

definition open_cache :: "('f \<Rightarrow> 'e + cache_db) \<Rightarrow> ('f \<Rightarrow> 'f) \<Rightarrow> 'f \<Rightarrow> 'e + persistent_cache" where
  "open_cache open_connection remove_files f =
     (case open_connection f of
        Inr db \<Rightarrow> Inr (from_connection db)
      | Inl _ \<Rightarrow> (case open_connection (remove_files f) of Inr db \<Rightarrow> Inr (from_connection db) | Inl e \<Rightarrow> Inl e))"

definition enqueue :: "int \<Rightarrow> string \<Rightarrow> string \<Rightarrow> string \<Rightarrow> bytes option \<Rightarrow> persistent_cache \<Rightarrow> persistent_cache" where
  "enqueue now table endpoint key payload c =
     c\<lparr>pc_channel := pc_channel c @
        [\<lparr>pw_table = table, pw_endpoint = endpoint, pw_key = key, pw_payload = payload, pw_timestamp = now\<rparr>]\<rparr>"

definition record_connection :: "int \<Rightarrow> endpoint_key \<Rightarrow> string option \<Rightarrow> persistent_cache \<Rightarrow> persistent_cache" where
  "record_connection now ep api c =
     c\<lparr>pc_threads := pc_threads c @ [ConnectJob (storage_key ep) (ek_daemon_id ep) api now]\<rparr>"

definition cache_put :: "('v \<Rightarrow> bytes option) \<Rightarrow> int \<Rightarrow> string \<Rightarrow> endpoint_key \<Rightarrow> string \<Rightarrow> 'v \<Rightarrow> persistent_cache \<Rightarrow> persistent_cache"
where
  "cache_put to_vec now table ep key v c = enqueue now table (storage_key ep) key (to_vec v) c"

definition put_usage :: "int \<Rightarrow> endpoint_key \<Rightarrow> string \<Rightarrow> u64 option \<Rightarrow> u64 option \<Rightarrow> persistent_cache \<Rightarrow> persistent_cache" where
  "put_usage now ep volume size_bytes ref_count c =
     c\<lparr>pc_threads := pc_threads c @
        [UsageJob (storage_key ep) volume (map_option sint size_bytes) (map_option sint ref_count) now]\<rparr>"

definition run_job :: "db_job \<Rightarrow> cache_db \<Rightarrow> cache_db" where
  "run_job j db =
     (case j of
        ConnectJob storage daemon api now \<Rightarrow>
          db\<lparr>db_metadata := hm_insert storage
             \<lparr>mr_schema_version = 1, mr_daemon_id = daemon, mr_api_version = api, mr_last_connected_at = now\<rparr> (db_metadata db)\<rparr>
      | UsageJob storage volume sz count now \<Rightarrow>
          db\<lparr>db_usage := hm_insert (storage, volume)
             \<lparr>us_size_bytes = sz, us_ref_count = count, us_measured_at = now\<rparr> (db_usage db)\<rparr>)"

definition select_rows :: "string \<Rightarrow> string \<Rightarrow> cache_db \<Rightarrow> (string \<times> bytes) list" where
  "select_rows table storage db =
     List.map_filter (\<lambda>((t, e, k), payload, _). if t = table \<and> e = storage then Some (k, payload) else None) (db_rows db)"

definition hydrate :: "(bytes \<Rightarrow> 'v option) \<Rightarrow> string \<Rightarrow> endpoint_key \<Rightarrow> persistent_cache \<Rightarrow> (string \<times> 'v) list" where
  "hydrate from_slice table ep c =
     (case key_column_for table of
        None \<Rightarrow> []
      | Some key_column \<Rightarrow>
          let rows = (if prepares table [key_column, ''payload'', ''endpoint_key''] then select_rows table (storage_key ep) (pc_db c) else [])
          in List.map_filter (\<lambda>(key, payload). map_option (\<lambda>v. (key, v)) (from_slice payload)) rows)"

definition hydrate_usage :: "endpoint_key \<Rightarrow> persistent_cache \<Rightarrow> (string \<times> u64 option \<times> u64 option \<times> int) list" where
  "hydrate_usage ep c =
     (if prepares ''volume_usage'' [''volume_name'', ''size_bytes'', ''ref_count'', ''measured_at'', ''endpoint_key'']
      then List.map_filter (\<lambda>((e, name), row).
             if e = storage_key ep
             then Some (name, map_option word_of_int (us_size_bytes row), map_option word_of_int (us_ref_count row), us_measured_at row)
             else None) (db_usage (pc_db c))
      else [])"

definition last_connected :: "endpoint_key \<Rightarrow> persistent_cache \<Rightarrow> int option" where
  "last_connected ep c = map_option mr_last_connected_at (map_of (db_metadata (pc_db c)) (storage_key ep))"

definition remove_key :: "string \<Rightarrow> endpoint_key \<Rightarrow> string \<Rightarrow> persistent_cache \<Rightarrow> persistent_cache" where
  "remove_key table ep key c =
     (case key_column_for table of
        None \<Rightarrow> c
      | Some key_column \<Rightarrow>
          if prepares table [''endpoint_key'', key_column]
          then c\<lparr>pc_db := (pc_db c)\<lparr>db_rows := hm_remove (table, storage_key ep, key) (db_rows (pc_db c))\<rparr>\<rparr>
          else c)"

definition cleared_tables :: "string list" where
  "cleared_tables =
     [''image_summaries'', ''image_details'', ''volume_summaries'', ''volume_usage'', ''network_summaries'', ''container_summaries'']"

text \<open>One \<^verbatim>\<open>DELETE FROM {table} WHERE endpoint_key = ?1\<close>.\<close>

definition delete_endpoint :: "string \<Rightarrow> cache_db \<Rightarrow> string \<Rightarrow> cache_db" where
  "delete_endpoint storage db table =
     (if table = ''volume_usage''
      then db\<lparr>db_usage := filter (\<lambda>((e, _), _). e \<noteq> storage) (db_usage db)\<rparr>
      else db\<lparr>db_rows := filter (\<lambda>((t, e, _), _). \<not> (t = table \<and> e = storage)) (db_rows db)\<rparr>)"

definition clear_endpoint :: "endpoint_key \<Rightarrow> persistent_cache \<Rightarrow> persistent_cache" where
  "clear_endpoint ep c = c\<lparr>pc_db := foldl (delete_endpoint (storage_key ep)) (pc_db c) cleared_tables\<rparr>"

text \<open>\<^verbatim>\<open>flush\<close> sends a sentinel that no statement is made of; the 30 ms it sleeps then are steps of the other threads.\<close>

definition cache_flush :: "int \<Rightarrow> persistent_cache \<Rightarrow> persistent_cache" where
  "cache_flush now c = enqueue now ''docker_cache_metadata'' ''flush-sentinel'' ''sentinel'' None c"

definition cache_get :: "(bytes \<Rightarrow> 'v option) \<Rightarrow> string \<Rightarrow> endpoint_key \<Rightarrow> string \<Rightarrow> persistent_cache \<Rightarrow> 'v option" where
  "cache_get from_slice table ep key c =
     (if prepares table [''payload'', ''endpoint_key'', ''key'']
      then Option.bind (map_of (select_rows table (storage_key ep) (pc_db c)) key) from_slice
      else None)"

text \<open>
  The threads beside the callers: the flusher receives the first write of a batch or one more, and writes the batch when the
  debounce interval passes with an empty channel; a detached thread runs its statement. The flusher holds a sender of its own
  channel, so that it is never disconnected.
\<close>

inductive cache_step :: "persistent_cache \<Rightarrow> persistent_cache \<Rightarrow> bool" where
  fl_first: "pc_flusher c = Blocked \<Longrightarrow> pc_channel c = w # q \<Longrightarrow> cache_step c (c\<lparr>pc_flusher := Collecting [w], pc_channel := q\<rparr>)"
| fl_more: "pc_flusher c = Collecting b \<Longrightarrow> pc_channel c = w # q \<Longrightarrow>
    cache_step c (c\<lparr>pc_flusher := Collecting (b @ [w]), pc_channel := q\<rparr>)"
| fl_timeout: "pc_flusher c = Collecting b \<Longrightarrow> pc_channel c = [] \<Longrightarrow> cache_step c (c\<lparr>pc_flusher := Writing b\<rparr>)"
| fl_write: "pc_flusher c = Writing b \<Longrightarrow> cache_step c (c\<lparr>pc_db := flush_batch (pc_db c) b, pc_flusher := Blocked\<rparr>)"
| fl_thread: "pc_threads c = xs @ j # ys \<Longrightarrow> cache_step c (c\<lparr>pc_db := run_job j (pc_db c), pc_threads := xs @ ys\<rparr>)"

definition unwritten :: "persistent_cache \<Rightarrow> pending_write list" where
  "unwritten c = (case pc_flusher c of Blocked \<Rightarrow> [] | Collecting b \<Rightarrow> b | Writing b \<Rightarrow> b) @ pc_channel c"

definition cache_idle :: "persistent_cache \<Rightarrow> bool" where
  "cache_idle c \<longleftrightarrow> pc_flusher c = Blocked \<and> pc_channel c = []"

text \<open>Runs of the threads, with the writes sent meanwhile.\<close>

inductive cache_exec :: "pending_write list \<Rightarrow> persistent_cache \<Rightarrow> persistent_cache \<Rightarrow> bool" where
  ex_start: "cache_exec [] c c"
| ex_send: "cache_exec ws c d \<Longrightarrow> cache_exec (ws @ [w]) c (d\<lparr>pc_channel := pc_channel d @ [w]\<rparr>)"
| ex_step: "cache_exec ws c d \<Longrightarrow> cache_step d e \<Longrightarrow> cache_exec ws c e"

section \<open>Rows\<close>

lemma key_column_prepares:
  assumes "key_column_for table = Some col"
  shows "prepares table [''endpoint_key'', col, ''payload'', ''updated_at'']" "prepares table [col, ''payload'', ''endpoint_key'']"
    "prepares table [''endpoint_key'', col]" "\<not> prepares table [''payload'', ''endpoint_key'', ''key'']"
  using assms by (auto simp: key_column_for_def prepares_def create_schema_def payload_columns_def split: if_splits)

definition row_of :: "cache_db \<Rightarrow> string \<Rightarrow> string \<Rightarrow> string \<Rightarrow> bytes option" where
  "row_of db table storage key = map_option fst (map_of (db_rows db) (table, storage, key))"

definition keyed :: "cache_db \<Rightarrow> bool" where
  "keyed db \<longleftrightarrow> distinct (map fst (db_rows db)) \<and> distinct (map fst (db_usage db)) \<and> distinct (map fst (db_metadata db))"

text \<open>What a write stores: the payload of a table that has a key column.\<close>

definition stores :: "string \<Rightarrow> string \<Rightarrow> string \<Rightarrow> pending_write \<Rightarrow> bool" where
  "stores table storage key w \<longleftrightarrow> pw_table w = table \<and> pw_endpoint w = storage \<and> pw_key w = key \<and> pw_payload w \<noteq> None"

definition latest :: "string \<Rightarrow> string \<Rightarrow> string \<Rightarrow> pending_write list \<Rightarrow> bytes option" where
  "latest table storage key ws =
     (case filter (stores table storage key) (rev ws) of [] \<Rightarrow> None | w # _ \<Rightarrow> pw_payload w)"

lemma latest_append: "latest t s k (xs @ ys) = (case latest t s k ys of Some p \<Rightarrow> Some p | None \<Rightarrow> latest t s k xs)"
proof (cases "filter (stores t s k) (rev ys)")
  case (Cons w ws)
  then have "stores t s k w" by (metis filter_eq_ConsD)
  with Cons show ?thesis by (auto simp: latest_def stores_def)
qed (simp add: latest_def)

lemma latest_one: "latest t s k [w] = (if stores t s k w then pw_payload w else None)"
  by (simp add: latest_def)

lemma write_row_row_of:
  assumes "key_column_for t \<noteq> None"
  shows "row_of (write_row db w) t s k = (if stores t s k w then pw_payload w else row_of db t s k)"
  using assms by (auto simp: write_row_def row_of_def stores_def key_column_prepares split: option.splits)

lemma flush_batch_row_of:
  assumes "key_column_for t \<noteq> None"
  shows "row_of (flush_batch db ws) t s k = (case latest t s k ws of Some p \<Rightarrow> Some p | None \<Rightarrow> row_of db t s k)"
proof (induction ws rule: rev_induct)
  case (snoc w ws)
  have "row_of (flush_batch db (ws @ [w])) t s k = (if stores t s k w then pw_payload w else row_of (flush_batch db ws) t s k)"
    using assms by (simp add: flush_batch_def write_row_row_of)
  with snoc show ?case by (auto simp: latest_append latest_one stores_def split: option.split)
qed (simp add: flush_batch_def latest_def)

lemma write_row_keyed: "keyed db \<Longrightarrow> keyed (write_row db w)"
  by (auto simp: write_row_def keyed_def distinct_hm_insert split: option.split)

lemma flush_batch_keyed: "keyed db \<Longrightarrow> keyed (flush_batch db ws)"
  by (induction ws arbitrary: db) (simp_all add: flush_batch_def write_row_keyed)

lemma run_job_rows: "db_rows (run_job j db) = db_rows db"
  by (simp add: run_job_def split: db_job.split)

lemma run_job_keyed: "keyed db \<Longrightarrow> keyed (run_job j db)"
  by (auto simp: run_job_def keyed_def distinct_hm_insert split: db_job.split)

lemma row_of_run_job [simp]: "row_of (run_job j db) = row_of db"
  by (simp add: row_of_def fun_eq_iff run_job_rows)

lemma hydrate_row_of:
  assumes "keyed (pc_db c)" "key_column_for table \<noteq> None"
  shows "map_of (hydrate from_slice table ep c) key = Option.bind (row_of (pc_db c) table (storage_key ep) key) from_slice"
proof -
  obtain col where col: "key_column_for table = Some col" using assms(2) by auto
  let ?sel = "\<lambda>rows. List.map_filter (\<lambda>(key, payload). map_option (\<lambda>v. (key, v)) (from_slice payload))
    (List.map_filter (\<lambda>((t, e, k), payload, _). if t = table \<and> e = storage_key ep then Some (k, payload) else None) rows)"
  have "map_of (?sel rows) key = Option.bind (map_option fst (map_of rows (table, storage_key ep, key))) from_slice"
    if "distinct (map fst rows)" for rows :: "((string \<times> string \<times> string) \<times> bytes \<times> int) list"
    using that
  proof (induction rows)
    case (Cons r rows)
    obtain t e k p n where r: "r = ((t, e, k), p, n)" by (metis prod.exhaust)
    have "map_of rows (t, e, k) = None" using Cons.prems r by (simp add: map_of_eq_None_iff)
    with Cons r show ?case by (cases "from_slice p") (auto simp: List.map_filter_simps)
  qed (simp add: List.map_filter_simps)
  with assms(1) col show ?thesis
    by (simp add: hydrate_def select_rows_def key_column_prepares row_of_def keyed_def Let_def)
qed

section \<open>Write-behind\<close>

text \<open>The view of a cache: its rows with everything unwritten written.\<close>

definition cache_view :: "persistent_cache \<Rightarrow> cache_db" where
  "cache_view c = flush_batch (pc_db c) (unwritten c)"

lemma cache_step_view:
  assumes "cache_step c d" "key_column_for t \<noteq> None"
  shows "row_of (cache_view d) t s k = row_of (cache_view c) t s k"
  using assms
  by (cases rule: cache_step.cases) (auto simp: cache_view_def unwritten_def flush_batch_row_of latest_append split: option.split)

lemma cache_step_keyed: "cache_step c d \<Longrightarrow> keyed (pc_db c) \<Longrightarrow> keyed (pc_db d)"
  by (cases rule: cache_step.cases) (auto simp: flush_batch_keyed run_job_keyed)

lemma cache_exec_view:
  assumes "cache_exec ws c d" "key_column_for t \<noteq> None"
  shows "row_of (cache_view d) t s k = (case latest t s k ws of Some p \<Rightarrow> Some p | None \<Rightarrow> row_of (cache_view c) t s k)"
  using assms
proof (induction rule: cache_exec.induct)
  case (ex_send ws c d w)
  have "row_of (cache_view (d\<lparr>pc_channel := pc_channel d @ [w]\<rparr>)) t s k =
      (if stores t s k w then pw_payload w else row_of (cache_view d) t s k)"
    using ex_send.prems by (auto simp: cache_view_def unwritten_def flush_batch_row_of latest_append latest_one stores_def split: option.split)
  with ex_send show ?case by (auto simp: latest_append latest_one stores_def split: option.split)
qed (simp_all add: latest_def cache_step_view)

lemma cache_exec_keyed: "cache_exec ws c d \<Longrightarrow> keyed (pc_db c) \<Longrightarrow> keyed (pc_db d)"
  by (induction rule: cache_exec.induct) (auto simp: cache_step_keyed)

lemma idle_view: "cache_idle c \<Longrightarrow> cache_view c = pc_db c"
  by (simp add: cache_idle_def cache_view_def unwritten_def flush_batch_def)

text \<open>The flusher gets to the end of the queue when nothing more is sent.\<close>

lemma collecting_drains:
  "pc_flusher c = Collecting b \<Longrightarrow> \<exists>d. cache_step\<^sup>*\<^sup>* c d \<and> cache_idle d"
proof (induction "pc_channel c" arbitrary: c b)
  case Nil
  let ?e = "c\<lparr>pc_flusher := Writing b\<rparr>"
  let ?d = "?e\<lparr>pc_db := flush_batch (pc_db ?e) b, pc_flusher := Blocked\<rparr>"
  have "cache_step c ?e" "cache_step ?e ?d"
    using fl_timeout [OF Nil.prems] Nil.hyps fl_write [of ?e b] by auto
  moreover have "cache_idle ?d" using Nil.hyps by (simp add: cache_idle_def)
  ultimately show ?case by (meson converse_rtranclp_into_rtranclp r_into_rtranclp)
next
  case (Cons w q)
  let ?e = "c\<lparr>pc_flusher := Collecting (b @ [w]), pc_channel := q\<rparr>"
  have "cache_step c ?e" using fl_more [OF Cons.prems] Cons.hyps(2) by simp
  moreover have "\<exists>d. cache_step\<^sup>*\<^sup>* ?e d \<and> cache_idle d" by (rule Cons.hyps(1)) simp_all
  ultimately show ?case by (meson converse_rtranclp_into_rtranclp)
qed

lemma blocked_drains: "pc_flusher c = Blocked \<Longrightarrow> \<exists>d. cache_step\<^sup>*\<^sup>* c d \<and> cache_idle d"
proof (cases "pc_channel c")
  case (Cons w q)
  assume "pc_flusher c = Blocked"
  let ?e = "c\<lparr>pc_flusher := Collecting [w], pc_channel := q\<rparr>"
  have "cache_step c ?e" using \<open>pc_flusher c = Blocked\<close> Cons by (rule fl_first)
  moreover have "\<exists>d. cache_step\<^sup>*\<^sup>* ?e d \<and> cache_idle d" by (rule collecting_drains) simp
  ultimately show ?thesis by (meson converse_rtranclp_into_rtranclp)
qed (auto simp: cache_idle_def)

lemma cache_drains: "\<exists>d. cache_step\<^sup>*\<^sup>* c d \<and> cache_idle d"
proof (cases "pc_flusher c")
  case (Writing b)
  let ?e = "c\<lparr>pc_db := flush_batch (pc_db c) b, pc_flusher := Blocked\<rparr>"
  have "cache_step c ?e" using Writing by (rule fl_write)
  moreover have "\<exists>d. cache_step\<^sup>*\<^sup>* ?e d \<and> cache_idle d" by (rule blocked_drains) simp
  ultimately show ?thesis by (meson converse_rtranclp_into_rtranclp)
qed (blast dest: blocked_drains collecting_drains)+

text \<open>C36. The write-behind queue is transparent: however the flusher groups the writes into transactions and whatever the other
  threads do meanwhile, the flusher can always get to the end of the queue, and when it is there the snapshot read back for a key
  is the last value put for it since the cache was opened, or the row that was there before; a value that could not be encoded
  changes nothing.\<close>

theorem write_behind_refines:
  assumes "keyed db" "key_column_for table = Some col" "cache_exec ws (from_connection db) c"
  shows "(\<exists>d. cache_step\<^sup>*\<^sup>* c d \<and> cache_idle d) \<and>
    (cache_idle c \<longrightarrow>
       map_of (hydrate from_slice table ep c) key =
         (case latest table (storage_key ep) key ws of
            Some payload \<Rightarrow> from_slice payload
          | None \<Rightarrow> map_of (hydrate from_slice table ep (from_connection db)) key))"
proof (intro conjI impI cache_drains)
  assume idle: "cache_idle c"
  have col: "key_column_for table \<noteq> None" using assms(2) by simp
  have keyed: "keyed (pc_db (from_connection db))" using assms(1) by (simp add: from_connection_def)
  have view: "cache_view (from_connection db) = pc_db (from_connection db)"
    by (rule idle_view) (simp add: from_connection_def cache_idle_def)
  show "map_of (hydrate from_slice table ep c) key =
      (case latest table (storage_key ep) key ws of
         Some payload \<Rightarrow> from_slice payload
       | None \<Rightarrow> map_of (hydrate from_slice table ep (from_connection db)) key)"
    using cache_exec_view [OF assms(3) col, of "storage_key ep" key] idle_view [OF idle] view
    by (simp add: hydrate_row_of [OF cache_exec_keyed [OF assms(3) keyed] col] hydrate_row_of [OF keyed col] split: option.split)
qed

text \<open>A removal that comes between a put and its transaction.\<close>

lemma cache_exec_steps: "cache_step\<^sup>*\<^sup>* c d \<Longrightarrow> cache_exec [] c d"
  by (induction rule: rtranclp_induct) (auto intro: cache_exec.intros)

text \<open>A row that is removed before the flusher has written it comes back: \<^verbatim>\<open>remove_key\<close> deletes from the tables only, so
  after a put, a removal and any steps that empty the queue, the removed value is read back.\<close>

theorem removed_row_returns:
  assumes "keyed (pc_db c)" "key_column_for table = Some col"
    and "to_vec v = Some payload" "from_slice payload = Some v"
    and "cache_step\<^sup>*\<^sup>* (remove_key table ep key (cache_put to_vec now table ep key v c)) d" "cache_idle d"
  shows "map_of (hydrate from_slice table ep d) key = Some v"
proof -
  let ?e = "remove_key table ep key (cache_put to_vec now table ep key v c)"
  have col: "key_column_for table \<noteq> None" using assms(2) by simp
  have keyed: "keyed (pc_db ?e)"
    using assms(1,2) by (simp add: remove_key_def key_column_prepares cache_put_def enqueue_def keyed_def distinct_hm_remove)
  have "latest table (storage_key ep) key (unwritten ?e) = Some payload"
    using assms(2,3) by (simp add: remove_key_def key_column_prepares cache_put_def enqueue_def unwritten_def latest_append latest_one stores_def
      flip: append_assoc split: option.split)
  then have "row_of (cache_view ?e) table (storage_key ep) key = Some payload"
    using col by (simp add: cache_view_def flush_batch_row_of)
  then have "row_of (pc_db d) table (storage_key ep) key = Some payload"
    using cache_exec_view [OF cache_exec_steps [OF assms(5)] col, of "storage_key ep" key] idle_view [OF assms(6)]
    by (simp add: latest_def)
  then show ?thesis
    using hydrate_row_of [OF cache_exec_keyed [OF cache_exec_steps [OF assms(5)] keyed] col, of from_slice ep key] assms(4) by simp
qed

section \<open>Endpoints\<close>

text \<open>Endpoints whose parts can be read back from the storage key: no bar in the fingerprint or the daemon id, no empty daemon id.\<close>

definition plain_endpoint :: "endpoint_key \<Rightarrow> bool" where
  "plain_endpoint e \<longleftrightarrow>
     CHR ''|'' \<notin> set (ek_fingerprint e) \<and>
     (case ek_daemon_id e of None \<Rightarrow> True | Some d \<Rightarrow> d \<noteq> [] \<and> CHR ''|'' \<notin> set d)"

abbreviation until_bar :: "string \<Rightarrow> string" where "until_bar \<equiv> takeWhile (\<lambda>ch. ch \<noteq> CHR ''|'')"
abbreviation from_bar :: "string \<Rightarrow> string" where "from_bar \<equiv> dropWhile (\<lambda>ch. ch \<noteq> CHR ''|'')"

text \<open>A reader of storage keys.\<close>

definition read_key :: "string \<Rightarrow> endpoint_key" where
  "read_key s =
     (case from_bar s of
        [] \<Rightarrow> \<lparr>ek_fingerprint = until_bar s, ek_daemon_id = None, ek_context_name = None\<rparr>
      | _ # rest \<Rightarrow>
          \<lparr>ek_fingerprint = until_bar s,
           ek_daemon_id = (if until_bar rest = [] then None else Some (until_bar rest)),
           ek_context_name = (case from_bar rest of [] \<Rightarrow> None | _ # context \<Rightarrow> Some context)\<rparr>)"

lemma until_bar_plain: "CHR ''|'' \<notin> set xs \<Longrightarrow> until_bar (xs @ CHR ''|'' # ys) = xs \<and> from_bar (xs @ CHR ''|'' # ys) = CHR ''|'' # ys"
  by (induction xs) auto

lemma until_bar_all: "CHR ''|'' \<notin> set xs \<Longrightarrow> until_bar xs = xs \<and> from_bar xs = []"
  by (induction xs) auto

lemma read_storage_key:
  assumes "plain_endpoint e"
  shows "read_key (storage_key e) = e"
proof -
  obtain f d n where e: "e = \<lparr>ek_fingerprint = f, ek_daemon_id = d, ek_context_name = n\<rparr>" by (cases e)
  show ?thesis using assms
    by (cases d; cases n)
      (auto simp: e plain_endpoint_def storage_key_def read_key_def until_bar_plain until_bar_all)
qed

lemma storage_key_eq: "plain_endpoint e \<Longrightarrow> plain_endpoint e' \<Longrightarrow> storage_key e = storage_key e' \<longleftrightarrow> e = e'"
  by (metis read_storage_key)

text \<open>Statements for one storage key do not change the answers for another.\<close>

definition endpoint_part :: "string \<Rightarrow> cache_db \<Rightarrow> ((string \<times> string \<times> string) \<times> bytes \<times> int) list \<times> ((string \<times> string) \<times> usage_row) list" where
  "endpoint_part storage db =
     (filter (\<lambda>p. fst (snd (fst p)) = storage) (db_rows db), filter (\<lambda>p. fst (fst p) = storage) (db_usage db))"

lemma filter_hm_remove: "\<not> P k \<Longrightarrow> filter (\<lambda>p. P (fst p)) (hm_remove k m) = filter (\<lambda>p. P (fst p)) m"
  by (induction m) (auto simp: hm_remove_def)

lemma filter_hm_insert: "\<not> P k \<Longrightarrow> filter (\<lambda>p. P (fst p)) (hm_insert k v m) = filter (\<lambda>p. P (fst p)) m"
  by (simp add: hm_insert_def filter_hm_remove)

lemma map_filter_restrict:
  "(\<And>x. f x \<noteq> None \<Longrightarrow> P x) \<Longrightarrow> List.map_filter f (filter P xs) = List.map_filter f xs"
  by (induction xs) (auto simp: List.map_filter_simps split: option.split)

lemma select_rows_part: "select_rows table storage db = select_rows table storage (db\<lparr>db_rows := fst (endpoint_part storage db)\<rparr>)"
  by (auto simp: select_rows_def endpoint_part_def intro!: map_filter_restrict [symmetric] split: if_splits)

lemma hydrate_cong:
  assumes "endpoint_part (storage_key ep) (pc_db c) = endpoint_part (storage_key ep) (pc_db d)"
  shows "hydrate from_slice table ep c = hydrate from_slice table ep d" "hydrate_usage ep c = hydrate_usage ep d"
proof -
  have "select_rows table (storage_key ep) (pc_db c) = select_rows table (storage_key ep) (pc_db d)"
    using assms select_rows_part [of table "storage_key ep" "pc_db c"] select_rows_part [of table "storage_key ep" "pc_db d"]
    by (simp add: select_rows_def)
  then show "hydrate from_slice table ep c = hydrate from_slice table ep d" unfolding hydrate_def by (rule ssubst) (rule refl)
  let ?f = "\<lambda>((e, name), row). if e = storage_key ep
     then Some (name, map_option word_of_int (us_size_bytes row) :: u64 option,
       map_option word_of_int (us_ref_count row) :: u64 option, us_measured_at row) else None"
  have part: "List.map_filter ?f (db_usage (pc_db x)) = List.map_filter ?f (snd (endpoint_part (storage_key ep) (pc_db x)))" for x
    by (auto simp: endpoint_part_def intro!: map_filter_restrict [symmetric] split: if_splits)
  show "hydrate_usage ep c = hydrate_usage ep d"
    using part [of c] part [of d] assms by (simp add: hydrate_usage_def)
qed

lemma remove_key_part:
  "storage_key ep \<noteq> storage \<Longrightarrow> endpoint_part storage (pc_db (remove_key table ep key c)) = endpoint_part storage (pc_db c)"
  using filter_hm_remove [of "\<lambda>k. fst (snd k) = storage" "(table, storage_key ep, key)" "db_rows (pc_db c)"]
  by (simp add: remove_key_def endpoint_part_def split: option.split)

lemma write_row_part: "pw_endpoint w \<noteq> storage \<Longrightarrow> endpoint_part storage (write_row db w) = endpoint_part storage db"
  by (simp add: write_row_def endpoint_part_def filter_hm_insert [of "\<lambda>k. fst (snd k) = storage"] split: option.split)

lemma flush_batch_part:
  "\<forall>w \<in> set ws. pw_endpoint w \<noteq> storage \<Longrightarrow> endpoint_part storage (flush_batch db ws) = endpoint_part storage db"
  by (induction ws arbitrary: db) (simp_all add: flush_batch_def write_row_part)

lemma delete_endpoint_part: "storage' \<noteq> storage \<Longrightarrow> endpoint_part storage (delete_endpoint storage' db table) = endpoint_part storage db"
  by (auto simp: delete_endpoint_def endpoint_part_def intro!: filter_cong)

lemma clear_endpoint_part:
  "storage_key ep \<noteq> storage \<Longrightarrow> endpoint_part storage (pc_db (clear_endpoint ep c)) = endpoint_part storage (pc_db c)"
  by (simp add: clear_endpoint_def cleared_tables_def delete_endpoint_part)

lemma clear_endpoint_gone:
  "hydrate from_slice table ep (clear_endpoint ep c) = []" "hydrate_usage ep (clear_endpoint ep c) = []"
proof -
  have none: "List.map_filter f xs = []" if "\<And>x. x \<in> set xs \<Longrightarrow> f x = None" for f :: "'x \<Rightarrow> 'y option" and xs
    using that by (induction xs) (auto simp: List.map_filter_simps)
  have "select_rows table (storage_key ep) (pc_db (clear_endpoint ep c)) = []" if "key_column_for table \<noteq> None"
    unfolding select_rows_def using that
    by (intro none)
      (auto simp: clear_endpoint_def cleared_tables_def delete_endpoint_def key_column_for_def split: if_splits)
  then show "hydrate from_slice table ep (clear_endpoint ep c) = []"
    by (simp add: hydrate_def List.map_filter_simps split: option.split)
  show "hydrate_usage ep (clear_endpoint ep c) = []"
    unfolding hydrate_usage_def
    by (auto simp: clear_endpoint_def cleared_tables_def delete_endpoint_def intro!: none)
qed

text \<open>C37. Endpoints are isolated as long as their names are plain: two such endpoints have different storage keys, and clearing
  one, removing one of its rows or writing any batch of its rows leaves every snapshot and every measurement of the other as it
  was; clearing leaves the cleared endpoint nothing.\<close>

theorem endpoint_isolation:
  assumes "plain_endpoint ep" "plain_endpoint other" "ep \<noteq> other"
  shows "storage_key ep \<noteq> storage_key other \<and>
    hydrate from_slice table other (clear_endpoint ep c) = hydrate from_slice table other c \<and>
    hydrate_usage other (clear_endpoint ep c) = hydrate_usage other c \<and>
    hydrate from_slice table other (remove_key table' ep key c) = hydrate from_slice table other c \<and>
    ((\<forall>w \<in> set ws. pw_endpoint w = storage_key ep) \<longrightarrow>
       hydrate from_slice table other (c\<lparr>pc_db := flush_batch (pc_db c) ws\<rparr>) = hydrate from_slice table other c) \<and>
    hydrate from_slice table ep (clear_endpoint ep c) = [] \<and> hydrate_usage ep (clear_endpoint ep c) = []"
proof -
  have key: "storage_key ep \<noteq> storage_key other" using assms by (simp add: storage_key_eq)
  then show ?thesis
    using hydrate_cong(1) [of other "c\<lparr>pc_db := flush_batch (pc_db c) ws\<rparr>" c from_slice table]
      flush_batch_part [of ws "storage_key other" "pc_db c"]
    by (simp add: clear_endpoint_gone hydrate_cong [OF clear_endpoint_part [OF key]] hydrate_cong(1) [OF remove_key_part [OF key]])
qed

text \<open>Two different endpoints that share a storage key, so that the condition on the names is needed.\<close>

lemma storage_key_collision:
  "storage_key \<lparr>ek_fingerprint = ''a'', ek_daemon_id = Some ''b'', ek_context_name = None\<rparr> =
   storage_key \<lparr>ek_fingerprint = ''a|b'', ek_daemon_id = None, ek_context_name = None\<rparr>"
  "storage_key \<lparr>ek_fingerprint = f, ek_daemon_id = Some [], ek_context_name = Some n\<rparr> =
   storage_key \<lparr>ek_fingerprint = f, ek_daemon_id = None, ek_context_name = Some n\<rparr>"
  by (simp_all add: storage_key_def)

section \<open>Examples\<close>

definition ex_endpoint :: endpoint_key where
  "ex_endpoint = \<lparr>ek_fingerprint = ''unix:///run/local.sock'', ek_daemon_id = Some ''d1'', ek_context_name = None\<rparr>"

definition ex_remote :: endpoint_key where
  "ex_remote = \<lparr>ek_fingerprint = ''tcp://host:2376'', ek_daemon_id = None, ek_context_name = Some ''remote''\<rparr>"

definition ex_write :: pending_write where
  "ex_write = \<lparr>pw_table = ''image_summaries'', pw_endpoint = storage_key ex_endpoint, pw_key = ''sha256:abc'', pw_payload = Some [1, 2], pw_timestamp = 7\<rparr>"

definition ex_written :: persistent_cache where
  "ex_written = (from_connection empty_db)\<lparr>pc_db := flush_batch empty_db [ex_write]\<rparr>"

lemma ex_steps:
  "cache_step\<^sup>*\<^sup>* ((from_connection empty_db)\<lparr>pc_channel := [ex_write]\<rparr>) ex_written" "cache_idle ex_written" "keyed empty_db"
proof -
  let ?a = "(from_connection empty_db)\<lparr>pc_channel := [ex_write]\<rparr>"
  let ?b = "(from_connection empty_db)\<lparr>pc_flusher := Collecting [ex_write]\<rparr>"
  let ?c = "(from_connection empty_db)\<lparr>pc_flusher := Writing [ex_write]\<rparr>"
  have "cache_step ?a ?b" using fl_first [of ?a ex_write "[]"] by (simp add: from_connection_def)
  moreover have "cache_step ?b ?c" using fl_timeout [of ?b "[ex_write]"] by (simp add: from_connection_def)
  moreover have "cache_step ?c ex_written" using fl_write [of ?c "[ex_write]"] by (simp add: from_connection_def ex_written_def)
  ultimately show "cache_step\<^sup>*\<^sup>* ?a ex_written" by (meson converse_rtranclp_into_rtranclp r_into_rtranclp)
  show "cache_idle ex_written" "keyed empty_db"
    by (simp_all add: ex_written_def cache_idle_def from_connection_def keyed_def empty_db_def)
qed

lemma cache_exec_then: "cache_step\<^sup>*\<^sup>* d e \<Longrightarrow> cache_exec ws c d \<Longrightarrow> cache_exec ws c e"
  by (induction rule: rtranclp_induct) (auto intro: ex_step)

theorem write_behind_refines_witness:
  "cache_exec [ex_write] (from_connection empty_db) ex_written \<and>
   map_of (hydrate Some ''image_summaries'' ex_endpoint ex_written) ''sha256:abc'' = Some [1, 2]"
proof -
  have "cache_exec ([] @ [ex_write]) (from_connection empty_db) ((from_connection empty_db)\<lparr>pc_channel := [] @ [ex_write]\<rparr>)"
    using ex_send [OF ex_start [of "from_connection empty_db"], of ex_write] by (simp add: from_connection_def)
  then have "cache_exec [ex_write] (from_connection empty_db) ex_written"
    using cache_exec_then [OF ex_steps(1)] by simp
  moreover have "key_column_for ''image_summaries'' = Some ''image_id''" by (simp add: key_column_for_def)
  ultimately show ?thesis
    using write_behind_refines [OF ex_steps(3), of "''image_summaries''" "''image_id''" "[ex_write]" ex_written Some ex_endpoint "''sha256:abc''"]
      ex_steps(2)
    by (simp add: latest_def stores_def ex_write_def)
qed

theorem removed_row_returns_witness:
  "map_of (hydrate Some ''image_summaries'' ex_endpoint ex_written) ''sha256:abc'' = Some [1, 2]"
proof -
  let ?e = "remove_key ''image_summaries'' ex_endpoint ''sha256:abc''
    (cache_put Some 7 ''image_summaries'' ex_endpoint ''sha256:abc'' [1, 2] (from_connection empty_db))"
  have col: "key_column_for ''image_summaries'' = Some ''image_id''" by (simp add: key_column_for_def)
  have "?e = (from_connection empty_db)\<lparr>pc_channel := [ex_write]\<rparr>"
    by (simp add: remove_key_def col key_column_prepares cache_put_def enqueue_def from_connection_def ex_write_def empty_db_def hm_remove_def)
  then have "cache_step\<^sup>*\<^sup>* ?e ex_written" using ex_steps(1) by simp
  then show ?thesis
    using removed_row_returns [of "from_connection empty_db" "''image_summaries''" "''image_id''" Some "[1, 2]" "[1, 2]" Some ex_endpoint "''sha256:abc''" 7 ex_written]
      ex_steps(2,3) col by (simp add: from_connection_def)
qed

theorem endpoint_isolation_witness:
  "hydrate Some ''image_summaries'' ex_endpoint (clear_endpoint ex_remote ex_written) = hydrate Some ''image_summaries'' ex_endpoint ex_written \<and>
   hydrate Some ''image_summaries'' ex_endpoint ex_written = [(''sha256:abc'', [1, 2])]"
proof -
  have "plain_endpoint ex_remote" "plain_endpoint ex_endpoint" "ex_remote \<noteq> ex_endpoint"
    by (simp_all add: plain_endpoint_def ex_remote_def ex_endpoint_def)
  from endpoint_isolation [OF this, of Some "''image_summaries''" ex_written] show ?thesis
    by (simp add: ex_written_def flush_batch_def write_row_def ex_write_def key_column_for_def key_column_prepares empty_db_def
        hydrate_def select_rows_def from_connection_def hm_insert_def hm_remove_def List.map_filter_simps prepares_def create_schema_def
        payload_columns_def)
qed

end
