(* ===== verification/Docker_Caches.thy ===== *)
theory Docker_Caches
  imports Persistent_Cache
begin

text \<open>
  The image metadata cache (\<^verbatim>\<open>docker-core/src/cache/image_metadata.rs\<close>) and the volume usage cache (\<^verbatim>\<open>volume_usage.rs\<close>), in
  front of the persistent cache, which is passed along. The fetcher of a prefetch is a function, the order in which the
  concurrent fetches end a parameter.
\<close>

section \<open>Image metadata\<close>

record cached_image_metadata =
  cm_architecture :: "string option"
  cm_os :: "string option"
  cm_variant :: "string option"
  cm_config_digest :: "string option"
  cm_inspected_at :: int

record image_metadata_cache =
  im_inner :: "(string \<times> cached_image_metadata) list"
  im_persistent :: bool
  im_endpoint :: "endpoint_key option"

type_synonym image_caches = "image_metadata_cache \<times> persistent_cache"

definition image_metadata_new :: "bool \<Rightarrow> endpoint_key option \<Rightarrow> image_metadata_cache" where
  "image_metadata_new persistent ep = \<lparr>im_inner = [], im_persistent = persistent, im_endpoint = ep\<rparr>"

definition im_backing :: "image_metadata_cache \<Rightarrow> endpoint_key option" where
  "im_backing m = (if im_persistent m then im_endpoint m else None)"

definition im_seed :: "(string \<times> cached_image_metadata) list \<Rightarrow> image_metadata_cache \<Rightarrow> image_metadata_cache" where
  "im_seed entries m = m\<lparr>im_inner := foldl (\<lambda>inner (k, e). hm_insert k e inner) (im_inner m) entries\<rparr>"

definition im_get_persistent ::
  "(bytes \<Rightarrow> cached_image_metadata option) \<Rightarrow> string \<Rightarrow> image_caches \<Rightarrow> cached_image_metadata option \<times> image_caches" where
  "im_get_persistent from_slice iid mc =
     (let (m, c) = mc
      in case im_backing m of
           None \<Rightarrow> (None, m, c)
         | Some ep \<Rightarrow>
             (case cache_get from_slice ''image_details'' ep iid c of
                None \<Rightarrow> (None, m, c)
              | Some e \<Rightarrow> (Some e, m\<lparr>im_inner := hm_insert iid e (im_inner m)\<rparr>, c)))"

definition im_get ::
  "(bytes \<Rightarrow> cached_image_metadata option) \<Rightarrow> string \<Rightarrow> image_caches \<Rightarrow> cached_image_metadata option \<times> image_caches" where
  "im_get from_slice iid mc =
     (case map_of (im_inner (fst mc)) iid of Some e \<Rightarrow> (Some e, mc) | None \<Rightarrow> im_get_persistent from_slice iid mc)"

definition im_get_sync :: "string \<Rightarrow> image_metadata_cache \<Rightarrow> cached_image_metadata option" where
  "im_get_sync iid m = map_of (im_inner m) iid"

definition im_insert ::
  "(cached_image_metadata \<Rightarrow> bytes option) \<Rightarrow> int \<Rightarrow> string \<Rightarrow> cached_image_metadata \<Rightarrow> image_caches \<Rightarrow> image_caches" where
  "im_insert to_vec now iid e mc =
     (let (m, c) = mc; m' = m\<lparr>im_inner := hm_insert iid e (im_inner m)\<rparr>
      in case im_backing m of None \<Rightarrow> (m', c) | Some ep \<Rightarrow> (m', cache_put to_vec now ''image_details'' ep iid e c))"

definition im_remove :: "string \<Rightarrow> image_caches \<Rightarrow> image_caches" where
  "im_remove iid mc =
     (let (m, c) = mc; m' = m\<lparr>im_inner := hm_remove iid (im_inner m)\<rparr>
      in case im_backing m of None \<Rightarrow> (m', c) | Some ep \<Rightarrow> (m', remove_key ''image_details'' ep iid c))"

definition im_contains :: "string \<Rightarrow> image_metadata_cache \<Rightarrow> bool" where
  "im_contains iid m = hm_contains iid (im_inner m)"

definition im_missing :: "string list \<Rightarrow> image_metadata_cache \<Rightarrow> string list" where
  "im_missing images m = filter (\<lambda>i. \<not> hm_contains i (im_inner m)) images"

definition im_retain :: "string list \<Rightarrow> image_caches \<Rightarrow> image_caches" where
  "im_retain images mc =
     (let (m, c) = mc;
          removed = filter (\<lambda>i. i \<notin> set images) (map fst (im_inner m));
          m' = m\<lparr>im_inner := filter (\<lambda>(i, _). i \<in> set images) (im_inner m)\<rparr>
      in case im_backing m of
           None \<Rightarrow> (m', c)
         | Some ep \<Rightarrow> (m', foldl (\<lambda>c i. remove_key ''image_details'' ep i c) c removed))"

text \<open>The results of a prefetch, in the order the fetches end.\<close>

definition im_store ::
  "(cached_image_metadata \<Rightarrow> bytes option) \<Rightarrow> int \<Rightarrow> image_caches \<Rightarrow> string \<times> (string + cached_image_metadata) \<Rightarrow> image_caches" where
  "im_store to_vec now mc r = (case snd r of Inr e \<Rightarrow> im_insert to_vec now (fst r) e mc | Inl _ \<Rightarrow> mc)"

definition im_prefetch ::
  "(cached_image_metadata \<Rightarrow> bytes option) \<Rightarrow> int \<Rightarrow> (string list \<Rightarrow> string list) \<Rightarrow> (string \<Rightarrow> string + cached_image_metadata) \<Rightarrow>
    string list \<Rightarrow> image_caches \<Rightarrow> nat \<times> image_caches" where
  "im_prefetch to_vec now completion fetcher images mc =
     (let missing = im_missing images (fst mc)
      in if missing = [] then (0, mc)
         else let results = map (\<lambda>i. (i, fetcher i)) (completion missing);
                  mc' = foldl (im_store to_vec now) mc results
              in (length (im_missing images (fst mc')), mc'))"

section \<open>Volume usage\<close>

datatype volume_usage_source = SystemDf | VolumeList | VolumeInspect | PersistentCache

record cached_volume_usage =
  cu_size_bytes :: "u64 option"
  cu_ref_count :: "u64 option"
  cu_measured_at :: int
  cu_source :: volume_usage_source

definition cu_is_known :: "cached_volume_usage \<Rightarrow> bool" where
  "cu_is_known u \<longleftrightarrow> cu_size_bytes u \<noteq> None"

record usage_entry =
  ue_usage :: cached_volume_usage
  ue_inserted_at :: nat

record volume_usage_cache =
  vu_inner :: "(string \<times> usage_entry) list"
  vu_ttl :: nat
  vu_persistent :: bool
  vu_endpoint :: "endpoint_key option"

type_synonym usage_caches = "volume_usage_cache \<times> persistent_cache"

definition volume_usage_new :: "bool \<Rightarrow> endpoint_key option \<Rightarrow> nat \<Rightarrow> volume_usage_cache" where
  "volume_usage_new persistent ep ttl = \<lparr>vu_inner = [], vu_ttl = ttl, vu_persistent = persistent, vu_endpoint = ep\<rparr>"

definition default_usage_ttl :: nat where "default_usage_ttl = 45000"

definition vu_backing :: "volume_usage_cache \<Rightarrow> endpoint_key option" where
  "vu_backing u = (if vu_persistent u then vu_endpoint u else None)"

definition vu_seed :: "nat \<Rightarrow> (string \<times> cached_volume_usage) list \<Rightarrow> volume_usage_cache \<Rightarrow> volume_usage_cache" where
  "vu_seed now entries u =
     u\<lparr>vu_inner := foldl (\<lambda>inner (name, usage). hm_insert name \<lparr>ue_usage = usage, ue_inserted_at = now\<rparr> inner) (vu_inner u) entries\<rparr>"

text \<open>\<open>valid_time\<close> is the range of \<^verbatim>\<open>DateTime::from_timestamp\<close>, \<open>clock\<close> the wall clock in seconds and \<open>now\<close> the instant.\<close>

definition vu_get_persistent ::
  "(int \<Rightarrow> bool) \<Rightarrow> int \<Rightarrow> nat \<Rightarrow> string \<Rightarrow> usage_caches \<Rightarrow> cached_volume_usage option \<times> usage_caches" where
  "vu_get_persistent valid_time clock now volume uc =
     (let (u, c) = uc
      in case vu_backing u of
           None \<Rightarrow> (None, u, c)
         | Some ep \<Rightarrow>
             (case List.find (\<lambda>(name, _, _, _). name = volume) (hydrate_usage ep c) of
                None \<Rightarrow> (None, u, c)
              | Some (_, sz, count, at) \<Rightarrow>
                  let usage = \<lparr>cu_size_bytes = sz, cu_ref_count = count,
                               cu_measured_at = (if valid_time at then at else clock), cu_source = PersistentCache\<rparr>
                  in (Some usage, u\<lparr>vu_inner := hm_insert volume \<lparr>ue_usage = usage, ue_inserted_at = now\<rparr> (vu_inner u)\<rparr>, c)))"

definition vu_get ::
  "(int \<Rightarrow> bool) \<Rightarrow> int \<Rightarrow> nat \<Rightarrow> string \<Rightarrow> usage_caches \<Rightarrow> cached_volume_usage option \<times> usage_caches" where
  "vu_get valid_time clock now volume uc =
     (case map_of (vu_inner (fst uc)) volume of
        Some e \<Rightarrow>
          if now - ue_inserted_at e < vu_ttl (fst uc) then (Some (ue_usage e), uc)
          else vu_get_persistent valid_time clock now volume uc
      | None \<Rightarrow> vu_get_persistent valid_time clock now volume uc)"

definition vu_get_stale :: "string \<Rightarrow> volume_usage_cache \<Rightarrow> cached_volume_usage option" where
  "vu_get_stale volume u = map_option ue_usage (map_of (vu_inner u) volume)"

definition vu_put :: "int \<Rightarrow> nat \<Rightarrow> string \<Rightarrow> u64 option \<Rightarrow> u64 option \<Rightarrow> volume_usage_source \<Rightarrow> usage_caches \<Rightarrow> usage_caches" where
  "vu_put clock now volume size_bytes ref_count source uc =
     (let (u, c) = uc;
          usage = \<lparr>cu_size_bytes = size_bytes, cu_ref_count = ref_count, cu_measured_at = clock, cu_source = source\<rparr>;
          u' = u\<lparr>vu_inner := hm_insert volume \<lparr>ue_usage = usage, ue_inserted_at = now\<rparr> (vu_inner u)\<rparr>
      in case vu_backing u of None \<Rightarrow> (u', c) | Some ep \<Rightarrow> (u', put_usage clock ep volume size_bytes ref_count c))"

definition vu_invalidate :: "string \<Rightarrow> volume_usage_cache \<Rightarrow> volume_usage_cache" where
  "vu_invalidate volume u = u\<lparr>vu_inner := hm_remove volume (vu_inner u)\<rparr>"

definition vu_prune_expired :: "nat \<Rightarrow> volume_usage_cache \<Rightarrow> nat \<times> volume_usage_cache" where
  "vu_prune_expired now u =
     (let kept = filter (\<lambda>(_, e). now - ue_inserted_at e < vu_ttl u) (vu_inner u)
      in (length (vu_inner u) - length kept, u\<lparr>vu_inner := kept\<rparr>))"

definition vu_clear :: "volume_usage_cache \<Rightarrow> volume_usage_cache" where
  "vu_clear u = u\<lparr>vu_inner := []\<rparr>"

section \<open>Image metadata: lookups, restarts and prefetch\<close>

lemma cache_get_none: "cache_get from_slice table ep key c = None"
  by (auto simp: cache_get_def prepares_def create_schema_def payload_columns_def split: option.split if_splits)

lemma im_get_memory: "im_get from_slice i (m, c) = (map_of (im_inner m) i, m, c)"
  by (simp add: im_get_def im_get_persistent_def cache_get_none split: option.split)

lemma map_of_seed:
  "map_of (foldl (\<lambda>inner (k, e). hm_insert k e inner) xs entries) i =
     (case map_of (rev entries) i of Some e \<Rightarrow> Some e | None \<Rightarrow> map_of xs i)"
  by (induction entries arbitrary: xs) (auto simp: map_add_def split: option.split)

lemma set_map_filter_iff: "y \<in> set (List.map_filter f xs) \<longleftrightarrow> (\<exists>x \<in> set xs. f x = Some y)"
  by (auto simp: List.map_filter_def image_iff)

lemma hydrate_unique:
  assumes "keyed (pc_db c)" "key_column_for table \<noteq> None" "(k, v) \<in> set (hydrate from_slice table ep c)"
  shows "map_of (hydrate from_slice table ep c) k = Some v"
proof -
  obtain payload n where "((table, storage_key ep, k), payload, n) \<in> set (db_rows (pc_db c))" "from_slice payload = Some v"
    using assms(3) by (auto simp: hydrate_def select_rows_def set_map_filter_iff Let_def split: option.splits if_splits)
  with assms(1,2) show ?thesis by (simp add: hydrate_row_of row_of_def keyed_def)
qed

lemma hydrate_rev:
  assumes "keyed (pc_db c)" "key_column_for table \<noteq> None" "map_of (hydrate from_slice table ep c) k = Some v"
  shows "map_of (rev (hydrate from_slice table ep c)) k = Some v"
proof -
  have "k \<in> fst ` set (rev (hydrate from_slice table ep c))" using map_of_SomeD [OF assms(3)] by force
  then obtain w where w: "map_of (rev (hydrate from_slice table ep c)) k = Some w" by (metis map_of_eq_None_iff not_None_eq)
  then have "(k, w) \<in> set (hydrate from_slice table ep c)" using map_of_SomeD by fastforce
  from hydrate_unique [OF assms(1,2) this] show ?thesis using assms(3) w by simp
qed

text \<open>Image metadata survives a restart only through the startup hydration: after an entry has been inserted and written, the
  snapshot lists it and a cache seeded from the snapshot returns it, but a cache that is not seeded does not find it, since the
  persistent lookup names a column that no table has and always fails.\<close>

theorem metadata_needs_seed:
  assumes "keyed (pc_db c)" "im_backing m = Some ep" "to_vec e = Some payload" "from_slice payload = Some e"
    and "cache_step\<^sup>*\<^sup>* (snd (im_insert to_vec now i e (m, c))) d" "cache_idle d"
  shows "map_of (hydrate from_slice ''image_details'' ep d) i = Some e \<and>
    fst (im_get from_slice i (im_seed (hydrate from_slice ''image_details'' ep d) (image_metadata_new True (Some ep)), d)) = Some e \<and>
    fst (im_get from_slice i (image_metadata_new True (Some ep), d)) = None"
proof -
  have col: "key_column_for ''image_details'' \<noteq> None" by (simp add: key_column_for_def)
  let ?c = "snd (im_insert to_vec now i e (m, c))"
  have put: "?c = cache_put to_vec now ''image_details'' ep i e c" using assms(2) by (simp add: im_insert_def)
  have kc: "keyed (pc_db ?c)" using assms(1) put by (simp add: cache_put_def enqueue_def)
  then have kd: "keyed (pc_db d)" by (rule cache_exec_keyed [OF cache_exec_steps [OF assms(5)]])
  have "latest ''image_details'' (storage_key ep) i (unwritten ?c) = Some payload"
    using assms(3) unfolding put
    by (simp add: cache_put_def enqueue_def unwritten_def latest_append latest_one stores_def flip: append_assoc split: option.split)
  then have "row_of (cache_view ?c) ''image_details'' (storage_key ep) i = Some payload"
    using col by (simp add: cache_view_def flush_batch_row_of)
  then have "row_of (pc_db d) ''image_details'' (storage_key ep) i = Some payload"
    using cache_exec_view [OF cache_exec_steps [OF assms(5)] col, of "storage_key ep" i] idle_view [OF assms(6)]
    by (simp add: latest_def)
  then have row: "map_of (hydrate from_slice ''image_details'' ep d) i = Some e"
    using hydrate_row_of [OF kd col, of from_slice ep i] assms(4) by simp
  moreover note hydrate_rev [OF kd col row]
  ultimately show ?thesis by (simp add: im_get_memory im_seed_def map_of_seed image_metadata_new_def)
qed

text \<open>A prefetch.\<close>

lemma im_store_get:
  "map_of (im_inner (fst (im_store to_vec now mc (j, r)))) i =
     (if i = j \<and> \<not> isl r then Some (projr r) else map_of (im_inner (fst mc)) i)"
  by (cases r) (auto simp: im_store_def im_insert_def case_prod_beta Let_def split: option.split)

lemma im_stores_get:
  "map_of (im_inner (fst (foldl (im_store to_vec now) mc (map (\<lambda>i. (i, fetcher i)) js)))) i =
     (if i \<in> set js \<and> \<not> isl (fetcher i) then Some (projr (fetcher i)) else map_of (im_inner (fst mc)) i)"
  by (induction js arbitrary: mc) (auto simp: im_store_get)

text \<open>A prefetch asks for the images that are not cached, keeps every answer whatever the order the answers come in, changes
  no entry that was there, and returns how many of the requested images it still could not get.\<close>

theorem prefetch_fills:
  assumes "set (completion (im_missing images (fst mc))) = set (im_missing images (fst mc))"
  shows "fst (im_prefetch to_vec now completion fetcher images mc) =
      length (filter (\<lambda>i. \<not> im_contains i (fst mc) \<and> isl (fetcher i)) images) \<and>
    im_get_sync i (fst (snd (im_prefetch to_vec now completion fetcher images mc))) =
      (if im_contains i (fst mc) then im_get_sync i (fst mc)
       else if i \<in> set images \<and> \<not> isl (fetcher i) then Some (projr (fetcher i)) else None)"
proof (cases "im_missing images (fst mc) = []")
  case True
  then have "\<And>j. j \<in> set images \<Longrightarrow> im_contains j (fst mc)" by (auto simp: im_missing_def im_contains_def filter_empty_conv)
  moreover have "filter (\<lambda>i. \<not> im_contains i (fst mc) \<and> isl (fetcher i)) images = []"
    using calculation by (simp add: filter_empty_conv)
  ultimately show ?thesis
    using True by (auto simp: im_prefetch_def im_get_sync_def im_contains_def hm_contains_iff)
next
  case False
  let ?mc = "foldl (im_store to_vec now) mc (map (\<lambda>i. (i, fetcher i)) (completion (im_missing images (fst mc))))"
  have get: "map_of (im_inner (fst ?mc)) j =
      (if im_contains j (fst mc) then map_of (im_inner (fst mc)) j
       else if j \<in> set images \<and> \<not> isl (fetcher j) then Some (projr (fetcher j)) else None)" for j
    unfolding im_stores_get assms by (auto simp: im_missing_def im_contains_def hm_contains_iff)
  have "im_missing images m = filter (\<lambda>i. \<not> im_contains i (fst mc) \<and> isl (fetcher i)) images"
    if "\<And>j. map_of (im_inner m) j =
      (if im_contains j (fst mc) then map_of (im_inner (fst mc)) j
       else if j \<in> set images \<and> \<not> isl (fetcher j) then Some (projr (fetcher j)) else None)" for m
    unfolding im_missing_def hm_contains_iff that by (rule filter_cong) (auto simp: im_contains_def hm_contains_iff)
  from this [OF get] False get show ?thesis by (simp add: im_prefetch_def im_get_sync_def Let_def)
qed

section \<open>Volume usage: lifetimes\<close>

lemma find_hydrate_usage:
  assumes "keyed (pc_db c)" "map_of (db_usage (pc_db c)) (storage_key ep, volume) = Some row"
  shows "List.find (\<lambda>(name, _, _, _). name = volume) (hydrate_usage ep c) =
    Some (volume, map_option word_of_int (us_size_bytes row), map_option word_of_int (us_ref_count row), us_measured_at row)"
proof -
  have "List.find (\<lambda>(name, _, _, _). name = volume) (List.map_filter (\<lambda>((e, name), row).
             if e = storage_key ep
             then Some (name, map_option word_of_int (us_size_bytes row) :: u64 option,
               map_option word_of_int (us_ref_count row) :: u64 option, us_measured_at row)
             else None) rows) =
      Some (volume, map_option word_of_int (us_size_bytes row), map_option word_of_int (us_ref_count row), us_measured_at row)"
    if "map_of rows (storage_key ep, volume) = Some row" for rows
    using that by (induction rows) (auto simp: List.map_filter_simps split: if_splits)
  then show ?thesis
    using assms(2) by (simp add: hydrate_usage_def prepares_def create_schema_def)
qed

lemma u64_i64 [simp]: "map_option word_of_int (map_option sint x) = (x :: u64 option)"
  by (cases x) simp_all

lemma vu_get_persistent_row:
  assumes "keyed (pc_db c)" "vu_backing u = Some ep" "map_of (db_usage (pc_db c)) (storage_key ep, volume) = Some row"
  shows "vu_get_persistent valid_time clock now volume (u, c) =
    (let usage = \<lparr>cu_size_bytes = map_option word_of_int (us_size_bytes row), cu_ref_count = map_option word_of_int (us_ref_count row),
                  cu_measured_at = (if valid_time (us_measured_at row) then us_measured_at row else clock), cu_source = PersistentCache\<rparr>
     in (Some usage, u\<lparr>vu_inner := hm_insert volume \<lparr>ue_usage = usage, ue_inserted_at = now\<rparr> (vu_inner u)\<rparr>, c))"
  using assms(2) by (simp add: vu_get_persistent_def find_hydrate_usage [OF assms(1,3)])

text \<open>A persisted measurement is returned exactly, for every size and an unknown one too, and its lifetime is not enforced:
  once the statement of a put has run, a lookup at any later time, even after the lifetime has passed or the entry has been
  invalidated, returns the same size and count, and keeps the old measurement as a fresh entry.\<close>

theorem persisted_usage_never_expires:
  assumes "vu_backing u = Some ep" "keyed (pc_db c)"
    and "vu_put clock now volume sz count source (u, c) = (u', c')" "pc_threads c' = jobs @ [job]"
    and "c'' = c'\<lparr>pc_db := run_job job (pc_db c'), pc_threads := jobs\<rparr>"
    and "old \<in> {u', vu_invalidate volume u'}"
  shows "\<exists>usage new. vu_get valid_time clock' later volume (old, c'') = (Some usage, new, c'') \<and>
    cu_size_bytes usage = sz \<and> cu_ref_count usage = count \<and>
    (old = u' \<and> later - now < vu_ttl u \<longrightarrow> cu_source usage = source \<and> new = u') \<and>
    (old = vu_invalidate volume u' \<or> vu_ttl u \<le> later - now \<longrightarrow>
       cu_source usage = PersistentCache \<and> map_of (vu_inner new) volume = Some \<lparr>ue_usage = usage, ue_inserted_at = later\<rparr>)"
proof -
  let ?usage = "\<lparr>cu_size_bytes = sz, cu_ref_count = count, cu_measured_at = clock, cu_source = source\<rparr>"
  have u': "u' = u\<lparr>vu_inner := hm_insert volume \<lparr>ue_usage = ?usage, ue_inserted_at = now\<rparr> (vu_inner u)\<rparr>"
    and c': "c' = put_usage clock ep volume sz count c"
    using assms(1,3) by (auto simp: vu_put_def Let_def)
  have job: "job = UsageJob (storage_key ep) volume (map_option sint sz) (map_option sint count) clock"
    using assms(4) c' by (simp add: put_usage_def)
  let ?row = "\<lparr>us_size_bytes = map_option sint sz, us_ref_count = map_option sint count, us_measured_at = clock\<rparr>"
  have row: "map_of (db_usage (pc_db c'')) (storage_key ep, volume) = Some ?row" "keyed (pc_db c'')"
    using assms(2,5) job c' by (simp_all add: run_job_def put_usage_def keyed_def distinct_hm_insert)
  have backing: "vu_backing u' = Some ep" "vu_backing (vu_invalidate volume u') = Some ep"
    using assms(1) by (simp_all add: u' vu_invalidate_def vu_backing_def split: if_splits)
  have mem: "map_of (vu_inner u') volume = Some \<lparr>ue_usage = ?usage, ue_inserted_at = now\<rparr>" "vu_ttl u' = vu_ttl u"
    "map_of (vu_inner (vu_invalidate volume u')) volume = None"
    by (simp_all add: u' vu_invalidate_def)
  show ?thesis
  proof (cases "old = u' \<and> later - now < vu_ttl u")
    case True
    have "u' \<noteq> vu_invalidate volume u'"
    proof
      assume "u' = vu_invalidate volume u'"
      then have "map_of (vu_inner u') volume = map_of (vu_inner (vu_invalidate volume u')) volume" by (rule arg_cong)
      with mem show False by simp
    qed
    with True mem show ?thesis by (auto simp: vu_get_def)
  next
    case False
    with assms(6) have "vu_get valid_time clock' later volume (old, c'') = vu_get_persistent valid_time clock' later volume (old, c'')"
      using mem by (auto simp: vu_get_def)
    moreover have "vu_backing old = Some ep" using assms(6) backing by auto
    moreover define usage where "usage = \<lparr>cu_size_bytes = sz, cu_ref_count = count,
      cu_measured_at = (if valid_time clock then clock else clock'), cu_source = PersistentCache\<rparr>"
    ultimately have "vu_get valid_time clock' later volume (old, c'') =
        (Some usage, old\<lparr>vu_inner := hm_insert volume \<lparr>ue_usage = usage, ue_inserted_at = later\<rparr> (vu_inner old)\<rparr>, c'')"
      using vu_get_persistent_row [OF row(2) _ row(1), of old valid_time clock' later] by (simp add: Let_def)
    moreover have "cu_size_bytes usage = sz" "cu_ref_count usage = count" "cu_source usage = PersistentCache"
      by (simp_all add: usage_def)
    ultimately show ?thesis using False by auto
  qed
qed

section \<open>Examples\<close>

definition ex_metadata :: cached_image_metadata where
  "ex_metadata = \<lparr>cm_architecture = Some ''amd64'', cm_os = Some ''linux'', cm_variant = None, cm_config_digest = None, cm_inspected_at = 5\<rparr>"

definition ex_decode :: "bytes \<Rightarrow> cached_image_metadata option" where
  "ex_decode bs = (if bs = [1, 2] then Some ex_metadata else None)"

theorem metadata_needs_seed_witness:
  "\<exists>d. map_of (hydrate ex_decode ''image_details'' ex_endpoint d) ''sha256:abc'' = Some ex_metadata \<and>
     fst (im_get ex_decode ''sha256:abc'' (image_metadata_new True (Some ex_endpoint), d)) = None"
proof -
  let ?m = "image_metadata_new True (Some ex_endpoint)"
  let ?c = "from_connection empty_db"
  obtain d where d: "cache_step\<^sup>*\<^sup>* (snd (im_insert (\<lambda>_. Some [1, 2]) 7 ''sha256:abc'' ex_metadata (?m, ?c))) d" "cache_idle d"
    using cache_drains by blast
  have "keyed (pc_db ?c)" "im_backing ?m = Some ex_endpoint" "ex_decode [1, 2] = Some ex_metadata"
    using ex_steps(3) by (simp_all add: from_connection_def image_metadata_new_def im_backing_def ex_decode_def)
  with d metadata_needs_seed [of ?c ?m ex_endpoint "\<lambda>_. Some [1, 2]" ex_metadata "[1, 2]" ex_decode 7 "''sha256:abc''" d]
  show ?thesis by blast
qed

theorem prefetch_fills_witness:
  "fst (im_prefetch (\<lambda>_. None) 7 rev (\<lambda>i. if i = ''a'' then Inr ex_metadata else Inl ''gone'') [''a'', ''b'']
      (image_metadata_new False None, from_connection empty_db)) = 1"
  using prefetch_fills [of rev "[''a'', ''b'']" "(image_metadata_new False None, from_connection empty_db)" "\<lambda>_. None" 7
      "\<lambda>i. if i = ''a'' then Inr ex_metadata else Inl ''gone''" "''a''"]
  by (simp add: im_contains_def hm_contains_def image_metadata_new_def)

theorem persisted_usage_never_expires_witness:
  "\<exists>usage new c. vu_get (\<lambda>_. True) 900 1000000 ''data''
     (vu_invalidate ''data'' (fst (vu_put 5 0 ''data'' (Some 18446744073709551615) None SystemDf
        (volume_usage_new True (Some ex_endpoint) default_usage_ttl, from_connection empty_db))), c) = (Some usage, new, c) \<and>
     cu_size_bytes usage = Some 18446744073709551615 \<and> cu_source usage = PersistentCache"
proof -
  let ?u = "volume_usage_new True (Some ex_endpoint) default_usage_ttl"
  let ?c = "from_connection empty_db"
  let ?sz = "Some 18446744073709551615 :: u64 option"
  let ?r = "vu_put 5 0 ''data'' ?sz None SystemDf (?u, ?c)"
  let ?j = "UsageJob (storage_key ex_endpoint) ''data'' (map_option sint ?sz) (map_option sint (None :: u64 option)) 5"
  have "vu_backing ?u = Some ex_endpoint" "keyed (pc_db ?c)" "?r = (fst ?r, snd ?r)"
    using ex_steps(3) by (simp_all add: volume_usage_new_def vu_backing_def from_connection_def)
  moreover have "pc_threads (snd ?r) = [] @ [?j]"
    by (simp add: vu_put_def volume_usage_new_def vu_backing_def put_usage_def from_connection_def)
  ultimately show ?thesis
    using persisted_usage_never_expires [of ?u ex_endpoint ?c 5 0 "''data''" ?sz None SystemDf "fst ?r" "snd ?r" "[]" ?j
        "(snd ?r)\<lparr>pc_db := run_job ?j (pc_db (snd ?r)), pc_threads := []\<rparr>" "vu_invalidate ''data'' (fst ?r)" "\<lambda>_. True" 900 1000000]
    by blast
qed

end
