(* ===== verification/Container_Provider.thy ===== *)
theory Container_Provider
  imports Image_Provider Router
begin

text \<open>
  The files of a container, \<^verbatim>\<open>docker-core/src/vfs_providers/container.rs\<close>: a snapshot of the root file system taken from the export
  of the container, with the mounted directories hidden, and the router that puts the providers of the mounts over it. The exports
  and the clock are parameters; the providers behind the router share one world.
\<close>

section \<open>The snapshot of the root file system\<close>

definition validate_identity :: "bytes \<Rightarrow> unit vfs_result" where
  "validate_identity identity =
     (if length identity \<noteq> 64 \<or> \<not> list_all Image_Provider.is_ascii_hexdigit identity
      then Inl (InvalidInput ''container snapshot identity must be a full immutable container ID'') else Inr ())"

text \<open>\<^verbatim>\<open>format!\<close> of a number.\<close>

fun decimal_bytes :: "nat \<Rightarrow> bytes" where
  "decimal_bytes n = (if n < 10 then [of_nat (48 + n)] else decimal_bytes (n div 10) @ [of_nat (48 + n mod 10)])"

declare decimal_bytes.simps [simp del]

text \<open>A \<^verbatim>\<open>SnapshotMount\<close> is its destination.\<close>

definition snapshot_mount_new :: "virtual_path \<Rightarrow> virtual_path vfs_result" where
  "snapshot_mount_new dest = (if is_root dest then Inl (InvalidInput ''container root cannot be a mount overlay'') else Inr dest)"

record snapshot_config =
  sc_container_id :: bytes
  sc_limits :: tar_limits
  sc_mounts :: "virtual_path list"
  sc_content :: archive_config

record captured =
  cp_index :: tar_index
  cp_captured_at :: int
  cp_generation :: u64

record snapshot_state =
  ss_generation :: u64
  ss_state :: "captured option"
  ss_exports :: nat
  ss_archive :: archive_state

text \<open>The mounts are sorted by depth and bytes, and neighbours with the same destination are merged.\<close>

definition overlay_order :: "virtual_path \<Rightarrow> nat \<times> bytes" where
  "overlay_order dest = (depth dest, path_as_bytes dest)"

definition snapshot_new ::
    "bytes \<Rightarrow> u64 \<Rightarrow> archive_config \<times> archive_state \<Rightarrow> tar_limits \<Rightarrow> virtual_path list \<Rightarrow> nat \<Rightarrow>
       (snapshot_config \<times> snapshot_state) vfs_result" where
  "snapshot_new cid generation backend limits overlays operation_timeout =
     bindR (validate_identity cid) (\<lambda>_.
     bindR (limits_validate limits) (\<lambda>_.
     if operation_timeout = 0 then Inl (InvalidInput ''snapshot timeout must be non-zero'')
     else Inr (\<lparr>sc_container_id = cid, sc_limits = limits, sc_mounts = remdups_adj (sort_key overlay_order overlays),
                sc_content = fst backend\<rparr>,
               \<lparr>ss_generation = generation, ss_state = None, ss_exports = 0, ss_archive = snd backend\<rparr>)))"

text \<open>What was exported below a mount is removed and the mount point becomes a directory.\<close>

definition apply_overlay :: "virtual_path \<Rightarrow> u64 \<Rightarrow> tar_index \<Rightarrow> unit vfs_result \<times> tar_index" where
  "apply_overlay dest m idx =
     (let path = from_virtual dest;
          idx1 = remove_descendants path idx
      in if index_get idx1 path \<noteq> None then (Inr (), index_replace (synthetic_directory path) idx1)
         else insert_synthetic_directory path m idx1)"

fun apply_mount_overlays :: "virtual_path list \<Rightarrow> u64 \<Rightarrow> tar_index \<Rightarrow> tar_index vfs_result" where
  "apply_mount_overlays [] m idx = Inr idx"
| "apply_mount_overlays (dest # dests) m idx =
     (case apply_overlay dest m idx of (Inl e, _) \<Rightarrow> Inl e | (Inr _, idx') \<Rightarrow> apply_mount_overlays dests m idx')"

definition capture_generation ::
    "image_exports \<Rightarrow> (nat \<Rightarrow> int) \<Rightarrow> snapshot_config \<Rightarrow> u64 \<Rightarrow> snapshot_state \<Rightarrow> captured vfs_result \<times> snapshot_state" where
  "capture_generation exports clock cfg generation st =
     (let st1 = st\<lparr>ss_exports := ss_exports st + 1\<rparr>
      in case exports (ss_exports st) (sc_container_id cfg) of
           Late \<Rightarrow> (Inl TimedOut, st1)
         | Reply (Inl e) \<Rightarrow> (Inl e, st1)
         | Reply (Inr s) \<Rightarrow>
             (case bindR (from_stream s (sc_limits cfg)) (apply_mount_overlays (sc_mounts cfg) (max_entries (sc_limits cfg))) of
                Inl e \<Rightarrow> (Inl e, st1)
              | Inr idx \<Rightarrow>
                  let snap = \<lparr>cp_index = idx, cp_captured_at = clock (ss_exports st), cp_generation = generation\<rparr>
                  in (Inr snap, st1\<lparr>ss_generation := generation, ss_state := Some snap\<rparr>)))"

definition snapshot_capture ::
    "image_exports \<Rightarrow> (nat \<Rightarrow> int) \<Rightarrow> snapshot_config \<Rightarrow> snapshot_state \<Rightarrow> int vfs_result \<times> snapshot_state" where
  "snapshot_capture exports clock cfg st =
     andthen (capture_generation exports clock cfg (ss_generation st) st) (\<lambda>snap st'. (Inr (cp_captured_at snap), st'))"

definition current_snapshot ::
    "image_exports \<Rightarrow> (nat \<Rightarrow> int) \<Rightarrow> snapshot_config \<Rightarrow> snapshot_state \<Rightarrow> captured vfs_result \<times> snapshot_state" where
  "current_snapshot exports clock cfg st =
     (case ss_state st of
        Some snap \<Rightarrow> (Inr snap, st)
      | None \<Rightarrow> capture_generation exports clock cfg (ss_generation st) st)"

definition snapshot_identity :: "snapshot_config \<Rightarrow> u64 \<Rightarrow> bytes" where
  "snapshot_identity cfg generation =
     ascii ''container:'' @ sc_container_id cfg @ ascii '':'' @ decimal_bytes (unat generation)"

definition snapshot_root_metadata :: "snapshot_config \<Rightarrow> snapshot_state \<Rightarrow> virtual_metadata" where
  "snapshot_root_metadata cfg st =
     (metadata_directory (snapshot_identity cfg (ss_generation st)))\<lparr>md_generation := ss_generation st\<rparr>"

definition snapshot_descriptor :: "snapshot_config \<Rightarrow> snapshot_state \<Rightarrow> provider_descriptor" where
  "snapshot_descriptor cfg st =
     \<lparr>pd_kind = provider_kind.ContainerRootfsSnapshot,
      pd_consistency = (case ss_state st of
                          None \<Rightarrow> consistency_mode.ConsistencyUnavailable
                        | Some snap \<Rightarrow> consistency_mode.Snapshot (cp_captured_at snap) (ss_generation st)),
      pd_source = Some (map (\<lambda>b. char_of (unat b)) (sc_container_id cfg)), pd_capabilities = READ_ONLY\<rparr>"

text \<open>An operation over the snapshot.\<close>

definition with_snapshot ::
    "image_exports \<Rightarrow> (nat \<Rightarrow> int) \<Rightarrow> snapshot_config \<Rightarrow> (captured \<Rightarrow> 'a vfs_result) \<Rightarrow> snapshot_state \<Rightarrow>
       'a vfs_result \<times> snapshot_state" where
  "with_snapshot exports clock cfg f st = andthen (current_snapshot exports clock cfg st) (\<lambda>snap st'. (f snap, st'))"

definition snapshot_metadata :: "snapshot_config \<Rightarrow> virtual_path \<Rightarrow> captured \<Rightarrow> virtual_metadata vfs_result" where
  "snapshot_metadata cfg path snap =
     bindR (ok_or NotFound (get_virtual (cp_index snap) path)) (\<lambda>entry.
     index_metadata (cp_index snap) (te_path entry) (snapshot_identity cfg (cp_generation snap)) (cp_generation snap))"

definition snapshot_lookup ::
    "image_exports \<Rightarrow> (nat \<Rightarrow> int) \<Rightarrow> snapshot_config \<Rightarrow> virtual_path \<Rightarrow> virtual_file_name \<Rightarrow> request_context \<Rightarrow>
       snapshot_state \<Rightarrow> virtual_metadata vfs_result \<times> snapshot_state" where
  "snapshot_lookup exports clock cfg parent name ctx st =
     (case path_join parent name of
        Inl e \<Rightarrow> (Inl e, st)
      | Inr path \<Rightarrow> with_snapshot exports clock cfg (snapshot_metadata cfg path) st)"

definition snapshot_getattr ::
    "image_exports \<Rightarrow> (nat \<Rightarrow> int) \<Rightarrow> snapshot_config \<Rightarrow> virtual_path \<Rightarrow> request_context \<Rightarrow> snapshot_state \<Rightarrow>
       virtual_metadata vfs_result \<times> snapshot_state" where
  "snapshot_getattr exports clock cfg path ctx st =
     (if is_root path then (Inr (snapshot_root_metadata cfg st), st)
      else with_snapshot exports clock cfg (snapshot_metadata cfg path) st)"

definition snapshot_read_dir ::
    "image_exports \<Rightarrow> (nat \<Rightarrow> int) \<Rightarrow> snapshot_config \<Rightarrow> virtual_path \<Rightarrow> request_context \<Rightarrow> snapshot_state \<Rightarrow>
       virtual_directory_entry list vfs_result \<times> snapshot_state" where
  "snapshot_read_dir exports clock cfg path ctx st =
     with_snapshot exports clock cfg (\<lambda>snap.
       directory_entries (cp_index snap) path (snapshot_identity cfg (cp_generation snap)) (cp_generation snap)) st"

definition snapshot_read_link ::
    "image_exports \<Rightarrow> (nat \<Rightarrow> int) \<Rightarrow> snapshot_config \<Rightarrow> virtual_path \<Rightarrow> request_context \<Rightarrow> snapshot_state \<Rightarrow>
       virtual_path_bytes vfs_result \<times> snapshot_state" where
  "snapshot_read_link exports clock cfg path ctx st =
     with_snapshot exports clock cfg (\<lambda>snap.
       bindR (ok_or NotFound (get_virtual (cp_index snap) path)) (\<lambda>entry.
       if te_kind entry \<noteq> TarSymlink then Inl (InvalidInput ''node is not a symlink'')
       else virtual_path_bytes_new (case link_target entry of None \<Rightarrow> [] | Some t \<Rightarrow> t))) st"

definition on_content :: "(archive_state \<Rightarrow> 'a \<times> archive_state) \<Rightarrow> snapshot_state \<Rightarrow> 'a \<times> snapshot_state" where
  "on_content f st = (case f (ss_archive st) of (r, a) \<Rightarrow> (r, st\<lparr>ss_archive := a\<rparr>))"

definition snapshot_open ::
    "(32 word \<Rightarrow> open_acc_mode) \<Rightarrow> image_exports \<Rightarrow> (nat \<Rightarrow> int) \<Rightarrow> archive_source \<Rightarrow> snapshot_config \<Rightarrow> virtual_path \<Rightarrow> 32 word \<Rightarrow>
       request_context \<Rightarrow> snapshot_state \<Rightarrow> provider_file_handle vfs_result \<times> snapshot_state" where
  "snapshot_open acc_mode exports clock source cfg path flags ctx st =
     (if \<not> is_read_only_open acc_mode flags then (Inl ReadOnly, st)
      else
        andthen (with_snapshot exports clock cfg (\<lambda>snap.
          bindR (content_path (cp_index snap) path) (\<lambda>target. Inr (target, cp_generation snap))) st) (\<lambda>(target, generation) st'.
        andthen (on_content (archive_open acc_mode source (sc_content cfg) target flags ctx) st') (\<lambda>handle st''.
        (Inr (handle\<lparr>pfh_path := path, content_generation := generation\<rparr>), st''))))"

definition snapshot_read_at ::
    "file_reads \<Rightarrow> provider_file_handle \<Rightarrow> u64 \<Rightarrow> u32 \<Rightarrow> request_context \<Rightarrow> snapshot_state \<Rightarrow> bytes vfs_result \<times> snapshot_state" where
  "snapshot_read_at file_reads handle offset sz ctx st =
     (if content_generation handle \<noteq> ss_generation st then (Inl Stale, st)
      else on_content (archive_read_at file_reads handle offset sz ctx) st)"

definition snapshot_close :: "provider_file_handle \<Rightarrow> snapshot_state \<Rightarrow> unit vfs_result \<times> snapshot_state" where
  "snapshot_close handle st = on_content (archive_close handle) st"

definition snapshot_refresh ::
    "image_exports \<Rightarrow> (nat \<Rightarrow> int) \<Rightarrow> snapshot_config \<Rightarrow> virtual_path option \<Rightarrow> snapshot_state \<Rightarrow> unit vfs_result \<times> snapshot_state" where
  "snapshot_refresh exports clock cfg path st =
     (if ss_generation st = - 1 then (Inl (Unavailable ''snapshot generation exhausted''), st)
      else andthen (capture_generation exports clock cfg (ss_generation st + 1) st) (\<lambda>_ st'. (Inr (), st')))"

definition snapshot_provider ::
    "(32 word \<Rightarrow> open_acc_mode) \<Rightarrow> image_exports \<Rightarrow> (nat \<Rightarrow> int) \<Rightarrow> archive_source \<Rightarrow> file_reads \<Rightarrow> snapshot_config \<Rightarrow>
       snapshot_state provider" where
  "snapshot_provider acc_mode exports clock source file_reads cfg =
     \<lparr>prov_descriptor = snapshot_descriptor cfg, prov_lookup = snapshot_lookup exports clock cfg,
      prov_getattr = snapshot_getattr exports clock cfg, prov_read_dir = snapshot_read_dir exports clock cfg,
      prov_read_link = snapshot_read_link exports clock cfg, prov_open = snapshot_open acc_mode exports clock source cfg,
      prov_read_at = snapshot_read_at file_reads, prov_close = snapshot_close, prov_refresh = snapshot_refresh exports clock cfg\<rparr>"

section \<open>Mount overlays\<close>

text \<open>Adding missing directories changes no entry that is there.\<close>

lemma missing_parents_absent: "q \<in> set (missing_parents idx parent) \<Longrightarrow> map_of idx q = None"
  by (induction idx parent rule: missing_parents.induct)
     (subst (asm) (2) missing_parents.simps, auto split: option.splits if_splits)

lemma missing_parents_distinct: "distinct (missing_parents idx parent)"
proof -
  have smaller: "q \<in> set (missing_parents idx parent) \<Longrightarrow> (case parent of None \<Rightarrow> False | Some p \<Rightarrow> tar_depth q \<le> tar_depth p)"
    for q idx parent
  proof (induction idx parent rule: missing_parents.induct)
    case (1 idx parent)
    then show ?case
      by (subst (asm) (2) missing_parents.simps)
         (auto split: option.splits if_splits dest: tar_parent_smaller, fastforce dest: tar_parent_smaller)
  qed
  show ?thesis
  proof (induction idx parent rule: missing_parents.induct)
    case (1 idx parent)
    show ?case
    proof (cases parent)
      case (Some p)
      have "p \<notin> set (missing_parents idx (tar_parent p))"
        using smaller [of p idx "tar_parent p"] tar_parent_smaller [of p] by (auto split: option.splits)
      then show ?thesis using 1 Some by (subst missing_parents.simps) auto
    qed (subst missing_parents.simps, simp)
  qed
qed

definition grows :: "tar_index \<Rightarrow> tar_index \<Rightarrow> bool" where
  "grows idx idx' \<longleftrightarrow> (\<forall>q. map_of idx' q = map_of idx q \<or> (map_of idx q = None \<and> map_of idx' q = Some (synthetic_directory q)))"

lemma insert_missing_grows:
  "insert_missing ps m idx = (r, idx') \<Longrightarrow> distinct ps \<Longrightarrow> \<forall>p \<in> set ps. map_of idx p = None \<Longrightarrow> grows idx idx'"
proof (induction ps m idx arbitrary: r idx' rule: insert_missing.induct)
  case (2 path paths m idx)
  show ?case
  proof (cases "ensure_capacity idx m")
    case (Inr u)
    let ?idx = "btree_insert path (synthetic_directory path) idx"
    have "grows ?idx idx'" using 2 Inr by (intro 2(1)) auto
    moreover have "map_of idx path = None" using 2(4) by simp
    ultimately show ?thesis by (auto simp: grows_def split: if_splits)
  qed (use 2 in \<open>auto simp: grows_def\<close>)
qed (simp add: grows_def)

lemma insert_synthetic_grows:
  assumes "insert_synthetic_directory p m idx = (Inr (), idx')" "map_of idx p = None"
  shows "grows idx idx' \<and> (p \<noteq> tar_root \<longrightarrow> map_of idx' p = Some (synthetic_directory p))"
proof (cases "tar_is_root p")
  case True
  then have "p = tar_root" by (cases p) (simp add: tar_is_root_def tar_root_def)
  with True assms show ?thesis by (auto simp: insert_synthetic_directory_def grows_def)
next
  case False
  obtain r idx1 where i: "insert_missing (rev (missing_parents idx (tar_parent p))) m idx = (r, idx1)" by fastforce
  have g: "grows idx idx1"
    by (rule insert_missing_grows [OF i]) (auto simp: missing_parents_distinct missing_parents_absent)
  have "te_path (synthetic_directory p) = p" "synthetic (synthetic_directory p)" by (simp_all add: synthetic_directory_def)
  then have "map_of idx1 p = None \<and> idx' = btree_insert p (synthetic_directory p) idx1"
    using assms False i by (auto simp: insert_synthetic_directory_def insert_with_parents_def split: sum.splits option.splits)
  then show ?thesis using g assms(2) by (auto simp: grows_def split: if_splits)
qed

lemma map_of_remove_descendants:
  "map_of (remove_descendants p idx) q = (if is_descendant_of q p then None else map_of idx q)"
  by (induction idx) (auto simp: remove_descendants_def)

lemma apply_overlay_spec:
  assumes "apply_overlay dest m idx = (Inr (), idx')" "\<not> is_root dest"
  shows "map_of idx' (from_virtual dest) = Some (synthetic_directory (from_virtual dest))"
    and "q \<noteq> from_virtual dest \<Longrightarrow> map_of idx' q = Some e \<Longrightarrow> map_of idx q = Some e \<and> \<not> is_descendant_of q (from_virtual dest) \<or>
           e = synthetic_directory q"
    and "q \<noteq> from_virtual dest \<Longrightarrow> \<not> is_descendant_of q (from_virtual dest) \<Longrightarrow> map_of idx q = Some e \<Longrightarrow> map_of idx' q = Some e"
proof -
  let ?p = "from_virtual dest"
  let ?idx = "remove_descendants ?p idx"
  have root: "?p \<noteq> tar_root" using assms(2) by (auto simp: from_virtual_def tar_root_def is_root_def)
  have path: "te_path (synthetic_directory ?p) = ?p" by (simp add: synthetic_directory_def)
  have split: "(map_of ?idx ?p \<noteq> None \<and> map_of idx' = (map_of ?idx)(?p \<mapsto> synthetic_directory ?p)) \<or>
      (grows ?idx idx' \<and> map_of idx' ?p = Some (synthetic_directory ?p))"
    using assms(1) root insert_synthetic_grows [of ?p m ?idx idx']
    by (auto simp: apply_overlay_def index_get_def index_replace_def path Let_def split: if_splits)
  then show "map_of idx' ?p = Some (synthetic_directory ?p)" by auto
  have "map_of idx' x = (if is_descendant_of x ?p then None else map_of idx x) \<or>
      ((if is_descendant_of x ?p then None else map_of idx x) = None \<and> map_of idx' x = Some (synthetic_directory x))"
    if "x \<noteq> ?p" for x
    using split that unfolding grows_def by (metis fun_upd_apply map_of_remove_descendants)
  then show "q \<noteq> ?p \<Longrightarrow> map_of idx' q = Some e \<Longrightarrow> map_of idx q = Some e \<and> \<not> is_descendant_of q ?p \<or> e = synthetic_directory q"
    and "q \<noteq> ?p \<Longrightarrow> \<not> is_descendant_of q ?p \<Longrightarrow> map_of idx q = Some e \<Longrightarrow> map_of idx' q = Some e"
    by (force split: if_splits)+
qed

text \<open>A sequence of overlays, from the shallow to the deep.\<close>

definition overlaid :: "virtual_path list \<Rightarrow> tar_index \<Rightarrow> tar_index \<Rightarrow> bool" where
  "overlaid dests idx idx' \<longleftrightarrow>
     (\<forall>d \<in> set dests. map_of idx' (from_virtual d) = Some (synthetic_directory (from_virtual d))) \<and>
     (\<forall>q e. map_of idx' q = Some e \<longrightarrow> e = synthetic_directory q \<or>
        (map_of idx q = Some e \<and> (\<forall>d \<in> set dests. q \<noteq> from_virtual d \<and> \<not> is_descendant_of q (from_virtual d)))) \<and>
     (\<forall>q e. map_of idx q = Some e \<longrightarrow> (\<forall>d \<in> set dests. q \<noteq> from_virtual d \<and> \<not> is_descendant_of q (from_virtual d)) \<longrightarrow>
        map_of idx' q = Some e)"

lemma depth_from_virtual: "tar_depth (from_virtual d) = depth d"
  by (simp add: from_virtual_def tar_depth_def depth_def)

lemma apply_mount_overlays_spec:
  "apply_mount_overlays dests m idx = Inr idx' \<Longrightarrow> \<forall>d \<in> set dests. \<not> is_root d \<Longrightarrow> sorted (map depth dests) \<Longrightarrow>
     overlaid dests idx idx'"
proof (induction dests m idx rule: apply_mount_overlays.induct)
  case (2 dest dests m idx)
  obtain idx1 where one: "apply_overlay dest m idx = (Inr (), idx1)" and rest: "apply_mount_overlays dests m idx1 = Inr idx'"
    using 2(2) by (auto split: prod.splits sum.splits)
  have ih: "overlaid dests idx1 idx'" using 2(1) [OF one [symmetric]] rest 2(3,4) by auto
  have root: "\<not> is_root dest" using 2(3) by simp
  note spec = apply_overlay_spec [OF one root]
  let ?p = "from_virtual dest"
  have above: "\<not> is_descendant_of ?p (from_virtual d)" if "d \<in> set dests" for d
    using 2(4) that by (auto simp: is_descendant_of_def depth_from_virtual)
  have here: "map_of idx' ?p = Some (synthetic_directory ?p)"
    using ih spec(1) above unfolding overlaid_def by (metis option.exhaust option.inject)
  have below: "e = synthetic_directory q \<or>
      (map_of idx q = Some e \<and> (\<forall>d \<in> set (dest # dests). q \<noteq> from_virtual d \<and> \<not> is_descendant_of q (from_virtual d)))"
    if "map_of idx' q = Some e" for q e
    using ih that here spec(2) [of q e] unfolding overlaid_def by (cases "q = ?p") auto
  have "map_of idx' q = Some e"
    if "map_of idx q = Some e" "\<forall>d \<in> set (dest # dests). q \<noteq> from_virtual d \<and> \<not> is_descendant_of q (from_virtual d)" for q e
    using ih that spec(3) [of q e] unfolding overlaid_def by auto
  with here below ih show ?case unfolding overlaid_def by auto
qed (simp add: overlaid_def)

lemma sorted_wrt_remdups_adj: "sorted_wrt P xs \<Longrightarrow> sorted_wrt P (remdups_adj xs)"
  by (induction xs rule: remdups_adj.induct) (auto split: if_splits)

text \<open>The mounts of a provider that was made by \<^verbatim>\<open>new\<close> are in this order.\<close>

lemma snapshot_new_mounts:
  assumes "snapshot_new cid g backend limits overlays t = Inr (cfg, st)"
  shows "set (sc_mounts cfg) = set overlays" "sorted (map depth (sc_mounts cfg))" "sc_limits cfg = limits"
proof -
  have cfg: "sc_mounts cfg = remdups_adj (sort_key overlay_order overlays)" "sc_limits cfg = limits"
    using assms by (auto simp: snapshot_new_def split: if_splits)
  then show "set (sc_mounts cfg) = set overlays" "sc_limits cfg = limits" by simp_all
  have "sorted_wrt (\<lambda>a b. depth a \<le> depth b) (sort_key overlay_order overlays)"
    using sorted_sort_key [of overlay_order overlays]
    by (auto simp: sorted_map overlay_order_def less_eq_prod_def elim: sorted_wrt_mono_rel [rotated])
  then have "sorted_wrt (\<lambda>a b. depth a \<le> depth b) (remdups_adj (sort_key overlay_order overlays))"
    by (rule sorted_wrt_remdups_adj)
  then show "sorted (map depth (sc_mounts cfg))" by (simp add: cfg sorted_map)
qed

section \<open>The contract of the snapshot\<close>

text \<open>Overlays keep an index sorted and its entries at their paths.\<close>

lemma index_keyed_insert: "index_keyed idx \<Longrightarrow> te_path e = p \<Longrightarrow> index_keyed (btree_insert p e idx)"
  using sorted_btree_insert [of idx p e] set_btree_insert [of p e idx] by (fastforce simp: index_keyed_def)

lemma synthetic_path [simp]: "te_path (synthetic_directory p) = p"
  by (simp add: synthetic_directory_def)

lemma insert_missing_keyed: "index_keyed idx \<Longrightarrow> index_keyed (snd (insert_missing ps m idx))"
  by (induction ps m idx rule: insert_missing.induct) (auto simp: index_keyed_insert split: sum.split)

lemma apply_overlay_keyed:
  assumes "index_keyed idx"
  shows "index_keyed (snd (apply_overlay dest m idx))"
proof -
  have "index_keyed (remove_descendants p idx)" for p
    using assms sorted_wrt_filter [of "(<)" "map fst idx" "\<lambda>q. \<not> is_descendant_of q p"]
    by (auto simp: index_keyed_def remove_descendants_def filter_map comp_def case_prod_unfold)
  then show ?thesis
    using insert_missing_keyed [of "remove_descendants (from_virtual dest) idx"]
    by (auto simp: apply_overlay_def index_replace_def index_keyed_insert insert_synthetic_directory_def insert_with_parents_def Let_def
        split: prod.splits sum.splits option.splits) (metis snd_conv index_keyed_insert synthetic_path)+
qed

lemma apply_mount_overlays_keyed: "apply_mount_overlays dests m idx = Inr idx' \<Longrightarrow> index_keyed idx \<Longrightarrow> index_keyed idx'"
proof (induction dests m idx rule: apply_mount_overlays.induct)
  case (2 dest dests m idx)
  then show ?case using apply_overlay_keyed [of idx dest m] by (auto split: prod.splits sum.splits)
qed simp

lemma capture_Inr:
  assumes "capture_generation exports clock cfg g st = (Inr snap, st')"
  obtains s idx where "exports (ss_exports st) (sc_container_id cfg) = Reply (Inr s)" "from_stream s (sc_limits cfg) = Inr idx"
    "apply_mount_overlays (sc_mounts cfg) (max_entries (sc_limits cfg)) idx = Inr (cp_index snap)"
    "snap = \<lparr>cp_index = cp_index snap, cp_captured_at = clock (ss_exports st), cp_generation = g\<rparr>"
    "st' = st\<lparr>ss_exports := ss_exports st + 1, ss_generation := g, ss_state := Some snap\<rparr>"
  using assms that by (auto simp: capture_generation_def Let_def split: archive_reply.splits sum.splits)

lemma capture_Inl:
  "capture_generation exports clock cfg g st = (Inl e, st') \<Longrightarrow> st' = st\<lparr>ss_exports := ss_exports st + 1\<rparr>"
  by (auto simp: capture_generation_def Let_def split: archive_reply.splits sum.splits)

text \<open>The accounts of the archive provider are kept, the index is keyed, and the snapshot is of the current generation.\<close>

definition snapshot_inv :: "nat \<Rightarrow> snapshot_state \<Rightarrow> bool" where
  "snapshot_inv n st \<longleftrightarrow>
     archive_inv n (ss_archive st) \<and>
     (\<forall>snap. ss_state st = Some snap \<longrightarrow> index_keyed (cp_index snap) \<and> cp_generation snap = ss_generation st)"

lemma capture_inv:
  assumes "capture_generation exports clock cfg g st = (r, st')" "snapshot_inv n st"
  shows "snapshot_inv n st' \<and> (\<forall>snap. r = Inr snap \<longrightarrow> index_keyed (cp_index snap) \<and> ss_state st' = Some snap)"
proof (cases r)
  case (Inl e)
  then show ?thesis using capture_Inl assms by (fastforce simp: snapshot_inv_def)
next
  case (Inr snap)
  obtain idx s where fs: "from_stream s (sc_limits cfg) = Inr idx"
    and ov: "apply_mount_overlays (sc_mounts cfg) (max_entries (sc_limits cfg)) idx = Inr (cp_index snap)"
    and snap: "snap = \<lparr>cp_index = cp_index snap, cp_captured_at = clock (ss_exports st), cp_generation = g\<rparr>"
    and st': "st' = st\<lparr>ss_exports := ss_exports st + 1, ss_generation := g, ss_state := Some snap\<rparr>"
    using capture_Inr [OF assms(1) [unfolded Inr]] by metis
  have "index_keyed idx" by (simp add: index_keyed_def index_wf_keys [OF from_stream_wf [OF fs]])
  then have "index_keyed (cp_index snap)" by (rule apply_mount_overlays_keyed [OF ov])
  moreover have "cp_generation snap = g" using snap by (metis captured.select_convs(3))
  ultimately show ?thesis using assms(2) Inr by (simp add: snapshot_inv_def st')
qed

lemma with_snapshot_inv:
  assumes "with_snapshot exports clock cfg f st = (r, st')" "snapshot_inv n st"
  shows "snapshot_inv n st' \<and> (\<forall>v. r = Inr v \<longrightarrow> (\<exists>snap. index_keyed (cp_index snap) \<and> f snap = Inr v))"
proof -
  obtain a st1 where a: "current_snapshot exports clock cfg st = (a, st1)" by fastforce
  have "snapshot_inv n st1 \<and> (\<forall>snap. a = Inr snap \<longrightarrow> index_keyed (cp_index snap))"
    using a assms(2) capture_inv [of exports clock cfg "ss_generation st" st a st1 n]
    by (auto simp: current_snapshot_def snapshot_inv_def split: option.splits)
  then show ?thesis using assms(1) a by (cases a) (auto simp: with_snapshot_def andthen_def)
qed

lemma with_snapshot_snd: "snapshot_inv n st \<Longrightarrow> snapshot_inv n (snd (with_snapshot exports clock cfg f st))"
  using with_snapshot_inv by (metis prod.collapse)

lemma on_content_inv: "snapshot_inv n st \<Longrightarrow> archive_inv n (snd (f (ss_archive st))) \<Longrightarrow> snapshot_inv n (snd (on_content f st))"
  by (auto simp: on_content_def snapshot_inv_def split: prod.splits)

lemma snapshot_open_inv:
  assumes "snapshot_inv n st"
  shows "snapshot_inv n (snd (snapshot_open acc_mode exports clock source cfg p flags c st))"
proof (cases "is_read_only_open acc_mode flags")
  case True
  let ?f = "\<lambda>snap. bindR (content_path (cp_index snap) p) (\<lambda>target. Inr (target, cp_generation snap))"
  obtain a st1 where w: "with_snapshot exports clock cfg ?f st = (a, st1)" by fastforce
  have st1: "snapshot_inv n st1" using with_snapshot_inv [OF w assms] by simp
  have "snapshot_inv n (snd (on_content (archive_open acc_mode source (sc_content cfg) t flags c) st1))" for t
    using st1 archive_open_inv by (intro on_content_inv) (auto simp: snapshot_inv_def, metis prod.collapse)
  then show ?thesis
    using st1 True w by (cases a) (auto simp: snapshot_open_def andthen_def split: prod.splits sum.splits; metis snd_conv)+
qed (use assms in \<open>simp add: snapshot_open_def\<close>)

lemma snapshot_refresh_inv:
  assumes "snapshot_inv n st"
  shows "snapshot_inv n (snd (snapshot_refresh exports clock cfg po st))"
proof -
  obtain a st1 where a: "capture_generation exports clock cfg (ss_generation st + 1) st = (a, st1)" by fastforce
  then show ?thesis using capture_inv [OF a assms] assms by (cases a) (auto simp: snapshot_refresh_def andthen_def)
qed

interpretation snap: readonly_provider acc_mode "snapshot_provider acc_mode exports clock source file_reads cfg" "snapshot_inv n"
  for exports clock source file_reads cfg n
proof (unfold_locales, goal_cases)
  case (1 w p m c)
  then show ?case
    by (auto simp: snapshot_provider_def snapshot_lookup_def snapshot_getattr_def path_join_not_root split: sum.splits)
next
  case (2 w p flags c h w')
  then show ?case by (auto simp: snapshot_provider_def snapshot_open_def split: if_splits)
next
  case (3 w h off sz c bs w')
  then show ?case
    using backing_read_bounded
    by (auto simp: snapshot_provider_def snapshot_read_at_def on_content_def archive_read_at_def split: prod.splits if_splits)
next
  case (4 w p c es w')
  then obtain s :: captured where s: "index_keyed (cp_index s)"
      "directory_entries (cp_index s) p (snapshot_identity cfg (cp_generation s)) (cp_generation s) = Inr es"
    using with_snapshot_inv [of exports clock cfg "\<lambda>s. directory_entries (cp_index s) p (snapshot_identity cfg (cp_generation s)) (cp_generation s)"
        w "Inr es" w' n]
    by (auto simp: snapshot_provider_def snapshot_read_dir_def)
  show ?case
    by (rule listing_of_children [of "cp_index s" "child_directory_entry (cp_index s) (snapshot_identity cfg (cp_generation s)) (cp_generation s)"
          "from_virtual p"])
       (use s in \<open>auto simp: index_keyed_def directory_entries_def child_directory_entry_def Let_def split: if_splits\<close>)
next
  case (5 w p c)
  then show ?case by (simp add: snapshot_provider_def snapshot_getattr_def with_snapshot_snd)
next
  case (6 w p c)
  then show ?case by (simp add: snapshot_provider_def snapshot_read_dir_def with_snapshot_snd)
next
  case (7 w p c)
  then show ?case by (simp add: snapshot_provider_def snapshot_read_link_def with_snapshot_snd)
next
  case (8 w p flags c)
  then show ?case by (simp add: snapshot_provider_def snapshot_open_inv)
next
  case (9 w h off sz c)
  then show ?case by (simp add: snapshot_provider_def snapshot_read_at_def on_content_def archive_read_at_def)
next
  case (10 w h)
  then have "archive_inv n (snd (archive_close h (ss_archive w)))" by (simp add: archive_close_inv snapshot_inv_def)
  with 10 show ?case by (simp add: snapshot_provider_def snapshot_close_def on_content_inv)
next
  case (11 w po)
  then show ?case by (simp add: snapshot_provider_def snapshot_refresh_inv)
next
  case (12 w p c t w')
  then show ?case
    using with_snapshot_inv [of exports clock cfg _ w "Inr t" w' n] virtual_path_bytes_valid
    by (fastforce simp: snapshot_provider_def snapshot_read_link_def split: if_splits)
qed

section \<open>What a capture shows and a refresh changes\<close>


text \<open>Generations of a snapshot: a refresh that succeeds moves to the next generation and makes every handle of the generation
  before it stale, whatever its number; one that fails, in the export, in the archive or in the overlays, leaves the snapshot, the
  generation and every handle as they were; reads never take a new snapshot.\<close>

theorem snapshot_refresh_stales:
  assumes "snapshot_refresh exports clock cfg po st = (r, st')"
  shows "(case r of
       Inl _ \<Rightarrow> ss_state st' = ss_state st \<and> ss_generation st' = ss_generation st \<and> ss_archive st' = ss_archive st
     | Inr _ \<Rightarrow>
         ss_generation st' = ss_generation st + 1 \<and> unat (ss_generation st') = unat (ss_generation st) + 1 \<and>
         (\<exists>snap. ss_state st' = Some snap \<and> cp_generation snap = ss_generation st') \<and>
         (\<forall>h off sz c. content_generation h = ss_generation st \<longrightarrow>
            snapshot_read_at file_reads h off sz c st' = (Inl Stale, st')))"
proof (cases "ss_generation st = - 1")
  case True
  then show ?thesis using assms by (auto simp: snapshot_refresh_def)
next
  case False
  obtain a st1 where a: "capture_generation exports clock cfg (ss_generation st + 1) st = (a, st1)" by fastforce
  show ?thesis
  proof (cases a)
    case (Inl e)
    then show ?thesis using assms a capture_Inl [OF a [unfolded Inl]] False by (auto simp: snapshot_refresh_def andthen_def)
  next
    case (Inr snap)
    obtain s idx where snap: "snap = \<lparr>cp_index = cp_index snap, cp_captured_at = clock (ss_exports st), cp_generation = ss_generation st + 1\<rparr>"
        "st1 = st\<lparr>ss_exports := ss_exports st + 1, ss_generation := ss_generation st + 1, ss_state := Some snap\<rparr>"
      using capture_Inr [OF a [unfolded Inr]] by metis
    have "cp_generation snap = ss_generation st + 1" using snap(1) by (metis captured.select_convs(3))
    moreover have "r = Inr ()" "st' = st1" using assms a Inr False by (auto simp: snapshot_refresh_def andthen_def)
    moreover have "unat (ss_generation st + 1) = unat (ss_generation st) + 1" using False by (simp add: unat_plus_one)
    ultimately show ?thesis using snap(2) by (simp add: snapshot_read_at_def)
  qed
qed

section \<open>Examples\<close>

text \<open>An empty export with a mount at \<^verbatim>\<open>/a\<close>.\<close>

definition demo_dest :: virtual_path where
  "demo_dest = \<lparr>components = [VirtualFileName [97]], byte_len_field = 2\<rparr>"

definition demo_snapshot_config :: snapshot_config where
  "demo_snapshot_config =
     \<lparr>sc_container_id = replicate 64 97, sc_limits = limits_default, sc_mounts = [demo_dest], sc_content = demo_config\<rparr>"

definition demo_snapshot_state :: snapshot_state where
  "demo_snapshot_state = \<lparr>ss_generation = 1, ss_state = None, ss_exports = 0, ss_archive = demo_state\<rparr>"

lemma demo_snapshot_new:
  "snapshot_new (replicate 64 97) 1 (demo_config, demo_state) limits_default [demo_dest] 5 = Inr (demo_snapshot_config, demo_snapshot_state)"
  by (simp add: snapshot_new_def validate_identity_def list_all_iff Image_Provider.is_ascii_hexdigit_def demo_limits_valid bindR_def
      demo_snapshot_config_def demo_snapshot_state_def)

lemma demo_overlay:
  "\<exists>idx. apply_mount_overlays [demo_dest] (max_entries limits_default) index_empty = Inr idx"
  by (simp add: apply_overlay_def demo_dest_def from_virtual_def remove_descendants_def index_empty_def is_descendant_of_def tar_depth_def
      tar_root_def index_get_def insert_synthetic_directory_def tar_is_root_def insert_with_parents_def synthetic_directory_def
      tar_parent_def missing_parents.simps ensure_capacity_def limits_default_def Let_def)

lemma demo_capture:
  obtains snap st' where "capture_generation demo_exports (\<lambda>_. 0) demo_snapshot_config g demo_snapshot_state = (Inr snap, st')"
proof -
  obtain idx where "apply_mount_overlays [demo_dest] (max_entries limits_default) index_empty = Inr idx" using demo_overlay by blast
  then show ?thesis
    using that by (simp add: capture_generation_def demo_exports_def demo_snapshot_config_def demo_empty_archive bindR_def Let_def)
qed


theorem snapshot_refresh_stales_witness:
  "\<exists>st'. snapshot_refresh demo_exports (\<lambda>_. 0) demo_snapshot_config None demo_snapshot_state = (Inr (), st') \<and> ss_generation st' = 2 \<and>
     (\<forall>c. snapshot_read_at (\<lambda>_ _. Inr 0) \<lparr>pfh_id = 7, pfh_path = demo_dest, content_generation = 1\<rparr> 0 10 c st' = (Inl Stale, st'))"
proof -
  obtain snap st' where "capture_generation demo_exports (\<lambda>_. 0) demo_snapshot_config 2 demo_snapshot_state = (Inr snap, st')"
    using demo_capture .
  then have r: "snapshot_refresh demo_exports (\<lambda>_. 0) demo_snapshot_config None demo_snapshot_state = (Inr (), st')"
    by (simp add: snapshot_refresh_def demo_snapshot_state_def andthen_def)
  from snapshot_refresh_stales [OF r, of "\<lambda>_ _. Inr 0"] show ?thesis using r by (simp add: demo_snapshot_state_def)
qed

end
