(* ===== verification/Container_Router.thy ===== *)
theory Container_Router
  imports Container_Provider
begin

text \<open>
  The provider that presents a container as one tree, \<^verbatim>\<open>ContainerProviderRouter\<close> of \<^verbatim>\<open>docker-core/src/vfs_providers/container.rs\<close>:
  every operation goes to the provider of the deepest mount, or to the root file system, and directories that lead to mounts are
  made up. All providers work on one world \<open>'w\<close>; \<open>gen\<close> reads the generation of the root file system from it.
\<close>

section \<open>Operations\<close>

definition rootfs_key_of :: "u64 \<Rightarrow> provider_key" where
  "rootfs_key_of g = ProviderKey (''rootfs:'' @ map (\<lambda>b. char_of (unat b)) (decimal_bytes (unat g)))"

definition container_router_new ::
    "bytes \<Rightarrow> 'w provider \<Rightarrow> ('w \<Rightarrow> u64) \<Rightarrow> 'w provider resolved_container_mount list \<Rightarrow> 'w \<Rightarrow>
       'w provider container_path_router vfs_result" where
  "container_router_new cid fs gen ms w =
     bindR (validate_identity cid) (\<lambda>_. router_new (map (\<lambda>b. char_of (unat b)) cid) (rootfs_key_of (gen w)) fs ms)"

definition container_route ::
    "'w provider container_path_router \<Rightarrow> ('w \<Rightarrow> u64) \<Rightarrow> virtual_path \<Rightarrow> 'w \<Rightarrow> 'w provider resolved_route vfs_result" where
  "container_route r gen path w =
     bindR (route r (ContainerPath path)) (\<lambda>rt.
       Inr (if route_mount rt = None then rt\<lparr>route_key := rootfs_key_of (gen w)\<rparr> else rt))"

definition is_mount_route_parent :: "'w provider container_path_router \<Rightarrow> virtual_path \<Rightarrow> bool" where
  "is_mount_route_parent r path \<longleftrightarrow>
     list_ex (\<lambda>m. depth (destination m) > depth path \<and> path_starts_with (destination m) path) (mounts r)"

definition synthetic_mount_route_metadata :: "('w \<Rightarrow> u64) \<Rightarrow> virtual_path \<Rightarrow> 'w \<Rightarrow> virtual_metadata" where
  "synthetic_mount_route_metadata gen path w =
     (metadata_directory (ascii ''container-mount-route:'' @ path_as_bytes path))\<lparr>md_generation := gen w\<rparr>"

text \<open>The first entry with the name gets the metadata, or a new entry is appended.\<close>

fun put_entry :: "virtual_file_name \<Rightarrow> virtual_metadata \<Rightarrow> virtual_directory_entry list \<Rightarrow> virtual_directory_entry list" where
  "put_entry name md [] = [\<lparr>de_name = name, de_metadata = md\<rparr>]"
| "put_entry name md (e # es) = (if de_name e = name then e\<lparr>de_metadata := md\<rparr> # es else e # put_entry name md es)"

fun merge_mount_loop ::
    "('w \<Rightarrow> u64) \<Rightarrow> virtual_path \<Rightarrow> request_context \<Rightarrow> 'w provider resolved_container_mount list \<Rightarrow> virtual_directory_entry list \<Rightarrow> 'w \<Rightarrow>
       virtual_directory_entry list vfs_result \<times> 'w" where
  "merge_mount_loop gen path ctx [] entries w = (Inr entries, w)"
| "merge_mount_loop gen path ctx (m # ms) entries w =
     (if depth (destination m) \<le> depth path \<or> \<not> path_starts_with (destination m) path
      then merge_mount_loop gen path ctx ms entries w
      else
        let name = components (destination m) ! depth path
        in case path_join path name of
             Inl e \<Rightarrow> (Inl e, w)
           | Inr child \<Rightarrow>
               (case (if child = destination m then prov_getattr (mount_provider m) (provider_root m) ctx w
                      else (Inr (synthetic_mount_route_metadata gen child w), w)) of
                  (Inl e, w') \<Rightarrow> (Inl e, w')
                | (Inr md, w') \<Rightarrow> merge_mount_loop gen path ctx ms (put_entry name md entries) w'))"

definition merge_mount_route_children ::
    "'w provider container_path_router \<Rightarrow> ('w \<Rightarrow> u64) \<Rightarrow> virtual_path \<Rightarrow> virtual_directory_entry list \<Rightarrow> request_context \<Rightarrow> 'w \<Rightarrow>
       virtual_directory_entry list vfs_result \<times> 'w" where
  "merge_mount_route_children r gen path entries ctx w =
     andthen (merge_mount_loop gen path ctx (mounts r) entries w) (\<lambda>es w'. (Inr (sort_key de_name es), w'))"

definition container_getattr ::
    "'w provider container_path_router \<Rightarrow> ('w \<Rightarrow> u64) \<Rightarrow> virtual_path \<Rightarrow> request_context \<Rightarrow> 'w \<Rightarrow> virtual_metadata vfs_result \<times> 'w" where
  "container_getattr r gen path ctx w =
     (case container_route r gen path w of
        Inl e \<Rightarrow> (Inl e, w)
      | Inr rt \<Rightarrow>
          let is_exact_mount = (case route_mount rt of None \<Rightarrow> False | Some m \<Rightarrow> destination m = path)
          in if is_mount_route_parent r path \<and> \<not> is_exact_mount then (Inr (synthetic_mount_route_metadata gen path w), w)
             else prov_getattr (route_provider rt) (provider_path rt) ctx w)"

definition container_lookup ::
    "'w provider container_path_router \<Rightarrow> ('w \<Rightarrow> u64) \<Rightarrow> virtual_path \<Rightarrow> virtual_file_name \<Rightarrow> request_context \<Rightarrow> 'w \<Rightarrow>
       virtual_metadata vfs_result \<times> 'w" where
  "container_lookup r gen parent name ctx w =
     (case path_join parent name of Inl e \<Rightarrow> (Inl e, w) | Inr path \<Rightarrow> container_getattr r gen path ctx w)"

definition container_read_dir ::
    "'w provider container_path_router \<Rightarrow> ('w \<Rightarrow> u64) \<Rightarrow> virtual_path \<Rightarrow> request_context \<Rightarrow> 'w \<Rightarrow>
       virtual_directory_entry list vfs_result \<times> 'w" where
  "container_read_dir r gen path ctx w =
     (case container_route r gen path w of
        Inl e \<Rightarrow> (Inl e, w)
      | Inr rt \<Rightarrow>
          andthen
            (case prov_read_dir (route_provider rt) (provider_path rt) ctx w of
               (Inl e, w') \<Rightarrow> if (e = NotFound \<or> e = NotDirectory) \<and> is_mount_route_parent r path then (Inr [], w') else (Inl e, w')
             | (Inr es, w') \<Rightarrow> (Inr es, w'))
            (\<lambda>es w'. merge_mount_route_children r gen path es ctx w'))"

definition container_read_link ::
    "'w provider container_path_router \<Rightarrow> ('w \<Rightarrow> u64) \<Rightarrow> virtual_path \<Rightarrow> request_context \<Rightarrow> 'w \<Rightarrow> virtual_path_bytes vfs_result \<times> 'w" where
  "container_read_link r gen path ctx w =
     (case container_route r gen path w of
        Inl e \<Rightarrow> (Inl e, w)
      | Inr rt \<Rightarrow> prov_read_link (route_provider rt) (provider_path rt) ctx w)"

definition container_open ::
    "(32 word \<Rightarrow> open_acc_mode) \<Rightarrow> 'w provider container_path_router \<Rightarrow> ('w \<Rightarrow> u64) \<Rightarrow> virtual_path \<Rightarrow> 32 word \<Rightarrow> request_context \<Rightarrow> 'w \<Rightarrow>
       provider_file_handle vfs_result \<times> 'w" where
  "container_open acc_mode r gen path flags ctx w =
     (if \<not> is_read_only_open acc_mode flags then (Inl ReadOnly, w)
      else
        andthen
          (if is_mount_route_parent r path
           then andthen (container_getattr r gen path ctx w) (\<lambda>md w'.
                  if file_type md = Directory then (Inl IsDirectory, w') else (Inr (), w'))
           else (Inr (), w))
          (\<lambda>_ w'.
             case container_route r gen path w' of
               Inl e \<Rightarrow> (Inl e, w')
             | Inr rt \<Rightarrow>
                 andthen (prov_open (route_provider rt) (provider_path rt) flags ctx w') (\<lambda>h w''. (Inr (h\<lparr>pfh_path := path\<rparr>), w''))))"

text \<open>Reads and closes route the path of the handle again.\<close>

definition container_read_at ::
    "'w provider container_path_router \<Rightarrow> ('w \<Rightarrow> u64) \<Rightarrow> provider_file_handle \<Rightarrow> u64 \<Rightarrow> u32 \<Rightarrow> request_context \<Rightarrow> 'w \<Rightarrow>
       bytes vfs_result \<times> 'w" where
  "container_read_at r gen h offset sz ctx w =
     (case container_route r gen (pfh_path h) w of
        Inl e \<Rightarrow> (Inl e, w)
      | Inr rt \<Rightarrow> prov_read_at (route_provider rt) (h\<lparr>pfh_path := provider_path rt\<rparr>) offset sz ctx w)"

definition container_close ::
    "'w provider container_path_router \<Rightarrow> ('w \<Rightarrow> u64) \<Rightarrow> provider_file_handle \<Rightarrow> 'w \<Rightarrow> unit vfs_result \<times> 'w" where
  "container_close r gen h w =
     (case container_route r gen (pfh_path h) w of
        Inl e \<Rightarrow> (Inl e, w)
      | Inr rt \<Rightarrow> prov_close (route_provider rt) (h\<lparr>pfh_path := provider_path rt\<rparr>) w)"

definition container_refresh ::
    "'w provider container_path_router \<Rightarrow> ('w \<Rightarrow> u64) \<Rightarrow> virtual_path option \<Rightarrow> 'w \<Rightarrow> unit vfs_result \<times> 'w" where
  "container_refresh r gen path w =
     (case path of
        None \<Rightarrow> prov_refresh (rootfs r) None w
      | Some p \<Rightarrow>
          (case container_route r gen p w of
             Inl e \<Rightarrow> (Inl e, w)
           | Inr rt \<Rightarrow> prov_refresh (route_provider rt) (Some (provider_path rt)) w))"

definition container_provider ::
    "(32 word \<Rightarrow> open_acc_mode) \<Rightarrow> 'w provider container_path_router \<Rightarrow> ('w \<Rightarrow> u64) \<Rightarrow> 'w provider" where
  "container_provider acc_mode r gen =
     \<lparr>prov_descriptor = prov_descriptor (rootfs r), prov_lookup = container_lookup r gen,
      prov_getattr = container_getattr r gen, prov_read_dir = container_read_dir r gen,
      prov_read_link = container_read_link r gen, prov_open = container_open acc_mode r gen,
      prov_read_at = container_read_at r gen, prov_close = container_close r gen, prov_refresh = container_refresh r gen\<rparr>"

section \<open>Listings\<close>

lemma put_entry_names:
  "map de_name (put_entry name md es) = map de_name es @ (if name \<in> de_name ` set es then [] else [name])"
  by (induction es) auto

text \<open>The names that lead to mounts strictly below a path.\<close>

definition mount_names :: "virtual_path \<Rightarrow> 'w provider resolved_container_mount list \<Rightarrow> virtual_file_name set" where
  "mount_names path ms =
     {components (destination m) ! depth path | m. m \<in> set ms \<and> depth (destination m) > depth path \<and> path_starts_with (destination m) path}"

lemma merge_mount_loop_names:
  "merge_mount_loop gen path ctx ms es w = (Inr es', w') \<Longrightarrow> distinct (map de_name es) \<Longrightarrow>
     distinct (map de_name es') \<and> de_name ` set es' = de_name ` set es \<union> mount_names path ms"
proof (induction gen path ctx ms es w arbitrary: es' w' rule: merge_mount_loop.induct)
  case (2 gen path ctx m ms es w)
  let ?below = "depth (destination m) > depth path \<and> path_starts_with (destination m) path"
  let ?n = "components (destination m) ! depth path"
  have cons: "mount_names path (m # ms) = (if ?below then {?n} else {}) \<union> mount_names path ms"
    by (auto simp: mount_names_def)
  show ?case
  proof (cases ?below)
    case True
    then obtain child md w1 where child: "path_join path ?n = Inr child"
      and md: "(if child = destination m then prov_getattr (mount_provider m) (provider_root m) ctx w
             else (Inr (synthetic_mount_route_metadata gen child w), w)) = (Inr md, w1)"
      and rest: "merge_mount_loop gen path ctx ms (put_entry ?n md es) w1 = (Inr es', w')"
      using 2(3) by (auto simp: Let_def split: sum.splits prod.splits)
    have names: "de_name ` set (put_entry ?n md es) = insert ?n (de_name ` set es)" "distinct (map de_name (put_entry ?n md es))"
      using put_entry_names [of ?n md es] 2(4) by (auto simp flip: set_map)
    have "distinct (map de_name es') \<and> de_name ` set es' = de_name ` set (put_entry ?n md es) \<union> mount_names path ms"
      using True child md rest names(2) by (intro 2(2)) auto
    then show ?thesis using True names(1) cons by auto
  next
    case False
    then have "distinct (map de_name es') \<and> de_name ` set es' = de_name ` set es \<union> mount_names path ms"
      using 2(3,4) by (intro 2(1)) auto
    then show ?thesis using False cons by auto
  qed
qed (simp add: mount_names_def)

section \<open>The contract\<close>

text \<open>The root file system and every mount keep the contract for one invariant of the world.\<close>

definition router_ok :: "(32 word \<Rightarrow> open_acc_mode) \<Rightarrow> ('w \<Rightarrow> bool) \<Rightarrow> 'w provider container_path_router \<Rightarrow> bool" where
  "router_ok acc_mode I r \<longleftrightarrow>
     readonly_provider acc_mode (rootfs r) I \<and>
     (\<forall>m \<in> set (mounts r). readonly_provider acc_mode (mount_provider m) I \<and> wf_path (destination m) \<and> wf_path (provider_root m))"

lemma container_route_ok:
  assumes "container_route r gen p w = Inr rt" "router_ok acc_mode I r"
  shows "readonly_provider acc_mode (route_provider rt) I" "wf_path p \<Longrightarrow> wf_path (provider_path rt)"
proof -
  obtain rt0 where rt0: "route r (ContainerPath p) = Inr rt0" "route_provider rt = route_provider rt0" "provider_path rt = provider_path rt0"
    using assms(1) by (auto simp: container_route_def)
  have "m \<in> set (mounts r)" if "find (\<lambda>m. path_starts_with p (destination m)) (mounts r) = Some m" for m
    using that by (auto simp: find_Some_iff)
  with rt0 assms(2) show "readonly_provider acc_mode (route_provider rt) I"
    by (auto simp: route_def router_ok_def Let_def split: option.splits sum.splits)
  assume p: "wf_path p"
  show "wf_path (provider_path rt)"
  proof (cases "find (\<lambda>m. path_starts_with p (destination m)) (mounts r)")
    case (Some m)
    obtain rest where rest: "path_strip_prefix p (destination m) = Some rest" using route_strip_prefix [OF Some] by blast
    have "wf_path rest" using rest p by (simp add: path_strip_prefix_Some)
    moreover have "wf_path (provider_root m)"
      using Some assms(2) by (auto simp: router_ok_def find_Some_iff)
    moreover have "from_components (components (provider_root m) @ components rest) = Inr (provider_path rt0)"
      using rt0(1) Some rest by (auto simp: route_def Let_def split: sum.splits)
    ultimately show ?thesis using rt0(3) by (auto simp: from_components_Inr wf_path_def)
  qed (use rt0 p in \<open>auto simp: route_def\<close>)
qed

lemma andthen_inv: "I (snd x) \<Longrightarrow> (\<And>v s. I s \<Longrightarrow> I (snd (k v s))) \<Longrightarrow> I (snd (andthen x k))"
  by (cases x; cases "fst x") (auto simp: andthen_def)

lemma merge_mount_loop_inv:
  "\<forall>m \<in> set ms. readonly_provider acc_mode (mount_provider m) I \<Longrightarrow> I w \<Longrightarrow> I (snd (merge_mount_loop gen path ctx ms es w))"
proof (induction ms arbitrary: es w)
  case (Cons m ms)
  have IH: "I (snd (merge_mount_loop gen path ctx ms es' w'))" if "I w'" for es' w' using Cons that by simp
  have "readonly_provider acc_mode (mount_provider m) I" using Cons.prems by simp
  then have "I (snd (prov_getattr (mount_provider m) (provider_root m) ctx w))"
    using Cons.prems(2) by (rule readonly_provider.getattr_inv)
  then have got: "I w'" if "prov_getattr (mount_provider m) (provider_root m) ctx w = (r, w')" for r w'
    using that by simp
  show ?case
    using IH Cons.prems(2) by (auto simp: Let_def dest: got split: sum.split prod.split)
qed simp

lemma merge_children_inv:
  assumes "router_ok acc_mode I r" "I w"
  shows "I (snd (merge_mount_route_children r gen path es ctx w))"
proof -
  have "I (snd (merge_mount_loop gen path ctx (mounts r) es w))"
    by (rule merge_mount_loop_inv [where I = I and acc_mode = acc_mode]) (use assms in \<open>simp_all add: router_ok_def\<close>)
  then show ?thesis unfolding merge_mount_route_children_def by (rule andthen_inv [where I = I]) simp
qed

lemma container_getattr_inv:
  assumes "router_ok acc_mode I r" "I w"
  shows "I (snd (container_getattr r gen p ctx w))"
proof (cases "container_route r gen p w")
  case (Inr rt)
  have "I (snd (prov_getattr (route_provider rt) (provider_path rt) ctx w))"
    using readonly_provider.getattr_inv [OF container_route_ok(1) [OF Inr assms(1)] assms(2)] .
  with Inr assms(2) show ?thesis by (simp add: container_getattr_def Let_def)
qed (use assms in \<open>simp add: container_getattr_def\<close>)

lemma container_read_dir_inv:
  assumes "router_ok acc_mode I r" "I w"
  shows "I (snd (container_read_dir r gen p ctx w))"
proof (cases "container_route r gen p w")
  case (Inr rt)
  have "I (snd (prov_read_dir (route_provider rt) (provider_path rt) ctx w))"
    using readonly_provider.read_dir_inv [OF container_route_ok(1) [OF Inr assms(1)] assms(2)] .
  then have "I (snd (case prov_read_dir (route_provider rt) (provider_path rt) ctx w of
       (Inl e, w') \<Rightarrow> if (e = NotFound \<or> e = NotDirectory) \<and> is_mount_route_parent r p then (Inr [], w') else (Inl e, w')
     | (Inr es, w') \<Rightarrow> (Inr es, w')))"
    by (auto split: prod.splits sum.splits)
  from andthen_inv [where I = I, OF this merge_children_inv [OF assms(1)]] show ?thesis
    using Inr by (simp add: container_read_dir_def)
qed (use assms in \<open>simp add: container_read_dir_def\<close>)

lemma container_open_inv:
  assumes "router_ok acc_mode I r" "I w"
  shows "I (snd (container_open acc_mode r gen p flags ctx w))"
proof (cases "is_read_only_open acc_mode flags")
  case True
  have opened: "I (snd (case container_route r gen p w' of
       Inl e \<Rightarrow> (Inl e, w')
     | Inr rt \<Rightarrow> andthen (prov_open (route_provider rt) (provider_path rt) flags ctx w') (\<lambda>h w''. (Inr (h\<lparr>pfh_path := p\<rparr>), w''))))"
    if "I w'" for w'
  proof (cases "container_route r gen p w'")
    case (Inr rt)
    have "I (snd (prov_open (route_provider rt) (provider_path rt) flags ctx w'))"
      using readonly_provider.open_inv [OF container_route_ok(1) [OF Inr assms(1)] that] .
    then show ?thesis using Inr by (cases "prov_open (route_provider rt) (provider_path rt) flags ctx w'")
        (auto simp: andthen_def split: sum.splits)
  qed (use that in simp)
  have "I (snd (container_getattr r gen p ctx w))" by (rule container_getattr_inv [OF assms])
  then have "I (snd (andthen (container_getattr r gen p ctx w) (\<lambda>md w'.
      if file_type md = Directory then (Inl IsDirectory, w') else (Inr (), w'))))"
    by (rule andthen_inv [where I = I]) simp
  then have "I (snd (if is_mount_route_parent r p
      then andthen (container_getattr r gen p ctx w) (\<lambda>md w'. if file_type md = Directory then (Inl IsDirectory, w') else (Inr (), w'))
      else (Inr (), w)))"
    using assms(2) by simp
  then show ?thesis unfolding container_open_def using True by (simp only: not_True_eq_False if_False) (rule andthen_inv [where I = I], assumption, rule opened)
qed (use assms in \<open>simp add: container_open_def\<close>)

lemma container_listing:
  assumes "router_ok acc_mode I r" "I w" "wf_path p" "container_read_dir r gen p ctx w = (Inr es, w')"
  obtains es0 where "sorted_wrt (<) (map de_name es)" "distinct (map de_name es0)"
    "de_name ` set es = de_name ` set es0 \<union> mount_names p (mounts r)" "\<forall>e \<in> set es0. valid_name (de_name e)"
    "\<exists>rt w1. container_route r gen p w = Inr rt \<and>
       (prov_read_dir (route_provider rt) (provider_path rt) ctx w = (Inr es0, w1) \<or>
        es0 = [] \<and> (\<exists>e. prov_read_dir (route_provider rt) (provider_path rt) ctx w = (Inl e, w1)))"
proof -
  obtain rt where rt: "container_route r gen p w = Inr rt" using assms(4) by (auto simp: container_read_dir_def split: sum.splits)
  obtain a w1 where a: "prov_read_dir (route_provider rt) (provider_path rt) ctx w = (a, w1)" by fastforce
  define es0 where "es0 = (case a of Inl _ \<Rightarrow> [] | Inr xs \<Rightarrow> xs)"
  have "sorted_wrt (<) (map de_name es0) \<and> (\<forall>e \<in> set es0. valid_name (de_name e))"
    using readonly_provider.listing [OF container_route_ok(1) [OF rt assms(1)] assms(2) container_route_ok(2) [OF rt assms(1,3)], of ctx _ w1] a
    by (auto simp: es0_def split: sum.split)
  then have es0: "distinct (map de_name es0)" "\<forall>e \<in> set es0. valid_name (de_name e)" by (auto simp: strict_sorted_iff)
  obtain es1 where es1: "merge_mount_loop gen p ctx (mounts r) es0 w1 = (Inr es1, w')" "es = sort_key de_name es1"
    using assms(4) rt a
    by (cases a) (auto simp: container_read_dir_def merge_mount_route_children_def andthen_Inr es0_def split: if_splits)
  note names = merge_mount_loop_names [OF es1(1) es0(1)]
  have "sorted_wrt (<) (map de_name es)"
    using names es1(2) by (simp add: strict_sorted_iff distinct_map)
  moreover have "de_name ` set es = de_name ` set es0 \<union> mount_names p (mounts r)" using names es1(2) by simp
  ultimately show ?thesis using that [of es0] es0 rt a by (cases a) (auto simp: es0_def)
qed

lemma mount_names_valid: "router_ok acc_mode I r \<Longrightarrow> n \<in> mount_names p (mounts r) \<Longrightarrow> valid_name n"
  by (auto simp: mount_names_def router_ok_def wf_path_def depth_def)

lemmas container_ops = container_provider_def container_lookup_def container_read_link_def container_read_at_def
  container_close_def container_refresh_def

text \<open>C38. A container is a provider that keeps the contract: for every invariant of the world, when the root file system and the
  providers of all mounts keep the contract, then so does the router that is made of them, with its made-up directories, merged
  listings and rewritten handles.\<close>

theorem container_keeps_contract:
  assumes ok: "router_ok acc_mode I r"
  shows "readonly_provider acc_mode (container_provider acc_mode r gen) I"
proof (unfold_locales, goal_cases)
  case (1 w p n c)
  then show ?case by (simp add: container_ops split: sum.split)
next
  case (2 w p flags c h w')
  then show ?case by (auto simp: container_ops container_open_def split: if_splits)
next
  case (3 w h off sz c bs w')
  then obtain rt where rt: "container_route r gen (pfh_path h) w = Inr rt"
    and read: "prov_read_at (route_provider rt) (h\<lparr>pfh_path := provider_path rt\<rparr>) off sz c w = (Inr bs, w')"
    by (auto simp: container_ops split: sum.splits)
  show ?case by (rule readonly_provider.read_bounded [OF container_route_ok(1) [OF rt ok] 3(1) read])
next
  case (4 w p c es w')
  then have "container_read_dir r gen p c w = (Inr es, w')" by (simp add: container_provider_def)
  from container_listing [OF ok 4(1,2) this] obtain es0 :: "virtual_directory_entry list" where es0: "sorted_wrt (<) (map de_name es)"
    "de_name ` set es = de_name ` set es0 \<union> mount_names p (mounts r)" "\<forall>e \<in> set es0. valid_name (de_name e)" .
  have "valid_name (de_name e)" if "e \<in> set es" for e
  proof -
    have "de_name e \<in> de_name ` set es0 \<union> mount_names p (mounts r)" using that es0(2) by blast
    then show ?thesis using es0(3) mount_names_valid [OF ok] by auto
  qed
  with es0(1) show ?case by simp
next
  case (5 w p c)
  then show ?case by (simp add: container_provider_def container_getattr_inv [OF ok])
next
  case (6 w p c)
  then show ?case by (simp add: container_provider_def container_read_dir_inv [OF ok])
next
  case (7 w p c)
  then show ?case
    using readonly_provider.read_link_inv [OF container_route_ok(1) [OF _ ok] 7] by (simp add: container_ops split: sum.split)
next
  case (8 w p flags c)
  then show ?case by (simp add: container_provider_def container_open_inv [OF ok])
next
  case (9 w h off sz c)
  then show ?case
    using readonly_provider.read_at_inv [OF container_route_ok(1) [OF _ ok] 9] by (simp add: container_ops split: sum.split)
next
  case (10 w h)
  then show ?case
    using readonly_provider.close_inv [OF container_route_ok(1) [OF _ ok] 10] by (simp add: container_ops split: sum.split)
next
  case (11 w po)
  have root: "readonly_provider acc_mode (rootfs r) I" using ok by (simp add: router_ok_def)
  show ?case
    using readonly_provider.refresh_inv [OF container_route_ok(1) [OF _ ok] 11] readonly_provider.refresh_inv [OF root 11] 11
    by (simp add: container_ops split: sum.split option.split)
next
  case (12 w p c t w')
  then obtain rt where rt: "container_route r gen p w = Inr rt"
    and link: "prov_read_link (route_provider rt) (provider_path rt) c w = (Inr t, w')"
    by (auto simp: container_ops split: sum.splits)
  show ?case by (rule readonly_provider.link_valid [OF container_route_ok(1) [OF rt ok] 12(1) link])
qed


section \<open>Examples\<close>

text \<open>A root file system in memory with a second one mounted at \<^verbatim>\<open>/a\<close>.\<close>

definition demo_mount :: "memory provider resolved_container_mount" where
  "demo_mount =
     \<lparr>destination = \<lparr>components = [VirtualFileName [97]], byte_len_field = 2\<rparr>, mount_key = ProviderKey ''m'', provider_root = path_root,
      mount_provider = memory_provider (\<lambda>_. O_RDONLY)\<rparr>"

definition demo_router :: "memory provider container_path_router" where
  "demo_router =
     \<lparr>container_id = ''c'', mounts = [demo_mount], rootfs_key = ProviderKey ''rootfs:0'', rootfs = memory_provider (\<lambda>_. O_RDONLY)\<rparr>"

lemma demo_router_ok: "router_ok (\<lambda>_. O_RDONLY) memory_inv demo_router"
proof -
  have "readonly_provider (\<lambda>_. O_RDONLY) (memory_provider (\<lambda>_. O_RDONLY)) memory_inv" by unfold_locales
  moreover have "wf_path (destination demo_mount)"
    by (simp add: demo_mount_def wf_path_def valid_name_def encoded_len_def DEFAULT_MAX_PATH_BYTES_def MAX_NAME_BYTES_def)
  ultimately show ?thesis by (simp add: router_ok_def demo_router_def) (simp add: demo_mount_def)
qed

theorem container_keeps_contract_witness:
  "readonly_provider (\<lambda>_. O_RDONLY) (container_provider (\<lambda>_. O_RDONLY) demo_router (\<lambda>_. 3)) memory_inv"
  by (rule container_keeps_contract [OF demo_router_ok])


end
