(* ===== verification/Spec2Isabelle.thy ===== *)
theory Spec2Isabelle
  imports Name_Codec Router Fuse_Properties Path_Token Ipc_Session Helper_Commands Image_Provider
    Event_Monitor Request_Coordinator Docker_Caches Container_Router
begin

text \<open>
  A verification library for TuxStack, a desktop front end for Docker whose daemon mounts containers, images and volumes
  as read-only file systems. This theory imports all the others and says what they hold.

  \<^bold>\<open>The program.\<close> The daemon (\<^verbatim>\<open>crates/tuxstack-daemon\<close>) serves clients over a Unix socket with length-prefixed frames and
  mounts a FUSE file system. The file system (\<^verbatim>\<open>crates/tuxstack-vfs\<close>) turns kernel requests on inode numbers and file handles into
  operations on paths, routes the paths through a namespace of mounts and aliases, and hands them to providers. The
  providers (\<^verbatim>\<open>crates/docker-core/src/vfs_providers\<close>) get the files from Docker: as tar archives of paths of a container,
  as the export of an image, or through a small helper program (\<^verbatim>\<open>crates/tuxstack-fs-helper\<close>) that runs inside a volume and prints
  what it finds. The graphical client (\<^verbatim>\<open>crates/gui\<close>) and the command line only talk to the daemon.

  \<^bold>\<open>Conventions.\<close> Machine integers are words, bytes are 8-bit words, and arithmetic that the code does with \<^verbatim>\<open>checked_\<close>,
  \<^verbatim>\<open>saturating_\<close> or wrapping operations is modelled by the same operations (\<open>Prelude\<close>). A fallible function returns a sum, \<open>Inl\<close>
  the error. State is passed explicitly; a lock that the code holds over an operation makes it one step, and what runs
  concurrently is a step relation. A panic is a value of the result where the code can reach one. Code outside the sources
  (the Docker client, JSON, the kernel, the clock) is a parameter, with what is relied on as a hypothesis of the
  theorems that need it.

  \<^bold>\<open>Theories and sources.\<close>

  \<^item> \<open>Prelude\<close>, \<open>Utf8\<close>: shared list, map, word and result lemmas; UTF-8 decoding of the standard library.
  \<^item> \<open>Vfs_Error\<close>, \<open>Vfs_Path\<close>, \<open>Vfs_Model\<close>, \<open>Name_Codec\<close>, \<open>Symlink\<close>, \<open>Router\<close>: \<^verbatim>\<open>error.rs\<close>, \<^verbatim>\<open>path.rs\<close>, \<^verbatim>\<open>model.rs\<close>,
    \<^verbatim>\<open>symlink.rs\<close>, \<^verbatim>\<open>router.rs\<close> of \<^verbatim>\<open>tuxstack-vfs\<close>. Paths parse to their lexical resolution; encoded names decode to
    the original; links are rewritten to relative targets that stay in the resource; the router picks the deepest mount.
  \<^item> \<open>Inode_Table\<close>, \<open>Handle_Table\<close>, \<open>Executor\<close>: \<^verbatim>\<open>inode.rs\<close>, \<^verbatim>\<open>handle.rs\<close>, \<^verbatim>\<open>executor.rs\<close>. The tables refine
    finite maps; numbers given up are not handed out again; the pool of tokens is conserved.
  \<^item> \<open>Provider\<close>, \<open>Namespace\<close>: \<^verbatim>\<open>provider.rs\<close>, \<^verbatim>\<open>namespace.rs\<close>. The locale \<open>readonly_provider\<close> is the contract between a provider
    and its clients; it is interpreted on the in-memory provider, the namespace, the archive, image and snapshot providers.
  \<^item> \<open>Fuse_Adapter\<close>, \<open>Fuse_Invariant\<close>, \<open>Fuse_Properties\<close>: \<^verbatim>\<open>adapter.rs\<close>. Every callback as a state transformer over adapter and
    provider; the consistency of caches and tables over all request sequences; read-only, stable inodes, complete listings.
  \<^item> \<open>Tar_Format\<close>, \<open>Tar_Stream\<close>, \<open>Tar_Index\<close>, \<open>Tar_Chunks\<close>, \<open>Tar_Archive\<close>: \<^verbatim>\<open>tar_index.rs\<close>. Headers and extensions, the reader
    over a stream of chunks, the index; that the chunking does not matter (the locale \<open>reader_keeps\<close> carries
    invariants through the reader); and that archives in the ustar layout are read back.
  \<^item> \<open>Content_Spool\<close>, \<open>Archive_Provider\<close>, \<open>Image_Provider\<close>: \<^verbatim>\<open>spool.rs\<close>, \<^verbatim>\<open>archive.rs\<close>, \<^verbatim>\<open>image.rs\<close>. The bounded content store
    and its accounts; the two providers that read archives, with the contract, the accounts and that a file that is
    opened is read as the archive has it; the checked cache of an image's index.
  \<^item> \<open>Container_Provider\<close>, \<open>Container_Router\<close>: \<^verbatim>\<open>container.rs\<close>. The snapshot of a container, in which mounted directories hide
    the lower layer, with its generations; and the router that puts the providers of the mounts over it and keeps the contract.
  \<^item> \<open>Path_Token\<close>, \<open>Helper_Path\<close>, \<open>Sha256\<close>, \<open>Helper_Commands\<close>: \<^verbatim>\<open>tuxstack-fs-protocol\<close> and \<^verbatim>\<open>tuxstack-fs-helper\<close>. Tokens for
    relative paths, confinement to the browse root, the hash, and every command of the helper.
  \<^item> \<open>Protocol\<close>, \<open>Docker_Error\<close>, \<open>Ipc_Model\<close>, \<open>Ipc_Session\<close>: \<^verbatim>\<open>tuxstack-protocol\<close>, \<^verbatim>\<open>docker-core/src/error.rs\<close>, \<^verbatim>\<open>tuxstack-daemon/src/ipc.rs\<close>.
    Frames, error classes, and a connection as an interleaving of its requests, subscriptions, terminals and sends.

  \<^item> \<open>Event_Monitor\<close>, \<open>Request_Coordinator\<close>, \<open>Persistent_Cache\<close>, \<open>Docker_Caches\<close>: \<^verbatim>\<open>docker-core/src/cache\<close> and the event
    consumer of \<^verbatim>\<open>tuxstack-daemon/src/state.rs\<close>. Docker events become batches without loss, of which the daemon sees
    the latest; concurrent calls share one request; the write-behind queue is transparent and endpoints do not mix.

  \<^bold>\<open>Bounds and fuel.\<close> Recursion that is not structural has a measure: the bytes a tar reader can still deliver, the bytes of a
  read still wanted, the depth of a path. The code's own limits appear as they are: forty hops for chains of symbolic and
  of hard links, 64 rounds of hash padding. Fuel is used where a loop of the code has no bound of its own: the search for a
  free subscription number gets one more than there are subscriptions, and following the pages of a listing one more
  than there are names; lemmas show that this is enough. Handle numbers wrap at their width; theorems about them say how
  often a slot may be reused.

  \<^bold>\<open>Not modelled.\<close> The Qt bridges, models and controllers of \<^verbatim>\<open>crates/gui\<close> are view logic against the toolkit. The client library
  and the command line wrap single requests. The services of \<^verbatim>\<open>docker-core\<close> and the mapping of its responses are calls and
  field-by-field copies of a third-party client's types. The providers over local directories, volumes and helper containers
  are calls to the operating system and to Docker behind the contract of the other providers. Mounting, signals and the kernel's side of FUSE are the operating
  system's. The statements of the snapshot database have their documented meaning and fail only on unknown columns; disk errors
  are left out there. Poisoned locks, which need a panic elsewhere, are left out.
\<close>

end
